(* ===== verification/Prelude.thy ===== *)
theory Prelude
  imports Main "HOL-Library.Word" "HOL-Library.AList"
begin

text \<open>
  Shared vocabulary of the development: results of fallible operations, the
  collections that carry the automation of the component theories, and generic
  facts on lists, sums and slices that more than one component uses.
\<close>

section \<open>Collections\<close>

named_theorems invs \<open>preservation lemmas of the components' invariants\<close>
named_theorems tiling \<open>facts on segments that follow one another without gap\<close>

section \<open>Results\<close>

text \<open>
  A Python function that may raise returns \<open>Inl\<close> of an error value or \<open>Inr\<close> of its
  result. \<open>rbind\<close> is sequencing: a raised error skips the rest.
\<close>

type_synonym byte = "8 word"

primrec rbind :: "'e + 'a \<Rightarrow> ('a \<Rightarrow> 'e + 'b) \<Rightarrow> 'e + 'b" where
  "rbind (Inl e) f = Inl e"
| "rbind (Inr x) f = f x"

definition rcheck :: "bool \<Rightarrow> 'e \<Rightarrow> 'e + unit" where
  "rcheck bad e = (if bad then Inl e else Inr ())"

lemma rbind_Inr_iff [simp]: "rbind m f = Inr y \<longleftrightarrow> (\<exists>x. m = Inr x \<and> f x = Inr y)"
  by (cases m) auto

lemma rcheck_Inr_iff [simp]: "rcheck bad e = Inr u \<longleftrightarrow> \<not> bad"
  by (simp add: rcheck_def)

lemma rcheck_False [simp]: "rcheck False e = Inr ()"
  by (simp add: rcheck_def)

lemma rcheck_True [simp]: "rcheck True e = Inl e"
  by (simp add: rcheck_def)

text \<open>A loop body that may raise, run over a list with an accumulator.\<close>

fun rfold :: "('a \<Rightarrow> 's \<Rightarrow> 'e + 's) \<Rightarrow> 'a list \<Rightarrow> 's \<Rightarrow> 'e + 's" where
  "rfold f [] s = Inr s"
| "rfold f (x # xs) s = rbind (f x s) (rfold f xs)"

lemma rfold_append: "rfold f (xs @ ys) s = rbind (rfold f xs s) (rfold f ys)"
  by (induction xs arbitrary: s) (auto split: sum.splits simp: rbind_def)

lemma rfold_inv:
  assumes "rfold f xs s = Inr t" and "P s"
    and "\<And>x s t. x \<in> set xs \<Longrightarrow> f x s = Inr t \<Longrightarrow> P s \<Longrightarrow> P t"
  shows "P t"
  using assms
proof (induction xs arbitrary: s)
  case Nil
  then show ?case by simp
next
  case (Cons x xs)
  from Cons.prems(1) obtain u where u: "f x s = Inr u" "rfold f xs u = Inr t" by auto
  show ?case
    using u(2)
  proof (rule Cons.IH)
    show "P u" using Cons.prems(2) Cons.prems(3)[of x s u] u(1) by simp
    show "\<And>y s t. y \<in> set xs \<Longrightarrow> f y s = Inr t \<Longrightarrow> P s \<Longrightarrow> P t"
      using Cons.prems(3) by (metis list.set_intros(2))
  qed
qed

text \<open>A comprehension whose element expression may raise.\<close>

fun rmap :: "('a \<Rightarrow> 'e + 'b) \<Rightarrow> 'a list \<Rightarrow> 'e + 'b list" where
  "rmap f [] = Inr []"
| "rmap f (x # xs) = rbind (f x) (\<lambda>y. rbind (rmap f xs) (\<lambda>ys. Inr (y # ys)))"

lemma rmap_Inr_iff: "rmap f xs = Inr ys \<longleftrightarrow> list_all2 (\<lambda>x y. f x = Inr y) xs ys"
  by (induction xs arbitrary: ys) (auto simp: list_all2_Cons1)

lemma rmap_total: "(\<And>x. x \<in> set xs \<Longrightarrow> f x = Inr (g x)) \<Longrightarrow> rmap f xs = Inr (map g xs)"
  by (induction xs) auto

lemma rmap_cong [fundef_cong]: "xs = ys \<Longrightarrow> (\<And>x. x \<in> set ys \<Longrightarrow> f x = g x) \<Longrightarrow> rmap f xs = rmap g ys"
  by (induction ys arbitrary: xs) (auto simp: rbind_def split: sum.splits)

section \<open>Slices\<close>

text \<open>Python's \<open>xs[i:j]\<close> for \<open>0 \<le> i\<close> and \<open>0 \<le> j\<close>, which never raises.\<close>

definition slice :: "nat \<Rightarrow> nat \<Rightarrow> 'a list \<Rightarrow> 'a list" where
  "slice i j xs = take (j - i) (drop i xs)"

lemma length_slice [simp]: "length (slice i j xs) = min (j - i) (length xs - i)"
  by (simp add: slice_def min.commute)

lemma slice_self [simp]: "slice i i xs = []"
  by (simp add: slice_def)

lemma slice_all [simp]: "slice 0 (length xs) xs = xs"
  by (simp add: slice_def)

lemma slice_join [tiling]: "i \<le> j \<Longrightarrow> j \<le> k \<Longrightarrow> slice i j xs @ slice j k xs = slice i k xs"
proof -
  assume "i \<le> j" "j \<le> k"
  then have "k - i = (j - i) + (k - j)" and "drop j xs = drop (j - i) (drop i xs)"
    by simp_all
  then show ?thesis
    unfolding slice_def by (metis take_add)
qed

lemma slice_append_left: "j \<le> length xs \<Longrightarrow> slice i j (xs @ ys) = slice i j xs"
  by (simp add: slice_def)

lemma slice_append_right:
  "length xs \<le> i \<Longrightarrow> slice i j (xs @ ys) = slice (i - length xs) (j - length xs) ys"
  by (simp add: slice_def)

lemma slice_append_mid:
  "i = length xs \<Longrightarrow> j = length xs + length ys \<Longrightarrow> slice i j (xs @ ys @ zs) = ys"
  by (simp add: slice_def)

lemma slice_drop [tiling]: "i \<le> j \<Longrightarrow> slice i j xs @ drop j xs = drop i xs"
  unfolding slice_def by (metis append_take_drop_id drop_drop le_add_diff_inverse2)

lemma take_as_slice: "take n xs = slice 0 n xs"
  by (simp add: slice_def)

lemma map_pair_zip: "map (\<lambda>x. (f x, g x)) xs = zip (map f xs) (map g xs)"
  by (induction xs) simp_all

section \<open>Sums over lists\<close>

lemma sum_list_update_int:
  "k < length xs \<Longrightarrow>
   sum_list (xs[k := (x::int)]) = sum_list xs - xs ! k + x"
  by (induction xs arbitrary: k) (auto split: nat.splits)

lemma sum_list_nonneg_int: "(\<And>x. x \<in> set xs \<Longrightarrow> 0 \<le> (x::int)) \<Longrightarrow> 0 \<le> sum_list xs"
  by (induction xs) auto

lemma member_le_sum_list_int:
  "(\<And>x. x \<in> set xs \<Longrightarrow> 0 \<le> (x::int)) \<Longrightarrow> y \<in> set xs \<Longrightarrow> y \<le> sum_list xs"
proof (induction xs)
  case (Cons x xs)
  have nn: "0 \<le> sum_list xs" using Cons.prems(1) by (intro sum_list_nonneg_int) simp
  have x: "0 \<le> x" using Cons.prems(1) by simp
  show ?case
  proof (cases "y = x")
    case True
    then show ?thesis using nn by simp
  next
    case False
    then have "y \<le> sum_list xs" using Cons by simp
    then show ?thesis using x by simp
  qed
qed simp

section \<open>Dictionaries\<close>

text \<open>
  A Python dictionary is an association list in insertion order. One that is filled item
  by item keeps, for a repeated key, the first position and the last value.
\<close>

definition dict_of :: "('k \<times> 'v) list \<Rightarrow> ('k \<times> 'v) list" where
  "dict_of kvs = foldl (\<lambda>d (k, v). AList.update k v d) [] kvs"

lemma dict_of_snoc: "dict_of (kvs @ [(k, v)]) = AList.update k v (dict_of kvs)"
  by (simp add: dict_of_def)

lemma update_values: "snd ` set (AList.update k v al) \<subseteq> insert v (snd ` set al)"
  by (induction al) auto

lemma dict_of_facts:
  "distinct (map fst (dict_of kvs)) \<and> fst ` set (dict_of kvs) = fst ` set kvs \<and>
   snd ` set (dict_of kvs) \<subseteq> snd ` set kvs"
proof (induction kvs rule: rev_induct)
  case Nil
  then show ?case by (simp add: dict_of_def)
next
  case (snoc kv kvs)
  obtain k v where kv: "kv = (k, v)" by fastforce
  have ih: "distinct (map fst (dict_of kvs))" "fst ` set (dict_of kvs) = fst ` set kvs"
    "snd ` set (dict_of kvs) \<subseteq> snd ` set kvs"
    using snoc by simp_all
  have "distinct (map fst (dict_of (kvs @ [kv])))"
    using ih(1) by (simp add: kv dict_of_snoc distinct_update)
  moreover have "fst ` set (dict_of (kvs @ [kv])) = fst ` set (kvs @ [kv])"
    using ih(2) by (simp add: kv dict_of_snoc dom_update)
  moreover have "snd ` set (dict_of (kvs @ [kv])) \<subseteq> snd ` set (kvs @ [kv])"
    using subset_trans [OF update_values insert_mono [OF ih(3)], of k v]
    by (simp add: kv dict_of_snoc)
  ultimately show ?case by (intro conjI)
qed

lemma update_fresh: "k \<notin> set (map fst d) \<Longrightarrow> AList.update k v d = d @ [(k, v)]"
  by (induction d) auto

lemma dict_of_distinct: "distinct (map fst kvs) \<Longrightarrow> dict_of kvs = kvs"
proof (induction kvs rule: rev_induct)
  case Nil
  then show ?case by (simp add: dict_of_def)
next
  case (snoc kv kvs)
  then show ?case
    by (cases kv) (simp add: dict_of_snoc update_fresh)
qed

text \<open>A \<open>defaultdict(list)\<close> filled item by item: the keys in first-seen order with their values.\<close>

definition bucket :: "('b \<times> 'k) list \<Rightarrow> ('k \<times> 'b list) list" where
  "bucket kvs = foldl (\<lambda>d (v, k). AList.update k ((case map_of d k of None \<Rightarrow> [] | Some vs \<Rightarrow> vs) @ [v]) d) [] kvs"

lemma bucket_snoc: "bucket (kvs @ [(v, k)]) =
    AList.update k ((case map_of (bucket kvs) k of None \<Rightarrow> [] | Some vs \<Rightarrow> vs) @ [v]) (bucket kvs)"
  by (simp add: bucket_def)

lemma bucket_keys: "distinct (map fst (bucket kvs)) \<and> fst ` set (bucket kvs) = snd ` set kvs"
proof (induction kvs rule: rev_induct)
  case Nil
  then show ?case by (simp add: bucket_def)
next
  case (snoc kv kvs)
  then show ?case by (cases kv) (simp add: bucket_snoc distinct_update dom_update)
qed

lemma bucket_lookup:
  "map_of (bucket kvs) k = (if k \<in> snd ` set kvs then Some (map fst (filter (\<lambda>kv. snd kv = k) kvs)) else None)"
proof (induction kvs rule: rev_induct)
  case Nil
  then show ?case by (simp add: bucket_def)
next
  case (snoc kv kvs)
  obtain v j where kv: "kv = (v, j)" by fastforce
  have "filter (\<lambda>kv. snd kv = k) kvs = []" if "k \<notin> snd ` set kvs"
    using that by (auto simp: filter_empty_conv)
  then show ?case using snoc by (cases "k = j"; cases "k \<in> snd ` set kvs") (auto simp: kv bucket_snoc update_conv)
qed

lemma bucket_member: "(k, vs) \<in> set (bucket kvs) \<Longrightarrow> vs = map fst (filter (\<lambda>kv. snd kv = k) kvs)"
  using bucket_lookup [of kvs k] bucket_keys [of kvs] by (auto dest: map_of_is_SomeI split: if_splits)

lemma update_total:
  fixes f :: "'k \<Rightarrow> int"
  assumes "distinct (map fst d)" "(case map_of d k of None \<Rightarrow> [] | Some vs \<Rightarrow> vs) = old"
  shows "(\<Sum>q\<leftarrow>AList.update k (old @ [v]) d. int (length (snd q)) * f (fst q)) =
     (\<Sum>q\<leftarrow>d. int (length (snd q)) * f (fst q)) + f k"
  using assms
proof (induction d)
  case (Cons kv d)
  obtain j vs where kv: "kv = (j, vs)" by fastforce
  show ?case
  proof (cases "k = j")
    case True
    then show ?thesis using Cons.prems by (simp add: kv algebra_simps)
  next
    case False
    then show ?thesis using Cons by (simp add: kv)
  qed
qed auto

lemma bucket_total:
  fixes f :: "'k \<Rightarrow> int"
  shows "(\<Sum>q\<leftarrow>bucket kvs. int (length (snd q)) * f (fst q)) = (\<Sum>kv\<leftarrow>kvs. f (snd kv))"
proof (induction kvs rule: rev_induct)
  case Nil
  then show ?case by (simp add: bucket_def)
next
  case (snoc kv kvs)
  obtain v k where kv: "kv = (v, k)" by fastforce
  show ?case using update_total [where k = k and f = f and v = v, OF conjunct1 [OF bucket_keys [of kvs]] refl] snoc
    by (simp add: kv bucket_snoc)
qed

end
