(* ===== verification/Buckets.thy ===== *)
theory Buckets
  imports Prelude "HOL-Library.Multiset"
begin

text \<open>Collecting values by key neither loses nor repeats one.\<close>

lemma update_values_mset:
  assumes "distinct (map fst d)" "(case map_of d k of None \<Rightarrow> [] | Some vs \<Rightarrow> vs) = old"
  shows "mset (concat (map snd (AList.update k (old @ [v]) d))) = add_mset v (mset (concat (map snd d)))"
  using assms
proof (induction d)
  case (Cons kv d)
  obtain j vs where kv: "kv = (j, vs)" by fastforce
  show ?case
  proof (cases "k = j")
    case True
    then show ?thesis using Cons.prems by (simp add: kv)
  next
    case False
    then show ?thesis using Cons by (simp add: kv)
  qed
qed auto

lemma bucket_values: "mset (concat (map snd (bucket kvs))) = mset (map fst kvs)"
proof (induction kvs rule: rev_induct)
  case Nil
  then show ?case by (simp add: bucket_def)
next
  case (snoc kv kvs)
  obtain v k where kv: "kv = (v, k)" by fastforce
  show ?case using update_values_mset [where k = k and v = v, OF conjunct1 [OF bucket_keys [of kvs]] refl] snoc
    by (simp add: kv bucket_snoc)
qed

end
