(* ===== verification/PyText.thy ===== *)
theory PyText
  imports Prelude Complex_Main "HOL-Library.Char_ord"
begin

text \<open>
  The parts of Python's \<open>str\<close>, \<open>int()\<close> and \<open>float()\<close> that the modelled code uses. A
  \<open>str\<close> is a HOL string, whose characters are the code points below 256. A finite
  float is a rational: rounding inside the range of binary64 is not modelled, but the
  thresholds at which a literal becomes an infinity or zero are.
\<close>

section \<open>Characters\<close>

definition code :: "char \<Rightarrow> nat" where
  "code c = of_char c"

definition is_space :: "char \<Rightarrow> bool" where
  "is_space c = (let n = code c in (9 \<le> n \<and> n \<le> 13) \<or> (28 \<le> n \<and> n \<le> 32) \<or> n = 133 \<or> n = 160)"

definition is_line_end :: "char \<Rightarrow> bool" where
  "is_line_end c = (let n = code c in (10 \<le> n \<and> n \<le> 13) \<or> (28 \<le> n \<and> n \<le> 30) \<or> n = 133)"

definition is_decimal_char :: "char \<Rightarrow> bool" where
  "is_decimal_char c = (48 \<le> code c \<and> code c \<le> 57)"

text \<open>\<open>str.isdigit\<close> also accepts the superscripts one, two and three.\<close>

definition is_digit_char :: "char \<Rightarrow> bool" where
  "is_digit_char c = (is_decimal_char c \<or> code c = 178 \<or> code c = 179 \<or> code c = 185)"

definition str_isdecimal :: "string \<Rightarrow> bool" where
  "str_isdecimal s = (s \<noteq> [] \<and> list_all is_decimal_char s)"

definition str_isdigit :: "string \<Rightarrow> bool" where
  "str_isdigit s = (s \<noteq> [] \<and> list_all is_digit_char s)"

definition ascii_lower_char :: "char \<Rightarrow> char" where
  "ascii_lower_char c = (if 65 \<le> code c \<and> code c \<le> 90 then char_of (code c + 32) else c)"

text \<open>\<open>bytes.lower\<close>, and \<open>str.lower\<close> on ASCII text.\<close>

definition ascii_lower :: "string \<Rightarrow> string" where
  "ascii_lower s = map ascii_lower_char s"

section \<open>Splitting and stripping\<close>

fun split_ws_from :: "string \<Rightarrow> string \<Rightarrow> string list" where
  "split_ws_from cur [] = (if cur = [] then [] else [rev cur])"
| "split_ws_from cur (c # cs) =
     (if is_space c then (if cur = [] then split_ws_from [] cs else rev cur # split_ws_from [] cs)
      else split_ws_from (c # cur) cs)"

text \<open>\<open>s.split()\<close>: runs of whitespace separate, none is kept.\<close>

definition split_ws :: "string \<Rightarrow> string list" where
  "split_ws s = split_ws_from [] s"

fun splitlines_from :: "string \<Rightarrow> string \<Rightarrow> string list" where
  "splitlines_from cur [] = (if cur = [] then [] else [rev cur])"
| "splitlines_from cur (c # cs) =
     (if code c = 13 then
        rev cur # (case cs of [] \<Rightarrow> [] | d # ds \<Rightarrow>
          if code d = 10 then splitlines_from [] ds else splitlines_from [] (d # ds))
      else if is_line_end c then rev cur # splitlines_from [] cs
      else splitlines_from (c # cur) cs)"

definition splitlines :: "string \<Rightarrow> string list" where
  "splitlines s = splitlines_from [] s"

fun split_on_from :: "char \<Rightarrow> string \<Rightarrow> string \<Rightarrow> string list" where
  "split_on_from sep cur [] = [rev cur]"
| "split_on_from sep cur (c # cs) =
     (if c = sep then rev cur # split_on_from sep [] cs else split_on_from sep (c # cur) cs)"

text \<open>\<open>s.split(sep)\<close> for a one-character separator: never empty, empty fields kept.\<close>

definition split_on :: "char \<Rightarrow> string \<Rightarrow> string list" where
  "split_on sep s = split_on_from sep [] s"

definition strip :: "string \<Rightarrow> string" where
  "strip s = rev (dropWhile is_space (rev (dropWhile is_space s)))"

section \<open>Integers\<close>

definition digits_value :: "string \<Rightarrow> int" where
  "digits_value ds = foldl (\<lambda>a c. 10 * a + (int (code c) - 48)) 0 ds"

text \<open>Digits with single underscores between them, as \<open>int()\<close> and \<open>float()\<close> accept.\<close>

fun digit_run :: "string \<Rightarrow> string option" where
  "digit_run [] = None"
| "digit_run [c] = (if is_decimal_char c then Some [c] else None)"
| "digit_run (c # d # cs) =
     (if \<not> is_decimal_char c then None
      else map_option (Cons c) (if d = CHR ''_'' then digit_run cs else digit_run (d # cs)))"

definition split_sign :: "string \<Rightarrow> int \<times> string" where
  "split_sign s = (case s of [] \<Rightarrow> (1, []) | c # cs \<Rightarrow>
     if c = CHR ''-'' then (-1, cs) else if c = CHR ''+'' then (1, cs) else (1, s))"

text \<open>\<open>int(s)\<close> in base 10; \<open>None\<close> is \<open>ValueError\<close>.\<close>

definition py_int :: "string \<Rightarrow> int option" where
  "py_int s = (let (sg, ds) = split_sign (strip s)
     in map_option (\<lambda>r. sg * digits_value r) (digit_run ds))"

section \<open>Floats\<close>

datatype pyfloat = Fin rat | PosInf | NegInf | NaN

definition fin_round :: "rat \<Rightarrow> pyfloat" where
  "fin_round x = (if 2 ^ 1024 - 2 ^ 970 \<le> x then PosInf
     else if x \<le> - (2 ^ 1024 - 2 ^ 970) then NegInf
     else if \<bar>x\<bar> * 2 ^ 1075 \<le> 1 then Fin 0 else Fin x)"

definition scale10 :: "rat \<Rightarrow> int \<Rightarrow> rat" where
  "scale10 x e = (if 0 \<le> e then x * 10 ^ nat e else x / 10 ^ nat (- e))"

definition is_exp_char :: "char \<Rightarrow> bool" where
  "is_exp_char c = (c = CHR ''e'' \<or> c = CHR ''E'')"

definition exponent_part :: "string \<Rightarrow> int option" where
  "exponent_part t = (case t of [] \<Rightarrow> Some 0 | _ # es \<Rightarrow>
     (let (sg, ds) = split_sign es in map_option (\<lambda>r. sg * digits_value r) (digit_run ds)))"

text \<open>The mantissa's digits and how many stand after the point.\<close>

definition mantissa_part :: "string \<Rightarrow> (string \<times> nat) option" where
  "mantissa_part m = (let w = takeWhile (\<lambda>c. c \<noteq> CHR ''.'') m;
       t = dropWhile (\<lambda>c. c \<noteq> CHR ''.'') m in
     case t of [] \<Rightarrow> map_option (\<lambda>r. (r, 0)) (digit_run w)
     | _ # f \<Rightarrow>
       (if w = [] \<and> f = [] then None
        else case (if w = [] then Some [] else digit_run w) of None \<Rightarrow> None
        | Some wr \<Rightarrow> (case (if f = [] then Some [] else digit_run f) of None \<Rightarrow> None
          | Some fr \<Rightarrow> Some (wr @ fr, length fr))))"

text \<open>\<open>float(s)\<close>; \<open>None\<close> is \<open>ValueError\<close>.\<close>

definition py_float :: "string \<Rightarrow> pyfloat option" where
  "py_float s = (let (sg, b) = split_sign (strip s); l = ascii_lower b in
     if l = ''inf'' \<or> l = ''infinity'' then Some (if sg = 1 then PosInf else NegInf)
     else if l = ''nan'' then Some NaN
     else (let m = takeWhile (\<lambda>c. \<not> is_exp_char c) b;
               t = dropWhile (\<lambda>c. \<not> is_exp_char c) b in
       case (mantissa_part m, exponent_part t) of
         (Some (ds, k), Some e) \<Rightarrow>
           Some (fin_round (scale10 (of_int (sg * digits_value ds)) (e - int k)))
       | _ \<Rightarrow> None))"

section \<open>Facts\<close>

lemma digits_value_nonneg: "list_all is_decimal_char ds \<Longrightarrow> 0 \<le> digits_value ds"
proof -
  have "list_all is_decimal_char ds \<Longrightarrow> 0 \<le> a \<Longrightarrow>
      0 \<le> foldl (\<lambda>a c. 10 * a + (int (code c) - 48)) a ds" for a :: int
    by (induction ds arbitrary: a) (auto simp: is_decimal_char_def)
  then show "list_all is_decimal_char ds \<Longrightarrow> 0 \<le> digits_value ds"
    by (simp add: digits_value_def)
qed

lemma split_on_nonempty [simp]: "split_on sep s \<noteq> []"
proof -
  have "split_on_from sep cur s \<noteq> []" for cur
    by (induction s arbitrary: cur) auto
  then show ?thesis by (simp add: split_on_def)
qed

end
