(* ===== verification/Pool.thy ===== *)
theory Pool
  imports Prelude
begin

text \<open>
  The interface between a byte budget and its clients: a client reserves a peak, keeps
  the reservation for as long as the bytes may be alive, and gives it back once. The
  client lemmas say what a batch of releases refunds; \<open>MemBudget\<close> provides the laws.
\<close>

locale reservation_pool =
  fixes reserve :: "'s \<Rightarrow> int \<Rightarrow> 'e \<Rightarrow> ('s \<times> 'r) option"
    and give_back :: "'s \<Rightarrow> 'r \<Rightarrow> 's"
    and used :: "'s \<Rightarrow> int"
    and limit :: "'s \<Rightarrow> int"
    and is_live :: "'s \<Rightarrow> 'r \<Rightarrow> bool"
    and amount :: "'s \<Rightarrow> 'r \<Rightarrow> int"
    and valid :: "'s \<Rightarrow> bool"
  assumes reserve_valid: "valid s \<Longrightarrow> reserve s n e = Some (t, r) \<Longrightarrow> valid t"
    and reserve_used: "valid s \<Longrightarrow> reserve s n e = Some (t, r) \<Longrightarrow> used t = used s + n"
    and reserve_limit: "valid s \<Longrightarrow> reserve s n e = Some (t, r) \<Longrightarrow> limit t = limit s"
    and reserve_live: "valid s \<Longrightarrow> reserve s n e = Some (t, r) \<Longrightarrow> is_live t q = (q = r \<or> is_live s q)"
    and reserve_fresh: "valid s \<Longrightarrow> reserve s n e = Some (t, r) \<Longrightarrow> \<not> is_live s r"
    and reserve_amount: "valid s \<Longrightarrow> reserve s n e = Some (t, r) \<Longrightarrow> amount t r = n"
    and reserve_keeps: "valid s \<Longrightarrow> reserve s n e = Some (t, r) \<Longrightarrow> is_live s q \<Longrightarrow> amount t q = amount s q"
    and give_valid: "valid s \<Longrightarrow> is_live s r \<Longrightarrow> valid (give_back s r)"
    and give_used: "valid s \<Longrightarrow> is_live s r \<Longrightarrow> used (give_back s r) = used s - amount s r"
    and give_limit: "valid s \<Longrightarrow> is_live s r \<Longrightarrow> limit (give_back s r) = limit s"
    and give_live: "valid s \<Longrightarrow> is_live s r \<Longrightarrow> is_live (give_back s r) q = (q \<noteq> r \<and> is_live s q)"
    and give_amount: "valid s \<Longrightarrow> is_live s r \<Longrightarrow> amount (give_back s r) q = amount s q"
    and used_bounds: "valid s \<Longrightarrow> 0 \<le> used s \<and> used s \<le> limit s"
begin

lemma give_all:
  assumes "valid s" and "distinct rs" and "\<forall>r \<in> set rs. is_live s r"
  shows "valid (foldl give_back s rs) \<and> limit (foldl give_back s rs) = limit s \<and>
    used (foldl give_back s rs) = used s - sum_list (map (amount s) rs) \<and>
    (\<forall>q. is_live (foldl give_back s rs) q = (q \<notin> set rs \<and> is_live s q)) \<and>
    (\<forall>q. amount (foldl give_back s rs) q = amount s q)"
  using assms
proof (induction rs arbitrary: s)
  case Nil
  then show ?case by simp
next
  case (Cons r rs)
  let ?t = "give_back s r"
  have live: "is_live s r" and fresh: "r \<notin> set rs" using Cons.prems by simp_all
  have rest: "\<forall>q \<in> set rs. is_live ?t q"
    using Cons.prems fresh by (auto simp: give_live)
  have amt: "amount ?t = amount s"
    using Cons.prems(1) live by (simp add: give_amount fun_eq_iff)
  note IH = Cons.IH [OF give_valid [OF Cons.prems(1) live] _ rest]
  show ?case
    using IH Cons.prems live amt by (auto simp: give_limit give_used give_live)
qed

text \<open>Giving back everything that is alive leaves exactly what no reservation accounts for.\<close>

lemma reserve_then_give:
  assumes "valid s" and "reserve s n e = Some (t, r)"
  shows "used (give_back t r) = used s \<and> limit (give_back t r) = limit s \<and> valid (give_back t r) \<and>
    (\<forall>q. is_live (give_back t r) q = is_live s q)"
proof -
  note l = reserve_live [OF assms] and v = reserve_valid [OF assms]
  have "is_live t r" by (simp add: l)
  then show ?thesis
    using assms v l by (auto simp: give_used give_limit give_valid give_live reserve_used
        reserve_limit reserve_amount dest: reserve_fresh)
qed

lemma reserve_within_limit:
  assumes "valid s" and "reserve s n e = Some (t, r)"
  shows "used s + n \<le> limit s"
  using used_bounds [OF reserve_valid [OF assms]] reserve_used [OF assms] reserve_limit [OF assms]
  by simp

end

end
