(* ===== verification/PyJson.thy ===== *)
theory PyJson
  imports PyText "HOL-Library.List_Lexorder"
begin

text \<open>
  The parts of Python's \<open>json\<close> module that the modelled code uses: \<open>dumps\<close> with
  compact separators and ASCII output, and \<open>loads\<close> on text and on UTF-8 bytes. Text is a
  list of code points. A float literal keeps its exact decimal value; rounding to
  binary64 and the interpreter's limit on the digits of an integer are not modelled, nor
  are inputs that \<open>json.loads\<close> would detect as UTF-16 or UTF-32.
\<close>

section \<open>Values\<close>

type_synonym utext = "nat list"

definition asc :: "string \<Rightarrow> utext" where
  "asc s = map code s"

text \<open>\<open>JFloat m e\<close> is \<open>m * 10 ^ e\<close>; \<open>JSpecial\<close> is one of the names NaN and Infinity.\<close>

datatype json =
    JNull
  | JBool bool
  | JInt int
  | JFloat int int
  | JSpecial string
  | JStr utext
  | JArr "json list"
  | JObj "(utext \<times> json) list"

text \<open>A dictionary literal written with \<open>sort_keys=True\<close>.\<close>

definition jobj_sorted :: "(string \<times> json) list \<Rightarrow> json" where
  "jobj_sorted kvs = JObj (sort_key fst (map (\<lambda>(k, v). (asc k, v)) kvs))"

definition jget :: "json \<Rightarrow> string \<Rightarrow> json option" where
  "jget j k = (case j of JObj kvs \<Rightarrow> map_of kvs (asc k) | _ \<Rightarrow> None)"

section \<open>dumps\<close>

fun nat_digits :: "nat \<Rightarrow> utext" where
  "nat_digits n = (if n < 10 then [48 + n] else nat_digits (n div 10) @ [48 + n mod 10])"

declare nat_digits.simps [simp del]

definition int_text :: "int \<Rightarrow> utext" where
  "int_text i = (if i < 0 then 45 # nat_digits (nat (- i)) else nat_digits (nat i))"

definition hex_char :: "nat \<Rightarrow> nat" where
  "hex_char n = (if n < 10 then 48 + n else 87 + n)"

definition u_escape :: "nat \<Rightarrow> utext" where
  "u_escape n = [92, 117, hex_char (n div 4096 mod 16), hex_char (n div 256 mod 16),
     hex_char (n div 16 mod 16), hex_char (n mod 16)]"

definition escape_char :: "nat \<Rightarrow> utext" where
  "escape_char c =
     (if c = 34 then [92, 34] else if c = 92 then [92, 92]
      else if c = 10 then [92, 110] else if c = 13 then [92, 114] else if c = 9 then [92, 116]
      else if c = 12 then [92, 102] else if c = 8 then [92, 98]
      else if 32 \<le> c \<and> c \<le> 126 then [c]
      else if c < 65536 then u_escape c
      else u_escape (55296 + (c - 65536) div 1024) @ u_escape (56320 + (c - 65536) mod 1024))"

definition str_text :: "utext \<Rightarrow> utext" where
  "str_text s = 34 # concat (map escape_char s) @ [34]"

text \<open>Joining items with commas.\<close>

fun commas :: "utext list \<Rightarrow> utext" where
  "commas [] = []"
| "commas [x] = x"
| "commas (x # y # xs) = x @ 44 # commas (y # xs)"

text \<open>\<open>json.dumps(v, separators=(",", ":"))\<close> on values without floats.\<close>

fun dumps :: "json \<Rightarrow> utext" where
  "dumps JNull = asc ''null''"
| "dumps (JBool b) = (if b then asc ''true'' else asc ''false'')"
| "dumps (JInt i) = int_text i"
| "dumps (JFloat m e) = int_text m @ 101 # int_text e"
| "dumps (JSpecial s) = asc s"
| "dumps (JStr s) = str_text s"
| "dumps (JArr vs) = 91 # commas (map dumps vs) @ [93]"
| "dumps (JObj kvs) = 123 # commas (map (\<lambda>(k, v). str_text k @ 58 # dumps v) kvs) @ [125]"

text \<open>\<open>.encode("utf-8")\<close> of ASCII text.\<close>

definition ascii_bytes :: "utext \<Rightarrow> byte list" where
  "ascii_bytes t = map word_of_nat t"

section \<open>loads\<close>

definition is_ws :: "nat \<Rightarrow> bool" where
  "is_ws c = (c = 32 \<or> c = 9 \<or> c = 10 \<or> c = 13)"

definition skip_ws :: "utext \<Rightarrow> utext" where
  "skip_ws s = dropWhile is_ws s"

definition hex_value :: "nat \<Rightarrow> nat option" where
  "hex_value c = (if 48 \<le> c \<and> c \<le> 57 then Some (c - 48)
     else if 97 \<le> c \<and> c \<le> 102 then Some (c - 87)
     else if 65 \<le> c \<and> c \<le> 70 then Some (c - 55) else None)"

fun hex4 :: "utext \<Rightarrow> (nat \<times> utext) option" where
  "hex4 (a # b # c # d # t) =
     (case (hex_value a, hex_value b, hex_value c, hex_value d) of
        (Some w, Some x, Some y, Some z) \<Rightarrow> Some (4096 * w + 256 * x + 16 * y + z, t)
      | _ \<Rightarrow> None)"
| "hex4 _ = None"

definition join_surrogate :: "nat \<Rightarrow> utext \<Rightarrow> nat \<times> utext" where
  "join_surrogate u t =
     (if 55296 \<le> u \<and> u \<le> 56319 \<and> take 2 t = [92, 117] then
        (case hex4 (drop 2 t) of
           Some (v, t') \<Rightarrow> if 56320 \<le> v \<and> v \<le> 57343
             then (65536 + (u - 55296) * 1024 + (v - 56320), t') else (u, t)
         | None \<Rightarrow> (u, t))
      else (u, t))"

fun unescape :: "utext \<Rightarrow> (nat \<times> utext) option" where
  "unescape [] = None"
| "unescape (c # t) =
     (if c = 34 \<or> c = 92 \<or> c = 47 then Some (c, t)
      else if c = 98 then Some (8, t) else if c = 102 then Some (12, t)
      else if c = 110 then Some (10, t) else if c = 114 then Some (13, t)
      else if c = 116 then Some (9, t)
      else if c = 117 then (case hex4 t of None \<Rightarrow> None | Some (u, t') \<Rightarrow> Some (join_surrogate u t'))
      else None)"

text \<open>The rest of a string literal after its opening quote, control characters refused.\<close>

function scan_string :: "utext \<Rightarrow> (utext \<times> utext) option" where
  "scan_string s = (case s of [] \<Rightarrow> None
     | c # t \<Rightarrow>
       if c = 34 then Some ([], t)
       else if c = 92 then
         (case unescape t of None \<Rightarrow> None
          | Some (u, t') \<Rightarrow> if length t' < length s
              then map_option (\<lambda>(r, q). (u # r, q)) (scan_string t') else None)
       else if c < 32 then None
       else map_option (\<lambda>(r, q). (c # r, q)) (scan_string t))"
  by pat_completeness auto
termination
  by (relation "measure length") auto

declare scan_string.simps [simp del]

definition is_dig :: "nat \<Rightarrow> bool" where
  "is_dig c = (48 \<le> c \<and> c \<le> 57)"

definition digits_int :: "utext \<Rightarrow> int" where
  "digits_int ds = foldl (\<lambda>a c. 10 * a + (int c - 48)) 0 ds"

text \<open>The integer part: a lone zero or a run of digits that does not start with zero.\<close>

definition scan_nat :: "utext \<Rightarrow> (utext \<times> utext) option" where
  "scan_nat s = (case s of [] \<Rightarrow> None
     | c # t \<Rightarrow> if c = 48 then Some ([48], t)
         else if is_dig c then Some (takeWhile is_dig s, dropWhile is_dig s) else None)"

definition scan_frac :: "utext \<Rightarrow> utext \<times> utext" where
  "scan_frac s = (case s of [] \<Rightarrow> ([], [])
     | c # t \<Rightarrow> if c = 46 \<and> takeWhile is_dig t \<noteq> [] then (takeWhile is_dig t, dropWhile is_dig t)
         else ([], s))"

definition scan_exp :: "utext \<Rightarrow> int option \<times> utext" where
  "scan_exp s = (case s of [] \<Rightarrow> (None, [])
     | c # t \<Rightarrow> if c \<noteq> 101 \<and> c \<noteq> 69 then (None, s)
       else (let sg = (case t of [] \<Rightarrow> 0 | d # _ \<Rightarrow> if d = 45 then - 1 else if d = 43 then 1 else 0);
                 ds = (if sg = (0::int) then t else tl t) in
         if takeWhile is_dig ds = [] then (None, s)
         else (Some ((if sg = - 1 then - 1 else 1) * digits_int (takeWhile is_dig ds)),
               dropWhile is_dig ds)))"

definition scan_number :: "utext \<Rightarrow> (json \<times> utext) option" where
  "scan_number s =
     (let neg = (s \<noteq> [] \<and> hd s = 45); b = (if neg then tl s else s); sg = (if neg then - 1 else 1) in
      case scan_nat b of None \<Rightarrow> None
      | Some (ds, t1) \<Rightarrow>
        (let (fs, t2) = scan_frac t1; (e, t3) = scan_exp t2 in
         if fs = [] \<and> e = None then Some (JInt (sg * digits_int ds), t1)
         else Some (JFloat (sg * digits_int (ds @ fs))
                 ((case e of None \<Rightarrow> 0 | Some x \<Rightarrow> x) - int (length fs)), t3)))"

definition literals :: "(string \<times> json) list" where
  "literals = [(''null'', JNull), (''true'', JBool True), (''false'', JBool False),
     (''NaN'', JSpecial ''NaN''), (''Infinity'', JSpecial ''Infinity''),
     (''-Infinity'', JSpecial ''-Infinity'')]"

definition scan_literal :: "utext \<Rightarrow> (json \<times> utext) option" where
  "scan_literal s = (case filter (\<lambda>(w, j). take (length w) s = asc w) literals of
     [] \<Rightarrow> None | (w, j) # _ \<Rightarrow> Some (j, drop (length w) s))"

text \<open>
  The scanner. Every call is on a shorter text; the length tests only carry that fact to
  the termination proof.
\<close>

function scan_value :: "utext \<Rightarrow> (json \<times> utext) option"
  and scan_items :: "utext \<Rightarrow> (json list \<times> utext) option"
  and scan_members :: "utext \<Rightarrow> ((utext \<times> json) list \<times> utext) option" where
  "scan_value s = (case s of [] \<Rightarrow> None
     | c # t \<Rightarrow>
       if c = 34 then map_option (\<lambda>(r, q). (JStr r, q)) (scan_string t)
       else if c = 91 then
         (let u = skip_ws t in if \<not> length u < length s then None
          else if u \<noteq> [] \<and> hd u = 93 then Some (JArr [], tl u)
          else map_option (\<lambda>(vs, q). (JArr vs, q)) (scan_items u))
       else if c = 123 then
         (let u = skip_ws t in if \<not> length u < length s then None
          else if u \<noteq> [] \<and> hd u = 125 then Some (JObj [], tl u)
          else map_option (\<lambda>(kvs, q). (JObj (dict_of kvs), q))
                 (scan_members u))
       else (case scan_literal s of Some r \<Rightarrow> Some r | None \<Rightarrow> scan_number s))"
| "scan_items s = (case scan_value s of None \<Rightarrow> None
     | Some (v, t) \<Rightarrow>
       (let u = skip_ws t in
        if u = [] \<or> \<not> length u \<le> length s then None
        else if hd u = 93 then Some ([v], tl u)
        else if hd u = 44 then
          (let w = skip_ws (tl u) in if \<not> length w < length s then None
           else map_option (\<lambda>(vs, q). (v # vs, q)) (scan_items w))
        else None))"
| "scan_members s = (case s of [] \<Rightarrow> None
     | c # t0 \<Rightarrow> if c \<noteq> 34 then None else
       (case scan_string t0 of None \<Rightarrow> None
        | Some (k, t) \<Rightarrow>
          (let u = skip_ws t in if u = [] \<or> hd u \<noteq> 58 then None else
           (let w = skip_ws (tl u) in if \<not> length w < length s then None else
            (case scan_value w of None \<Rightarrow> None
             | Some (v, t2) \<Rightarrow>
               (let x = skip_ws t2 in
                if x = [] then None
                else if hd x = 125 then Some ([(k, v)], tl x)
                else if hd x = 44 then
                  (let y = skip_ws (tl x) in if \<not> length y < length s then None
                   else map_option (\<lambda>(kvs, q). ((k, v) # kvs, q)) (scan_members y))
                else None))))))"
  by pat_completeness auto
termination
  by (relation "measures [\<lambda>x. (case x of Inl s \<Rightarrow> length s | Inr (Inl s) \<Rightarrow> length s | Inr (Inr s) \<Rightarrow> length s),
       \<lambda>x. (case x of Inl _ \<Rightarrow> 0 | Inr _ \<Rightarrow> 1)]") auto

declare scan_value.simps [simp del] scan_items.simps [simp del] scan_members.simps [simp del]

text \<open>\<open>json.loads\<close> of a text; \<open>None\<close> is \<open>JSONDecodeError\<close>.\<close>

definition loads_text :: "utext \<Rightarrow> json option" where
  "loads_text s = (case scan_value (skip_ws s) of None \<Rightarrow> None
     | Some (v, t) \<Rightarrow> if skip_ws t = [] then Some v else None)"

section \<open>UTF-8\<close>

definition is_cont :: "byte \<Rightarrow> bool" where
  "is_cont b = (128 \<le> unat b \<and> unat b < 192)"

text \<open>Strict decoding, except that surrogates pass, as \<open>json.loads\<close> asks; \<open>None\<close> is \<open>UnicodeDecodeError\<close>.\<close>

fun utf8_decode :: "byte list \<Rightarrow> utext option" where
  "utf8_decode [] = Some []"
| "utf8_decode (b # bs) =
     (let n = unat b in
      if n < 128 then map_option (Cons n) (utf8_decode bs)
      else if 194 \<le> n \<and> n < 224 then
        (case bs of c # r \<Rightarrow> if is_cont c
             then map_option (Cons ((n - 192) * 64 + (unat c - 128))) (utf8_decode r) else None
         | _ \<Rightarrow> None)
      else if 224 \<le> n \<and> n < 240 then
        (case bs of c # d # r \<Rightarrow>
           (let u = (n - 224) * 4096 + (unat c - 128) * 64 + (unat d - 128) in
            if is_cont c \<and> is_cont d \<and> 2048 \<le> u then map_option (Cons u) (utf8_decode r) else None)
         | _ \<Rightarrow> None)
      else if 240 \<le> n \<and> n < 245 then
        (case bs of c # d # e # r \<Rightarrow>
           (let u = (n - 240) * 262144 + (unat c - 128) * 4096 + (unat d - 128) * 64 + (unat e - 128) in
            if is_cont c \<and> is_cont d \<and> is_cont e \<and> 65536 \<le> u \<and> u < 1114112
            then map_option (Cons u) (utf8_decode r) else None)
         | _ \<Rightarrow> None)
      else None)"

datatype json_error = DecodeError | SyntaxError

definition loads_bytes :: "byte list \<Rightarrow> json_error + json" where
  "loads_bytes bs = (case utf8_decode bs of None \<Rightarrow> Inl DecodeError
     | Some s \<Rightarrow> (case loads_text s of None \<Rightarrow> Inl SyntaxError | Some v \<Rightarrow> Inr v))"

section \<open>Reading back what was written\<close>

text \<open>
  The values \<open>dumps\<close> writes and \<open>loads\<close> reads unchanged: no floats, distinct keys, and
  texts without surrogates (an escaped surrogate pair would be joined).
\<close>

definition scalar :: "nat \<Rightarrow> bool" where
  "scalar c = (c < 55296 \<or> 57344 \<le> c \<and> c < 1114112)"

fun plain :: "json \<Rightarrow> bool" where
  "plain JNull = True"
| "plain (JBool b) = True"
| "plain (JInt i) = True"
| "plain (JFloat m e) = False"
| "plain (JSpecial s) = False"
| "plain (JStr s) = list_all scalar s"
| "plain (JArr vs) = list_all plain vs"
| "plain (JObj kvs) = (distinct (map fst kvs) \<and> list_all (\<lambda>(k, v). list_all scalar k \<and> plain v) kvs)"

text \<open>What may follow a number without being taken for a part of it.\<close>

definition stops :: "utext \<Rightarrow> bool" where
  "stops r = (r = [] \<or> \<not> is_dig (hd r) \<and> hd r \<noteq> 46 \<and> hd r \<noteq> 101 \<and> hd r \<noteq> 69)"

lemma nat_digits_dig: "list_all is_dig (nat_digits n)"
proof (induction n rule: nat_digits.induct)
  case (1 n)
  have "n mod 10 < 10" by simp
  then show ?case
    using 1 by (auto simp: nat_digits.simps [of n] is_dig_def)
qed

lemma nat_digits_nonempty: "nat_digits n \<noteq> []"
  by (simp add: nat_digits.simps [of n])

lemma digits_int_snoc: "digits_int (ds @ [d]) = 10 * digits_int ds + (int d - 48)"
  by (simp add: digits_int_def)

lemma digits_int_nat_digits: "digits_int (nat_digits n) = int n"
proof (induction n rule: nat_digits.induct)
  case (1 n)
  show ?case
  proof (cases "n < 10")
    case True
    then show ?thesis by (simp add: nat_digits.simps [of n] digits_int_def)
  next
    case False
    then have "digits_int (nat_digits n) = 10 * int (n div 10) + int (n mod 10)"
      using 1 by (simp add: nat_digits.simps [of n] digits_int_snoc)
    also have "\<dots> = int n"
      by (metis mult.commute div_mult_mod_eq of_nat_add of_nat_mult of_nat_numeral)
    finally show ?thesis .
  qed
qed

lemma nat_digits_hd: "0 < n \<Longrightarrow> hd (nat_digits n) \<noteq> 48"
proof (induction n rule: nat_digits.induct)
  case (1 n)
  then show ?case
    by (cases "n < 10") (simp_all add: nat_digits.simps [of n] nat_digits_nonempty)
qed

lemma nat_digits_0: "nat_digits 0 = [48]"
  by (simp add: nat_digits.simps)

lemma scan_digits:
  assumes "stops r"
  shows "scan_nat (nat_digits n @ r) = Some (nat_digits n, r)"
proof (cases "n = 0")
  case True
  then show ?thesis by (simp add: nat_digits_0 scan_nat_def)
next
  case False
  obtain d ds where eq: "nat_digits n = d # ds"
    using nat_digits_nonempty by (cases "nat_digits n") auto
  have all: "list_all is_dig (d # ds)"
    using nat_digits_dig [of n] eq by simp
  have "takeWhile is_dig (d # ds @ r) = d # ds" "dropWhile is_dig (d # ds @ r) = r"
    using all assms
    by (cases r; auto simp: stops_def list_all_iff takeWhile_append dropWhile_append)+
  moreover have "d \<noteq> 48"
    using nat_digits_hd [of n] False eq by simp
  ultimately show ?thesis
    using eq all by (simp add: scan_nat_def)
qed

lemma scan_frac_stop: "stops r \<Longrightarrow> scan_frac r = ([], r)"
  by (cases r) (auto simp: scan_frac_def stops_def)

lemma scan_exp_stop: "stops r \<Longrightarrow> scan_exp r = (None, r)"
  by (cases r) (auto simp: scan_exp_def stops_def)

lemma int_text_neg: "i < 0 \<Longrightarrow> int_text i = 45 # nat_digits (nat (- i))"
  and int_text_pos: "\<not> i < 0 \<Longrightarrow> int_text i = nat_digits (nat i)"
  by (simp_all add: int_text_def)

lemma hd_nat_digits_dig: "is_dig (hd (nat_digits n @ r))"
  using nat_digits_dig [of n] nat_digits_nonempty [of n] by (cases "nat_digits n") auto

lemma scan_number_int:
  assumes "stops r"
  shows "scan_number (int_text i @ r) = Some (JInt i, r)"
proof (cases "i < 0")
  case True
  then show ?thesis
    by (simp add: int_text_neg scan_number_def scan_digits [OF assms] scan_frac_stop [OF assms]
        scan_exp_stop [OF assms] digits_int_nat_digits)
next
  case False
  have "hd (nat_digits (nat i) @ r) \<noteq> 45"
    using hd_nat_digits_dig [of "nat i" r] by (auto simp: is_dig_def)
  then show ?thesis
    using False
    by (simp add: int_text_pos scan_number_def scan_digits [OF assms] scan_frac_stop [OF assms]
        scan_exp_stop [OF assms] digits_int_nat_digits)
qed

text \<open>The first character of an integer's text, and of its rest, rules the literals out.\<close>

lemma int_text_shape:
  obtains c t where "int_text i = c # t" "is_dig c"
  | c t where "int_text i = 45 # c # t" "is_dig c"
proof (cases "i < 0")
  case True
  then show ?thesis
    using that(2) nat_digits_dig [of "nat (- i)"] nat_digits_nonempty [of "nat (- i)"]
    by (cases "nat_digits (nat (- i))") (auto simp: int_text_neg)
next
  case False
  then show ?thesis
    using that(1) nat_digits_dig [of "nat i"] nat_digits_nonempty [of "nat i"]
    by (cases "nat_digits (nat i)") (auto simp: int_text_pos)
qed

lemma literal_none_dig: "is_dig c \<Longrightarrow> scan_literal (c # t) = None"
  by (auto simp: scan_literal_def literals_def asc_def code_def is_dig_def)

lemma literal_none_neg: "is_dig c \<Longrightarrow> scan_literal (45 # c # t) = None"
  by (auto simp: scan_literal_def literals_def asc_def code_def is_dig_def)

lemma hex_value_char: "n < 16 \<Longrightarrow> hex_value (hex_char n) = Some n"
  by (auto simp: hex_value_def hex_char_def)

lemma nibbles:
  fixes n :: nat
  assumes "n < 65536"
  shows "4096 * (n div 4096 mod 16) + 256 * (n div 256 mod 16) + 16 * (n div 16 mod 16) + n mod 16 = n"
proof -
  have "n mod 4096 = n mod 256 + 256 * (n div 256 mod 16)"
    using mod_mult2_eq [of n 256 16] by simp
  moreover have "n mod 256 = n mod 16 + 16 * (n div 16 mod 16)"
    using mod_mult2_eq [of n 16 16] by simp
  moreover have "n div 4096 mod 16 = n div 4096"
    using assms by simp
  ultimately show ?thesis
    using mult_div_mod_eq [of 4096 n] by linarith
qed

lemma hex4_u_escape: "n < 65536 \<Longrightarrow> hex4 (drop 2 (u_escape n) @ t) = Some (n, t)"
  using nibbles [of n] by (simp add: u_escape_def hex_value_char)

lemma u_escape_split: "u_escape n = 92 # 117 # drop 2 (u_escape n)"
  by (simp add: u_escape_def)

lemma scan_string_u:
  assumes "n < 65536" "\<not> (55296 \<le> n \<and> n \<le> 56319)"
  shows "scan_string (u_escape n @ t) = map_option (\<lambda>(r, q). (n # r, q)) (scan_string t)"
proof -
  have "unescape (117 # drop 2 (u_escape n) @ t) = Some (n, t)"
    using assms by (auto simp: hex4_u_escape join_surrogate_def)
  moreover have "length t < length (u_escape n @ t)"
    by (simp add: u_escape_def)
  ultimately show ?thesis
    by (subst u_escape_split, subst scan_string.simps) simp
qed

lemma scan_string_pair:
  assumes "55296 \<le> u" "u \<le> 56319" "56320 \<le> v" "v \<le> 57343"
  shows "scan_string (u_escape u @ u_escape v @ t) =
    map_option (\<lambda>(r, q). ((65536 + (u - 55296) * 1024 + (v - 56320)) # r, q)) (scan_string t)"
proof -
  have v: "v < 65536" and u: "u < 65536"
    using assms by simp_all
  have "join_surrogate u (u_escape v @ t) = (65536 + (u - 55296) * 1024 + (v - 56320), t)"
  proof -
    have "take 2 (u_escape v @ t) = [92, 117]" "drop 2 (u_escape v @ t) = drop 2 (u_escape v) @ t"
      by (simp_all add: u_escape_def)
    then show ?thesis
      using assms by (simp add: join_surrogate_def hex4_u_escape [OF v])
  qed
  then have un: "unescape (117 # drop 2 (u_escape u) @ u_escape v @ t) =
      Some (65536 + (u - 55296) * 1024 + (v - 56320), t)"
    by (simp add: hex4_u_escape [OF u])
  have "length t < length (u_escape u @ u_escape v @ t)"
    by (simp add: u_escape_def)
  with un show ?thesis
    by (subst u_escape_split [of u], subst scan_string.simps) simp
qed

lemma scan_string_escape:
  assumes "scalar c"
  shows "scan_string (escape_char c @ t) = map_option (\<lambda>(r, q). (c # r, q)) (scan_string t)"
proof (cases "c < 65536")
  case True
  show ?thesis
  proof (cases "c \<in> {34, 92, 10, 13, 9, 12, 8} \<or> 32 \<le> c \<and> c \<le> 126")
    case True
    then show ?thesis
      by (auto simp: escape_char_def scan_string.simps [of "92 # _"] scan_string.simps [of "c # _"])
  next
    case False
    then have "escape_char c = u_escape c"
      using \<open>c < 65536\<close> by (auto simp: escape_char_def)
    moreover have "\<not> (55296 \<le> c \<and> c \<le> 56319)"
      using assms by (auto simp: scalar_def)
    ultimately show ?thesis
      using scan_string_u [OF True] by simp
  qed
next
  case False
  define u v where "u = 55296 + (c - 65536) div 1024" and "v = 56320 + (c - 65536) mod 1024"
  have lt: "c - 65536 < 1048576"
    using assms False by (auto simp: scalar_def)
  then have "(c - 65536) div 1024 < 1024" "(c - 65536) mod 1024 < 1024"
    by (simp_all add: less_mult_imp_div_less)
  then have b: "55296 \<le> u" "u \<le> 56319" "56320 \<le> v" "v \<le> 57343"
    by (simp_all add: u_def v_def)
  have "65536 + (u - 55296) * 1024 + (v - 56320) = c"
    using False by (simp add: u_def v_def)
  moreover have "escape_char c @ t = u_escape u @ u_escape v @ t"
    using False by (auto simp: escape_char_def u_def v_def)
  ultimately show ?thesis
    using scan_string_pair [OF b, of t] by metis
qed

lemma scan_string_text:
  "list_all scalar s \<Longrightarrow> scan_string (concat (map escape_char s) @ 34 # r) = Some (s, r)"
  by (induction s) (simp_all add: scan_string_escape scan_string.simps [of "34 # r"])

text \<open>Written values start with a visible character, which no closing bracket is.\<close>

definition opener :: "nat \<Rightarrow> bool" where
  "opener c = (\<not> is_ws c \<and> c \<noteq> 93 \<and> c \<noteq> 125)"

lemma dumps_opener:
  assumes "plain v"
  obtains c t where "dumps v = c # t" "opener c"
proof (cases v)
  case (JInt i)
  show ?thesis
    by (rule int_text_shape [of i]) (auto intro!: that simp: JInt opener_def is_ws_def is_dig_def)
next
  case (JBool b)
  then show ?thesis
    by (cases b) (auto intro!: that simp: opener_def is_ws_def asc_def code_def)
qed (use assms that in \<open>auto simp: opener_def is_ws_def asc_def code_def str_text_def\<close>)

lemma skip_ws_opener: "opener c \<Longrightarrow> skip_ws (c # t) = c # t"
  by (simp add: skip_ws_def opener_def)

lemma skip_ws_visible: "\<not> is_ws c \<Longrightarrow> skip_ws (c # t) = c # t"
  by (simp add: skip_ws_def)

definition reads :: "json \<Rightarrow> bool" where
  "reads v \<longleftrightarrow> (\<forall>r. stops r \<longrightarrow> scan_value (dumps v @ r) = Some (v, r))"

lemma stops_simps: "stops (44 # r)" "stops (93 # r)" "stops (125 # r)" "stops []"
  by (simp_all add: stops_def is_dig_def)

lemma commas_Cons: "commas (x # xs) = x @ (if xs = [] then [] else 44 # commas xs)"
  by (cases xs) simp_all

lemma scan_items_commas:
  assumes "\<forall>v\<in>set vs. reads v \<and> plain v" "vs \<noteq> []"
  shows "scan_items (commas (map dumps vs) @ 93 # r) = Some (vs, r)"
  using assms
proof (induction vs)
  case (Cons v vs)
  have v: "scan_value (dumps v @ q) = Some (v, q)" if "stops q" for q
    using Cons.prems that by (simp add: reads_def)
  show ?case
  proof (cases "vs = []")
    case True
    then show ?thesis
      by (subst scan_items.simps) (simp add: v stops_simps skip_ws_def is_ws_def)
  next
    case False
    then obtain w ws where vs: "vs = w # ws"
      by (cases vs) auto
    obtain c t where c: "dumps w = c # t" "opener c"
      using dumps_opener Cons.prems(1) vs by (metis list.set_intros(1) list.set_intros(2))
    have tail: "commas (map dumps vs) @ 93 # r = c # t @ (if ws = [] then [] else 44 # commas (map dumps ws)) @ 93 # r"
      by (simp add: vs commas_Cons c)
    have "scan_items (commas (map dumps vs) @ 93 # r) = Some (vs, r)"
      using Cons False by simp
    then show ?thesis
      using False
      by (subst scan_items.simps)
        (simp add: commas_Cons v stops_simps skip_ws_visible is_ws_def tail skip_ws_opener [OF c(2)])
  qed
qed simp

definition member_text :: "utext \<times> json \<Rightarrow> utext" where
  "member_text kv = str_text (fst kv) @ 58 # dumps (snd kv)"

lemma dumps_JObj: "dumps (JObj kvs) = 123 # commas (map member_text kvs) @ [125]"
  by (simp add: member_text_def case_prod_beta cong: map_cong)

lemma scan_members_commas:
  assumes "\<forall>(k, v)\<in>set kvs. list_all scalar k \<and> reads v \<and> plain v" "kvs \<noteq> []"
  shows "scan_members (commas (map member_text kvs) @ 125 # r) = Some (kvs, r)"
  using assms
proof (induction kvs)
  case (Cons kv kvs)
  obtain k v where kv: "kv = (k, v)" by (cases kv)
  have v: "scan_value (dumps v @ q) = Some (v, q)" if "stops q" for q
    using Cons.prems that by (simp add: reads_def kv)
  have k: "scan_string (concat (map escape_char k) @ 34 # q) = Some (k, q)" for q
    using Cons.prems by (simp add: kv scan_string_text)
  obtain c t where c: "dumps v = c # t" "opener c"
    using dumps_opener [of v] Cons.prems by (auto simp: kv)
  have vw: "skip_ws (dumps v @ q) = dumps v @ q" for q
    by (simp add: c skip_ws_opener)
  show ?case
  proof (cases "kvs = []")
    case True
    then show ?thesis
      by (subst scan_members.simps)
        (simp add: member_text_def kv str_text_def k skip_ws_visible is_ws_def vw v stops_simps)
  next
    case False
    have IH: "scan_members (commas (map member_text kvs) @ 125 # r) = Some (kvs, r)"
      using Cons False by simp
    have sk: "skip_ws (commas (map member_text kvs) @ 125 # r) = commas (map member_text kvs) @ 125 # r"
      using False by (cases kvs) (simp_all add: commas_Cons member_text_def str_text_def skip_ws_visible is_ws_def)
    have "commas (map member_text (kv # kvs)) @ 125 # r =
        34 # concat (map escape_char k) @ 34 # 58 # dumps v @ 44 # commas (map member_text kvs) @ 125 # r"
      using False by (simp add: commas_Cons member_text_def kv str_text_def)
    then show ?thesis
      using False
      by (subst scan_members.simps)
        (simp add: kv k skip_ws_visible is_ws_def vw v stops_simps sk IH)
  qed
qed simp

lemma plain_reads: "plain v \<Longrightarrow> reads v"
proof (induction v)
  case JNull
  then show ?case
    by (auto simp: reads_def scan_value.simps scan_literal_def literals_def asc_def code_def)
next
  case (JBool b)
  then show ?case
    by (cases b) (auto simp: reads_def scan_value.simps scan_literal_def literals_def asc_def code_def)
next
  case (JInt i)
  have "scan_value (int_text i @ r) = Some (JInt i, r)" if "stops r" for r
  proof (rule int_text_shape [of i])
    fix c t assume s: "int_text i = c # t" "is_dig c"
    then have "c \<noteq> 34" "c \<noteq> 91" "c \<noteq> 123" by (auto simp: is_dig_def)
    then show ?thesis
      using scan_number_int [OF that, of i] s by (simp add: scan_value.simps literal_none_dig)
  next
    fix c t assume s: "int_text i = 45 # c # t" "is_dig c"
    then show ?thesis
      using scan_number_int [OF that, of i] by (simp add: scan_value.simps literal_none_neg)
  qed
  then show ?case by (simp add: reads_def)
next
  case (JStr s)
  then show ?case by (simp add: reads_def scan_value.simps str_text_def scan_string_text)
next
  case (JArr vs)
  show ?case
  proof (cases vs)
    case Nil
    then show ?thesis
      by (simp add: reads_def scan_value.simps skip_ws_visible is_ws_def)
  next
    case (Cons w ws)
    have all: "\<forall>v\<in>set vs. reads v \<and> plain v"
      using JArr by (auto simp: list_all_iff)
    obtain c t where c: "dumps w = c # t" "opener c"
      using dumps_opener [of w] all Cons by auto
    have "scan_items (commas (map dumps vs) @ 93 # r) = Some (vs, r)" for r
      using all Cons by (intro scan_items_commas) auto
    moreover have "\<exists>u. commas (map dumps vs) = c # u"
      by (simp add: Cons commas_Cons c)
    ultimately show ?thesis
      using c(2) by (auto simp: reads_def scan_value.simps skip_ws_opener opener_def Let_def)
  qed
next
  case (JObj kvs)
  show ?case
  proof (cases kvs)
    case Nil
    then show ?thesis
      by (simp add: reads_def scan_value.simps skip_ws_visible is_ws_def)
  next
    case (Cons kv rest)
    have "\<forall>(k, v)\<in>set kvs. list_all scalar k \<and> reads v \<and> plain v"
      using JObj by (fastforce simp: list_all_iff)
    then have "scan_members (commas (map member_text kvs) @ 125 # r) = Some (kvs, r)" for r
      using Cons by (intro scan_members_commas) auto
    moreover have "\<exists>u. commas (map member_text kvs) = 34 # u"
      by (simp add: Cons commas_Cons member_text_def str_text_def)
    moreover have "dict_of kvs = kvs"
      using dict_of_distinct [of kvs] JObj.prems by simp
    ultimately show ?thesis
      by (auto simp: reads_def scan_value.simps skip_ws_visible is_ws_def Let_def dumps_JObj
          simp del: dumps.simps)
  qed
qed simp_all

theorem loads_dumps: "plain v \<Longrightarrow> loads_text (dumps v) = Some v"
proof -
  assume p: "plain v"
  obtain c t where c: "dumps v = c # t" "opener c"
    using dumps_opener [OF p] .
  then have "skip_ws (dumps v) = dumps v"
    by (simp add: skip_ws_opener)
  then show ?thesis
    using plain_reads [OF p] spec [of _ "[]"]
    by (auto simp: loads_text_def reads_def stops_simps skip_ws_def dest!: spec [of _ "[]"])
qed

text \<open>The written text is ASCII, so its bytes decode to it.\<close>

definition ascii :: "utext \<Rightarrow> bool" where
  "ascii t = list_all (\<lambda>c. c < 128) t"

lemma ascii_simps [simp]: "ascii []" "ascii (c # t) \<longleftrightarrow> c < 128 \<and> ascii t"
  "ascii (s @ t) \<longleftrightarrow> ascii s \<and> ascii t"
  by (simp_all add: ascii_def)

lemma ascii_digits: "list_all is_dig t \<Longrightarrow> ascii t"
  by (auto simp: ascii_def list_all_iff is_dig_def)

lemma ascii_int_text: "ascii (int_text i)"
  using ascii_digits [OF nat_digits_dig] by (simp add: int_text_def)

lemma hex_char_lt: "n < 16 \<Longrightarrow> hex_char n < 128"
  by (simp add: hex_char_def)

lemma ascii_u_escape: "ascii (u_escape n)"
  by (simp add: u_escape_def hex_char_lt)

lemma ascii_escape: "ascii (escape_char c)"
  by (simp add: escape_char_def ascii_u_escape)

lemma ascii_str_text: "ascii (str_text s)"
  by (induction s) (simp_all add: str_text_def ascii_escape)

lemma ascii_commas: "\<forall>t\<in>set ts. ascii t \<Longrightarrow> ascii (commas ts)"
  by (induction ts) (auto simp: commas_Cons)

lemma ascii_dumps: "plain v \<Longrightarrow> ascii (dumps v)"
proof (induction v)
  case (JArr vs)
  then show ?case by (auto simp: list_all_iff intro!: ascii_commas)
next
  case (JObj kvs)
  have "ascii t" if t: "t \<in> set (map member_text kvs)" for t
  proof -
    obtain k v where kv: "(k, v) \<in> set kvs" and t: "t = member_text (k, v)"
      using t by auto
    then have "ascii (dumps v)"
      using JObj.IH [OF kv, of v] JObj.prems by (fastforce simp: list_all_iff)
    then show ?thesis by (simp add: t member_text_def ascii_str_text)
  qed
  then have "ascii (commas (map member_text kvs))"
    by (intro ascii_commas) blast
  then show ?case
    by (simp add: dumps_JObj del: dumps.simps)
qed (auto simp: ascii_int_text ascii_str_text asc_def code_def)

lemma utf8_ascii: "ascii t \<Longrightarrow> utf8_decode (ascii_bytes t) = Some t"
  by (induction t) (simp_all add: ascii_bytes_def Let_def unsigned_of_nat take_bit_eq_mod)

theorem loads_bytes_dumps: "plain v \<Longrightarrow> loads_bytes (ascii_bytes (dumps v)) = Inr v"
  by (simp add: loads_bytes_def utf8_ascii ascii_dumps loads_dumps)

lemma length_ascii_bytes [simp]: "length (ascii_bytes t) = length t"
  by (simp add: ascii_bytes_def)

text \<open>Text given as a HOL string is free of surrogates.\<close>

lemma code_lt: "code c < 256"
  by (simp add: code_def)

lemma asc_inj [simp]: "asc s = asc t \<longleftrightarrow> s = t"
proof -
  have "inj code"
    by (rule injI) (simp add: code_def)
  then show ?thesis
    by (simp add: asc_def inj_map_eq_map)
qed

lemma scalar_code: "scalar (code c)"
  using code_lt [of c] by (simp add: scalar_def)

lemma scalar_asc [simp]: "list_all scalar (asc s)"
  by (induction s) (simp_all add: asc_def scalar_code)

end
