(* ===== verification/MemBudget.thy ===== *)
theory MemBudget
  imports PyText Pool
begin

text \<open>
  Host-memory admission (\<open>third_party/sparkcache/spark_context_cache_memory_budget.py\<close>).
  Budgets and reservations are mutable objects shared by reference, so the state is a
  store: two lists of objects, an object's identity being its position. The lock makes
  each method atomic, so concurrent workers are interleavings of whole calls.
\<close>

section \<open>Reading MemAvailable\<close>

text \<open>The loop over the lines; \<open>Inl ()\<close> is the early \<open>return None\<close>.\<close>

fun mem_scan :: "string list \<Rightarrow> int option \<Rightarrow> unit + int option" where
  "mem_scan [] avail = Inr avail"
| "mem_scan (line # lines) avail =
     (let fields = split_ws line in
      if fields = [] \<or> hd fields \<noteq> ''MemAvailable:'' then mem_scan lines avail
      else if avail \<noteq> None \<or> length fields \<noteq> 3 \<or> fields ! 2 \<noteq> ''kB'' then Inl ()
      else if \<not> str_isdigit (fields ! 1) then Inl ()
      else mem_scan lines (Some (digits_value (fields ! 1))))"

text \<open>The argument is the file's text, \<open>None\<close> when reading or decoding it raised.\<close>

definition read_mem_available :: "string option \<Rightarrow> int option" where
  "read_mem_available contents = (case contents of None \<Rightarrow> None
     | Some text \<Rightarrow> (case mem_scan (splitlines text) None of
         Inl _ \<Rightarrow> None | Inr None \<Rightarrow> None | Inr (Some kib) \<Rightarrow> Some (kib * 1024)))"

section \<open>Objects\<close>

datatype pyval = PyInt int | PyBool bool | PyNone | PyOther

datatype mem_error =
    NotAnInteger string
  | NotPositive string
  | DifferentBudget
  | NoObject

fun require_positive_int :: "string \<Rightarrow> pyval \<Rightarrow> mem_error + int" where
  "require_positive_int name (PyInt v) = (if v \<le> 0 then Inl (NotPositive name) else Inr v)"
| "require_positive_int name _ = Inl (NotAnInteger name)"

record reservation =
  res_budget :: nat
  peak_bytes :: int
  released :: bool

record budget =
  max_bytes :: int
  min_available_bytes :: int
  reserved_bytes :: int

record mem_store =
  budgets :: "budget list"
  reservations :: "reservation list"

definition empty_store :: mem_store where
  "empty_store = \<lparr>budgets = [], reservations = []\<rparr>"

definition new_budget :: "mem_store \<Rightarrow> pyval \<Rightarrow> pyval \<Rightarrow> mem_error + (mem_store \<times> nat)" where
  "new_budget st cap lowest =
     rbind (require_positive_int ''max_bytes'' cap) (\<lambda>c.
     rbind (require_positive_int ''min_available_bytes'' lowest) (\<lambda>f.
     Inr (st\<lparr>budgets := budgets st @
            [\<lparr>max_bytes = c, min_available_bytes = f, reserved_bytes = 0\<rparr>]\<rparr>,
          length (budgets st))))"

text \<open>What the available reader did: it raised, or it returned some value.\<close>

datatype reading = ReaderRaised | ReaderValue pyval

fun usable_reading :: "reading \<Rightarrow> int option" where
  "usable_reading (ReaderValue (PyInt a)) = (if a < 0 then None else Some a)"
| "usable_reading _ = None"

definition try_reserve ::
  "mem_store \<Rightarrow> nat \<Rightarrow> pyval \<Rightarrow> reading \<Rightarrow> mem_error + (mem_store \<times> nat option)" where
  "try_reserve st b pk rd =
     (if length (budgets st) \<le> b then Inl NoObject
      else rbind (require_positive_int ''peak_bytes'' pk) (\<lambda>p.
       let bu = budgets st ! b in
       case usable_reading rd of None \<Rightarrow> Inr (st, None)
       | Some available \<Rightarrow>
         (let new_reserved = reserved_bytes bu + p in
          if max_bytes bu < new_reserved then Inr (st, None)
          else if available - new_reserved < min_available_bytes bu then Inr (st, None)
          else Inr (\<lparr>budgets = (budgets st)[b := bu\<lparr>reserved_bytes := new_reserved\<rparr>],
                     reservations = reservations st @
                       [\<lparr>res_budget = b, peak_bytes = p, released = False\<rparr>]\<rparr>,
                   Some (length (reservations st))))))"

text \<open>\<open>MemoryBudget._release\<close> called on budget \<open>b\<close> with reservation \<open>r\<close>.\<close>

definition budget_release :: "mem_store \<Rightarrow> nat \<Rightarrow> nat \<Rightarrow> mem_error + mem_store" where
  "budget_release st b r =
     (if length (budgets st) \<le> b \<or> length (reservations st) \<le> r then Inl NoObject
      else (let rv = reservations st ! r; bu = budgets st ! b in
       if released rv then Inr st
       else if res_budget rv \<noteq> b then Inl DifferentBudget
       else Inr \<lparr>budgets = (budgets st)[b := bu\<lparr>reserved_bytes := reserved_bytes bu - peak_bytes rv\<rparr>],
                 reservations = (reservations st)[r := rv\<lparr>released := True\<rparr>]\<rparr>))"

text \<open>\<open>MemoryReservation.release\<close>, also what leaving a \<open>with\<close> block runs.\<close>

definition reservation_release :: "mem_store \<Rightarrow> nat \<Rightarrow> mem_error + mem_store" where
  "reservation_release st r =
     (if length (reservations st) \<le> r then Inl NoObject
      else budget_release st (res_budget (reservations st ! r)) r)"

section \<open>Interleaved calls\<close>

datatype mem_call =
    CallNew pyval pyval
  | CallReserve nat pyval reading
  | CallRelease nat
  | CallBudgetRelease nat nat

text \<open>A call that raises leaves the store as it was.\<close>

fun mem_step :: "mem_store \<Rightarrow> mem_call \<Rightarrow> mem_store" where
  "mem_step st (CallNew c f) = (case new_budget st c f of Inl _ \<Rightarrow> st | Inr (t, _) \<Rightarrow> t)"
| "mem_step st (CallReserve b p rd) = (case try_reserve st b p rd of Inl _ \<Rightarrow> st | Inr (t, _) \<Rightarrow> t)"
| "mem_step st (CallRelease r) = (case reservation_release st r of Inl _ \<Rightarrow> st | Inr t \<Rightarrow> t)"
| "mem_step st (CallBudgetRelease b r) = (case budget_release st b r of Inl _ \<Rightarrow> st | Inr t \<Rightarrow> t)"

definition mem_run :: "mem_store \<Rightarrow> mem_call list \<Rightarrow> mem_store" where
  "mem_run st calls = foldl mem_step st calls"

section \<open>Accounting\<close>

text \<open>What budget \<open>b\<close> owes to reservations that were never released.\<close>

definition charge :: "nat \<Rightarrow> reservation \<Rightarrow> int" where
  "charge b rv = (if res_budget rv = b \<and> \<not> released rv then peak_bytes rv else 0)"

definition held :: "mem_store \<Rightarrow> nat \<Rightarrow> int" where
  "held st b = sum_list (map (charge b) (reservations st))"

definition budget_ok :: "mem_store \<Rightarrow> nat \<Rightarrow> bool" where
  "budget_ok st b = (reserved_bytes (budgets st ! b) = held st b \<and> 0 \<le> held st b \<and>
     held st b \<le> max_bytes (budgets st ! b))"

definition mem_inv :: "mem_store \<Rightarrow> bool" where
  "mem_inv st = ((\<forall>b < length (budgets st). budget_ok st b) \<and>
     (\<forall>rv \<in> set (reservations st). res_budget rv < length (budgets st) \<and> 0 < peak_bytes rv))"

lemma require_positive_int_Inr [simp]:
  "require_positive_int n v = Inr i \<longleftrightarrow> v = PyInt i \<and> 0 < i"
  by (cases v) auto

lemma mem_inv_empty: "mem_inv empty_store"
  by (simp add: mem_inv_def empty_store_def)

lemma charge_nonneg: "mem_inv st \<Longrightarrow> rv \<in> set (reservations st) \<Longrightarrow> 0 \<le> charge b rv"
  by (auto simp: mem_inv_def charge_def dest: bspec)

lemma mem_inv_new [invs]:
  assumes "mem_inv st" and "new_budget st c f = Inr (t, b)"
  shows "mem_inv t"
proof -
  obtain ci fi where v: "c = PyInt ci" "0 < ci"
    and t: "t = st\<lparr>budgets := budgets st @
      [\<lparr>max_bytes = ci, min_available_bytes = fi, reserved_bytes = 0\<rparr>]\<rparr>"
    using assms(2) by (auto simp: new_budget_def)
  have fresh: "held st (length (budgets st)) = 0"
  proof -
    have "map (charge (length (budgets st))) (reservations st) = map (\<lambda>_. 0) (reservations st)"
      using assms(1) by (auto simp: mem_inv_def charge_def)
    then show ?thesis by (metis held_def sum_list_0)
  qed
  have "held t = held st" by (simp add: t held_def fun_eq_iff)
  then show ?thesis
    using assms(1) fresh v
    by (auto simp: mem_inv_def budget_ok_def t nth_append less_Suc_eq)
qed

lemma try_reserve_Some:
  assumes "try_reserve st b pk rd = Inr (t, Some r)"
  obtains p a where "pk = PyInt p" "0 < p" "b < length (budgets st)"
    "usable_reading rd = Some a" "r = length (reservations st)"
    "reserved_bytes (budgets st ! b) + p \<le> max_bytes (budgets st ! b)"
    "min_available_bytes (budgets st ! b) \<le> a - (reserved_bytes (budgets st ! b) + p)"
    "t = \<lparr>budgets = (budgets st)[b := (budgets st ! b)
             \<lparr>reserved_bytes := reserved_bytes (budgets st ! b) + p\<rparr>],
          reservations = reservations st @ [\<lparr>res_budget = b, peak_bytes = p, released = False\<rparr>]\<rparr>"
  using assms
  by (auto simp: try_reserve_def Let_def not_less not_le split: if_splits option.splits)

lemma try_reserve_None: "try_reserve st b pk rd = Inr (t, None) \<Longrightarrow> t = st"
  by (auto simp: try_reserve_def Let_def split: if_splits option.splits)

lemma mem_inv_reserve [invs]:
  assumes inv: "mem_inv st" and res: "try_reserve st b pk rd = Inr (t, ro)"
  shows "mem_inv t"
proof (cases ro)
  case None
  then show ?thesis using inv try_reserve_None [OF res [unfolded None]] by simp
next
  case (Some r)
  show ?thesis
  proof (rule try_reserve_Some [OF res [unfolded Some]])
    fix p
    assume p: "0 < p" and b: "b < length (budgets st)"
      and fits: "reserved_bytes (budgets st ! b) + p \<le> max_bytes (budgets st ! b)"
      and t: "t = \<lparr>budgets = (budgets st)[b := (budgets st ! b)
             \<lparr>reserved_bytes := reserved_bytes (budgets st ! b) + p\<rparr>],
          reservations = reservations st @ [\<lparr>res_budget = b, peak_bytes = p, released = False\<rparr>]\<rparr>"
    have h: "held t c = held st c + (if c = b then p else 0)" for c
      by (simp add: t held_def charge_def)
    have "budget_ok t c" if c: "c < length (budgets st)" for c
    proof -
      have "budget_ok st c" using inv c by (simp add: mem_inv_def)
      then show ?thesis
        using h b c p fits by (cases "c = b") (auto simp: budget_ok_def t)
    qed
    then show ?thesis using inv p b by (auto simp: mem_inv_def t)
  qed
qed

lemma budget_release_Inr:
  assumes "budget_release st b r = Inr t"
  obtains (Already) "t = st" "r < length (reservations st)" "released (reservations st ! r)"
  | (Refund) "b < length (budgets st)" "r < length (reservations st)"
      "\<not> released (reservations st ! r)" "res_budget (reservations st ! r) = b"
      "t = \<lparr>budgets = (budgets st)[b := (budgets st ! b)\<lparr>reserved_bytes :=
              reserved_bytes (budgets st ! b) - peak_bytes (reservations st ! r)\<rparr>],
            reservations = (reservations st)[r := (reservations st ! r)\<lparr>released := True\<rparr>]\<rparr>"
  using assms by (auto simp: budget_release_def Let_def not_le split: if_splits)

lemma held_after_release:
  assumes "r < length (reservations st)" and "\<not> released (reservations st ! r)"
  shows "sum_list (map (charge c) ((reservations st)[r := (reservations st ! r)\<lparr>released := True\<rparr>]))
    = held st c - (if res_budget (reservations st ! r) = c then peak_bytes (reservations st ! r) else 0)"
  using assms by (simp add: map_update sum_list_update_int held_def charge_def)

lemma mem_inv_release [invs]:
  assumes inv: "mem_inv st" and rel: "budget_release st b r = Inr t"
  shows "mem_inv t"
  using rel
proof (cases rule: budget_release_Inr)
  case Already
  with inv show ?thesis by simp
next
  case Refund
  let ?rv = "reservations st ! r"
  have pos: "0 < peak_bytes ?rv" and mem: "?rv \<in> set (reservations st)"
    using inv Refund(2) by (auto simp: mem_inv_def)
  have h: "held t c = held st c - (if b = c then peak_bytes ?rv else 0)" for c
    using held_after_release [OF Refund(2,3), of c] Refund(4) by (simp add: held_def Refund(5))
  have le: "peak_bytes ?rv \<le> held st b"
  proof -
    have "charge b ?rv \<le> sum_list (map (charge b) (reservations st))"
      using charge_nonneg [OF inv] mem by (intro member_le_sum_list_int) auto
    then show ?thesis using Refund(3,4) by (simp add: charge_def held_def)
  qed
  have "budget_ok t c" if c: "c < length (budgets st)" for c
  proof -
    have "budget_ok st c" using inv c by (simp add: mem_inv_def)
    then show ?thesis
      using h le pos Refund(1) c by (cases "c = b") (auto simp: budget_ok_def Refund(5))
  qed
  moreover have "\<forall>rv \<in> set ((reservations st)[r := ?rv\<lparr>released := True\<rparr>]).
      res_budget rv < length (budgets st) \<and> 0 < peak_bytes rv"
    using inv mem by (auto simp: mem_inv_def dest!: set_update_subset_insert [THEN subsetD])
  ultimately show ?thesis by (simp add: mem_inv_def Refund(5))
qed

lemma mem_inv_step: "mem_inv st \<Longrightarrow> mem_inv (mem_step st call)"
  by (cases call) (auto simp: reservation_release_def intro: invs split: sum.splits if_splits)

lemma mem_inv_run: "mem_inv st \<Longrightarrow> mem_inv (mem_run st calls)"
  unfolding mem_run_def by (induction calls arbitrary: st) (auto intro: mem_inv_step)

lemma mem_run_append: "mem_run st (xs @ ys) = mem_run (mem_run st xs) ys"
  by (simp add: mem_run_def)

section \<open>The budget as a reservation pool\<close>

text \<open>
  One budget as its clients use it: a request that is not granted changes nothing, and
  releasing a reservation is \<open>MemoryReservation.release\<close>.
\<close>

definition pool_reserve :: "nat \<Rightarrow> mem_store \<Rightarrow> int \<Rightarrow> reading \<Rightarrow> (mem_store \<times> nat) option" where
  "pool_reserve b st n rd = (case try_reserve st b (PyInt n) rd of
     Inr (t, Some r) \<Rightarrow> Some (t, r) | _ \<Rightarrow> None)"

definition pool_release :: "mem_store \<Rightarrow> nat \<Rightarrow> mem_store" where
  "pool_release st r = (case reservation_release st r of Inr t \<Rightarrow> t | Inl _ \<Rightarrow> st)"

definition pool_live :: "nat \<Rightarrow> mem_store \<Rightarrow> nat \<Rightarrow> bool" where
  "pool_live b st r = (r < length (reservations st) \<and> res_budget (reservations st ! r) = b \<and>
     \<not> released (reservations st ! r))"

definition pool_amount :: "mem_store \<Rightarrow> nat \<Rightarrow> int" where
  "pool_amount st r = peak_bytes (reservations st ! r)"

definition pool_valid :: "nat \<Rightarrow> mem_store \<Rightarrow> bool" where
  "pool_valid b st = (mem_inv st \<and> b < length (budgets st))"

lemma pool_reserve_Some:
  "pool_reserve b st n rd = Some (t, r) \<longleftrightarrow> try_reserve st b (PyInt n) rd = Inr (t, Some r)"
  by (auto simp: pool_reserve_def split: sum.splits option.splits)

lemma pool_release_live:
  assumes "pool_valid b st" and "pool_live b st r"
  shows "budget_release st b r = Inr (pool_release st r) \<and>
    pool_release st r = \<lparr>budgets = (budgets st)[b := (budgets st ! b)\<lparr>reserved_bytes :=
        reserved_bytes (budgets st ! b) - peak_bytes (reservations st ! r)\<rparr>],
      reservations = (reservations st)[r := (reservations st ! r)\<lparr>released := True\<rparr>]\<rparr>"
  using assms
  by (auto simp: pool_release_def reservation_release_def budget_release_def pool_valid_def
      pool_live_def Let_def)

interpretation budget_pool: reservation_pool "pool_reserve b" pool_release
  "\<lambda>st. reserved_bytes (budgets st ! b)" "\<lambda>st. max_bytes (budgets st ! b)"
  "pool_live b" pool_amount "pool_valid b" for b
proof (unfold_locales, goal_cases)
  case (1 s n e t r)
  then have res: "try_reserve s b (PyInt n) e = Inr (t, Some r)" and inv: "mem_inv s"
    by (auto simp: pool_reserve_Some pool_valid_def)
  have "length (budgets t) = length (budgets s)"
    using res by (auto elim!: try_reserve_Some)
  then show ?case
    using 1(1) mem_inv_reserve [OF inv res] by (simp add: pool_valid_def)
next
  case (8 s r)
  then show ?case
    using pool_release_live [OF 8] mem_inv_release [of s b r "pool_release s r"]
    by (auto simp: pool_valid_def)
next
  case (13 s)
  then show ?case by (auto simp: pool_valid_def mem_inv_def budget_ok_def)
qed (auto simp: pool_reserve_Some pool_valid_def pool_live_def pool_amount_def nth_append
    nth_list_update pool_release_live elim!: try_reserve_Some split: if_splits)

section \<open>Properties\<close>

text \<open>
  C18. Whatever workers call and in whatever order, every budget's counter is the sum of
  the peaks of its reservations not yet released, is never negative and never exceeds
  the cap.
\<close>

theorem mem_accounting:
  assumes "b < length (budgets (mem_run empty_store calls))"
  shows "reserved_bytes (budgets (mem_run empty_store calls) ! b) = held (mem_run empty_store calls) b \<and>
    0 \<le> reserved_bytes (budgets (mem_run empty_store calls) ! b) \<and>
    reserved_bytes (budgets (mem_run empty_store calls) ! b)
      \<le> max_bytes (budgets (mem_run empty_store calls) ! b)"
  using mem_inv_run [OF mem_inv_empty, of calls] assms by (auto simp: mem_inv_def budget_ok_def)

definition sample_calls :: "mem_call list" where
  "sample_calls = [CallNew (PyInt 100) (PyInt 10), CallReserve 0 (PyInt 60) (ReaderValue (PyInt 500)),
     CallReserve 0 (PyInt 60) (ReaderValue (PyInt 500)), CallReserve 0 (PyInt 30) (ReaderValue (PyInt 500)),
     CallRelease 0, CallRelease 0, CallBudgetRelease 0 7]"

theorem mem_accounting_witness:
  "reserved_bytes (budgets (mem_run empty_store sample_calls) ! 0) = 30 \<and>
   reserved_bytes (budgets (mem_run empty_store sample_calls) ! 0)
      = held (mem_run empty_store sample_calls) 0"
proof -
  have b: "0 < length (budgets (mem_run empty_store sample_calls))" by code_simp
  have v: "reserved_bytes (budgets (mem_run empty_store sample_calls) ! 0) = 30" by code_simp
  show ?thesis using mem_accounting [OF b] v by blast
qed

text \<open>
  A request is granted exactly when the reader gave a usable number, the cap holds
  the new total and the memory left after it stays at the floor; then, and only then,
  the whole peak is charged, and the new reservation is charged to this budget.
\<close>

theorem try_reserve_grants:
  assumes "b < length (budgets st)" and "0 < p"
  shows "try_reserve st b (PyInt p) rd =
    (if \<exists>a. usable_reading rd = Some a \<and>
          reserved_bytes (budgets st ! b) + p \<le> max_bytes (budgets st ! b) \<and>
          min_available_bytes (budgets st ! b) + reserved_bytes (budgets st ! b) + p \<le> a
     then Inr (st\<lparr>budgets := (budgets st)[b := (budgets st ! b)
              \<lparr>reserved_bytes := reserved_bytes (budgets st ! b) + p\<rparr>],
            reservations := reservations st @ [\<lparr>res_budget = b, peak_bytes = p, released = False\<rparr>]\<rparr>,
          Some (length (reservations st)))
     else Inr (st, None))"
  using assms by (auto simp: try_reserve_def Let_def split: option.splits)

theorem try_reserve_grants_witness:
  "try_reserve (mem_run empty_store sample_calls) 0 (PyInt 71) (ReaderValue (PyInt 500)) =
     Inr (mem_run empty_store sample_calls, None) \<and>
   map_sum id snd (try_reserve (mem_run empty_store sample_calls) 0 (PyInt 70) (ReaderValue (PyInt 500))) =
     Inr (Some 2)"
proof -
  have b: "0 < length (budgets (mem_run empty_store sample_calls))" by code_simp
  have v: "budgets (mem_run empty_store sample_calls) ! 0 =
      \<lparr>max_bytes = 100, min_available_bytes = 10, reserved_bytes = 30\<rparr>" by code_simp
  have l: "length (reservations (mem_run empty_store sample_calls)) = 2" by code_simp
  show ?thesis
    using try_reserve_grants [OF b, of 71 "ReaderValue (PyInt 500)"]
      try_reserve_grants [OF b, of 70 "ReaderValue (PyInt 500)"] v l by simp
qed

text \<open>
  Releasing a live reservation refunds exactly its peak to its own budget, leaves
  every other reservation alive, and releasing it again changes nothing.
\<close>

theorem release_refunds_once:
  assumes "pool_valid b st" and "pool_live b st r"
  shows "reservation_release st r = Inr (pool_release st r) \<and>
    reserved_bytes (budgets (pool_release st r) ! b) = reserved_bytes (budgets st ! b) - pool_amount st r \<and>
    (\<forall>q. pool_live b (pool_release st r) q = (q \<noteq> r \<and> pool_live b st q)) \<and>
    reservation_release (pool_release st r) r = Inr (pool_release st r)"
proof -
  have rel: "reservation_release st r = Inr (pool_release st r)"
    using pool_release_live [OF assms] assms by (simp add: reservation_release_def pool_live_def)
  have "reservation_release (pool_release st r) r = Inr (pool_release st r)"
    using pool_release_live [OF assms] assms
    by (simp add: reservation_release_def budget_release_def pool_live_def pool_valid_def)
  then show ?thesis
    using rel budget_pool.give_used [OF assms] budget_pool.give_live [OF assms] by blast
qed

theorem release_refunds_once_witness:
  "reserved_bytes (budgets (pool_release (mem_run empty_store sample_calls) 1) ! 0) = 0"
proof -
  have v: "pool_valid 0 (mem_run empty_store sample_calls)"
    using mem_inv_run [OF mem_inv_empty] by (simp add: pool_valid_def) code_simp
  have l: "pool_live 0 (mem_run empty_store sample_calls) 1" by code_simp
  have u: "reserved_bytes (budgets (mem_run empty_store sample_calls) ! 0) = 30"
    and a: "pool_amount (mem_run empty_store sample_calls) 1 = 30" by code_simp+
  show ?thesis using release_refunds_once [OF v l] u a by simp
qed

text \<open>The lines the reader looks at, as fields.\<close>

definition available_lines :: "string \<Rightarrow> string list list" where
  "available_lines text = filter (\<lambda>fs. fs \<noteq> [] \<and> hd fs = ''MemAvailable:'')
     (map split_ws (splitlines text))"

lemma mem_scan_Some:
  "mem_scan lines avail = Inr (Some k) \<longleftrightarrow>
     (let sel = filter (\<lambda>fs. fs \<noteq> [] \<and> hd fs = ''MemAvailable:'') (map split_ws lines) in
      (sel = [] \<and> avail = Some k) \<or>
      (avail = None \<and> (\<exists>fs. sel = [fs] \<and> length fs = 3 \<and> fs ! 2 = ''kB'' \<and>
         str_isdigit (fs ! 1) \<and> k = digits_value (fs ! 1))))"
proof (induction lines arbitrary: avail)
  case Nil
  then show ?case by simp
next
  case (Cons line lines)
  show ?case
  proof (cases "split_ws line \<noteq> [] \<and> hd (split_ws line) = ''MemAvailable:''")
    case False
    then show ?thesis using Cons.IH [of avail] by (auto simp: Let_def)
  next
    case True
    then show ?thesis using Cons.IH by (auto simp: Let_def)
  qed
qed

text \<open>
  The reader returns a number exactly when one line, and only one, is the
  MemAvailable line and has the kernel's three fields; the number is that of the line,
  in bytes. Anything else, an unreadable file included, gives no number.
\<close>

theorem read_mem_available_iff:
  "read_mem_available contents = Some v \<longleftrightarrow>
     (\<exists>text fs. contents = Some text \<and> available_lines text = [fs] \<and> length fs = 3 \<and>
        fs ! 2 = ''kB'' \<and> str_isdigit (fs ! 1) \<and> v = 1024 * digits_value (fs ! 1))"
proof (cases contents)
  case None
  then show ?thesis by (simp add: read_mem_available_def)
next
  case (Some body)
  have "read_mem_available (Some body) = Some v \<longleftrightarrow>
      (\<exists>k. mem_scan (splitlines body) None = Inr (Some k) \<and> v = k * 1024)"
    by (auto simp: read_mem_available_def split: sum.splits option.splits)
  then show ?thesis
    using Some by (auto simp: mem_scan_Some available_lines_def Let_def)
qed

end
