(* ===== verification/AdaptiveK.thy ===== *)
theory AdaptiveK
  imports PyText "HOL-Library.AList"
begin

text \<open>
  The adaptive draft-length policy of
  \<open>scripts/node/experiments/e03/e35-runner-k/adaptive_k_scheduler.py\<close>: the E35 policy
  switch, the configuration and its validation, and \<open>AdaptiveKPolicy\<close>, which keeps a
  moving average of each request's acceptance and turns it into a draft length with
  hysteresis. Averages are rationals; dictionaries are association lists in insertion
  order.
\<close>

section \<open>The E35 policy switch\<close>

definition e35_flag_max_bytes :: nat where
  "e35_flag_max_bytes = 64"

text \<open>Bytes are strings of code points below 256; ASCII decoding fails from 128 on.\<close>

definition e35_parse_policy :: "string option \<Rightarrow> string" where
  "e35_parse_policy raw = (case raw of None \<Rightarrow> ''ema''
     | Some bs \<Rightarrow>
       (if e35_flag_max_bytes < length bs then ''ema''
        else if \<not> list_all (\<lambda>c. code c < 128) bs then ''ema''
        else if strip bs = ''lag1'' \<or> strip bs = ''hybrid'' then strip bs else ''ema''))"

text \<open>\<open>file\<close> is what opening the path gives: its bytes, or \<open>None\<close> for an \<open>OSError\<close>.\<close>

definition e35_read_flag :: "string \<Rightarrow> string option \<Rightarrow> string option" where
  "e35_read_flag path file = (if path = [] then None
     else map_option (take (e35_flag_max_bytes + 1)) file)"

record policy_switch =
  sw_path :: string
  checked_at :: "rat option"
  sw_policy :: string

definition new_switch :: "string \<Rightarrow> policy_switch" where
  "new_switch path = \<lparr>sw_path = path, checked_at = None, sw_policy = ''ema''\<rparr>"

definition poll :: "policy_switch \<Rightarrow> rat \<Rightarrow> string option \<Rightarrow> policy_switch \<times> string" where
  "poll sw now file =
     (let due = (case checked_at sw of None \<Rightarrow> True | Some t \<Rightarrow> 1 / 2 \<le> now - t);
          sw' = (if due then sw\<lparr>checked_at := Some now,
                   sw_policy := e35_parse_policy (e35_read_flag (sw_path sw) file)\<rparr> else sw)
      in (sw', sw_policy sw'))"

section \<open>Configuration\<close>

record ak_config =
  enabled :: bool
  k_lo :: int
  k_hi :: int
  up :: rat
  down :: rat
  alpha :: rat
  seed :: rat
  mode :: string
  signal_kind :: string
  log_every :: int
  respect_draft_budget :: bool

datatype ak_error =
    BadInt string | BadFloat string
  | BadLengths | BadThresholds | BadAlpha | BadSeed | BadMode | BadSignal | BadLogEvery

definition default_config :: ak_config where
  "default_config = \<lparr>enabled = True, k_lo = 3, k_hi = 5, up = 58 / 100, down = 42 / 100,
     alpha = 15 / 100, seed = 1, mode = ''per-request'', signal_kind = ''pos'',
     log_every = 200, respect_draft_budget = False\<rparr>"

text \<open>\<open>__post_init__\<close>: the checks in their order.\<close>

definition check_config :: "ak_config \<Rightarrow> ak_error + ak_config" where
  "check_config c =
     (if k_lo c < 1 \<or> k_hi c < k_lo c then Inl BadLengths
      else if \<not> (0 \<le> down c \<and> down c \<le> up c \<and> up c \<le> 1) then Inl BadThresholds
      else if \<not> (0 < alpha c \<and> alpha c \<le> 1) then Inl BadAlpha
      else if \<not> (0 \<le> seed c \<and> seed c \<le> 1) then Inl BadSeed
      else if mode c \<noteq> ''per-request'' \<and> mode c \<noteq> ''batch-uniform'' then Inl BadMode
      else if signal_kind c \<noteq> ''pos'' \<and> signal_kind c \<noteq> ''mean'' then Inl BadSignal
      else if log_every c < 0 then Inl BadLogEvery
      else Inr c)"

type_synonym env = "string \<Rightarrow> string option"

definition env_int :: "env \<Rightarrow> string \<Rightarrow> int \<Rightarrow> ak_error + int" where
  "env_int env name dflt = (case env name of None \<Rightarrow> Inr dflt
     | Some raw \<Rightarrow> if strip raw = [] then Inr dflt
         else (case py_int raw of None \<Rightarrow> Inl (BadInt name) | Some v \<Rightarrow> Inr v))"

definition env_float :: "env \<Rightarrow> string \<Rightarrow> rat \<Rightarrow> ak_error + pyfloat" where
  "env_float env name dflt = (case env name of None \<Rightarrow> Inr (Fin dflt)
     | Some raw \<Rightarrow> if strip raw = [] then Inr (Fin dflt)
         else (case py_float raw of None \<Rightarrow> Inl (BadFloat name) | Some v \<Rightarrow> Inr v))"

definition env_choice :: "env \<Rightarrow> string \<Rightarrow> string \<Rightarrow> string" where
  "env_choice env name dflt =
     (let got = (case env name of None \<Rightarrow> dflt | Some r \<Rightarrow> if r = [] then dflt else r);
          s = strip got
      in if s = [] then dflt else s)"

text \<open>
  Infinities and NaN fail every range check below, whose bounds are all finite, so they
  are replaced by a value outside \<open>[0, 1]\<close> on the same side of the failing test.
\<close>

definition as_rat :: "pyfloat \<Rightarrow> rat" where
  "as_rat f = (case f of Fin x \<Rightarrow> x | PosInf \<Rightarrow> 2 | NegInf \<Rightarrow> - 1 | NaN \<Rightarrow> - 1)"

definition from_env :: "env \<Rightarrow> ak_error + ak_config" where
  "from_env env =
     rbind (env_int env ''VLLM_ADAPTIVE_K_ENABLE'' 1) (\<lambda>en.
     rbind (env_int env ''VLLM_ADAPTIVE_K_LO'' 3) (\<lambda>lo.
     rbind (env_int env ''VLLM_ADAPTIVE_K_HI'' 5) (\<lambda>hi.
     rbind (env_float env ''VLLM_ADAPTIVE_K_UP'' (58 / 100)) (\<lambda>u.
     rbind (env_float env ''VLLM_ADAPTIVE_K_DOWN'' (42 / 100)) (\<lambda>d.
     rbind (env_float env ''VLLM_ADAPTIVE_K_ALPHA'' (15 / 100)) (\<lambda>a.
     rbind (env_float env ''VLLM_ADAPTIVE_K_SEED'' 1) (\<lambda>sd.
     rbind (env_int env ''VLLM_ADAPTIVE_K_LOG_EVERY'' 200) (\<lambda>le.
     rbind (env_int env ''VLLM_ADAPTIVE_K_RESPECT_DRAFT_BUDGET'' 0) (\<lambda>rb.
     check_config \<lparr>enabled = (en \<noteq> 0), k_lo = lo, k_hi = hi, up = as_rat u, down = as_rat d,
       alpha = as_rat a, seed = as_rat sd,
       mode = env_choice env ''VLLM_ADAPTIVE_K_MODE'' ''per-request'',
       signal_kind = env_choice env ''VLLM_ADAPTIVE_K_SIGNAL'' ''pos'',
       log_every = le, respect_draft_budget = (rb \<noteq> 0)\<rparr>)))))))))"

section \<open>The policy\<close>

record req_state =
  st_ema :: rat
  st_k :: int

record ak_counters =
  observations :: nat
  decisions_lo :: nat
  decisions_hi :: nat
  switches :: nat
  steps_uniform_lo :: nat
  steps_uniform_hi :: nat

record policy =
  cfg :: ak_config
  req_states :: "(string \<times> req_state) list"
  counters :: ak_counters

definition new_policy :: "ak_config \<Rightarrow> policy" where
  "new_policy c = \<lparr>cfg = c, req_states = [], counters =
     \<lparr>observations = 0, decisions_lo = 0, decisions_hi = 0, switches = 0,
      steps_uniform_lo = 0, steps_uniform_hi = 0\<rparr>\<rparr>"

definition k_for :: "ak_config \<Rightarrow> rat \<Rightarrow> int option \<Rightarrow> int" where
  "k_for c e current = (if up c \<le> e then k_hi c else if e \<le> down c then k_lo c
     else case current of None \<Rightarrow> k_hi c | Some k \<Rightarrow> k)"

definition set_req :: "string \<Rightarrow> req_state \<Rightarrow> policy \<Rightarrow> policy" where
  "set_req r st p = p\<lparr>req_states := AList.update r st (req_states p)\<rparr>"

text \<open>\<open>_get\<close> creates the state of a request it does not know.\<close>

definition get_req :: "policy \<Rightarrow> string \<Rightarrow> policy \<times> req_state" where
  "get_req p r = (case map_of (req_states p) r of Some st \<Rightarrow> (p, st)
     | None \<Rightarrow> (let st = \<lparr>st_ema = seed (cfg p), st_k = k_for (cfg p) (seed (cfg p)) None\<rparr>
         in (set_req r st p, st)))"

definition ema_of :: "policy \<Rightarrow> string \<Rightarrow> rat option" where
  "ema_of p r = map_option st_ema (map_of (req_states p) r)"

definition tracked :: "policy \<Rightarrow> nat" where
  "tracked p = length (req_states p)"

definition signal :: "ak_config \<Rightarrow> int \<Rightarrow> int \<Rightarrow> rat" where
  "signal c num_accepted num_draft =
     (let denom = min (k_lo c) (max num_draft 1);
          accepted = min (max num_accepted 0) denom
      in if signal_kind c = ''pos'' then (if denom \<le> accepted then 1 else 0)
         else of_int accepted / of_int denom)"

definition observe :: "policy \<Rightarrow> string \<Rightarrow> int \<Rightarrow> int \<Rightarrow> policy \<times> rat" where
  "observe p r num_accepted num_draft =
     (let (p1, st) = get_req p r in
      if num_draft \<le> 0 then (p1, st_ema st)
      else (let a = alpha (cfg p);
                e = a * signal (cfg p) num_accepted num_draft + (1 - a) * st_ema st
            in ((set_req r (st\<lparr>st_ema := e\<rparr>) p1)
                 \<lparr>counters := (counters p1)\<lparr>observations := observations (counters p1) + 1\<rparr>\<rparr>, e)))"

definition count_decision :: "ak_config \<Rightarrow> int \<Rightarrow> bool \<Rightarrow> ak_counters \<Rightarrow> ak_counters" where
  "count_decision c k switched n =
     (let n1 = (if switched then n\<lparr>switches := switches n + 1\<rparr> else n)
      in if k = k_hi c then n1\<lparr>decisions_hi := decisions_hi n1 + 1\<rparr>
         else n1\<lparr>decisions_lo := decisions_lo n1 + 1\<rparr>)"

definition decide :: "policy \<Rightarrow> string \<Rightarrow> policy \<times> int" where
  "decide p r =
     (let (p1, st) = get_req p r;
          k = k_for (cfg p) (st_ema st) (Some (st_k st));
          p2 = (if k \<noteq> st_k st then set_req r (st\<lparr>st_k := k\<rparr>) p1 else p1)
      in (p2\<lparr>counters := count_decision (cfg p) k (k \<noteq> st_k st) (counters p2)\<rparr>, k))"

text \<open>Asking a policy about several requests in turn.\<close>

fun decide_each :: "('p \<Rightarrow> string \<Rightarrow> 'p \<times> int) \<Rightarrow> 'p \<Rightarrow> string list \<Rightarrow> 'p \<times> int list" where
  "decide_each dec p [] = (p, [])"
| "decide_each dec p (r # rs) =
     (let (p1, k) = dec p r; (p2, ks) = decide_each dec p1 rs in (p2, k # ks))"

definition decide_batch :: "policy \<Rightarrow> string list \<Rightarrow> policy \<times> int" where
  "decide_batch p rs =
     (let (p1, ks) = decide_each decide p rs; n = counters p1 in
      if ks \<noteq> [] \<and> list_all (\<lambda>k. k = k_hi (cfg p)) ks
      then (p1\<lparr>counters := n\<lparr>steps_uniform_hi := steps_uniform_hi n + 1\<rparr>\<rparr>, k_hi (cfg p))
      else (p1\<lparr>counters := n\<lparr>steps_uniform_lo := steps_uniform_lo n + 1\<rparr>\<rparr>, k_lo (cfg p)))"

definition evict :: "policy \<Rightarrow> string \<Rightarrow> policy" where
  "evict p r = p\<lparr>req_states := AList.delete r (req_states p)\<rparr>"

section \<open>The policy's invariant\<close>

definition valid_config :: "ak_config \<Rightarrow> bool" where
  "valid_config c = (check_config c = Inr c)"

lemma valid_config_iff:
  "valid_config c \<longleftrightarrow> 1 \<le> k_lo c \<and> k_lo c \<le> k_hi c \<and> 0 \<le> down c \<and> down c \<le> up c \<and> up c \<le> 1 \<and>
     0 < alpha c \<and> alpha c \<le> 1 \<and> 0 \<le> seed c \<and> seed c \<le> 1 \<and>
     (mode c = ''per-request'' \<or> mode c = ''batch-uniform'') \<and>
     (signal_kind c = ''pos'' \<or> signal_kind c = ''mean'') \<and> 0 \<le> log_every c"
  by (auto simp: valid_config_def check_config_def split: if_splits)

lemma check_config_Inr: "check_config c = Inr d \<Longrightarrow> d = c \<and> valid_config c"
  by (auto simp: valid_config_def check_config_def split: if_splits)

lemma from_env_valid: "from_env env = Inr c \<Longrightarrow> valid_config c"
  by (auto simp: from_env_def dest!: check_config_Inr)

definition state_ok :: "ak_config \<Rightarrow> req_state \<Rightarrow> bool" where
  "state_ok c st = (0 \<le> st_ema st \<and> st_ema st \<le> 1 \<and> (st_k st = k_lo c \<or> st_k st = k_hi c))"

definition policy_ok :: "policy \<Rightarrow> bool" where
  "policy_ok p = (valid_config (cfg p) \<and> distinct (map fst (req_states p)) \<and>
     (\<forall>r st. map_of (req_states p) r = Some st \<longrightarrow> state_ok (cfg p) st))"

lemma policy_ok_new: "valid_config c \<Longrightarrow> policy_ok (new_policy c)"
  by (simp add: policy_ok_def new_policy_def)

lemma cfg_new_policy [simp]: "cfg (new_policy c) = c"
  by (simp add: new_policy_def)

lemma cfg_evict [simp]: "cfg (evict p r) = cfg p"
  by (simp add: evict_def)

lemma policy_ok_counters [simp]: "policy_ok (p\<lparr>counters := n\<rparr>) = policy_ok p"
  by (simp add: policy_ok_def)

lemma cfg_set_req [simp]: "cfg (set_req r st p) = cfg p"
  by (simp add: set_req_def)

lemma states_set_req [simp]:
  "map_of (req_states (set_req r st p)) = (map_of (req_states p))(r \<mapsto> st)"
  by (simp add: set_req_def update_conv')

lemma policy_ok_set_req [invs]: "policy_ok p \<Longrightarrow> state_ok (cfg p) st \<Longrightarrow> policy_ok (set_req r st p)"
  by (auto simp: policy_ok_def set_req_def update_conv' distinct_update)

lemma k_for_choice: "k_for c e cur = k_lo c \<or> k_for c e cur = k_hi c \<or> cur = Some (k_for c e cur)"
  by (auto simp: k_for_def split: option.splits)

lemma get_req_ok:
  assumes "policy_ok p" and "get_req p r = (q, st)"
  shows "policy_ok q" and "cfg q = cfg p" and "state_ok (cfg p) st"
    and "map_of (req_states q) r = Some st" and "counters q = counters p"
    and "r' \<noteq> r \<Longrightarrow> map_of (req_states q) r' = map_of (req_states p) r'"
proof -
  have fresh: "state_ok (cfg p) \<lparr>st_ema = seed (cfg p), st_k = k_for (cfg p) (seed (cfg p)) None\<rparr>"
    using assms(1) by (auto simp: policy_ok_def valid_config_iff state_ok_def k_for_def)
  show "policy_ok q" "cfg q = cfg p" "state_ok (cfg p) st" "map_of (req_states q) r = Some st"
    "counters q = counters p"
    "r' \<noteq> r \<Longrightarrow> map_of (req_states q) r' = map_of (req_states p) r'"
    using assms fresh policy_ok_set_req [OF assms(1) fresh]
    by (auto simp: get_req_def Let_def policy_ok_def set_req_def update_conv' split: option.splits)
qed

lemma signal_range: "valid_config c \<Longrightarrow> 0 \<le> signal c a d \<and> signal c a d \<le> 1"
  by (auto simp: signal_def Let_def valid_config_iff divide_le_eq)

lemma ema_step_range:
  fixes a x y :: rat
  assumes "0 < a" "a \<le> 1" "0 \<le> x" "x \<le> 1" "0 \<le> y" "y \<le> 1"
  shows "0 \<le> a * x + (1 - a) * y \<and> a * x + (1 - a) * y \<le> 1"
proof -
  have "a * x \<le> a * 1" "(1 - a) * y \<le> (1 - a) * 1"
    using assms by (intro mult_left_mono; simp)+
  moreover have "0 \<le> a * x" "0 \<le> (1 - a) * y" using assms by simp_all
  ultimately show ?thesis by simp
qed

lemma observe_ok [invs]: "policy_ok p \<Longrightarrow> policy_ok (fst (observe p r a d))"
proof -
  assume ok: "policy_ok p"
  obtain q st where g: "get_req p r = (q, st)" by fastforce
  note gr = get_req_ok [OF ok g]
  have v: "valid_config (cfg p)" using ok by (simp add: policy_ok_def)
  have "state_ok (cfg p) (st\<lparr>st_ema := alpha (cfg p) * signal (cfg p) a d + (1 - alpha (cfg p)) * st_ema st\<rparr>)"
    using gr(3) signal_range [OF v, of a d] v
      ema_step_range [of "alpha (cfg p)" "signal (cfg p) a d" "st_ema st"]
    by (auto simp: state_ok_def valid_config_iff)
  then show ?thesis
    using gr(1,2) by (auto simp: observe_def g Let_def intro: invs)
qed

lemma observe_cfg [simp]: "cfg (fst (observe p r a d)) = cfg p"
  by (auto simp: observe_def get_req_def Let_def split: option.splits prod.splits)

lemma decide_facts:
  assumes "policy_ok p"
  shows "policy_ok (fst (decide p r))" and "cfg (fst (decide p r)) = cfg p"
    and "snd (decide p r) = k_lo (cfg p) \<or> snd (decide p r) = k_hi (cfg p)"
proof -
  obtain q st where g: "get_req p r = (q, st)" by fastforce
  note gr = get_req_ok [OF assms g]
  let ?k = "k_for (cfg p) (st_ema st) (Some (st_k st))"
  have k: "?k = k_lo (cfg p) \<or> ?k = k_hi (cfg p)"
    using gr(3) by (auto simp: k_for_def state_ok_def)
  then have "state_ok (cfg p) (st\<lparr>st_k := ?k\<rparr>)" using gr(3) by (simp add: state_ok_def)
  then show "policy_ok (fst (decide p r))" "cfg (fst (decide p r)) = cfg p"
    "snd (decide p r) = k_lo (cfg p) \<or> snd (decide p r) = k_hi (cfg p)"
    using gr(1,2) k by (auto simp: decide_def g Let_def intro: invs)
qed

lemma evict_ok [invs]: "policy_ok p \<Longrightarrow> policy_ok (evict p r)"
  by (auto simp: policy_ok_def evict_def delete_conv' distinct_delete split: if_splits)

section \<open>Asking for several requests\<close>

text \<open>What a caller of \<open>decide\<close> relies on: the answer is one of the allowed lengths.\<close>

locale length_chooser =
  fixes pick :: "'p \<Rightarrow> string \<Rightarrow> 'p \<times> int"
    and good :: "'p \<Rightarrow> bool"
    and allowed :: "'p \<Rightarrow> int set"
  assumes pick_good: "good p \<Longrightarrow> good (fst (pick p r))"
    and pick_allowed: "good p \<Longrightarrow> allowed (fst (pick p r)) = allowed p"
    and pick_in: "good p \<Longrightarrow> snd (pick p r) \<in> allowed p"
begin

lemma each:
  "good p \<Longrightarrow> good (fst (decide_each pick p rs)) \<and>
     allowed (fst (decide_each pick p rs)) = allowed p \<and>
     length (snd (decide_each pick p rs)) = length rs \<and>
     set (snd (decide_each pick p rs)) \<subseteq> allowed p"
proof (induction rs arbitrary: p)
  case Nil
  then show ?case by simp
next
  case (Cons r rs)
  obtain p1 k where c: "pick p r = (p1, k)" by fastforce
  have g: "good p1" "allowed p1 = allowed p" "k \<in> allowed p"
    using pick_good [OF Cons.prems, of r] pick_allowed [OF Cons.prems, of r]
      pick_in [OF Cons.prems, of r] by (simp_all add: c)
  show ?case
    using Cons.IH [OF g(1)] g by (auto simp: c split: prod.splits)
qed

end

interpretation policy_chooser: length_chooser decide policy_ok "\<lambda>p. {k_lo (cfg p), k_hi (cfg p)}"
  using decide_facts by unfold_locales auto

lemma decide_each_cfg: "policy_ok p \<Longrightarrow> cfg (fst (decide_each decide p rs)) = cfg p"
proof (induction rs arbitrary: p)
  case (Cons r rs)
  have "cfg (fst (decide_each decide (fst (decide p r)) rs)) = cfg p"
    using decide_facts [OF Cons.prems, of r] Cons.IH [of "fst (decide p r)"] by simp
  then show ?case by (simp add: Let_def split_def)
qed simp

lemma decide_batch_facts:
  assumes "policy_ok p"
  shows "policy_ok (fst (decide_batch p rs))" and "cfg (fst (decide_batch p rs)) = cfg p"
    and "snd (decide_batch p rs) \<in> {k_lo (cfg p), k_hi (cfg p)}"
  using policy_chooser.each [OF assms, of rs] decide_each_cfg [OF assms, of rs]
  by (auto simp: decide_batch_def Let_def split: prod.splits)

section \<open>Runs of the policy\<close>

datatype policy_op =
    Observe string int int
  | Decide string
  | DecideBatch "string list"
  | Evict string

fun policy_step :: "policy \<Rightarrow> policy_op \<Rightarrow> policy" where
  "policy_step p (Observe r a d) = fst (observe p r a d)"
| "policy_step p (Decide r) = fst (decide p r)"
| "policy_step p (DecideBatch rs) = fst (decide_batch p rs)"
| "policy_step p (Evict r) = evict p r"

definition policy_run :: "policy \<Rightarrow> policy_op list \<Rightarrow> policy" where
  "policy_run p ops = foldl policy_step p ops"

lemma policy_step_ok: "policy_ok p \<Longrightarrow> policy_ok (policy_step p x) \<and> cfg (policy_step p x) = cfg p"
  by (cases x) (auto intro: invs simp: decide_facts decide_batch_facts)

lemma policy_run_ok: "policy_ok p \<Longrightarrow> policy_ok (policy_run p ops) \<and> cfg (policy_run p ops) = cfg p"
  unfolding policy_run_def
proof (induction ops arbitrary: p)
  case (Cons x ops)
  then show ?case using policy_step_ok [OF Cons.prems, of x] Cons.IH [of "policy_step p x"] by simp
qed simp

definition sample_ops :: "policy_op list" where
  "sample_ops = [Observe ''a'' 0 5, Observe ''a'' 1 5, Decide ''a'', DecideBatch [''a'', ''b''],
     Observe ''b'' 5 5, Evict ''b'', Observe ''a'' 0 5, Observe ''a'' 0 5, Observe ''a'' 0 5,
     Observe ''a'' 0 5, Decide ''a'']"

text \<open>
  C25. From a valid configuration, whatever is observed, decided and evicted, every
  tracked average stays in the unit interval and every draft length is one of the two
  configured ones.
\<close>

theorem policy_bounded:
  assumes "valid_config c"
    and "map_of (req_states (policy_run (new_policy c) ops)) r = Some st"
  shows "0 \<le> st_ema st \<and> st_ema st \<le> 1 \<and> st_k st \<in> {k_lo c, k_hi c}"
proof -
  have "state_ok c st"
    using policy_run_ok [OF policy_ok_new [OF assms(1)], of ops] assms(2)
    unfolding policy_ok_def cfg_new_policy by metis
  then show ?thesis by (auto simp: state_ok_def)
qed

theorem policy_bounded_witness:
  "st_k (the (map_of (req_states (policy_run (new_policy default_config) sample_ops)) ''a'')) = 3"
proof -
  have v: "valid_config default_config" by code_simp
  obtain st where st: "map_of (req_states (policy_run (new_policy default_config) sample_ops)) ''a'' = Some st"
    and k: "st_k st \<noteq> k_hi default_config"
  proof -
    have "case map_of (req_states (policy_run (new_policy default_config) sample_ops)) ''a'' of
      None \<Rightarrow> False | Some st \<Rightarrow> st_k st \<noteq> k_hi default_config" by code_simp
    then show ?thesis using that by (auto split: option.splits)
  qed
  show ?thesis using policy_bounded [OF v st] st k by (simp add: default_config_def)
qed

text \<open>
  Hysteresis: strictly between the two thresholds a decision repeats the previous
  length and counts no switch; a length changes only to \<open>k_hi\<close> at or above \<open>up\<close>, or to
  \<open>k_lo\<close> at or below \<open>down\<close>.
\<close>

theorem decide_hysteresis:
  assumes "map_of (req_states p) r = Some st"
  shows "(down (cfg p) < st_ema st \<and> st_ema st < up (cfg p) \<longrightarrow>
      snd (decide p r) = st_k st \<and> switches (counters (fst (decide p r))) = switches (counters p)) \<and>
    (snd (decide p r) \<noteq> st_k st \<longrightarrow>
      (snd (decide p r) = k_hi (cfg p) \<and> up (cfg p) \<le> st_ema st \<or>
       snd (decide p r) = k_lo (cfg p) \<and> st_ema st \<le> down (cfg p) \<and> st_ema st < up (cfg p)) \<and>
      switches (counters (fst (decide p r))) = switches (counters p) + 1) \<and>
    map_of (req_states (fst (decide p r))) r = Some (st\<lparr>st_k := snd (decide p r)\<rparr>)"
  using assms
  by (auto simp: decide_def get_req_def k_for_def count_decision_def Let_def set_req_def update_conv')

definition band_policy :: policy where
  "band_policy = policy_run (new_policy default_config)
     [Observe ''a'' 0 5, Observe ''a'' 0 5, Observe ''a'' 0 5, Observe ''a'' 0 5]"

theorem decide_hysteresis_witness:
  "snd (decide band_policy ''a'') = 5 \<and>
   switches (counters (fst (decide band_policy ''a''))) = 0"
proof -
  have st: "map_of (req_states band_policy) ''a'' = Some \<lparr>st_ema = 83521 / 160000, st_k = 5\<rparr>"
    by code_simp
  have c: "down (cfg band_policy) < 83521 / 160000" "83521 / 160000 < up (cfg band_policy)"
    "switches (counters band_policy) = 0" by code_simp+
  show ?thesis using decide_hysteresis [OF st] c by simp
qed

text \<open>Steady evidence: the average after \<open>n\<close> equal observations.\<close>

fun observe_n :: "nat \<Rightarrow> policy \<Rightarrow> string \<Rightarrow> int \<Rightarrow> int \<Rightarrow> policy" where
  "observe_n 0 p r a d = p"
| "observe_n (Suc n) p r a d = observe_n n (fst (observe p r a d)) r a d"

lemma observe_state:
  assumes "map_of (req_states p) r = Some st" and "0 < d"
  shows "map_of (req_states (fst (observe p r a d))) r =
    Some (st\<lparr>st_ema := alpha (cfg p) * signal (cfg p) a d + (1 - alpha (cfg p)) * st_ema st\<rparr>)"
  using assms by (simp add: observe_def get_req_def Let_def set_req_def update_conv')

lemma observe_n_state:
  assumes "map_of (req_states p) r = Some st" and "0 < d"
  shows "map_of (req_states (observe_n n p r a d)) r =
      Some (st\<lparr>st_ema := signal (cfg p) a d + (1 - alpha (cfg p)) ^ n * (st_ema st - signal (cfg p) a d)\<rparr>) \<and>
    cfg (observe_n n p r a d) = cfg p"
  using assms(1)
proof (induction n arbitrary: p st)
  case 0
  then show ?case by simp
next
  case (Suc n)
  show ?case
    using Suc.IH [OF observe_state [OF Suc.prems assms(2)], of a] observe_cfg [of p r a d]
    by (simp add: algebra_simps)
qed

lemma rat_power_small:
  fixes x e :: rat
  assumes "0 \<le> x" "x < 1" "0 < e"
  obtains n where "x ^ n < e"
proof -
  have "0 < real_of_rat e" and "real_of_rat x < 1" using assms by simp_all
  then obtain n where "real_of_rat x ^ n < real_of_rat e"
    using real_arch_pow_inv by blast
  then have "real_of_rat (x ^ n) < real_of_rat e" by (simp add: of_rat_power)
  then show ?thesis using that by (simp add: of_rat_less)
qed

text \<open>
  C28. The policy follows steady evidence from any state, in exact arithmetic: with an upper
  threshold below one, finitely many fully accepted drafts of at least \<open>k_lo\<close> tokens make the
  next decision for a tracked request \<open>k_hi\<close>; with a lower threshold strictly between zero and
  the upper one, finitely many rejected drafts of that size make it \<open>k_lo\<close>. The code computes
  the averages in floating point, which is not modelled.
\<close>

theorem policy_follows_evidence:
  assumes ok: "policy_ok p" and st: "map_of (req_states p) r = Some st"
    and d: "k_lo (cfg p) \<le> d"
  shows "(up (cfg p) < 1 \<longrightarrow> (\<exists>n. snd (decide (observe_n n p r d d) r) = k_hi (cfg p))) \<and>
    (0 < down (cfg p) \<and> down (cfg p) < up (cfg p) \<longrightarrow>
       (\<exists>n. snd (decide (observe_n n p r 0 d) r) = k_lo (cfg p)))"
proof -
  have v: "valid_config (cfg p)" and e: "0 \<le> st_ema st" "st_ema st \<le> 1"
    using ok st by (auto simp: policy_ok_def state_ok_def)
  have d0: "0 < d" using v d by (simp add: valid_config_iff)
  have b: "0 \<le> 1 - alpha (cfg p)" "1 - alpha (cfg p) < 1" using v by (auto simp: valid_config_iff)
  have s1: "signal (cfg p) d d = 1"
    using v d d0 by (auto simp: signal_def Let_def valid_config_iff)
  have s0: "signal (cfg p) 0 d = 0"
    using v d d0 by (auto simp: signal_def Let_def valid_config_iff)
  have "\<exists>n. snd (decide (observe_n n p r d d) r) = k_hi (cfg p)" if u: "up (cfg p) < 1"
  proof -
    obtain n where n: "(1 - alpha (cfg p)) ^ n < 1 - up (cfg p)"
      using rat_power_small [OF b, of "1 - up (cfg p)"] u by auto
    have "(1 - alpha (cfg p)) ^ n * (1 - st_ema st) \<le> (1 - alpha (cfg p)) ^ n * 1"
      using b e by (intro mult_left_mono) simp_all
    then have "up (cfg p) \<le> 1 + (1 - alpha (cfg p)) ^ n * (st_ema st - 1)"
      using n by (simp add: algebra_simps)
    then show ?thesis
      using observe_n_state [OF st d0, of n d] s1
      by (intro exI [of _ n]) (simp add: decide_def get_req_def k_for_def Let_def)
  qed
  moreover have "\<exists>n. snd (decide (observe_n n p r 0 d) r) = k_lo (cfg p)"
    if u: "0 < down (cfg p)" "down (cfg p) < up (cfg p)"
  proof -
    obtain n where n: "(1 - alpha (cfg p)) ^ n < down (cfg p)"
      using rat_power_small [OF b, of "down (cfg p)"] u by auto
    have "(1 - alpha (cfg p)) ^ n * st_ema st \<le> (1 - alpha (cfg p)) ^ n * 1"
      using b e by (intro mult_left_mono) simp_all
    then have "(1 - alpha (cfg p)) ^ n * st_ema st \<le> down (cfg p)" using n by simp
    then show ?thesis
      using observe_n_state [OF st d0, of n 0] s0 u
      by (intro exI [of _ n]) (simp add: decide_def get_req_def k_for_def Let_def)
  qed
  ultimately show ?thesis by blast
qed

theorem policy_follows_evidence_witness:
  "\<exists>n. snd (decide (observe_n n band_policy ''a'' 0 3) ''a'') = 3"
proof -
  have ok: "policy_ok band_policy"
    unfolding band_policy_def
    by (rule policy_run_ok [THEN conjunct1], rule policy_ok_new) code_simp
  have st: "map_of (req_states band_policy) ''a'' = Some \<lparr>st_ema = 83521 / 160000, st_k = 5\<rparr>"
    by code_simp
  have c: "k_lo (cfg band_policy) = 3" "0 < down (cfg band_policy)"
    "down (cfg band_policy) < up (cfg band_policy)" by code_simp+
  have d: "k_lo (cfg band_policy) \<le> 3" using c(1) by simp
  show ?thesis using policy_follows_evidence [OF ok st d] c by simp
qed

end
