(* ===== verification/AdaptiveSched.thy ===== *)
theory AdaptiveSched
  imports AdaptiveK
begin

text \<open>
  The scheduler side of \<open>adaptive_k_scheduler.py\<close>: the observation guards, the ring of
  recent hand-outs, placeholder sizing with the draft-budget cap, and the class
  \<open>AdaptiveKScheduler\<close>. The base class, vLLM's \<open>AsyncScheduler\<close>, is not part of the
  repository: its \<open>_update_after_schedule\<close> is a parameter, and so is what
  \<open>SchedulerOutput.resolve_num_spec_tokens_to_schedule\<close> returned.
\<close>

section \<open>Pure helpers\<close>

definition should_observe ::
  "string \<Rightarrow> string list \<Rightarrow> int \<Rightarrow> bool \<Rightarrow> int \<Rightarrow> bool \<Rightarrow> bool \<Rightarrow> bool \<Rightarrow> bool" where
  "should_observe r drafted num_draft has_generated num_sampled is_stale drop_stale kv_load_failed =
     (if kv_load_failed \<or> num_draft \<le> 0 \<or> r \<notin> set drafted then False
      else if \<not> has_generated \<and> num_sampled \<noteq> 0 then False
      else if is_stale \<and> drop_stale then False
      else if is_stale then False
      else True)"

definition placeholder_len :: "int \<Rightarrow> int \<Rightarrow> int" where
  "placeholder_len k_req engine_k = max 0 (min k_req engine_k)"

record drafted_ring =
  slots :: nat
  ring :: "string list list"

text \<open>\<open>None\<close> is the \<open>ValueError\<close> of a ring without slots.\<close>

definition new_ring :: "nat \<Rightarrow> drafted_ring option" where
  "new_ring n = (if n < 1 then None else Some \<lparr>slots = n, ring = []\<rparr>)"

definition push_ring :: "string list \<Rightarrow> drafted_ring \<Rightarrow> drafted_ring" where
  "push_ring rs d = (let r1 = ring d @ [rs] in
     d\<lparr>ring := (if slots d < length r1 then tl r1 else r1)\<rparr>)"

text \<open>A frozenset is represented by a list of its elements.\<close>

definition ring_union :: "drafted_ring \<Rightarrow> string list" where
  "ring_union d = remdups (concat (ring d))"

definition ring_contains :: "string \<Rightarrow> drafted_ring \<Rightarrow> bool" where
  "ring_contains r d = list_ex (\<lambda>s. r \<in> set s) (ring d)"

fun filter_candidates :: "(string \<times> bool \<times> bool \<times> bool) list \<Rightarrow> string list" where
  "filter_candidates [] = []"
| "filter_candidates ((r, finished, prefill_chunk, has_placeholders) # items) =
     (if finished \<or> prefill_chunk \<or> \<not> has_placeholders then filter_candidates items
      else r # filter_candidates items)"

definition assign_lengths ::
  "policy \<Rightarrow> string list \<Rightarrow> string \<Rightarrow> int \<Rightarrow> policy \<times> (string \<times> int) list" where
  "assign_lengths p rs md engine_k =
     (if rs = [] then (p, [])
      else if md = ''batch-uniform'' then
        (let (p1, k) = decide_batch p rs; k_step = placeholder_len k engine_k
         in (p1, dict_of (map (\<lambda>r. (r, k_step)) rs)))
      else (let (p1, ks) = decide_each decide p rs
         in (p1, dict_of (zip rs (map (\<lambda>k. placeholder_len k engine_k) ks)))))"

definition e35_force_single ::
  "(string \<times> int) list \<Rightarrow> string \<Rightarrow> int \<Rightarrow> int \<Rightarrow> nat \<Rightarrow> (string \<times> int) list" where
  "e35_force_single lengths pol k_high engine_k num_scheduled =
     (if (pol \<noteq> ''lag1'' \<and> pol \<noteq> ''hybrid'') \<or> length lengths \<noteq> 1 \<or> num_scheduled \<noteq> 1
      then lengths
      else [(fst (hd lengths), placeholder_len k_high engine_k)])"

section \<open>The scheduler object\<close>

text \<open>The fields of a vLLM request that this class reads and writes.\<close>

record request =
  is_finished :: bool
  is_prefill_chunk :: bool
  spec_token_ids :: "int list"
  num_stale_output_tokens :: int
  drop_stale_output :: bool

record budget_counters =
  bc_steps :: nat
  limited_steps :: nat
  limited_requests :: nat
  trimmed_tokens :: int

record scheduler =
  ak_failed :: bool
  ak_steps :: nat
  ak_ring :: drafted_ring
  ak_budget :: budget_counters
  ak_cfg :: ak_config
  ak_policy :: policy
  ak_engine_k :: int
  e35_switch :: policy_switch
  requests :: "(string \<times> request) list"

type_synonym base_update = "(string \<times> request) list \<Rightarrow> (string \<times> request) list"

text \<open>
  The configuration the constructor settles on, and the engine's draft length: a
  configuration that does not parse, the synchronous path and an engine that drafts
  nothing all disable the policy, and \<open>k_hi\<close> is clamped to what the engine drafts.
\<close>

definition disabled_config :: ak_config where
  "disabled_config = default_config\<lparr>enabled := False\<rparr>"

definition init_config :: "env \<Rightarrow> bool \<Rightarrow> int \<Rightarrow> ak_config \<times> int" where
  "init_config env async_on num_spec_tokens =
     (case from_env env of Inl _ \<Rightarrow> (disabled_config, 0)
      | Inr c0 \<Rightarrow>
        (let engine_k = num_spec_tokens;
             c1 = (if enabled c0 \<and> \<not> async_on then c0\<lparr>enabled := False\<rparr> else c0);
             c2 = (if enabled c1 \<and> engine_k < 1 then c1\<lparr>enabled := False\<rparr> else c1)
         in if enabled c2 \<and> engine_k < k_hi c2
            then (case check_config (c2\<lparr>k_hi := engine_k, k_lo := min (k_lo c2) engine_k\<rparr>) of
                    Inl _ \<Rightarrow> (disabled_config, engine_k) | Inr c3 \<Rightarrow> (c3, engine_k))
            else (c2, engine_k)))"

definition new_scheduler ::
  "env \<Rightarrow> bool \<Rightarrow> int \<Rightarrow> string \<Rightarrow> (string \<times> request) list \<Rightarrow> scheduler" where
  "new_scheduler env async_on num_spec_tokens flag reqs =
     (let (c, ek) = init_config env async_on num_spec_tokens in
      \<lparr>ak_failed = False, ak_steps = 0, ak_ring = \<lparr>slots = 3, ring = []\<rparr>,
       ak_budget = \<lparr>bc_steps = 0, limited_steps = 0, limited_requests = 0, trimmed_tokens = 0\<rparr>,
       ak_cfg = c, ak_policy = new_policy c, ak_engine_k = max ek 0,
       e35_switch = new_switch flag, requests = reqs\<rparr>)"

text \<open>The shared placeholder lists, one per length from 0 to the engine's maximum.\<close>

definition placeholders :: "int \<Rightarrow> int \<Rightarrow> int list option" where
  "placeholders engine_k k = (if 0 \<le> k \<and> k \<le> engine_k then Some (replicate (nat k) (- 1)) else None)"

record sched_output =
  num_scheduled_tokens :: "string list"
  resolved_budget :: "int option"
  spec_decode_tokens :: "(string \<times> nat) list"

definition candidate_items ::
  "(string \<times> request) list \<Rightarrow> string list \<Rightarrow> (string \<times> bool \<times> bool \<times> bool) list" where
  "candidate_items reqs ids = map (\<lambda>r. let q = the (map_of reqs r) in
       (r, is_finished q, is_prefill_chunk q, spec_token_ids q \<noteq> []))
     (filter (\<lambda>r. map_of reqs r \<noteq> None) ids)"

definition apply_cap :: "int \<Rightarrow> (string \<times> int) list \<Rightarrow> (string \<times> int) list" where
  "apply_cap bud lengths = map (\<lambda>(r, k). (r, min k bud)) lengths"

definition count_cap :: "int \<Rightarrow> (string \<times> int) list \<Rightarrow> budget_counters \<Rightarrow> budget_counters" where
  "count_cap bud lengths c =
     (let limited = length (filter (\<lambda>(r, k). bud < k) lengths);
          trimmed = sum_list (map (\<lambda>(r, k). max 0 (k - bud)) lengths)
      in \<lparr>bc_steps = bc_steps c + 1,
          limited_steps = limited_steps c + (if 0 < limited then 1 else 0),
          limited_requests = limited_requests c + limited,
          trimmed_tokens = trimmed_tokens c + trimmed\<rparr>)"

text \<open>Writing the placeholder lists; \<open>None\<close> is a \<open>KeyError\<close>.\<close>

fun write_placeholders ::
  "int \<Rightarrow> (string \<times> int) list \<Rightarrow> (string \<times> request) list \<Rightarrow> (string \<times> request) list option" where
  "write_placeholders engine_k [] reqs = Some reqs"
| "write_placeholders engine_k ((r, k) # lens) reqs =
     (case (map_of reqs r, placeholders engine_k k) of
        (Some q, Some ph) \<Rightarrow>
          write_placeholders engine_k lens (AList.update r (q\<lparr>spec_token_ids := ph\<rparr>) reqs)
      | _ \<Rightarrow> None)"

text \<open>
  \<open>_ak_size_placeholders\<close>. The flag is \<open>False\<close> when an exception left the method; what
  it had already changed stays changed. \<open>now\<close> and \<open>content\<close> are the clock and the policy
  flag file as the switch reads them.
\<close>

definition size_placeholders ::
  "scheduler \<Rightarrow> sched_output \<Rightarrow> rat \<Rightarrow> string option \<Rightarrow> scheduler \<times> bool" where
  "size_placeholders s out now content =
     (let ids = num_scheduled_tokens out;
          candidates = filter_candidates (candidate_items (requests s) ids);
          s1 = s\<lparr>ak_ring := push_ring candidates (ak_ring s)\<rparr>;
          (p2, lens) = assign_lengths (ak_policy s1) candidates (mode (ak_cfg s1)) (ak_engine_k s1);
          (sw, pol) = poll (e35_switch s1) now content;
          s2 = s1\<lparr>ak_policy := p2, e35_switch := sw\<rparr>;
          forced = e35_force_single lens pol (k_hi (ak_cfg s2)) (ak_engine_k s2) (length ids)
      in if respect_draft_budget (ak_cfg s2) \<and> forced \<noteq> [] then
           (case resolved_budget out of None \<Rightarrow> (s2, False)
            | Some rb \<Rightarrow>
              (let bud = max 0 (min (ak_engine_k s2) rb);
                   s3 = s2\<lparr>ak_budget := count_cap bud forced (ak_budget s2)\<rparr>
               in case write_placeholders (ak_engine_k s3) (apply_cap bud forced) (requests s3) of
                    None \<Rightarrow> (s3, False) | Some reqs \<Rightarrow> (s3\<lparr>requests := reqs\<rparr>, True)))
         else (case write_placeholders (ak_engine_k s2) forced (requests s2) of
                 None \<Rightarrow> (s2, False) | Some reqs \<Rightarrow> (s2\<lparr>requests := reqs\<rparr>, True)))"

definition update_after_schedule ::
  "base_update \<Rightarrow> scheduler \<Rightarrow> sched_output \<Rightarrow> rat \<Rightarrow> string option \<Rightarrow> scheduler" where
  "update_after_schedule base s out now content =
     (let s1 = s\<lparr>requests := base (requests s)\<rparr> in
      if \<not> enabled (ak_cfg s1) \<or> ak_failed s1 then s1
      else (let (s2, ok) = size_placeholders s1 out now content
            in if ok then s2 else s2\<lparr>ak_failed := True\<rparr>))"

section \<open>Observing acceptance\<close>

text \<open>The model runner's output: the sampled tokens per index, and each request's index.\<close>

record runner_output =
  invalid_block_ids :: bool
  sampled_token_ids :: "int list list"
  req_id_to_index :: "(string \<times> nat) list"

text \<open>The loop over the step's speculative tokens; the flag is \<open>False\<close> after an \<open>IndexError\<close>.\<close>

fun observe_items ::
  "(string \<times> request) list \<Rightarrow> runner_output \<Rightarrow> int \<Rightarrow> string list \<Rightarrow> (string \<times> nat) list \<Rightarrow> policy
     \<Rightarrow> policy \<times> bool" where
  "observe_items reqs ro num_sampled drafted [] p = (p, True)"
| "observe_items reqs ro num_sampled drafted ((r, nspec) # rest) p =
     (case map_of reqs r of None \<Rightarrow> observe_items reqs ro num_sampled drafted rest p
      | Some q \<Rightarrow>
        if is_finished q then observe_items reqs ro num_sampled drafted rest p
        else (case map_of (req_id_to_index ro) r of
            None \<Rightarrow> observe_items reqs ro num_sampled drafted rest p
          | Some i \<Rightarrow>
            if sampled_token_ids ro \<noteq> [] \<and> length (sampled_token_ids ro) \<le> i then (p, False)
            else (let generated = (if sampled_token_ids ro \<noteq> [] then sampled_token_ids ro ! i else []) in
              if \<not> should_observe r drafted (int nspec) (generated \<noteq> []) num_sampled
                   (0 < num_stale_output_tokens q) (drop_stale_output q) (invalid_block_ids ro)
              then observe_items reqs ro num_sampled drafted rest p
              else observe_items reqs ro num_sampled drafted rest
                     (fst (observe p r (max (int (length generated) - num_sampled) 0) (int nspec))))))"

definition ak_observe :: "scheduler \<Rightarrow> sched_output \<Rightarrow> runner_output \<Rightarrow> int \<Rightarrow> scheduler \<times> bool" where
  "ak_observe s out ro num_sampled =
     (if spec_decode_tokens out = [] then (s, True)
      else (let (p, ok) = observe_items (requests s) ro num_sampled (ring_union (ak_ring s))
                  (spec_decode_tokens out) (ak_policy s)
            in if ok then (s\<lparr>ak_policy := p, ak_steps := ak_steps s + 1\<rparr>, True)
               else (s\<lparr>ak_policy := p\<rparr>, False)))"

text \<open>\<open>update_from_output\<close> observes before the base class mutates or frees requests.\<close>

definition update_from_output ::
  "base_update \<Rightarrow> scheduler \<Rightarrow> sched_output \<Rightarrow> runner_output \<Rightarrow> int \<Rightarrow> scheduler" where
  "update_from_output base s out ro num_sampled =
     (let s1 = (if enabled (ak_cfg s) \<and> \<not> ak_failed s
            then (let (t, ok) = ak_observe s out ro num_sampled
                  in if ok then t else t\<lparr>ak_failed := True\<rparr>)
            else s)
      in s1\<lparr>requests := base (requests s1)\<rparr>)"

definition free_request :: "base_update \<Rightarrow> scheduler \<Rightarrow> string \<Rightarrow> scheduler" where
  "free_request base s r =
     (let s1 = s\<lparr>ak_policy := evict (ak_policy s) r\<rparr> in s1\<lparr>requests := base (requests s1)\<rparr>)"

section \<open>The ring keeps the last hand-outs\<close>

lemma push_ring_slots [simp]: "slots (push_ring rs d) = slots d"
  by (simp add: push_ring_def Let_def)

lemma ring_push:
  "ring (push_ring rs d) = (if slots d \<le> length (ring d) then tl (ring d @ [rs]) else ring d @ [rs])"
  by (simp add: push_ring_def Let_def)

abbreviation push_all :: "drafted_ring \<Rightarrow> string list list \<Rightarrow> drafted_ring" where
  "push_all d hist \<equiv> foldl (\<lambda>e rs. push_ring rs e) d hist"

lemma push_all_slots [simp]: "slots (push_all d hist) = slots d"
  by (induction hist rule: rev_induct) simp_all

lemma ring_window:
  assumes "0 < slots d" and "ring d = []"
  shows "ring (push_all d hist) = drop (length hist - slots d) hist"
proof (induction hist rule: rev_induct)
  case Nil
  then show ?case using assms by simp
next
  case (snoc rs hist)
  show ?case
  proof (cases "slots d \<le> length hist")
    case True
    then have "ring (push_all d (hist @ [rs])) = tl (drop (length hist - slots d) (hist @ [rs]))"
      by (simp add: ring_push snoc.IH)
    also have "\<dots> = drop (Suc (length hist - slots d)) (hist @ [rs])"
      by (simp only: drop_Suc tl_drop)
    finally show ?thesis using True by (simp add: Suc_diff_le)
  next
    case False
    then show ?thesis by (simp add: ring_push snoc.IH)
  qed
qed

section \<open>Dictionaries of lengths\<close>

text \<open>Lengths for a set of requests, all within a range.\<close>

definition lengths_ok :: "int \<Rightarrow> string set \<Rightarrow> (string \<times> int) list \<Rightarrow> bool" where
  "lengths_ok m rs lens = (distinct (map fst lens) \<and> fst ` set lens = rs \<and>
     (\<forall>k \<in> snd ` set lens. 0 \<le> k \<and> k \<le> m))"

lemma placeholder_len_range: "0 \<le> m \<Longrightarrow> 0 \<le> placeholder_len k m \<and> placeholder_len k m \<le> m"
  by (auto simp: placeholder_len_def)

lemma dict_of_ok:
  assumes "\<forall>k \<in> snd ` set kvs. 0 \<le> k \<and> k \<le> m"
  shows "lengths_ok m (fst ` set kvs) (dict_of kvs)"
  using dict_of_facts [of kvs] assms unfolding lengths_ok_def by blast

lemma assign_lengths_ok:
  assumes "policy_ok p" and "0 \<le> m"
  shows "lengths_ok m (set rs) (snd (assign_lengths p rs md m)) \<and>
    policy_ok (fst (assign_lengths p rs md m)) \<and> cfg (fst (assign_lengths p rs md m)) = cfg p"
proof (cases "rs = []")
  case True
  then show ?thesis using assms by (simp add: assign_lengths_def lengths_ok_def)
next
  case False
  obtain p1 k where b: "decide_batch p rs = (p1, k)" by fastforce
  obtain p2 ks where e: "decide_each decide p rs = (p2, ks)" by fastforce
  have len: "length ks = length rs" "policy_ok p2" "cfg p2 = cfg p"
    using policy_chooser.each [OF assms(1), of rs] decide_each_cfg [OF assms(1), of rs] e by auto
  have "lengths_ok m (fst ` set (map (\<lambda>r. (r, placeholder_len k m)) rs))
      (dict_of (map (\<lambda>r. (r, placeholder_len k m)) rs))"
    by (rule dict_of_ok) (auto simp: placeholder_len_range [OF assms(2)])
  then have u: "lengths_ok m (set rs) (dict_of (map (\<lambda>r. (r, placeholder_len k m)) rs))"
    by (simp add: image_image)
  let ?z = "zip rs (map (\<lambda>k. placeholder_len k m) ks)"
  have "lengths_ok m (fst ` set ?z) (dict_of ?z)"
    by (rule dict_of_ok) (auto dest!: set_zip_rightD simp: placeholder_len_range [OF assms(2)])
  moreover have "fst ` set ?z = set rs"
    using len(1) by (metis list.set_map length_map map_fst_zip)
  ultimately show ?thesis
    using False u b e len decide_batch_facts [OF assms(1), of rs] by (auto simp: assign_lengths_def)
qed

lemma force_single_ok: "0 \<le> m \<Longrightarrow> lengths_ok m rs lens \<Longrightarrow> lengths_ok m rs (e35_force_single lens pol kh m n)"
  by (cases lens; cases "tl lens")
    (auto simp: e35_force_single_def lengths_ok_def placeholder_len_range)

lemma apply_cap_ok: "0 \<le> bud \<Longrightarrow> lengths_ok m rs lens \<Longrightarrow> lengths_ok (min m bud) rs (apply_cap bud lens)"
  by (force simp: lengths_ok_def apply_cap_def comp_def split_def image_image)

text \<open>The lengths that reach the requests.\<close>

definition final_cap :: "scheduler \<Rightarrow> sched_output \<Rightarrow> int" where
  "final_cap s out = (if respect_draft_budget (ak_cfg s)
     then max 0 (min (ak_engine_k s) (the (resolved_budget out))) else ak_engine_k s)"

lemma write_placeholders_ok:
  assumes "lengths_ok m rs lens" and "m \<le> engine_k" and "\<forall>r \<in> rs. map_of reqs r \<noteq> None"
  shows "\<exists>reqs'. write_placeholders engine_k lens reqs = Some reqs' \<and>
    (\<forall>r. map_of reqs' r = (case map_of lens r of None \<Rightarrow> map_of reqs r
       | Some k \<Rightarrow> map_option (\<lambda>q. q\<lparr>spec_token_ids := replicate (nat k) (- 1)\<rparr>) (map_of reqs r)))"
  using assms
proof (induction lens arbitrary: rs reqs)
  case Nil
  then show ?case by simp
next
  case (Cons rk lens)
  obtain r k where rk: "rk = (r, k)" by fastforce
  from Cons.prems obtain q where q: "map_of reqs r = Some q"
    by (auto simp: rk lengths_ok_def)
  have k: "0 \<le> k" "k \<le> engine_k" and fresh: "map_of lens r = None"
    and ok: "lengths_ok m (fst ` set lens) lens"
    using Cons.prems by (auto simp: rk lengths_ok_def map_of_eq_None_iff)
  let ?reqs = "AList.update r (q\<lparr>spec_token_ids := replicate (nat k) (- 1)\<rparr>) reqs"
  have "\<forall>r' \<in> fst ` set lens. map_of ?reqs r' \<noteq> None"
    using Cons.prems by (auto simp: rk lengths_ok_def update_conv')
  from Cons.IH [OF ok Cons.prems(2) this] obtain reqs' where
    w: "write_placeholders engine_k lens ?reqs = Some reqs'"
    and m: "\<forall>r. map_of reqs' r = (case map_of lens r of None \<Rightarrow> map_of ?reqs r
       | Some k \<Rightarrow> map_option (\<lambda>q. q\<lparr>spec_token_ids := replicate (nat k) (- 1)\<rparr>) (map_of ?reqs r))"
    by auto
  have "write_placeholders engine_k (rk # lens) reqs = Some reqs'"
    using k by (simp add: rk q placeholders_def w)
  then show ?case
    using m fresh q by (auto simp: rk update_conv' split: option.splits)
qed

lemma candidates_known:
  "r \<in> set (filter_candidates (candidate_items reqs ids)) \<Longrightarrow> map_of reqs r \<noteq> None"
proof -
  have "r \<in> set (filter_candidates items) \<Longrightarrow> r \<in> fst ` set items" for items
    by (induction items rule: filter_candidates.induct) (auto split: if_splits)
  then show "r \<in> set (filter_candidates (candidate_items reqs ids)) \<Longrightarrow> map_of reqs r \<noteq> None"
    by (fastforce simp: candidate_items_def Let_def)
qed

section \<open>Sizing\<close>

definition sched_ok :: "scheduler \<Rightarrow> bool" where
  "sched_ok s = (policy_ok (ak_policy s) \<and> cfg (ak_policy s) = ak_cfg s \<and> 0 \<le> ak_engine_k s)"

definition step_lengths :: "scheduler \<Rightarrow> sched_output \<Rightarrow> rat \<Rightarrow> string option \<Rightarrow> (string \<times> int) list" where
  "step_lengths s out now content =
     (let candidates = filter_candidates (candidate_items (requests s) (num_scheduled_tokens out));
          lens = snd (assign_lengths (ak_policy s) candidates (mode (ak_cfg s)) (ak_engine_k s))
      in e35_force_single lens (snd (poll (e35_switch s) now content)) (k_hi (ak_cfg s)) (ak_engine_k s)
           (length (num_scheduled_tokens out)))"

lemma step_lengths_ok:
  "sched_ok s \<Longrightarrow> lengths_ok (ak_engine_k s)
     (set (filter_candidates (candidate_items (requests s) (num_scheduled_tokens out))))
     (step_lengths s out now content)"
  by (simp add: step_lengths_def Let_def sched_ok_def assign_lengths_ok force_single_ok)

lemma size_placeholders_unfold:
  "size_placeholders s out now content =
    (let candidates = filter_candidates (candidate_items (requests s) (num_scheduled_tokens out));
         s2 = s\<lparr>ak_ring := push_ring candidates (ak_ring s),
                ak_policy := fst (assign_lengths (ak_policy s) candidates (mode (ak_cfg s)) (ak_engine_k s)),
                e35_switch := fst (poll (e35_switch s) now content)\<rparr>;
         forced = step_lengths s out now content
     in if respect_draft_budget (ak_cfg s) \<and> forced \<noteq> [] then
          (case resolved_budget out of None \<Rightarrow> (s2, False)
           | Some rb \<Rightarrow>
             (let bud = max 0 (min (ak_engine_k s) rb);
                  s3 = s2\<lparr>ak_budget := count_cap bud forced (ak_budget s)\<rparr>
              in case write_placeholders (ak_engine_k s) (apply_cap bud forced) (requests s) of
                   None \<Rightarrow> (s3, False) | Some reqs \<Rightarrow> (s3\<lparr>requests := reqs\<rparr>, True)))
        else (case write_placeholders (ak_engine_k s) forced (requests s) of
                None \<Rightarrow> (s2, False) | Some reqs \<Rightarrow> (s2\<lparr>requests := reqs\<rparr>, True)))"
  by (simp add: size_placeholders_def step_lengths_def Let_def split_def cong: option.case_cong)

text \<open>The lengths a step writes, after the optional cap.\<close>

definition final_lengths :: "scheduler \<Rightarrow> int \<Rightarrow> (string \<times> int) list \<Rightarrow> (string \<times> int) list" where
  "final_lengths s rb lens = (if respect_draft_budget (ak_cfg s)
     then apply_cap (max 0 (min (ak_engine_k s) rb)) lens else lens)"

lemma final_lengths_lookup:
  assumes l: "lengths_ok (ak_engine_k s) cands lens"
  shows "if r \<in> cands then \<exists>k. map_of (final_lengths s rb lens) r = Some k \<and> 0 \<le> k \<and>
      k \<le> ak_engine_k s \<and> (respect_draft_budget (ak_cfg s) \<longrightarrow> k \<le> max 0 rb)
    else map_of (final_lengths s rb lens) r = None"
proof -
  let ?bud = "max 0 (min (ak_engine_k s) rb)"
  have "lengths_ok (min (ak_engine_k s) ?bud) cands (apply_cap ?bud lens)"
    using apply_cap_ok [OF _ l, of ?bud] by simp
  then have f: "lengths_ok (if respect_draft_budget (ak_cfg s) then min (ak_engine_k s) ?bud
      else ak_engine_k s) cands (final_lengths s rb lens)"
    using l by (simp add: final_lengths_def)
  show ?thesis
  proof (cases "r \<in> cands")
    case True
    then obtain k where "map_of (final_lengths s rb lens) r = Some k"
      using f by (metis lengths_ok_def map_of_eq_None_iff not_None_eq)
    moreover from this have "k \<in> snd ` set (final_lengths s rb lens)"
      by (metis map_of_SomeD imageI snd_conv)
    ultimately show ?thesis using f True by (auto simp: lengths_ok_def split: if_splits)
  next
    case False
    then show ?thesis using f by (simp add: lengths_ok_def map_of_eq_None_iff)
  qed
qed

lemma size_placeholders_facts:
  assumes ok: "sched_ok s" and rb: "resolved_budget out = Some rb"
  shows "\<exists>t. size_placeholders s out now content = (t, True) \<and> sched_ok t \<and> ak_failed t = ak_failed s \<and>
    (let lens = final_lengths s rb (step_lengths s out now content)
     in \<forall>r. map_of (requests t) r = (case map_of lens r of None \<Rightarrow> map_of (requests s) r
       | Some k \<Rightarrow> map_option (\<lambda>q. q\<lparr>spec_token_ids := replicate (nat k) (- 1)\<rparr>) (map_of (requests s) r)))"
proof -
  let ?lens = "step_lengths s out now content"
  let ?bud = "max 0 (min (ak_engine_k s) rb)"
  let ?cand = "filter_candidates (candidate_items (requests s) (num_scheduled_tokens out))"
  note l = step_lengths_ok [OF ok, of out now content]
  have known: "\<forall>r \<in> set ?cand. map_of (requests s) r \<noteq> None" using candidates_known by blast
  have pol: "policy_ok (fst (assign_lengths (ak_policy s) ?cand (mode (ak_cfg s)) (ak_engine_k s)))"
    "cfg (fst (assign_lengths (ak_policy s) ?cand (mode (ak_cfg s)) (ak_engine_k s))) = ak_cfg s"
    using assign_lengths_ok [of "ak_policy s" "ak_engine_k s" ?cand "mode (ak_cfg s)"] ok
    by (simp_all add: sched_ok_def)
  have cap: "lengths_ok (min (ak_engine_k s) ?bud) (set ?cand) (apply_cap ?bud ?lens)"
    using apply_cap_ok [OF _ l, of ?bud] by simp
  note w = write_placeholders_ok [OF l order_refl known]
  note wc = write_placeholders_ok [OF cap _ known, of "ak_engine_k s"]
  show ?thesis
  proof (cases "respect_draft_budget (ak_cfg s) \<and> ?lens \<noteq> []")
    case True
    then show ?thesis
      using wc rb pol ok by (auto simp: size_placeholders_unfold Let_def sched_ok_def final_lengths_def)
  next
    case False
    then show ?thesis
      using w pol ok by (auto simp: size_placeholders_unfold Let_def sched_ok_def final_lengths_def apply_cap_def)
  qed
qed

section \<open>Properties\<close>

text \<open>
  C16. With the policy active and the step's budget resolved, scheduling never trips the
  fallback; every candidate gets exactly a list of -1 placeholders whose length is
  between 0 and the engine's maximum and, under the cap, at most the resolved draft
  budget; every other request keeps what the base class gave it.
\<close>

theorem placeholders_sized:
  assumes "sched_ok s" and "enabled (ak_cfg s)" and "\<not> ak_failed s" and "resolved_budget out = Some rb"
    and "cands = filter_candidates (candidate_items (base (requests s)) (num_scheduled_tokens out))"
    and "t = update_after_schedule base s out now content"
  shows "\<not> ak_failed t \<and> sched_ok t \<and>
    (\<forall>r. if r \<in> set cands
         then \<exists>q n. map_of (base (requests s)) r = Some q \<and>
                map_of (requests t) r = Some (q\<lparr>spec_token_ids := replicate n (- 1)\<rparr>) \<and>
                int n \<le> ak_engine_k s \<and> (respect_draft_budget (ak_cfg s) \<longrightarrow> int n \<le> max 0 rb)
         else map_of (requests t) r = map_of (base (requests s)) r)"
proof -
  let ?s = "s\<lparr>requests := base (requests s)\<rparr>"
  let ?fin = "final_lengths ?s rb (step_lengths ?s out now content)"
  have ok: "sched_ok ?s" using assms(1) by (simp add: sched_ok_def)
  have eqs: "ak_engine_k ?s = ak_engine_k s" "ak_cfg ?s = ak_cfg s"
    "requests ?s = base (requests s)" "ak_failed ?s = ak_failed s" by simp_all
  note look = final_lengths_lookup [OF step_lengths_ok [OF ok, of out now content], of _ rb,
      unfolded eqs, folded assms(5)]
  obtain t' where t': "size_placeholders ?s out now content = (t', True)" "sched_ok t'"
      "ak_failed t' = ak_failed s"
    and reqs: "\<forall>r. map_of (requests t') r = (case map_of ?fin r of
         None \<Rightarrow> map_of (base (requests s)) r
       | Some k \<Rightarrow> map_option (\<lambda>q. q\<lparr>spec_token_ids := replicate (nat k) (- 1)\<rparr>)
           (map_of (base (requests s)) r))"
    using size_placeholders_facts [OF ok assms(4), of now content, unfolded Let_def eqs] by blast
  have t: "t = t'" using assms(2,3,6) t'(1) by (simp add: update_after_schedule_def Let_def)
  have known: "r \<in> set cands \<Longrightarrow> map_of (base (requests s)) r \<noteq> None" for r
    unfolding assms(5) by (rule candidates_known)
  have "if r \<in> set cands
         then \<exists>q n. map_of (base (requests s)) r = Some q \<and>
                map_of (requests t) r = Some (q\<lparr>spec_token_ids := replicate n (- 1)\<rparr>) \<and>
                int n \<le> ak_engine_k s \<and> (respect_draft_budget (ak_cfg s) \<longrightarrow> int n \<le> max 0 rb)
         else map_of (requests t) r = map_of (base (requests s)) r" for r
  proof (cases "r \<in> set cands")
    case True
    with look obtain k where k: "map_of ?fin r = Some k" "0 \<le> k" "k \<le> ak_engine_k s"
      "respect_draft_budget (ak_cfg s) \<longrightarrow> k \<le> max 0 rb" by meson
    moreover obtain q where "map_of (base (requests s)) r = Some q" using known [OF True] by blast
    ultimately show ?thesis
      using True reqs by (auto simp: t intro!: exI [of _ "nat k"])
  next
    case False
    with look have "map_of ?fin r = None" by meson
    then show ?thesis using False reqs by (simp add: t)
  qed
  moreover have "\<not> ak_failed t \<and> sched_ok t" using t'(2,3) assms(3) by (simp add: t)
  ultimately show ?thesis by blast
qed

definition sample_request :: request where
  "sample_request = \<lparr>is_finished = False, is_prefill_chunk = False, spec_token_ids = [-1, -1, -1, -1, -1],
     num_stale_output_tokens = 0, drop_stale_output = False\<rparr>"

definition sample_env :: env where
  "sample_env = [''VLLM_ADAPTIVE_K_RESPECT_DRAFT_BUDGET'' \<mapsto> ''1'', ''VLLM_ADAPTIVE_K_HI'' \<mapsto> '' 7 '']"

definition sample_scheduler :: scheduler where
  "sample_scheduler = new_scheduler sample_env True 7 ''/flag''
     [(''a'', sample_request), (''b'', sample_request\<lparr>is_prefill_chunk := True\<rparr>)]"

definition sample_output :: sched_output where
  "sample_output = \<lparr>num_scheduled_tokens = [''a'', ''b''], resolved_budget = Some 3,
     spec_decode_tokens = [(''a'', 5), (''b'', 5)]\<rparr>"

theorem placeholders_sized_witness:
  "\<not> ak_failed (update_after_schedule id sample_scheduler sample_output 0 None) \<and>
   (\<exists>n. map_of (requests (update_after_schedule id sample_scheduler sample_output 0 None)) ''a'' =
      Some (sample_request\<lparr>spec_token_ids := replicate n (- 1)\<rparr>) \<and> int n \<le> 3)"
proof -
  have pol: "ak_policy sample_scheduler = new_policy (ak_cfg sample_scheduler)"
    "valid_config (ak_cfg sample_scheduler)" "0 \<le> ak_engine_k sample_scheduler" by code_simp+
  then have ok: "sched_ok sample_scheduler" by (simp add: sched_ok_def policy_ok_new)
  have c: "enabled (ak_cfg sample_scheduler)" "\<not> ak_failed sample_scheduler"
    "resolved_budget sample_output = Some 3" "respect_draft_budget (ak_cfg sample_scheduler)"
    "map_of (requests sample_scheduler) ''a'' = Some sample_request"
    "filter_candidates (candidate_items (id (requests sample_scheduler))
       (num_scheduled_tokens sample_output)) = [''a'']" by code_simp+
  show ?thesis
    using placeholders_sized [OF ok c(1,2,3) refl refl, of id 0 None, unfolded c(6)] c(4,5)
    by (auto split: if_splits)
qed

text \<open>
  The ring is the window of the last three hand-outs: a request is remembered
  exactly when one of them included it.
\<close>

theorem ring_remembers_last:
  assumes "new_ring n = Some d"
  shows "(ring_contains r (push_all d hist) \<longleftrightarrow>
      (\<exists>ids \<in> set (drop (length hist - n) hist). r \<in> set ids)) \<and>
    (r \<in> set (ring_union (push_all d hist)) \<longleftrightarrow> ring_contains r (push_all d hist)) \<and>
    length (ring (push_all d hist)) = min n (length hist)"
proof -
  have d: "0 < slots d" "ring d = []" "slots d = n"
    using assms by (auto simp: new_ring_def split: if_splits)
  show ?thesis
    using ring_window [OF d(1,2), of hist] d(3)
    by (auto simp: ring_contains_def ring_union_def list_ex_iff)
qed

theorem ring_remembers_last_witness:
  "\<not> ring_contains ''a'' (push_all \<lparr>slots = 3, ring = []\<rparr> [[''a''], [''b''], [''c''], [''b'', ''d'']])"
proof -
  have n: "new_ring 3 = Some \<lparr>slots = 3, ring = []\<rparr>" by (simp add: new_ring_def)
  show ?thesis
    using ring_remembers_last [OF n, of "''a''" "[[''a''], [''b''], [''c''], [''b'', ''d'']]"] by simp
qed

lemma init_config_enabled:
  assumes "init_config env async_on n = (c, ek)" and "enabled c"
  shows "async_on" and "valid_config c" and "ek = n" and "k_hi c \<le> ek"
proof -
  obtain c0 where c0: "from_env env = Inr c0"
    using assms by (auto simp: init_config_def disabled_config_def split: sum.splits)
  have v: "valid_config c0" using c0 by (rule from_env_valid)
  show "async_on" "valid_config c" "ek = n" "k_hi c \<le> ek"
    using assms v
    by (auto simp: init_config_def c0 Let_def disabled_config_def split: if_splits sum.splits
        dest!: check_config_Inr)
qed

text \<open>
  The policy runs only where it makes sense: an enabled scheduler came from an
  environment that parses, on the asynchronous path, with draft lengths in
  \<open>1 \<le> k_lo \<le> k_hi\<close> that the engine really drafts; and it starts in the invariant.
\<close>

theorem init_respects_engine:
  assumes "s = new_scheduler env async_on n flag reqs" and "enabled (ak_cfg s)"
  shows "async_on \<and> 1 \<le> k_lo (ak_cfg s) \<and> k_lo (ak_cfg s) \<le> k_hi (ak_cfg s) \<and>
    k_hi (ak_cfg s) \<le> n \<and> ak_engine_k s = n \<and> sched_ok s"
proof -
  obtain c ek where i: "init_config env async_on n = (c, ek)" by fastforce
  have c: "ak_cfg s = c" "ak_policy s = new_policy c" "ak_engine_k s = max ek 0"
    using assms(1) i by (simp_all add: new_scheduler_def)
  note f = init_config_enabled [OF i, folded c(1), OF assms(2)]
  show ?thesis
    using f c policy_ok_new [of c] by (auto simp: valid_config_iff sched_ok_def)
qed

theorem init_respects_engine_witness:
  "k_hi (ak_cfg (new_scheduler sample_env True 4 [] [])) \<le> 4 \<and>
   k_hi (ak_cfg (new_scheduler sample_env True 4 [] [])) = 4"
proof -
  have e: "enabled (ak_cfg (new_scheduler sample_env True 4 [] []))"
    and v: "k_hi (ak_cfg (new_scheduler sample_env True 4 [] [])) = 4" by code_simp+
  show ?thesis using init_respects_engine [OF refl e] v by blast
qed

lemma observe_other:
  "r \<noteq> r' \<Longrightarrow> map_of (req_states (fst (observe p r' a d))) r = map_of (req_states p) r"
  by (auto simp: observe_def get_req_def Let_def set_req_def update_conv' split: option.splits prod.splits)

lemma observe_items_skips:
  assumes "r \<notin> set drafted \<or> invalid_block_ids ro \<or>
    (\<forall>q. map_of reqs r = Some q \<longrightarrow> is_finished q \<or> 0 < num_stale_output_tokens q)"
  shows "map_of (req_states (fst (observe_items reqs ro n drafted items p))) r = map_of (req_states p) r"
  using assms
proof (induction reqs ro n drafted items p rule: observe_items.induct)
  case (1 reqs ro n drafted p)
  then show ?case by simp
next
  case (2 reqs ro n drafted r' nspec rest p)
  then show ?case
    by (cases "r' = r")
      (auto simp: Let_def should_observe_def observe_other split: option.splits if_splits)
qed

text \<open>
  C29. Only trustworthy evidence reaches the average: a step leaves a request's state
  alone when none of the last three hand-outs included it, when a KV load failed, or
  when it is unknown, finished, or still owes output from a preemption.
\<close>

theorem observe_guards:
  assumes "r \<notin> set (ring_union (ak_ring s)) \<or> invalid_block_ids ro \<or>
    (\<forall>q. map_of (requests s) r = Some q \<longrightarrow> is_finished q \<or> 0 < num_stale_output_tokens q)"
  shows "map_of (req_states (ak_policy (update_from_output base s out ro n))) r =
    map_of (req_states (ak_policy s)) r"
  using observe_items_skips [OF assms, of n "spec_decode_tokens out" "ak_policy s"]
  by (auto simp: update_from_output_def ak_observe_def Let_def split: prod.splits)

theorem observe_guards_witness:
  "map_of (req_states (ak_policy (update_from_output id sample_scheduler sample_output
     \<lparr>invalid_block_ids = False, sampled_token_ids = [[1, 2], [3]], req_id_to_index = [(''a'', 0)]\<rparr> 1))) ''a'' = None"
proof -
  have r: "''a'' \<notin> set (ring_union (ak_ring sample_scheduler))" by code_simp
  have e: "req_states (ak_policy sample_scheduler) = []" by code_simp
  show ?thesis by (subst observe_guards) (use r e in simp_all)
qed

text \<open>
  Once the policy has failed, or when it is disabled, the scheduler is the base
  class: both hooks only apply the base class's own update, so it stays failed.
\<close>

theorem fallback_is_base:
  assumes "ak_failed s \<or> \<not> enabled (ak_cfg s)"
  shows "update_after_schedule base s out now content = s\<lparr>requests := base (requests s)\<rparr> \<and>
    update_from_output base s out ro n = s\<lparr>requests := base (requests s)\<rparr>"
  using assms by (auto simp: update_after_schedule_def update_from_output_def Let_def)

theorem fallback_is_base_witness:
  "update_after_schedule (\<lambda>_. []) (sample_scheduler\<lparr>ak_failed := True\<rparr>) sample_output 0 None =
   sample_scheduler\<lparr>ak_failed := True, requests := []\<rparr>"
  using fallback_is_base [of "sample_scheduler\<lparr>ak_failed := True\<rparr>" "\<lambda>_. []" sample_output 0 None] by simp

lemma single_candidate:
  assumes "sched_ok s" and "num_scheduled_tokens out = [r]"
    and "map_of (requests s) r = Some q" "\<not> is_finished q" "\<not> is_prefill_chunk q" "spec_token_ids q \<noteq> []"
  shows "\<exists>k. snd (assign_lengths (ak_policy s)
      (filter_candidates (candidate_items (requests s) (num_scheduled_tokens out)))
      (mode (ak_cfg s)) (ak_engine_k s)) = [(r, k)]"
proof -
  have c: "filter_candidates (candidate_items (requests s) [r]) = [r]"
    using assms by (simp add: candidate_items_def)
  let ?l = "snd (assign_lengths (ak_policy s) [r] (mode (ak_cfg s)) (ak_engine_k s))"
  have "lengths_ok (ak_engine_k s) (set [r]) ?l"
    using assms(1) assign_lengths_ok [of "ak_policy s" "ak_engine_k s" "[r]" "mode (ak_cfg s)"]
    by (simp add: sched_ok_def)
  then have "distinct (map fst ?l)" and keys: "set (map fst ?l) = {r}"
    by (simp_all add: lengths_ok_def)
  then have "length (map fst ?l) = 1" by (metis card_1_singleton_iff distinct_card One_nat_def)
  then show ?thesis using keys by (cases ?l) (auto simp: assms(2) c)
qed

text \<open>
  The E35 rule: when the flag file selects a runner policy and the step schedules
  exactly one request, a decode candidate, that request is handed the high length, as
  far as the engine drafts it, whatever the policy decided.
\<close>

theorem e35_single_gets_high:
  assumes "sched_ok s" and "num_scheduled_tokens out = [r]"
    and "map_of (requests s) r = Some q" "\<not> is_finished q" "\<not> is_prefill_chunk q" "spec_token_ids q \<noteq> []"
    and "snd (poll (e35_switch s) now content) \<in> {''lag1'', ''hybrid''}"
  shows "step_lengths s out now content = [(r, max 0 (min (k_hi (ak_cfg s)) (ak_engine_k s)))]"
  using single_candidate [OF assms(1-6)] assms(2,7)
  by (auto simp: step_lengths_def e35_force_single_def placeholder_len_def)

theorem e35_single_gets_high_witness:
  "step_lengths sample_scheduler (sample_output\<lparr>num_scheduled_tokens := [''a'']\<rparr>) 0 (Some ''lag1 '') =
     [(''a'', 7)]"
proof -
  have "ak_policy sample_scheduler = new_policy (ak_cfg sample_scheduler)"
    "valid_config (ak_cfg sample_scheduler)" "0 \<le> ak_engine_k sample_scheduler" by code_simp+
  then have ok: "sched_ok sample_scheduler" by (simp add: sched_ok_def policy_ok_new)
  have q: "map_of (requests sample_scheduler) ''a'' = Some sample_request" by code_simp
  have n: "num_scheduled_tokens (sample_output\<lparr>num_scheduled_tokens := [''a'']\<rparr>) = [''a'']" by simp
  have c: "\<not> is_finished sample_request" "\<not> is_prefill_chunk sample_request"
    "spec_token_ids sample_request \<noteq> []" by (simp_all add: sample_request_def)
  have p: "snd (poll (e35_switch sample_scheduler) 0 (Some ''lag1 '')) \<in> {''lag1'', ''hybrid''}"
    and k: "k_hi (ak_cfg sample_scheduler) = 7" "ak_engine_k sample_scheduler = 7" by code_simp+
  show ?thesis using e35_single_gets_high [OF ok n q c p] k by simp
qed

end
