(* ===== verification/HybridCodec.thy ===== *)
theory HybridCodec
  imports PyJson
begin

text \<open>
  The block-page codec of \<open>third_party/sparkcache/spark_context_cache_hybrid.py\<close>: page
  layouts and their validation, the SPHP1 snapshot format (a JSON header followed by one
  opaque payload per layer), the SPHD1 delta format, and the splitting of a snapshot into
  parts. The hash is a parameter \<open>sha\<close>, the hexadecimal digest of \<open>hashlib.sha256\<close>; an
  incremental digest is the digest of the concatenation. Integers that Python checks with
  \<open>isinstance\<close> at the call boundary are integers here.
\<close>

section \<open>Layouts\<close>

datatype codec_error = HybridCodecError string | StructError | TypeErrorRaised | IndexErrorRaised | KeyErrorRaised

type_synonym hash = "byte list \<Rightarrow> string"

record page_layer =
  lname :: string
  ldtype :: string
  page_shape :: "int list"
  bytes_per_page :: int

record page_group =
  block_size :: int
  layers :: "page_layer list"
  reuse_policy :: string
  reuse_window_tokens :: "int option"

record page_layout =
  groups :: "page_group list"

definition check_layer :: "page_layer \<Rightarrow> codec_error + unit" where
  "check_layer l =
     (if lname l = [] \<or> ldtype l = [] \<or> page_shape l = []
      then Inl (HybridCodecError ''page layer metadata is incomplete'')
      else if bytes_per_page l \<le> 0 \<or> (\<exists>size\<in>set (page_shape l). size \<le> 0)
      then Inl (HybridCodecError ''page layer geometry must be positive'')
      else Inr ())"

definition show_int :: "int \<Rightarrow> string" where
  "show_int i = map char_of (int_text i)"

text \<open>Names are compared by code points, as Python compares strings.\<close>

definition check_group :: "page_group \<Rightarrow> codec_error + unit" where
  "check_group g =
     (if block_size g \<le> 0 \<or> layers g = []
      then Inl (HybridCodecError ''page group geometry is incomplete'')
      else if reuse_policy g \<notin> {''full'', ''sliding'', ''recurrent_align''}
      then Inl (HybridCodecError ''page group reuse policy is unsupported'')
      else if reuse_policy g \<in> {''full'', ''recurrent_align''} \<and> reuse_window_tokens g \<noteq> None
      then Inl (HybridCodecError (reuse_policy g @ '' page group cannot declare a reuse window''))
      else if reuse_policy g = ''sliding'' \<and>
        (case reuse_window_tokens g of None \<Rightarrow> True | Some w \<Rightarrow> w \<le> 1)
      then Inl (HybridCodecError ''sliding page group reuse window is invalid'')
      else (let names = map (asc \<circ> lname) (layers g) in
        if names \<noteq> sort names \<or> length names \<noteq> card (set names)
        then Inl (HybridCodecError ''page group layers must be sorted and unique'')
        else Inr ()))"

definition layout_names :: "page_layout \<Rightarrow> string list" where
  "layout_names L = concat (map (\<lambda>g. map lname (layers g)) (groups L))"

definition check_layout :: "page_layout \<Rightarrow> codec_error + unit" where
  "check_layout L =
     (if groups L = [] then Inl (HybridCodecError ''page layout has no groups'')
      else if length (layout_names L) \<noteq> card (set (layout_names L))
      then Inl (HybridCodecError ''a layer belongs to multiple page groups'')
      else Inr ())"

text \<open>A layout that was constructed: every constructor check passed.\<close>

definition layout_ok :: "page_layout \<Rightarrow> bool" where
  "layout_ok L \<longleftrightarrow> check_layout L = Inr () \<and>
     (\<forall>g\<in>set (groups L). check_group g = Inr () \<and> (\<forall>l\<in>set (layers g). check_layer l = Inr ()))"

definition jstr :: "string \<Rightarrow> json" where
  "jstr s = JStr (asc s)"

definition jints :: "int list \<Rightarrow> json" where
  "jints xs = JArr (map JInt xs)"

definition layer_json :: "page_layer \<Rightarrow> json" where
  "layer_json l = jobj_sorted [(''name'', jstr (lname l)), (''dtype'', jstr (ldtype l)),
     (''page_shape'', jints (page_shape l)), (''bytes_per_page'', JInt (bytes_per_page l))]"

definition group_json :: "page_group \<Rightarrow> json" where
  "group_json g = jobj_sorted [(''block_size'', JInt (block_size g)),
     (''layers'', JArr (map layer_json (layers g))), (''reuse_policy'', jstr (reuse_policy g)),
     (''reuse_window_tokens'', (case reuse_window_tokens g of None \<Rightarrow> JNull | Some w \<Rightarrow> JInt w))]"

definition layout_digest :: "hash \<Rightarrow> page_layout \<Rightarrow> string" where
  "layout_digest sha L =
     sha (ascii_bytes (dumps (jobj_sorted [(''groups'', JArr (map group_json (groups L)))])))"

section \<open>Framing\<close>

definition str_bytes :: "string \<Rightarrow> byte list" where
  "str_bytes s = map of_char s"

definition magic :: "byte list" where
  "magic = str_bytes ''SPHP1'' @ [0]"

definition delta_magic :: "byte list" where
  "delta_magic = str_bytes ''SPHD1'' @ [0]"

text \<open>\<open>struct.Struct("<I")\<close>.\<close>

definition pack_u32 :: "nat \<Rightarrow> codec_error + byte list" where
  "pack_u32 n = (if 4294967296 \<le> n then Inl StructError
     else Inr [word_of_nat n, word_of_nat (n div 256), word_of_nat (n div 65536),
               word_of_nat (n div 16777216)])"

fun unpack_u32 :: "byte list \<Rightarrow> nat" where
  "unpack_u32 (a # b # c # d # _) = unat a + 256 * unat b + 65536 * unat c + 16777216 * unat d"
| "unpack_u32 _ = 0"

definition frame :: "byte list \<Rightarrow> json \<Rightarrow> codec_error + byte list" where
  "frame mg h = (let header = ascii_bytes (dumps h) in
     rbind (pack_u32 (length header)) (\<lambda>n. Inr (mg @ n @ header)))"

text \<open>
  The checks on the prefix that both formats share; \<open>what\<close> is the word of the message. The
  result is the header and the offset of the payload.
\<close>

definition unframe :: "byte list \<Rightarrow> string \<Rightarrow> byte list \<Rightarrow> codec_error + (json \<times> nat)" where
  "unframe mg what view =
     (let prefix = length mg + 4 in
      if length view < prefix \<or> take (length mg) view \<noteq> mg
      then Inl (HybridCodecError (''hybrid page '' @ what @ '' has an invalid prefix''))
      else (let header_length = unpack_u32 (drop (length mg) view);
                header_end = prefix + header_length in
        if header_length \<le> 0 \<or> length view < header_end
        then Inl (HybridCodecError (''hybrid page '' @ what @ '' header is truncated''))
        else (case loads_bytes (slice prefix header_end view) of
            Inl e \<Rightarrow> Inl (HybridCodecError (''hybrid page '' @ what @ '' header is invalid''))
          | Inr h \<Rightarrow> Inr (h, header_end))))"

section \<open>Snapshots\<close>

record span =
  layer_name :: string
  group_index :: nat
  source_start :: int
  source_end :: int
  page_count :: int
  span_bytes_per_page :: int

record snapshot_plan =
  header_bytes :: nat
  total_bytes :: int
  block_counts :: "int list"
  spans :: "span list"

text \<open>
  The loop nest of the codec: groups with one value each, then the layers of the group.
  A row is the group's index, its value and a layer.
\<close>

type_synonym 'x row = "nat \<times> 'x \<times> page_layer"

definition rows :: "page_layout \<Rightarrow> 'x list \<Rightarrow> 'x row list" where
  "rows L xs = concat (map (\<lambda>(gi, g, x). map (\<lambda>l. (gi, x, l)) (layers g))
     (zip [0..<length (groups L)] (zip (groups L) xs)))"

definition header_json :: "hash \<Rightarrow> page_layout \<Rightarrow> int list \<Rightarrow> json" where
  "header_json sha L counts = jobj_sorted [(''schema'', jstr ''sparkcache-hybrid-pages/v1''),
     (''layout_sha256'', jstr (layout_digest sha L)), (''block_counts'', jints counts)]"

definition check_counts :: "page_layout \<Rightarrow> int list \<Rightarrow> codec_error + unit" where
  "check_counts L counts =
     (if length counts \<noteq> length (groups L)
      then Inl (HybridCodecError ''block-count vector disagrees with page groups'')
      else if \<exists>c\<in>set counts. c \<le> 0
      then Inl (HybridCodecError ''every page group must contribute at least one block'')
      else Inr ())"

definition encode_page_snapshot_header ::
  "hash \<Rightarrow> page_layout \<Rightarrow> int list \<Rightarrow> codec_error + byte list" where
  "encode_page_snapshot_header sha L counts =
     rbind (check_counts L counts) (\<lambda>_. frame magic (header_json sha L counts))"

definition page_snapshot_encoded_size ::
  "hash \<Rightarrow> page_layout \<Rightarrow> int list \<Rightarrow> codec_error + int" where
  "page_snapshot_encoded_size sha L counts =
     rbind (encode_page_snapshot_header sha L counts) (\<lambda>header.
       Inr (int (length header) +
         sum_list (map (\<lambda>(gi, c, l). c * bytes_per_page l) (rows L counts))))"

text \<open>Python's \<open>==\<close> between a JSON value and an integer, and \<open>tuple(...)\<close> of a JSON value.\<close>

definition num_eq :: "json \<Rightarrow> int \<Rightarrow> bool" where
  "num_eq j n = (case j of JInt i \<Rightarrow> i = n | JBool b \<Rightarrow> (if b then 1 else 0) = n
     | JFloat m e \<Rightarrow> if 0 \<le> e then m * 10 ^ nat e = n else m = n * 10 ^ nat (- e)
     | _ \<Rightarrow> False)"

definition tuple_of :: "json \<Rightarrow> codec_error + json list" where
  "tuple_of j = (case j of JArr vs \<Rightarrow> Inr vs | JStr s \<Rightarrow> Inr (map (\<lambda>c. JStr [c]) s)
     | JObj kvs \<Rightarrow> Inr (map (JStr \<circ> fst) kvs) | _ \<Rightarrow> Inl TypeErrorRaised)"

definition counts_differ :: "json \<Rightarrow> int list \<Rightarrow> codec_error + bool" where
  "counts_differ h counts =
     rbind (case jget h ''block_counts'' of None \<Rightarrow> Inr [] | Some j \<Rightarrow> tuple_of j)
       (\<lambda>vs. Inr (\<not> list_all2 num_eq vs counts))"

definition is_obj :: "json \<Rightarrow> bool" where
  "is_obj j = (case j of JObj _ \<Rightarrow> True | _ \<Rightarrow> False)"

definition header_differs ::
  "hash \<Rightarrow> page_layout \<Rightarrow> json \<Rightarrow> int list \<Rightarrow> codec_error + bool" where
  "header_differs sha L h counts =
     (if \<not> is_obj h \<or> jget h ''schema'' \<noteq> Some (jstr ''sparkcache-hybrid-pages/v1'')
         \<or> jget h ''layout_sha256'' \<noteq> Some (jstr (layout_digest sha L))
      then Inr True
      else rbind (counts_differ h counts)
        (\<lambda>d. Inr (d \<or> length counts \<noteq> length (groups L))))"

definition plan_span ::
  "int \<Rightarrow> int row \<Rightarrow> int \<times> span list \<Rightarrow> codec_error + (int \<times> span list)" where
  "plan_span tot = (\<lambda>(gi, count, l) (offset, acc).
     (let size = count * bytes_per_page l; stop = offset + size in
      if stop > tot
      then Inl (HybridCodecError (''hybrid page snapshot is truncated at '' @ lname l))
      else Inr (stop, acc @ [\<lparr>layer_name = lname l, group_index = gi, source_start = offset,
        source_end = stop, page_count = count, span_bytes_per_page = bytes_per_page l\<rparr>])))"

definition plan_page_snapshot ::
  "hash \<Rightarrow> page_layout \<Rightarrow> byte list \<Rightarrow> int list \<Rightarrow> int option \<Rightarrow> codec_error + snapshot_plan" where
  "plan_page_snapshot sha L view counts total_arg =
     rbind (unframe magic ''snapshot'' view) (\<lambda>(h, header_end).
       if \<exists>c\<in>set counts. c \<le> 0
       then Inl (HybridCodecError ''hybrid page block counts must be positive'')
       else rbind (header_differs sha L h counts) (\<lambda>differs.
         if differs
         then Inl (HybridCodecError ''hybrid page snapshot identity or block counts differ'')
         else (let tot = (case total_arg of None \<Rightarrow> int (length view) | Some t \<Rightarrow> t) in
           if tot < int header_end \<or> int (length view) > tot
           then Inl (HybridCodecError ''hybrid page snapshot total length is invalid'')
           else rbind (rfold (plan_span tot) (rows L counts) (int header_end, []))
             (\<lambda>(offset, sps).
               if offset \<noteq> tot
               then Inl (HybridCodecError ''hybrid page snapshot has trailing bytes'')
               else Inr \<lparr>header_bytes = header_end, total_bytes = tot,
                      block_counts = counts, spans = sps\<rparr>))))"

definition encode_part ::
  "(string \<times> byte list) list \<Rightarrow> int row \<Rightarrow> byte list list \<Rightarrow> codec_error + byte list list" where
  "encode_part payloads = (\<lambda>(gi, count, l) parts.
     (case map_of payloads (lname l) of None \<Rightarrow> Inl KeyErrorRaised
      | Some payload \<Rightarrow>
        if int (length payload) \<noteq> count * bytes_per_page l
        then Inl (HybridCodecError (''layer '' @ lname l @ '' carries '' @
          show_int (int (length payload)) @ '' bytes, expected '' @
          show_int (count * bytes_per_page l)))
        else Inr (parts @ [payload])))"

definition encode_page_snapshot ::
  "hash \<Rightarrow> page_layout \<Rightarrow> int list \<Rightarrow> (string \<times> byte list) list \<Rightarrow> codec_error + byte list" where
  "encode_page_snapshot sha L counts payloads =
     rbind (check_counts L counts) (\<lambda>_.
       if fst ` set payloads \<noteq> set (layout_names L)
       then Inl (HybridCodecError ''page payload names disagree with layout'')
       else rbind (rfold (encode_part payloads) (rows L counts) []) (\<lambda>parts.
         rbind (encode_page_snapshot_header sha L counts) (\<lambda>header.
           Inr (header @ concat parts))))"

definition span_bytes :: "byte list \<Rightarrow> span \<Rightarrow> byte list" where
  "span_bytes encoded s = slice (nat (source_start s)) (nat (source_end s)) encoded"

definition decode_page_snapshot ::
  "hash \<Rightarrow> page_layout \<Rightarrow> byte list \<Rightarrow> int list \<Rightarrow> codec_error + (string \<times> byte list) list" where
  "decode_page_snapshot sha L encoded counts =
     rbind (plan_page_snapshot sha L encoded counts None) (\<lambda>plan.
       Inr (dict_of (map (\<lambda>s. (layer_name s, span_bytes encoded s)) (spans plan))))"

section \<open>Deltas\<close>

record delta_tail =
  tail_layer :: string
  tail_group :: nat
  tail_start :: int
  tail_end :: int
  destination_byte_offset :: int
  tail_sha256 :: string

record delta_plan =
  delta_header_bytes :: nat
  delta_total_bytes :: int
  base_block_counts :: "int list"
  result_block_counts :: "int list"
  base_boundary_tokens :: int
  result_boundary_tokens :: int
  base_snapshot_sha256 :: string
  result_snapshot_sha256 :: string
  reused_pages_by_group :: "int list"
  tails :: "delta_tail list"

definition validate_delta_boundaries :: "int \<Rightarrow> int \<Rightarrow> codec_error + unit" where
  "validate_delta_boundaries b r =
     (if b \<le> 0 \<or> r \<le> b then Inl (HybridCodecError ''page delta boundaries are invalid'') else Inr ())"

text \<open>A digest in a header, and its text.\<close>

definition hex_chars :: "utext" where
  "hex_chars = asc ''0123456789abcdef''"

definition is_sha256 :: "json \<Rightarrow> bool" where
  "is_sha256 j = (case j of JStr s \<Rightarrow> length s = 64 \<and> (\<forall>c\<in>set s. c \<in> set hex_chars) | _ \<Rightarrow> False)"

text \<open>What is documented of \<open>hexdigest\<close>: 64 lower-case hexadecimal digits.\<close>

definition hex_hash :: "hash \<Rightarrow> bool" where
  "hex_hash sha \<longleftrightarrow> (\<forall>b. is_sha256 (jstr (sha b)))"

definition str_of :: "json \<Rightarrow> string" where
  "str_of j = (case j of JStr s \<Rightarrow> map char_of s | _ \<Rightarrow> [])"

definition jkeys :: "json \<Rightarrow> utext set" where
  "jkeys j = (case j of JObj kvs \<Rightarrow> fst ` set kvs | _ \<Rightarrow> {})"

text \<open>A subscript \<open>header[key]\<close> on a dictionary whose keys were checked.\<close>

definition jsub :: "json \<Rightarrow> string \<Rightarrow> json" where
  "jsub j k = (case jget j k of Some v \<Rightarrow> v | None \<Rightarrow> JNull)"

fun int_of :: "json \<Rightarrow> int option" where
  "int_of (JInt i) = Some i"
| "int_of _ = None"

text \<open>A list of which every element's type is exactly \<open>int\<close>.\<close>

definition int_list :: "json \<Rightarrow> int list option" where
  "int_list j = (case j of JArr vs \<Rightarrow> those (map int_of vs) | _ \<Rightarrow> None)"

definition items_of :: "json \<Rightarrow> json list option" where
  "items_of j = (case j of JArr vs \<Rightarrow> Some vs | _ \<Rightarrow> None)"

definition delta_keys :: "string list" where
  "delta_keys = [''schema'', ''layout_sha256'', ''base_snapshot_sha256'', ''result_snapshot_sha256'',
     ''base_block_counts'', ''result_block_counts'', ''base_boundary_tokens'',
     ''result_boundary_tokens'', ''reused_pages_by_group'', ''layer_tails'']"

definition counts_extend :: "page_layout \<Rightarrow> int list \<Rightarrow> int list \<Rightarrow> bool" where
  "counts_extend L bs rs \<longleftrightarrow> length bs = length (groups L) \<and> length rs = length (groups L) \<and>
     list_all2 (\<lambda>b r. 0 < b \<and> b \<le> r) bs rs"

definition descriptor_ok :: "page_layer \<Rightarrow> int \<Rightarrow> json \<Rightarrow> bool" where
  "descriptor_ok l expected d \<longleftrightarrow> is_obj d \<and> jkeys d = {asc ''name'', asc ''bytes'', asc ''sha256''} \<and>
     jsub d ''name'' = jstr (lname l) \<and> jsub d ''bytes'' = JInt expected \<and>
     is_sha256 (jsub d ''sha256'')"

text \<open>
  The loop over the layers of a group consumes the descriptors in order, as the code does
  with \<open>layer_index\<close>.
\<close>

type_synonym delta_state = "json list \<times> int \<times> delta_tail list"

definition plan_tail ::
  "int \<Rightarrow> nat \<Rightarrow> int \<Rightarrow> int \<Rightarrow> page_layer \<Rightarrow> delta_state \<Rightarrow> codec_error + delta_state" where
  "plan_tail tot gi result_count reused l = (\<lambda>(ds, offset, acc).
     (case ds of [] \<Rightarrow> Inl IndexErrorRaised
      | d # ds' \<Rightarrow>
        (let expected = (result_count - reused) * bytes_per_page l; stop = offset + expected in
         if \<not> descriptor_ok l expected d
         then Inl (HybridCodecError ''hybrid page delta layer descriptor differs'')
         else if stop > tot
         then Inl (HybridCodecError ''hybrid page delta payload is truncated'')
         else Inr (ds', stop, acc @ [\<lparr>tail_layer = lname l, tail_group = gi, tail_start = offset,
           tail_end = stop, destination_byte_offset = reused * bytes_per_page l,
           tail_sha256 = str_of (jsub d ''sha256'')\<rparr>]))))"

definition plan_group_tails ::
  "int \<Rightarrow> nat \<times> page_group \<times> int \<times> int \<times> json \<Rightarrow> delta_state \<Rightarrow> codec_error + delta_state" where
  "plan_group_tails tot = (\<lambda>(gi, g, b, r, reused) s.
     (case int_of reused of
        None \<Rightarrow> Inl (HybridCodecError ''hybrid page delta reuse count is invalid'')
      | Some k \<Rightarrow>
        if \<not> (0 \<le> k \<and> k \<le> b)
        then Inl (HybridCodecError ''hybrid page delta reuse count is invalid'')
        else rfold (plan_tail tot gi r k) (layers g) s))"

definition plan_page_delta ::
  "hash \<Rightarrow> page_layout \<Rightarrow> byte list \<Rightarrow> int list \<Rightarrow> int list \<Rightarrow> int \<Rightarrow> int \<Rightarrow> int option \<Rightarrow>
   codec_error + delta_plan" where
  "plan_page_delta sha L view bs rs bb rb total_arg =
     rbind (validate_delta_boundaries bb rb) (\<lambda>_.
     rbind (unframe delta_magic ''delta'' view) (\<lambda>(h, header_end).
       if \<not> is_obj h \<or> jkeys h \<noteq> set (map asc delta_keys)
       then Inl (HybridCodecError ''hybrid page delta header fields differ'')
       else if int_list (jsub h ''base_block_counts'') = None
         \<or> int_list (jsub h ''result_block_counts'') = None
         \<or> int_of (jsub h ''base_boundary_tokens'') = None
         \<or> int_of (jsub h ''result_boundary_tokens'') = None
       then Inl (HybridCodecError ''hybrid page delta header geometry is invalid'')
       else if \<not> counts_extend L bs rs
       then Inl (HybridCodecError ''page delta block counts do not extend the base'')
       else if jsub h ''schema'' \<noteq> jstr ''sparkcache-hybrid-page-delta/v1''
         \<or> jsub h ''layout_sha256'' \<noteq> jstr (layout_digest sha L)
         \<or> int_list (jsub h ''base_block_counts'') \<noteq> Some bs
         \<or> int_list (jsub h ''result_block_counts'') \<noteq> Some rs
         \<or> int_of (jsub h ''base_boundary_tokens'') \<noteq> Some bb
         \<or> int_of (jsub h ''result_boundary_tokens'') \<noteq> Some rb
         \<or> \<not> is_sha256 (jsub h ''base_snapshot_sha256'')
         \<or> \<not> is_sha256 (jsub h ''result_snapshot_sha256'')
       then Inl (HybridCodecError ''hybrid page delta identity or base differs'')
       else (case (items_of (jsub h ''reused_pages_by_group''), items_of (jsub h ''layer_tails'')) of
         (Some reused, Some raw_tails) \<Rightarrow>
           if length reused \<noteq> length (groups L) \<or> length raw_tails \<noteq> length (layout_names L)
           then Inl (HybridCodecError ''hybrid page delta descriptor count differs'')
           else (let tot = (case total_arg of None \<Rightarrow> int (length view) | Some t \<Rightarrow> t) in
             if tot < int header_end \<or> int (length view) > tot
             then Inl (HybridCodecError ''hybrid page delta total length is invalid'')
             else rbind (rfold (plan_group_tails tot)
                 (zip [0..<length (groups L)] (zip (groups L) (zip bs (zip rs reused))))
                 (raw_tails, int header_end, []))
               (\<lambda>(_, offset, ts).
                 if offset \<noteq> tot
                 then Inl (HybridCodecError ''hybrid page delta has trailing bytes'')
                 else Inr \<lparr>delta_header_bytes = header_end, delta_total_bytes = tot,
                   base_block_counts = bs, result_block_counts = rs,
                   base_boundary_tokens = bb, result_boundary_tokens = rb,
                   base_snapshot_sha256 = str_of (jsub h ''base_snapshot_sha256''),
                   result_snapshot_sha256 = str_of (jsub h ''result_snapshot_sha256''),
                   reused_pages_by_group = map (\<lambda>j. case int_of j of Some i \<Rightarrow> i | None \<Rightarrow> 0) reused,
                   tails = ts\<rparr>))
       | _ \<Rightarrow> Inl (HybridCodecError ''hybrid page delta descriptor count differs''))))"

text \<open>The header that both delta encoders write, and the encoded delta.\<close>

definition tail_json :: "hash \<Rightarrow> string \<Rightarrow> byte list \<Rightarrow> json" where
  "tail_json sha n t = jobj_sorted [(''name'', jstr n), (''bytes'', JInt (int (length t))),
     (''sha256'', jstr (sha t))]"

definition delta_json ::
  "hash \<Rightarrow> page_layout \<Rightarrow> string \<Rightarrow> string \<Rightarrow> int list \<Rightarrow> int list \<Rightarrow> int \<Rightarrow> int \<Rightarrow> int list \<Rightarrow>
   json list \<Rightarrow> json" where
  "delta_json sha L bsha rsha bs rs bb rb reused descs = jobj_sorted
     [(''schema'', jstr ''sparkcache-hybrid-page-delta/v1''),
      (''layout_sha256'', jstr (layout_digest sha L)),
      (''base_snapshot_sha256'', jstr bsha), (''result_snapshot_sha256'', jstr rsha),
      (''base_block_counts'', jints bs), (''result_block_counts'', jints rs),
      (''base_boundary_tokens'', JInt bb), (''result_boundary_tokens'', JInt rb),
      (''reused_pages_by_group'', jints reused), (''layer_tails'', JArr descs)]"

definition make_delta ::
  "hash \<Rightarrow> page_layout \<Rightarrow> string \<Rightarrow> string \<Rightarrow> int list \<Rightarrow> int list \<Rightarrow> int \<Rightarrow> int \<Rightarrow> int list \<Rightarrow>
   json list \<Rightarrow> byte list list \<Rightarrow> codec_error + byte list" where
  "make_delta sha L bsha rsha bs rs bb rb reused descs parts =
     rbind (frame delta_magic (delta_json sha L bsha rsha bs rs bb rb reused descs))
       (\<lambda>header. Inr (header @ concat parts))"

definition payload_of :: "(string \<times> byte list) list \<Rightarrow> page_layer \<Rightarrow> byte list" where
  "payload_of d l = (case map_of d (lname l) of Some b \<Rightarrow> b | None \<Rightarrow> [])"

definition page_at :: "page_layer \<Rightarrow> nat \<Rightarrow> byte list \<Rightarrow> byte list" where
  "page_at l i payload =
     slice (nat (int i * bytes_per_page l)) (nat ((int i + 1) * bytes_per_page l)) payload"

definition same_page ::
  "(string \<times> byte list) list \<Rightarrow> (string \<times> byte list) list \<Rightarrow> page_group \<Rightarrow> nat \<Rightarrow> bool" where
  "same_page base result g i =
     list_all (\<lambda>l. page_at l i (payload_of base l) = page_at l i (payload_of result l)) (layers g)"

fun count_while :: "(nat \<Rightarrow> bool) \<Rightarrow> nat list \<Rightarrow> nat" where
  "count_while f [] = 0"
| "count_while f (i # is) = (if f i then Suc (count_while f is) else 0)"

definition reusable_pages ::
  "(string \<times> byte list) list \<Rightarrow> (string \<times> byte list) list \<Rightarrow> page_group \<Rightarrow> int \<Rightarrow> int" where
  "reusable_pages base result g n = int (count_while (same_page base result g) [0..<nat n])"

definition encode_page_delta ::
  "hash \<Rightarrow> page_layout \<Rightarrow> byte list \<Rightarrow> byte list \<Rightarrow> int list \<Rightarrow> int list \<Rightarrow> int \<Rightarrow> int \<Rightarrow>
   codec_error + byte list" where
  "encode_page_delta sha L base_snapshot result_snapshot bs rs bb rb =
     rbind (validate_delta_boundaries bb rb) (\<lambda>_.
       if length bs \<noteq> length (groups L) \<or> length rs \<noteq> length (groups L)
       then Inl (HybridCodecError ''page delta block counts disagree with layout'')
       else if \<not> list_all2 (\<lambda>b r. 0 < b \<and> b \<le> r) bs rs
       then Inl (HybridCodecError ''page delta block counts do not extend the base'')
       else rbind (decode_page_snapshot sha L base_snapshot bs) (\<lambda>base.
         rbind (decode_page_snapshot sha L result_snapshot rs) (\<lambda>result.
           let reused = map2 (reusable_pages base result) (groups L) bs;
               parts = map (\<lambda>(gi, k, l). drop (nat (k * bytes_per_page l)) (payload_of result l))
                 (rows L reused);
               descs = map2 (\<lambda>(gi, k, l) t. tail_json sha (lname l) t) (rows L reused) parts
           in make_delta sha L (sha base_snapshot) (sha result_snapshot) bs rs bb rb reused
                descs parts)))"

text \<open>
  A captured tail: bytes, an object that announces a size and reads ranges (a range that is
  not bytes is \<open>None\<close>), or anything else.
\<close>

datatype capture = CaptureBytes "byte list" | CaptureSource int "int \<Rightarrow> int \<Rightarrow> byte list option" | NoCapture

fun capture_size :: "capture \<Rightarrow> int option" where
  "capture_size (CaptureBytes b) = Some (int (length b))"
| "capture_size (CaptureSource n rd) = Some n"
| "capture_size NoCapture = None"

fun capture_read :: "capture \<Rightarrow> int \<Rightarrow> int \<Rightarrow> byte list option" where
  "capture_read (CaptureBytes b) i j = Some (slice (nat i) (nat j) b)"
| "capture_read (CaptureSource n rd) i j = rd i j"
| "capture_read NoCapture i j = None"

text \<open>The checks that both users of a capture make; \<open>None\<close> for a payload that cannot be read.\<close>

definition check_extension ::
  "page_layout \<Rightarrow> int list \<Rightarrow> int list \<Rightarrow> int list \<Rightarrow> codec_error + unit" where
  "check_extension L bs rs us =
     (if \<not> (length bs = length rs \<and> length rs = length us \<and> length us = length (groups L))
      then Inl (HybridCodecError ''captured page extension geometry differs'')
      else if \<exists>(b, r, u)\<in>set (zip bs (zip rs us)). b \<le> 0 \<or> r < b \<or> \<not> (0 \<le> u \<and> u \<le> b)
      then Inl (HybridCodecError ''captured page extension counts are invalid'')
      else Inr ())"

definition check_capture :: "capture \<Rightarrow> codec_error + int" where
  "check_capture c = (case capture_size c of
       Some n \<Rightarrow> if n \<le> 0 then Inl (HybridCodecError ''captured page extension payload is invalid'')
         else Inr n
     | None \<Rightarrow> Inl (HybridCodecError ''captured page extension payload is invalid''))"

text \<open>One layer's tail, read at the cursor; the row's value is the result count and the reuse count.\<close>

definition read_tail ::
  "capture \<Rightarrow> int \<Rightarrow> (int \<times> int) row \<Rightarrow> int \<Rightarrow> codec_error + (byte list \<times> int)" where
  "read_tail c tot = (\<lambda>(gi, (r, u), l) cursor.
     (let tail_bytes = (r - u) * bytes_per_page l; stop = cursor + tail_bytes in
      if stop > tot
      then Inl (HybridCodecError ''captured page extension payload is truncated'')
      else (case capture_read c cursor stop of
          None \<Rightarrow> Inl (HybridCodecError ''captured page extension range differs'')
        | Some t \<Rightarrow> if int (length t) \<noteq> tail_bytes
            then Inl (HybridCodecError ''captured page extension range differs'')
            else Inr (t, stop))))"

text \<open>
  The loop of the capture encoder: the spans still to come, the cursor, the bytes fed to the
  incremental result digest, the payload parts and the descriptors.
\<close>

type_synonym capture_state = "span list \<times> int \<times> byte list \<times> byte list list \<times> json list"

definition capture_layer ::
  "hash \<Rightarrow> byte list \<Rightarrow> capture \<Rightarrow> int \<Rightarrow> (int \<times> int) row \<Rightarrow> capture_state \<Rightarrow>
   codec_error + capture_state" where
  "capture_layer sha base c tot row = (\<lambda>(sps, cursor, dig, parts, descs).
     (case sps of [] \<Rightarrow> Inl IndexErrorRaised
      | sp # sps' \<Rightarrow>
        (let (gi, (r, u), l) = row;
             prefix = slice (nat (source_start sp)) (nat (source_start sp + u * bytes_per_page l)) base
         in rbind (read_tail c tot row cursor) (\<lambda>(t, stop).
              Inr (sps', stop, dig @ prefix @ t, parts @ [t], descs @ [tail_json sha (lname l) t])))))"

definition encode_page_delta_from_capture ::
  "hash \<Rightarrow> page_layout \<Rightarrow> byte list \<Rightarrow> capture \<Rightarrow> int list \<Rightarrow> int list \<Rightarrow> int list \<Rightarrow> int \<Rightarrow> int \<Rightarrow>
   codec_error + byte list" where
  "encode_page_delta_from_capture sha L base_snapshot captured bs rs us bb rb =
     rbind (validate_delta_boundaries bb rb) (\<lambda>_.
     rbind (check_extension L bs rs us) (\<lambda>_.
     rbind (plan_page_snapshot sha L base_snapshot bs (Some (int (length base_snapshot)))) (\<lambda>plan.
     rbind (check_capture captured) (\<lambda>tot.
     rbind (encode_page_snapshot_header sha L rs) (\<lambda>result_header.
     rbind (rfold (capture_layer sha base_snapshot captured tot) (rows L (zip rs us))
         (spans plan, 0, result_header, [], []))
       (\<lambda>(_, cursor, dig, parts, descs).
         if cursor \<noteq> tot
         then Inl (HybridCodecError ''captured page extension has trailing bytes'')
         else make_delta sha L (sha base_snapshot) (sha dig) bs rs bb rb us descs parts))))))"

definition apply_page_delta ::
  "hash \<Rightarrow> page_layout \<Rightarrow> byte list \<Rightarrow> byte list \<Rightarrow> int list \<Rightarrow> int list \<Rightarrow> int \<Rightarrow> int \<Rightarrow>
   codec_error + byte list" where
  "apply_page_delta sha L base_snapshot encoded_delta bs rs bb rb =
     rbind (plan_page_delta sha L encoded_delta bs rs bb rb (Some (int (length encoded_delta))))
       (\<lambda>plan.
       if base_snapshot_sha256 plan \<noteq> sha base_snapshot
       then Inl (HybridCodecError ''hybrid page delta identity or base differs'')
       else rbind (decode_page_snapshot sha L base_snapshot (base_block_counts plan)) (\<lambda>base.
         rbind (rfold (\<lambda>(tl, l) payloads.
             let t = slice (nat (tail_start tl)) (nat (tail_end tl)) encoded_delta in
             if sha t \<noteq> tail_sha256 tl
             then Inl (HybridCodecError ''hybrid page delta payload checksum mismatch'')
             else Inr (AList.update (lname l)
               (take (nat (destination_byte_offset tl)) (payload_of base l) @ t) payloads))
           (zip (tails plan) (concat (map layers (groups L)))) []) (\<lambda>payloads.
         rbind (encode_page_snapshot sha L (result_block_counts plan) payloads) (\<lambda>result.
           if sha result \<noteq> result_snapshot_sha256 plan
           then Inl (HybridCodecError ''hybrid page delta result checksum mismatch'')
           else Inr result))))"

definition materialize_layer ::
  "(string \<times> byte list) list \<Rightarrow> capture \<Rightarrow> int \<Rightarrow> (int \<times> int) row \<Rightarrow>
   int \<times> (string \<times> byte list) list \<Rightarrow> codec_error + (int \<times> (string \<times> byte list) list)" where
  "materialize_layer base c tot row = (\<lambda>(cursor, payloads).
     (let (gi, (r, u), l) = row in
      rbind (read_tail c tot row cursor) (\<lambda>(t, stop).
        Inr (stop, AList.update (lname l)
          (take (nat (u * bytes_per_page l)) (payload_of base l) @ t) payloads))))"

definition materialize_page_extension_capture ::
  "hash \<Rightarrow> page_layout \<Rightarrow> byte list \<Rightarrow> capture \<Rightarrow> int list \<Rightarrow> int list \<Rightarrow> int list \<Rightarrow>
   codec_error + byte list" where
  "materialize_page_extension_capture sha L base_snapshot captured bs rs us =
     rbind (check_extension L bs rs us) (\<lambda>_.
     rbind (check_capture captured) (\<lambda>tot.
     rbind (decode_page_snapshot sha L base_snapshot bs) (\<lambda>base.
     rbind (rfold (materialize_layer base captured tot) (rows L (zip rs us)) (0, []))
       (\<lambda>(cursor, payloads).
         if cursor \<noteq> tot
         then Inl (HybridCodecError ''captured page extension has trailing bytes'')
         else encode_page_snapshot sha L rs payloads))))"

section \<open>Splitting\<close>

fun split_from :: "byte list \<Rightarrow> nat \<Rightarrow> nat \<Rightarrow> nat \<Rightarrow> nat list \<Rightarrow> byte list list" where
  "split_from encoded width remainder offset [] = []"
| "split_from encoded width remainder offset (index # is) =
     (let size = width + (if index < remainder then 1 else 0) in
      slice offset (offset + size) encoded #
        split_from encoded width remainder (offset + size) is)"

definition split_snapshot :: "byte list \<Rightarrow> int \<Rightarrow> codec_error + byte list list" where
  "split_snapshot encoded part_count =
     (if part_count \<le> 0 \<or> int (length encoded) < part_count
      then Inl (HybridCodecError ''hybrid snapshot cannot cover the declared span'')
      else (let n = nat part_count in
        Inr (split_from encoded (length encoded div n) (length encoded mod n) 0 [0..<n])))"

end
