(* ===== verification/HybridProps.thy ===== *)
theory HybridProps
  imports HybridCodec "HOL-Library.Multiset"
begin

text \<open>
  What the codec of \<open>HybridCodec\<close> guarantees: encoded snapshots decode to the payloads they
  were built from, planned spans tile the encoded bytes, deltas applied to their base give
  exactly the snapshot they were computed from, both delta encoders agree with the direct
  construction, and split snapshots join again.
\<close>

section \<open>Headers\<close>

lemma jstr_inj [simp]: "jstr s = jstr t \<longleftrightarrow> s = t"
  by (simp add: jstr_def)

lemma str_of_jstr [simp]: "str_of (jstr s) = s"
  by (induction s) (simp_all add: str_of_def jstr_def asc_def code_def)

lemma plain_jstr [simp]: "plain (jstr s)"
  by (simp add: jstr_def)

lemma plain_jints [simp]: "plain (jints xs)"
  by (simp add: jints_def list_all_iff)

lemma map_of_sort_key:
  assumes "distinct (map fst kvs)"
  shows "map_of (sort_key fst kvs) = map_of kvs"
proof -
  have "mset (map fst (sort_key fst kvs)) = mset (map fst kvs)"
    by simp
  then have "distinct (map fst (sort_key fst kvs))"
    using assms by (metis mset_eq_imp_distinct_iff)
  then show ?thesis
    using assms by (simp add: map_of_inject_set)
qed

definition keyed :: "(string \<times> json) list \<Rightarrow> (utext \<times> json) list" where
  "keyed kvs = map (\<lambda>(k, v). (asc k, v)) kvs"

lemma keyed_simps [simp]: "keyed [] = []" "keyed ((k, v) # kvs) = (asc k, v) # keyed kvs"
  by (simp_all add: keyed_def)

lemma keyed_keys: "map fst (keyed kvs) = map asc (map fst kvs)"
  by (induction kvs) auto

lemma distinct_keyed: "distinct (map fst (keyed kvs)) \<longleftrightarrow> distinct (map fst kvs)"
  by (simp add: keyed_keys distinct_map inj_on_def del: map_map)

lemma jobj_sorted_keyed: "jobj_sorted kvs = JObj (sort_key fst (keyed kvs))"
  by (simp add: jobj_sorted_def keyed_def)

lemma is_obj_sorted [simp]: "is_obj (jobj_sorted kvs)"
  by (simp add: jobj_sorted_keyed is_obj_def)

lemma map_of_keyed: "map_of (keyed kvs) (asc k) = map_of kvs k"
  by (induction kvs) auto

lemma jget_sorted: "distinct (map fst kvs) \<Longrightarrow> jget (jobj_sorted kvs) k = map_of kvs k"
  by (simp add: jobj_sorted_keyed jget_def map_of_sort_key distinct_keyed map_of_keyed)

lemma jsub_sorted: "distinct (map fst kvs) \<Longrightarrow>
    jsub (jobj_sorted kvs) k = (case map_of kvs k of Some v \<Rightarrow> v | None \<Rightarrow> JNull)"
  by (simp add: jsub_def jget_sorted)

lemma jkeys_sorted: "jkeys (jobj_sorted kvs) = asc ` fst ` set kvs"
  by (force simp: jobj_sorted_keyed jkeys_def keyed_def image_image)

lemma plain_sorted:
  assumes "distinct (map fst kvs)" "\<forall>v\<in>snd ` set kvs. plain v"
  shows "plain (jobj_sorted kvs)"
proof -
  have "mset (map fst (sort_key fst (keyed kvs))) = mset (map fst (keyed kvs))"
    by simp
  then have "distinct (map fst (sort_key fst (keyed kvs)))"
    using assms(1) distinct_keyed [of kvs] by (metis mset_eq_imp_distinct_iff)
  then show ?thesis
    using assms(2) scalar_asc by (fastforce simp add: jobj_sorted_keyed list_all_iff keyed_def)
qed

section \<open>Frames\<close>

lemma unpack_pack:
  assumes "pack_u32 n = Inr b"
  shows "length b = 4" "unpack_u32 (b @ r) = n"
proof -
  have n: "n < 4294967296" and b: "b = [word_of_nat n, word_of_nat (n div 256),
      word_of_nat (n div 65536), word_of_nat (n div 16777216)]"
    using assms by (auto simp: pack_u32_def split: if_splits)
  have "n mod 16777216 = n mod 65536 + 65536 * (n div 65536 mod 256)"
    using mod_mult2_eq [of n 65536 256] by simp
  moreover have "n mod 65536 = n mod 256 + 256 * (n div 256 mod 256)"
    using mod_mult2_eq [of n 256 256] by simp
  moreover have "n div 16777216 mod 256 = n div 16777216"
    using n by simp
  ultimately have "n mod 256 + 256 * (n div 256 mod 256) + 65536 * (n div 65536 mod 256) +
      16777216 * (n div 16777216) = n" "n div 16777216 mod 256 = n div 16777216"
    using mult_div_mod_eq [of 16777216 n] by linarith+
  then show "unpack_u32 (b @ r) = n"
    unfolding b by (simp add: unsigned_of_nat take_bit_eq_mod)
  show "length b = 4"
    by (simp add: b)
qed

lemma dumps_nonempty: "plain v \<Longrightarrow> dumps v \<noteq> []"
  using dumps_opener by (metis list.distinct(1))

lemma frame_shape:
  assumes "frame mg h = Inr f"
  obtains n where "pack_u32 (length (dumps h)) = Inr n" "f = mg @ n @ ascii_bytes (dumps h)"
  using assms by (auto simp: frame_def Let_def)

lemma unframe_frame:
  assumes "frame mg h = Inr f" "plain h"
  shows "unframe mg what (f @ r) = Inr (h, length f)"
proof -
  obtain n where n: "pack_u32 (length (dumps h)) = Inr n" and f: "f = mg @ n @ ascii_bytes (dumps h)"
    using frame_shape [OF assms(1)] .
  note u = unpack_pack [OF n]
  have "drop (length mg) (f @ r) = n @ ascii_bytes (dumps h) @ r"
    by (simp add: f)
  moreover have "slice (length mg + 4) (length mg + 4 + length (dumps h)) (f @ r) = ascii_bytes (dumps h)"
    using u(1) by (simp add: f slice_def)
  moreover have "take (length mg) (f @ r) = mg" "length f = length mg + 4 + length (dumps h)"
    using u(1) by (simp_all add: f)
  moreover have "0 < length (dumps h)"
    using dumps_nonempty [OF assms(2)] by simp
  ultimately show ?thesis
    using loads_bytes_dumps [OF assms(2)] u(2) by (simp add: unframe_def Let_def)
qed

lemma frame_nonempty: "frame mg h = Inr f \<Longrightarrow> length mg + 4 \<le> length f"
  by (erule frame_shape) (simp add: unpack_pack(1))

text \<open>What a successful check of a prefix says of the bytes.\<close>

lemma unframe_iff:
  "unframe mg what view = Inr (h, e) \<longleftrightarrow>
     e = length mg + 4 + unpack_u32 (drop (length mg) view) \<and> length mg + 4 < e \<and>
     e \<le> length view \<and> take (length mg) view = mg \<and>
     loads_bytes (slice (length mg + 4) e view) = Inr h"
proof (cases "length view < length mg + 4 \<or> take (length mg) view \<noteq> mg")
  case True
  then show ?thesis by (auto simp: unframe_def Let_def)
next
  case ok: False
  define n where "n = unpack_u32 (drop (length mg) view)"
  show ?thesis
  proof (cases "n \<le> 0 \<or> length view < length mg + 4 + n")
    case True
    then show ?thesis
      using ok by (simp add: unframe_def Let_def flip: n_def) linarith
  next
    case False
    then show ?thesis
      using ok
      by (cases "loads_bytes (slice (length mg + 4) (length mg + 4 + n) view)")
        (auto simp: unframe_def Let_def simp flip: n_def)
  qed
qed

lemma unpack_take_Suc: "unpack_u32 (take (Suc (Suc (Suc (Suc k)))) xs) = unpack_u32 xs"
  by (cases xs rule: unpack_u32.cases) simp_all

lemma unpack_take: "4 \<le> k \<Longrightarrow> unpack_u32 (take k xs) = unpack_u32 xs"
proof -
  assume "4 \<le> k"
  then have "k = Suc (Suc (Suc (Suc (k - 4))))" by simp
  then show ?thesis by (metis unpack_take_Suc)
qed

text \<open>Only the bytes up to the end of the header are looked at.\<close>

lemma unframe_prefix:
  assumes "unframe mg what view = Inr (h, e)" "e \<le> m"
  shows "unframe mg what (take m view) = Inr (h, e)"
proof -
  have e: "e \<le> length view" "length mg + 4 < e"
    using assms(1) by (simp_all add: unframe_iff)
  have "take (length mg) (take m view) = take (length mg) view"
    using e assms(2) by (simp add: min_def)
  moreover have "unpack_u32 (drop (length mg) (take m view)) = unpack_u32 (drop (length mg) view)"
    using e assms(2) by (simp add: drop_take unpack_take)
  moreover have "slice (length mg + 4) e (take m view) = slice (length mg + 4) e view"
    using assms(2) e by (simp add: slice_def drop_take min_def)
  moreover have "e \<le> length (take m view)"
    using e assms(2) by simp
  ultimately show ?thesis
    using assms(1) unfolding unframe_iff by metis
qed

section \<open>Rows and spans\<close>

abbreviation row_layer :: "'x row \<Rightarrow> page_layer" where
  "row_layer r \<equiv> snd (snd r)"

definition row_size :: "int row \<Rightarrow> int" where
  "row_size r = fst (snd r) * bytes_per_page (snd (snd r))"

definition rows_size :: "int row list \<Rightarrow> int" where
  "rows_size rws = sum_list (map row_size rws)"

lemma rows_size_simps [simp]: "rows_size [] = 0" "rows_size (r # rws) = row_size r + rows_size rws"
  by (simp_all add: rows_size_def)

lemma rows_size_nonneg: "\<forall>r\<in>set rws. 0 \<le> row_size r \<Longrightarrow> 0 \<le> rows_size rws"
  unfolding rows_size_def by (rule sum_list_nonneg_int) auto

definition span_at :: "int \<Rightarrow> int row \<Rightarrow> span" where
  "span_at off r = \<lparr>layer_name = lname (row_layer r), group_index = fst r, source_start = off,
       source_end = off + row_size r, page_count = fst (snd r),
       span_bytes_per_page = bytes_per_page (row_layer r)\<rparr>"

fun spans_of :: "int \<Rightarrow> int row list \<Rightarrow> span list" where
  "spans_of off [] = []"
| "spans_of off (r # rws) = span_at off r # spans_of (off + row_size r) rws"

lemma plan_span_step:
  "plan_span tot r (off, acc) =
     (if off + row_size r > tot
      then Inl (HybridCodecError (''hybrid page snapshot is truncated at '' @ lname (row_layer r)))
      else Inr (off + row_size r, acc @ [span_at off r]))"
  by (cases r) (simp add: plan_span_def Let_def row_size_def span_at_def)

lemma plan_spans_sound:
  "rfold (plan_span tot) rws (off, acc) = Inr (off', sps) \<Longrightarrow>
   off' = off + rows_size rws \<and> sps = acc @ spans_of off rws"
proof (induction rws arbitrary: off acc)
  case (Cons r rws)
  then show ?case
    by (auto simp: plan_span_step split: if_splits dest!: Cons.IH)
qed simp

lemma plan_spans_run:
  assumes "\<forall>r\<in>set rws. 0 \<le> row_size r" "off + rows_size rws \<le> tot"
  shows "rfold (plan_span tot) rws (off, acc) = Inr (off + rows_size rws, acc @ spans_of off rws)"
  using assms
proof (induction rws arbitrary: off acc)
  case (Cons r rws)
  have "0 \<le> rows_size rws"
    using Cons.prems(1) by (intro rows_size_nonneg) simp
  then have "off + row_size r \<le> tot"
    using Cons.prems(2) by simp
  then show ?case
    using Cons.prems Cons.IH [of "off + row_size r"]
    by (simp add: plan_span_step algebra_simps)
qed simp

text \<open>The bytes of the spans are the payloads that follow the header, in row order.\<close>

definition fits :: "int row \<Rightarrow> byte list \<Rightarrow> bool" where
  "fits r seg \<longleftrightarrow> int (length seg) = row_size r"

lemma fits_size: "list_all2 fits rws segs \<Longrightarrow> rows_size rws = int (length (concat segs))"
  by (induction rule: list_all2_induct) (simp_all add: fits_def)

lemma fits_nonneg: "list_all2 fits rws segs \<Longrightarrow> \<forall>r\<in>set rws. 0 \<le> row_size r"
  by (induction rule: list_all2_induct) (auto simp: fits_def)

lemma spans_bytes:
  assumes "list_all2 fits rws segs"
  shows "map (span_bytes (pre @ concat segs)) (spans_of (int (length pre)) rws) = segs"
  using assms
proof (induction arbitrary: pre rule: list_all2_induct)
  case (Cons r rws seg segs)
  have len: "int (length pre) + row_size r = int (length (pre @ seg))"
    using Cons.hyps(1) by (simp add: fits_def)
  have "span_bytes (pre @ seg @ concat segs) (span_at (int (length pre)) r) = seg"
    unfolding span_bytes_def span_at_def by (simp add: len slice_def del: length_append) simp
  then show ?case
    using Cons.IH [of "pre @ seg"] by (simp add: len del: length_append)
qed simp

lemma span_bytes_at: "span_bytes enc (span_at off r) = slice (nat off) (nat (off + row_size r)) enc"
  by (simp add: span_bytes_def span_at_def)

lemma spans_cover:
  assumes "\<forall>r\<in>set rws. 0 \<le> row_size r" "0 \<le> off" "off + rows_size rws = int (length enc)"
  shows "concat (map (span_bytes enc) (spans_of off rws)) = drop (nat off) enc \<and>
    list_all2 fits rws (map (span_bytes enc) (spans_of off rws))"
  using assms
proof (induction rws arbitrary: off)
  case (Cons r rws)
  have nn: "0 \<le> row_size r" "0 \<le> rows_size rws"
    using Cons.prems(1) by (auto intro: rows_size_nonneg)
  have IH: "concat (map (span_bytes enc) (spans_of (off + row_size r) rws)) = drop (nat (off + row_size r)) enc"
    "list_all2 fits rws (map (span_bytes enc) (spans_of (off + row_size r) rws))"
    using Cons.IH [of "off + row_size r"] Cons.prems nn by auto
  have "slice (nat off) (nat (off + row_size r)) enc @ drop (nat (off + row_size r)) enc = drop (nat off) enc"
    using nn Cons.prems(2) by (intro slice_drop nat_mono) simp
  moreover have "fits r (slice (nat off) (nat (off + row_size r)) enc)"
    using nn Cons.prems(2,3) by (simp add: fits_def)
  ultimately show ?case
    using IH by (simp add: span_bytes_at)
qed (simp add: nat_int)

section \<open>Layouts and rows\<close>

lemma layout_distinct: "layout_ok L \<Longrightarrow> distinct (layout_names L)"
  by (auto simp: layout_ok_def check_layout_def intro: card_distinct split: if_splits)

lemma layout_layer_pos:
  assumes "layout_ok L" "g \<in> set (groups L)" "l \<in> set (layers g)"
  shows "0 < bytes_per_page l"
  using assms by (fastforce simp: layout_ok_def check_layer_def split: if_splits)

lemma concat_zip_groups:
  assumes "length xs = length gs"
  shows "map row_layer (concat (map (\<lambda>(gi, g, x). map (\<lambda>l. (gi, x, l)) (layers g)) (zip [k..<k + length gs] (zip gs xs))))
    = concat (map layers gs)"
  using assms
proof (induction gs arbitrary: xs k)
  case (Cons g gs)
  then obtain x xs' where xs: "xs = x # xs'" by (cases xs) auto
  have k: "[k..<k + length (g # gs)] = k # [Suc k..<Suc k + length gs]"
    by (subst upt_conv_Cons) (simp_all del: upt_Suc)
  have "map row_layer (map (\<lambda>l. (k, x, l)) (layers g)) = layers g"
    by (simp add: comp_def)
  then show ?case
    unfolding xs k zip_Cons_Cons list.map prod.case concat.simps map_append
    using Cons.IH [of xs' "Suc k"] Cons.prems by (simp add: xs)
qed simp

lemma rows_layers:
  "length xs = length (groups L) \<Longrightarrow> map row_layer (rows L xs) = concat (map layers (groups L))"
  unfolding rows_def using concat_zip_groups [of xs "groups L" 0] by simp

lemma layout_names_layers: "layout_names L = map lname (concat (map layers (groups L)))"
  by (simp add: layout_names_def map_concat comp_def)

lemma rows_names:
  "length xs = length (groups L) \<Longrightarrow> map (\<lambda>r. lname (row_layer r)) (rows L xs) = layout_names L"
  using arg_cong [OF rows_layers [of xs L], of "map lname"]
  by (simp add: layout_names_layers comp_def del: map_concat)

lemma row_in:
  assumes "r \<in> set (rows L xs)"
  shows "fst (snd r) \<in> set xs \<and> (\<exists>g\<in>set (groups L). row_layer r \<in> set (layers g))"
proof -
  obtain gi g x l where r: "r = (gi, x, l)" "l \<in> set (layers g)"
    and z: "(gi, g, x) \<in> set (zip [0..<length (groups L)] (zip (groups L) xs))"
    using assms by (auto simp: rows_def)
  have "(g, x) \<in> set (zip (groups L) xs)"
    using set_zip_rightD [OF z] .
  then show ?thesis
    using r by (auto dest: set_zip_leftD set_zip_rightD)
qed

lemma row_size_pos:
  assumes "layout_ok L" "\<forall>c\<in>set cs. 0 < c" "r \<in> set (rows L cs)"
  shows "0 < row_size r"
  using row_in [OF assms(3)] assms(2) layout_layer_pos [OF assms(1)]
  by (auto simp: row_size_def)

lemma row_names_layout:
  assumes "length xs = length (groups L)" "r \<in> set (rows L xs)"
  shows "lname (row_layer r) \<in> set (layout_names L)"
  using rows_names [OF assms(1)] assms(2) by (metis (mono_tags, lifting) image_eqI list.set_map)

text \<open>The association of the layout's names, in row order, with one value per row.\<close>

lemma zip_names_rows:
  assumes "length xs = length (groups L)"
  shows "zip (layout_names L) ys = zip (map (\<lambda>r. lname (row_layer r)) (rows L xs)) ys"
  by (simp add: rows_names [OF assms])

lemma layer_name_spans: "map layer_name (spans_of off rws) = map (\<lambda>r. lname (row_layer r)) rws"
  by (induction rws arbitrary: off) (simp_all add: span_at_def)

lemma length_spans [simp]: "length (spans_of off rws) = length rws"
  by (induction rws arbitrary: off) simp_all

section \<open>Snapshots\<close>

lemma plan_iff:
  assumes "layout_ok L"
  shows "plan_page_snapshot sha L view counts targ = Inr p \<longleftrightarrow>
    (\<exists>h e. unframe magic ''snapshot'' view = Inr (h, e) \<and> (\<forall>c\<in>set counts. 0 < c) \<and>
       header_differs sha L h counts = Inr False \<and>
       int (length view) \<le> int e + rows_size (rows L counts) \<and>
       int e + rows_size (rows L counts) = (case targ of None \<Rightarrow> int (length view) | Some t \<Rightarrow> t) \<and>
       p = \<lparr>header_bytes = e, total_bytes = int e + rows_size (rows L counts),
         block_counts = counts, spans = spans_of (int e) (rows L counts)\<rparr>)"
    (is "?l \<longleftrightarrow> ?r")
proof
  assume ?l
  then obtain h e where u: "unframe magic ''snapshot'' view = Inr (h, e)"
    by (auto simp: plan_page_snapshot_def)
  note l = \<open>?l\<close> [unfolded plan_page_snapshot_def u, simplified]
  have pos: "\<forall>c\<in>set counts. 0 < c" and d: "header_differs sha L h counts = Inr False"
    using l by (auto split: if_splits)
  show ?r
    using l u pos d
    by (auto simp: Let_def split: if_splits dest!: plan_spans_sound)
next
  assume ?r
  then obtain h e where u: "unframe magic ''snapshot'' view = Inr (h, e)"
    and pos: "\<forall>c\<in>set counts. 0 < c" and d: "header_differs sha L h counts = Inr False"
    and len: "int (length view) \<le> int e + rows_size (rows L counts)"
    and tot: "int e + rows_size (rows L counts) = (case targ of None \<Rightarrow> int (length view) | Some t \<Rightarrow> t)"
    and p: "p = \<lparr>header_bytes = e, total_bytes = int e + rows_size (rows L counts),
         block_counts = counts, spans = spans_of (int e) (rows L counts)\<rparr>"
    by blast
  have nn: "\<forall>r\<in>set (rows L counts). 0 \<le> row_size r"
    using row_size_pos [OF assms pos] by (auto intro: less_imp_le)
  have "\<not> (\<exists>c\<in>set counts. c \<le> 0)"
    using pos by auto
  then show ?l
    using plan_spans_run [OF nn order_refl, of "int e" "[]"] rows_size_nonneg [OF nn] len
    by (simp add: plan_page_snapshot_def u d Let_def p flip: tot)
qed

lemma header_differs_length:
  "header_differs sha L h counts = Inr False \<Longrightarrow> length counts = length (groups L)"
  by (auto simp: header_differs_def split: if_splits)

lemma header_matches:
  assumes "length counts = length (groups L)"
  shows "header_differs sha L (header_json sha L counts) counts = Inr False"
proof -
  have "list_all2 num_eq (map JInt counts) counts"
    by (simp add: list_all2_map1 list_all2_same num_eq_def)
  then show ?thesis
    using assms
    by (simp add: header_differs_def header_json_def jget_sorted counts_differ_def tuple_of_def jints_def)
qed

lemma plain_header: "plain (header_json sha L counts)"
  unfolding header_json_def by (rule plain_sorted) auto

lemma nonpos_ex: "(\<exists>c\<in>set cs. c \<le> (0::int)) \<longleftrightarrow> \<not> (\<forall>c\<in>set cs. 0 < c)"
  by (meson linorder_not_less)

text \<open>What the encoder of a header produces is what the planner accepts.\<close>

lemma encode_header_iff:
  "encode_page_snapshot_header sha L counts = Inr header \<longleftrightarrow>
     length counts = length (groups L) \<and> (\<forall>c\<in>set counts. 0 < c) \<and>
     frame magic (header_json sha L counts) = Inr header"
  by (simp add: encode_page_snapshot_header_def check_counts_def nonpos_ex)

lemma plan_frame:
  assumes L: "layout_ok L" and h: "encode_page_snapshot_header sha L counts = Inr header"
    and fits: "list_all2 fits (rows L counts) segs"
    and t: "targ = None \<or> targ = Some (int (length (header @ concat segs)))"
  shows "plan_page_snapshot sha L (header @ concat segs) counts targ =
      Inr \<lparr>header_bytes = length header, total_bytes = int (length (header @ concat segs)),
         block_counts = counts, spans = spans_of (int (length header)) (rows L counts)\<rparr>"
proof -
  have h': "length counts = length (groups L)" "\<forall>c\<in>set counts. 0 < c"
    "frame magic (header_json sha L counts) = Inr header"
    using h by (auto simp: encode_header_iff)
  have "unframe magic ''snapshot'' (header @ concat segs) = Inr (header_json sha L counts, length header)"
    by (rule unframe_frame [OF h'(3) plain_header])
  then show ?thesis
    using t h' header_matches [OF h'(1), of sha] fits_size [OF fits]
    by (auto simp: plan_iff [OF L])
qed

lemma decode_frame:
  assumes L: "layout_ok L" and h: "encode_page_snapshot_header sha L counts = Inr header"
    and fits: "list_all2 fits (rows L counts) segs"
  shows "decode_page_snapshot sha L (header @ concat segs) counts = Inr (zip (layout_names L) segs)"
proof -
  have len: "length counts = length (groups L)"
    using h by (auto simp: encode_header_iff)
  have "map layer_name (spans_of (int (length header)) (rows L counts)) = layout_names L"
    by (simp add: layer_name_spans rows_names [OF len])
  then have "map (\<lambda>s. (layer_name s, span_bytes (header @ concat segs) s))
      (spans_of (int (length header)) (rows L counts)) = zip (layout_names L) segs"
    using spans_bytes [OF fits, of header] by (simp add: map_pair_zip)
  moreover have "dict_of (zip (layout_names L) segs) = zip (layout_names L) segs"
  proof (rule dict_of_distinct)
    have "length segs = length (layout_names L)"
      using list_all2_lengthD [OF fits] rows_names [OF len] by (metis length_map)
    then show "distinct (map fst (zip (layout_names L) segs))"
      using layout_distinct [OF L] by simp
  qed
  ultimately show ?thesis
    using plan_frame [OF assms, of None] by (simp add: decode_page_snapshot_def)
qed

lemma encode_parts_iff:
  "rfold (encode_part d) rws acc = Inr parts \<longleftrightarrow>
     (\<forall>r\<in>set rws. lname (row_layer r) \<in> fst ` set d \<and> fits r (payload_of d (row_layer r))) \<and>
     parts = acc @ map (\<lambda>r. payload_of d (row_layer r)) rws"
proof (induction rws arbitrary: acc)
  case (Cons r rws)
  obtain gi c l where r: "r = (gi, c, l)" by (cases r) auto
  show ?case
  proof (cases "map_of d (lname l)")
    case None
    then have "lname l \<notin> fst ` set d"
      by (simp add: map_of_eq_None_iff)
    then show ?thesis
      by (simp add: r encode_part_def None)
  next
    case (Some p)
    then have "lname l \<in> fst ` set d"
      by (metis map_of_eq_None_iff option.distinct(1))
    then show ?thesis
      using Cons.IH [of "acc @ [p]"]
      by (auto simp: r encode_part_def Some payload_of_def fits_def row_size_def)
  qed
qed auto

lemma encode_iff:
  "encode_page_snapshot sha L counts d = Inr enc \<longleftrightarrow>
     fst ` set d = set (layout_names L) \<and>
     (\<exists>header. encode_page_snapshot_header sha L counts = Inr header \<and>
       (\<forall>r\<in>set (rows L counts). fits r (payload_of d (row_layer r))) \<and>
       enc = header @ concat (map (\<lambda>r. payload_of d (row_layer r)) (rows L counts)))"
proof (cases "check_counts L counts")
  case (Inl e)
  then show ?thesis
    by (simp add: encode_page_snapshot_def encode_page_snapshot_header_def)
next
  case (Inr u)
  then have len: "length counts = length (groups L)"
    by (auto simp: check_counts_def split: if_splits)
  show ?thesis
    using row_names_layout [OF len]
    by (auto simp: encode_page_snapshot_def Inr encode_parts_iff)
qed

lemma payloads_of_zip:
  assumes "layout_ok L" "length xs = length (groups L)" "length segs = length (rows L xs)"
  shows "map (\<lambda>r. payload_of (zip (layout_names L) segs) (row_layer r)) (rows L xs) = segs"
proof (rule nth_equalityI)
  let ?ns = "layout_names L"
  have ns: "?ns = map (\<lambda>r. lname (row_layer r)) (rows L xs)"
    by (simp add: rows_names [OF assms(2)])
  fix i assume i: "i < length (map (\<lambda>r. payload_of (zip ?ns segs) (row_layer r)) (rows L xs))"
  have len: "length ?ns = length segs"
    using assms(3) by (simp add: ns)
  then have "map_of (zip ?ns segs) (?ns ! i) = Some (segs ! i)"
    using i by (intro map_of_zip_nth layout_distinct assms) (simp_all add: assms(3))
  moreover have "?ns ! i = lname (row_layer (rows L xs ! i))"
    using i by (simp add: ns)
  ultimately show "map (\<lambda>r. payload_of (zip ?ns segs) (row_layer r)) (rows L xs) ! i = segs ! i"
    using i by (simp add: payload_of_def)
qed (simp add: assms(3))

text \<open>Everything a successful decoding says.\<close>

lemma decode_sound:
  assumes L: "layout_ok L" and "decode_page_snapshot sha L enc counts = Inr d"
  obtains h e segs where "unframe magic ''snapshot'' enc = Inr (h, e)"
    "header_differs sha L h counts = Inr False" "\<forall>c\<in>set counts. 0 < c"
    "length counts = length (groups L)" "list_all2 fits (rows L counts) segs"
    "drop e enc = concat segs" "d = zip (layout_names L) segs"
proof -
  obtain p where plan: "plan_page_snapshot sha L enc counts None = Inr p"
    and d: "d = dict_of (map (\<lambda>s. (layer_name s, span_bytes enc s)) (spans p))"
    using assms(2) by (auto simp: decode_page_snapshot_def)
  obtain h e where u: "unframe magic ''snapshot'' enc = Inr (h, e)"
    and pos: "\<forall>c\<in>set counts. 0 < c" and hd: "header_differs sha L h counts = Inr False"
    and size: "int e + rows_size (rows L counts) = int (length enc)"
    and sp: "spans p = spans_of (int e) (rows L counts)"
    using plan unfolding plan_iff [OF L] by auto
  have len: "length counts = length (groups L)"
    using header_differs_length [OF hd] .
  define segs where "segs = map (span_bytes enc) (spans_of (int e) (rows L counts))"
  have nn: "\<forall>r\<in>set (rows L counts). 0 \<le> row_size r"
    using row_size_pos [OF L pos] by (auto intro: less_imp_le)
  have cover: "concat segs = drop e enc" "list_all2 fits (rows L counts) segs"
    using spans_cover [OF nn, of "int e" enc] size by (auto simp: segs_def)
  have "map (\<lambda>s. (layer_name s, span_bytes enc s)) (spans p) = zip (layout_names L) segs"
    by (simp add: map_pair_zip sp layer_name_spans rows_names [OF len] segs_def)
  moreover have "dict_of (zip (layout_names L) segs) = zip (layout_names L) segs"
  proof (rule dict_of_distinct)
    have "length segs = length (layout_names L)"
      using rows_names [OF len] by (simp add: segs_def flip: length_map [of "\<lambda>r. lname (row_layer r)"])
    then show "distinct (map fst (zip (layout_names L) segs))"
      using layout_distinct [OF L] by simp
  qed
  ultimately show thesis
    using that u hd pos len cover d by simp
qed

section \<open>Deltas\<close>

text \<open>
  The rows of a delta carry the base count, the result count and the reused pages of their
  group; the rows of the other loops are images of them.
\<close>

lemma rows_map: "rows L (map f xs) = map (\<lambda>(gi, x, l). (gi, f x, l)) (rows L xs)"
proof -
  have z: "zip [0..<length (groups L)] (zip (groups L) (map f xs)) =
      map (\<lambda>(gi, g, x). (gi, g, f x)) (zip [0..<length (groups L)] (zip (groups L) xs))"
    by (simp add: zip_map2 case_prod_beta split_def)
  show ?thesis
    unfolding rows_def z by (simp add: map_concat comp_def case_prod_beta)
qed

type_synonym delta_row = "(int \<times> int \<times> int) row"

definition base_row :: "delta_row \<Rightarrow> int row" where
  "base_row = (\<lambda>(gi, (b, r, u), l). (gi, b, l))"

definition result_row :: "delta_row \<Rightarrow> int row" where
  "result_row = (\<lambda>(gi, (b, r, u), l). (gi, r, l))"

definition reuse_row :: "delta_row \<Rightarrow> int row" where
  "reuse_row = (\<lambda>(gi, (b, r, u), l). (gi, u, l))"

definition extent_row :: "delta_row \<Rightarrow> (int \<times> int) row" where
  "extent_row = (\<lambda>(gi, (b, r, u), l). (gi, (r, u), l))"

definition delta_rows :: "page_layout \<Rightarrow> int list \<Rightarrow> int list \<Rightarrow> int list \<Rightarrow> delta_row list" where
  "delta_rows L bs rs us = rows L (zip bs (zip rs us))"

lemma row_images:
  assumes "length bs = n" "length rs = n" "length us = n"
  shows "rows L bs = map base_row (delta_rows L bs rs us)"
    and "rows L rs = map result_row (delta_rows L bs rs us)"
    and "rows L us = map reuse_row (delta_rows L bs rs us)"
    and "rows L (zip rs us) = map extent_row (delta_rows L bs rs us)"
proof -
  have *: "bs = map fst (zip bs (zip rs us))" "rs = map (\<lambda>(b, r, u). r) (zip bs (zip rs us))"
    "us = map (\<lambda>(b, r, u). u) (zip bs (zip rs us))" "zip rs us = map snd (zip bs (zip rs us))"
    using assms by (auto intro!: nth_equalityI)
  show "rows L bs = map base_row (delta_rows L bs rs us)"
    unfolding delta_rows_def by (subst *(1), subst rows_map) (simp add: base_row_def case_prod_beta)
  show "rows L rs = map result_row (delta_rows L bs rs us)"
    unfolding delta_rows_def by (subst *(2), subst rows_map) (simp add: result_row_def case_prod_beta)
  show "rows L us = map reuse_row (delta_rows L bs rs us)"
    unfolding delta_rows_def by (subst *(3), subst rows_map) (simp add: reuse_row_def case_prod_beta)
  show "rows L (zip rs us) = map extent_row (delta_rows L bs rs us)"
    unfolding delta_rows_def by (subst *(4), subst rows_map) (simp add: extent_row_def case_prod_beta)
qed

lemma row_image_layers [simp]:
  "row_layer (base_row r) = row_layer r" "row_layer (result_row r) = row_layer r"
  "row_layer (reuse_row r) = row_layer r" "row_layer (extent_row r) = row_layer r"
  by (simp_all add: base_row_def result_row_def reuse_row_def extent_row_def case_prod_beta)

definition keep_size :: "delta_row \<Rightarrow> int" where
  "keep_size = (\<lambda>(gi, (b, r, u), l). u * bytes_per_page l)"

definition tail_size :: "delta_row \<Rightarrow> int" where
  "tail_size = (\<lambda>(gi, (b, r, u), l). (r - u) * bytes_per_page l)"

lemma row_sizes:
  "row_size (result_row r) = keep_size r + tail_size r"
  "row_size (reuse_row r) = keep_size r"
  by (simp_all add: row_size_def result_row_def reuse_row_def keep_size_def tail_size_def
      case_prod_beta left_diff_distrib)

definition tail_fits :: "delta_row \<Rightarrow> byte list \<Rightarrow> bool" where
  "tail_fits r t \<longleftrightarrow> int (length t) = tail_size r"

text \<open>A row within the bounds the code checks; its layer has pages of positive size.\<close>

definition row_ok :: "delta_row \<Rightarrow> bool" where
  "row_ok = (\<lambda>(gi, (b, r, u), l). 0 < b \<and> b \<le> r \<and> 0 \<le> u \<and> u \<le> b \<and> 0 < bytes_per_page l)"

lemma row_ok_sizes:
  assumes "row_ok r"
  shows "0 \<le> keep_size r" "keep_size r \<le> row_size (base_row r)" "0 \<le> tail_size r"
  using assms
  by (simp_all add: row_ok_def keep_size_def tail_size_def base_row_def row_size_def
      case_prod_beta mult_right_mono)

text \<open>The planner's loop over groups and layers, on rows.\<close>

definition plan_row :: "int \<Rightarrow> delta_row \<Rightarrow> delta_state \<Rightarrow> codec_error + delta_state" where
  "plan_row tot = (\<lambda>(gi, (b, r, u), l). plan_tail tot gi r u l)"

lemma rfold_map: "rfold f (map g xs) s = rfold (\<lambda>x. f (g x)) xs s"
  by (induction xs arbitrary: s) (auto simp: rbind_def split: sum.splits)

lemma rfold_cong: "(\<And>x s. x \<in> set xs \<Longrightarrow> f x s = g x s) \<Longrightarrow> rfold f xs s = rfold g xs s"
proof (induction xs arbitrary: s)
  case (Cons x xs)
  then show ?case
    by (cases "g x s") simp_all
qed simp

lemma rfold_concat: "rfold f (concat xss) s = rfold (rfold f) xss s"
proof (induction xss arbitrary: s)
  case (Cons xs xss)
  then show ?case
    by (simp add: rfold_append) (cases "rfold f xs s"; simp)
qed simp

lemma plan_groups_rows:
  assumes "length bs = n" "length rs = n" "length us = n"
    and "\<forall>(b, u)\<in>set (zip bs us). 0 \<le> u \<and> u \<le> b"
  shows "rfold (plan_group_tails tot)
      (zip ks (zip gs (zip bs (zip rs (map JInt us))))) s =
    rfold (plan_row tot) (concat (map (\<lambda>(gi, g, x). map (\<lambda>l. (gi, x, l)) (layers g))
      (zip ks (zip gs (zip bs (zip rs us)))))) s"
proof -
  let ?z = "zip ks (zip gs (zip bs (zip rs us)))"
  have z: "zip ks (zip gs (zip bs (zip rs (map JInt us)))) = map (\<lambda>(gi, g, b, r, u). (gi, g, b, r, JInt u)) ?z"
    by (simp add: zip_map2 case_prod_beta split_def)
  have bu: "0 \<le> u \<and> u \<le> b" if "(gi, g, b, r, u) \<in> set ?z" for gi g b r u
  proof -
    have "(b, r, u) \<in> set (zip bs (zip rs us))"
      using set_zip_rightD [OF set_zip_rightD [OF that]] by simp
    then have "(b, u) \<in> set (zip bs us)"
      using assms by (auto simp: set_zip)
    then show ?thesis using assms(4) by auto
  qed
  show ?thesis
    unfolding z rfold_map rfold_concat
    by (rule rfold_cong) (auto simp: plan_group_tails_def plan_row_def rfold_map dest: bu)
qed

text \<open>The digests a header carries pass the planner's check.\<close>

definition row_descriptor :: "hash \<Rightarrow> delta_row \<Rightarrow> byte list \<Rightarrow> json" where
  "row_descriptor sha r t = tail_json sha (lname (row_layer r)) t"

definition tail_at :: "hash \<Rightarrow> int \<Rightarrow> delta_row \<Rightarrow> byte list \<Rightarrow> delta_tail" where
  "tail_at sha off r t = \<lparr>tail_layer = lname (row_layer r), tail_group = fst r, tail_start = off,
     tail_end = off + int (length t), destination_byte_offset = keep_size r, tail_sha256 = sha t\<rparr>"

fun tails_of :: "hash \<Rightarrow> int \<Rightarrow> delta_row list \<Rightarrow> byte list list \<Rightarrow> delta_tail list" where
  "tails_of sha off (r # rws) (t # ts) = tail_at sha off r t # tails_of sha (off + int (length t)) rws ts"
| "tails_of sha off _ _ = []"

lemma descriptor_ok_tail:
  "hex_hash sha \<Longrightarrow> descriptor_ok l (int (length t)) (tail_json sha (lname l) t)"
  by (auto simp: descriptor_ok_def tail_json_def jkeys_sorted jsub_sorted hex_hash_def)

lemma plan_row_step:
  assumes "hex_hash sha" "tail_fits r t" "off + int (length t) \<le> tot"
  shows "plan_row tot r (row_descriptor sha r t # ds, off, acc) =
    Inr (ds, off + int (length t), acc @ [tail_at sha off r t])"
proof -
  obtain gi b q u l where r: "r = (gi, (b, q, u), l)" by (cases r) auto
  have "(q - u) * bytes_per_page l = int (length t)"
    using assms(2) by (simp add: tail_fits_def tail_size_def r)
  then show ?thesis
    using descriptor_ok_tail [OF assms(1), of l t] assms(3)
    by (simp add: plan_row_def r plan_tail_def row_descriptor_def Let_def tail_at_def keep_size_def
        tail_json_def jsub_sorted)
qed

lemma plan_rows_run:
  assumes "hex_hash sha" "list_all2 tail_fits rws ts" "off + int (length (concat ts)) \<le> tot"
  shows "rfold (plan_row tot) rws (map2 (row_descriptor sha) rws ts @ ds, off, acc) =
    Inr (ds, off + int (length (concat ts)), acc @ tails_of sha off rws ts)"
  using assms(2,3)
proof (induction arbitrary: off acc rule: list_all2_induct)
  case (Cons r rws t ts)
  then show ?case
    using plan_row_step [OF assms(1) Cons.hyps(1), of off tot] Cons.IH [of "off + int (length t)"]
    by (simp add: add.assoc)
qed simp

text \<open>What applying the tails to the base payloads builds, layer by layer.\<close>

definition patch :: "delta_row \<Rightarrow> byte list \<Rightarrow> byte list \<Rightarrow> byte list" where
  "patch r base t = take (nat (keep_size r)) base @ t"

definition patches :: "delta_row list \<Rightarrow> byte list list \<Rightarrow> byte list list \<Rightarrow> byte list list" where
  "patches rws bases ts = map2 (\<lambda>r (b, t). patch r b t) rws (zip bases ts)"

lemma patches_map: "patches rws (map f rws) (map g rws) = map (\<lambda>r. patch r (f r) (g r)) rws"
  by (induction rws) (simp_all add: patches_def)

lemma patch_fits:
  assumes "row_ok r" "fits (base_row r) b" "tail_fits r t"
  shows "fits (result_row r) (patch r b t)"
  using row_ok_sizes [OF assms(1)] assms(2,3)
  by (simp add: fits_def patch_def tail_fits_def row_sizes)

lemma tail_drop_fits:
  assumes "row_ok r" "fits (result_row r) p"
  shows "tail_fits r (drop (nat (keep_size r)) p)"
proof -
  have "int (length p) = keep_size r + tail_size r"
    using assms(2) by (simp add: fits_def row_sizes)
  then show ?thesis
    using row_ok_sizes [OF assms(1)] by (simp add: tail_fits_def)
qed

lemma patches_fit:
  assumes "\<forall>r\<in>set rws. row_ok r" "list_all2 fits (map base_row rws) bases" "list_all2 tail_fits rws ts"
  shows "list_all2 fits (map result_row rws) (patches rws bases ts)"
  using assms by (auto simp: list_all2_conv_all_nth patches_def intro!: patch_fits)

definition apply_tail ::
  "hash \<Rightarrow> byte list \<Rightarrow> (string \<times> byte list) list \<Rightarrow> delta_tail \<times> page_layer \<Rightarrow>
   (string \<times> byte list) list \<Rightarrow> codec_error + (string \<times> byte list) list" where
  "apply_tail sha enc base = (\<lambda>(tl, l) payloads.
     let t = slice (nat (tail_start tl)) (nat (tail_end tl)) enc in
     if sha t \<noteq> tail_sha256 tl
     then Inl (HybridCodecError ''hybrid page delta payload checksum mismatch'')
     else Inr (AList.update (lname l)
       (take (nat (destination_byte_offset tl)) (payload_of base l) @ t) payloads))"

lemma apply_tails_run:
  assumes "length rws = length ts" "distinct (map fst acc @ map (\<lambda>r. lname (row_layer r)) rws)"
  shows "rfold (apply_tail sha (pre @ concat ts @ post) base)
      (zip (tails_of sha (int (length pre)) rws ts) (map row_layer rws)) acc =
    Inr (acc @ zip (map (\<lambda>r. lname (row_layer r)) rws)
      (patches rws (map (\<lambda>r. payload_of base (row_layer r)) rws) ts))"
  using assms
proof (induction rws ts arbitrary: pre acc rule: list_induct2)
  case Nil
  then show ?case by (simp add: patches_def)
next
  case (Cons r rws t ts)
  have sl: "slice (nat (int (length pre))) (nat (int (length pre) + int (length t)))
      (pre @ concat (t # ts) @ post) = t"
    by (simp add: slice_def nat_add_distrib)
  let ?p = "patch r (payload_of base (row_layer r)) t"
  have "apply_tail sha (pre @ concat (t # ts) @ post) base (tail_at sha (int (length pre)) r t, row_layer r) acc
      = Inr (acc @ [(lname (row_layer r), ?p)])"
    using Cons.prems sl by (simp add: apply_tail_def tail_at_def Let_def patch_def update_fresh)
  moreover have "rfold (apply_tail sha ((pre @ t) @ concat ts @ post) base)
      (zip (tails_of sha (int (length (pre @ t))) rws ts) (map row_layer rws)) (acc @ [(lname (row_layer r), ?p)]) =
    Inr ((acc @ [(lname (row_layer r), ?p)]) @ zip (map (\<lambda>r. lname (row_layer r)) rws)
      (patches rws (map (\<lambda>r. payload_of base (row_layer r)) rws) ts))"
    using Cons.prems by (intro Cons.IH) simp
  ultimately show ?case
    by (simp add: patches_def)
qed

lemma apply_page_delta_alt:
  "apply_page_delta sha L base_snapshot encoded_delta bs rs bb rb =
     rbind (plan_page_delta sha L encoded_delta bs rs bb rb (Some (int (length encoded_delta))))
       (\<lambda>plan.
       if base_snapshot_sha256 plan \<noteq> sha base_snapshot
       then Inl (HybridCodecError ''hybrid page delta identity or base differs'')
       else rbind (decode_page_snapshot sha L base_snapshot (base_block_counts plan)) (\<lambda>base.
         rbind (rfold (apply_tail sha encoded_delta base)
           (zip (tails plan) (concat (map layers (groups L)))) []) (\<lambda>payloads.
         rbind (encode_page_snapshot sha L (result_block_counts plan) payloads) (\<lambda>result.
           if sha result \<noteq> result_snapshot_sha256 plan
           then Inl (HybridCodecError ''hybrid page delta result checksum mismatch'')
           else Inr result))))"
  unfolding apply_page_delta_def apply_tail_def by simp

lemma int_list_jints [simp]: "int_list (jints xs) = Some xs"
  by (induction xs) (simp_all add: int_list_def jints_def)

lemma items_of_simps [simp]: "items_of (jints xs) = Some (map JInt xs)" "items_of (JArr vs) = Some vs"
  by (simp_all add: items_of_def jints_def)

lemma plain_tail_json: "plain (tail_json sha n t)"
  unfolding tail_json_def by (rule plain_sorted) auto

lemma plain_delta_json:
  "\<forall>d\<in>set descs. plain d \<Longrightarrow> plain (delta_json sha L bsha rsha bs rs bb rb us descs)"
  unfolding delta_json_def by (rule plain_sorted) (auto simp: list_all_iff)

text \<open>The checks on counts that the encoders and the planner make say that every row is sound.\<close>

definition extends :: "page_layout \<Rightarrow> int list \<Rightarrow> int list \<Rightarrow> int list \<Rightarrow> bool" where
  "extends L bs rs us \<longleftrightarrow> length bs = length (groups L) \<and> length rs = length (groups L) \<and>
     length us = length (groups L) \<and>
     (\<forall>(b, r, u)\<in>set (zip bs (zip rs us)). 0 < b \<and> b \<le> r \<and> 0 \<le> u \<and> u \<le> b)"

lemma check_extension_iff: "check_extension L bs rs us = Inr () \<longleftrightarrow> extends L bs rs us"
proof -
  define Q where "Q = (\<forall>(b, r, u)\<in>set (zip bs (zip rs us)). 0 < b \<and> b \<le> r \<and> 0 \<le> u \<and> u \<le> b)"
  have bad: "(\<lambda>(b, r, u). b \<le> 0 \<or> r < b \<or> \<not> (0 \<le> u \<and> u \<le> b)) =
      (\<lambda>x. \<not> (case x of (b, r, u) \<Rightarrow> 0 < b \<and> b \<le> r \<and> 0 \<le> u \<and> u \<le> (b::int)))"
    by (rule ext) (simp add: case_prod_beta not_le not_less)
  have not_all: "(\<exists>x\<in>Z. \<not> P x) \<longleftrightarrow> \<not> (\<forall>x\<in>Z. P x)" for P :: "int \<times> int \<times> int \<Rightarrow> bool" and Z
    by blast
  have "(\<exists>(b, r, u)\<in>set (zip bs (zip rs us)). b \<le> 0 \<or> r < b \<or> \<not> (0 \<le> u \<and> u \<le> b)) \<longleftrightarrow> \<not> Q"
    unfolding bad not_all Q_def ..
  then show ?thesis
    unfolding check_extension_def extends_def Q_def [symmetric] by simp metis
qed

lemma rows_ok:
  assumes "layout_ok L" "extends L bs rs us" "r \<in> set (delta_rows L bs rs us)"
  shows "row_ok r"
proof -
  obtain gi b q u l where r: "r = (gi, (b, q, u), l)" by (cases r) auto
  have "(b, q, u) \<in> set (zip bs (zip rs us))" "\<exists>g\<in>set (groups L). l \<in> set (layers g)"
    using row_in [of r] assms(3) by (auto simp: r delta_rows_def)
  then show ?thesis
    using assms(2) layout_layer_pos [OF assms(1)] by (auto simp: r row_ok_def extends_def)
qed

lemma extends_lengths:
  assumes "extends L bs rs us"
  shows "length bs = length (groups L)" "length rs = length (groups L)" "length us = length (groups L)"
  using assms by (simp_all add: extends_def)

lemma extends_nth:
  assumes "extends L bs rs us" "i < length (groups L)"
  shows "0 < bs ! i \<and> bs ! i \<le> rs ! i \<and> 0 \<le> us ! i \<and> us ! i \<le> bs ! i"
proof -
  have "zip bs (zip rs us) ! i \<in> set (zip bs (zip rs us))"
    using assms extends_lengths [OF assms(1)] by (intro nth_mem) simp
  then show ?thesis
    using assms extends_lengths [OF assms(1)] unfolding extends_def by fastforce
qed

lemma extends_counts: "extends L bs rs us \<Longrightarrow> counts_extend L bs rs"
  using extends_lengths extends_nth by (fastforce simp: counts_extend_def list_all2_conv_all_nth)

lemma extends_pairs: "extends L bs rs us \<Longrightarrow> \<forall>(b, u)\<in>set (zip bs us). 0 \<le> u \<and> u \<le> b"
  using extends_lengths extends_nth by (fastforce simp: set_zip)

lemma length_delta_rows:
  assumes "extends L bs rs us"
  shows "length (delta_rows L bs rs us) = length (layout_names L)"
proof -
  have "length (zip bs (zip rs us)) = length (groups L)"
    using extends_lengths [OF assms] by simp
  from arg_cong [OF rows_names [OF this], of length] show ?thesis
    by (simp add: delta_rows_def)
qed

lemma plan_delta_made:
  assumes L: "layout_ok L" and sha: "hex_hash sha" and b: "validate_delta_boundaries bb rb = Inr ()"
    and ext: "extends L bs rs us" and ts: "list_all2 tail_fits (delta_rows L bs rs us) ts"
    and made: "make_delta sha L (sha x) (sha y) bs rs bb rb us
      (map2 (row_descriptor sha) (delta_rows L bs rs us) ts) ts = Inr delta"
  obtains e where "delta = e @ concat ts"
    "plan_page_delta sha L delta bs rs bb rb (Some (int (length delta))) = Inr
      \<lparr>delta_header_bytes = length e, delta_total_bytes = int (length delta), base_block_counts = bs,
       result_block_counts = rs, base_boundary_tokens = bb, result_boundary_tokens = rb,
       base_snapshot_sha256 = sha x, result_snapshot_sha256 = sha y, reused_pages_by_group = us,
       tails = tails_of sha (int (length e)) (delta_rows L bs rs us) ts\<rparr>"
proof -
  define rws where "rws = delta_rows L bs rs us"
  define descs where "descs = map2 (row_descriptor sha) rws ts"
  define h where "h = delta_json sha L (sha x) (sha y) bs rs bb rb us descs"
  obtain e where e: "frame delta_magic h = Inr e" and delta: "delta = e @ concat ts"
    using made by (auto simp: make_delta_def rws_def descs_def h_def)
  have pl: "plain h"
    unfolding h_def by (rule plain_delta_json) (auto simp: descs_def row_descriptor_def plain_tail_json)
  have u: "unframe delta_magic ''delta'' delta = Inr (h, length e)"
    unfolding delta by (rule unframe_frame [OF e pl])
  have subs: "jsub h ''schema'' = jstr ''sparkcache-hybrid-page-delta/v1''"
    "jsub h ''layout_sha256'' = jstr (layout_digest sha L)"
    "jsub h ''base_snapshot_sha256'' = jstr (sha x)" "jsub h ''result_snapshot_sha256'' = jstr (sha y)"
    "jsub h ''base_block_counts'' = jints bs" "jsub h ''result_block_counts'' = jints rs"
    "jsub h ''base_boundary_tokens'' = JInt bb" "jsub h ''result_boundary_tokens'' = JInt rb"
    "jsub h ''reused_pages_by_group'' = jints us" "jsub h ''layer_tails'' = JArr descs"
    by (simp_all add: h_def delta_json_def jsub_sorted)
  have keys: "is_obj h" "jkeys h = set (map asc delta_keys)"
    by (auto simp: h_def delta_json_def jkeys_sorted delta_keys_def)
  have hex: "is_sha256 (jstr (sha x))" "is_sha256 (jstr (sha y))"
    using sha by (simp_all add: hex_hash_def)
  have len: "length descs = length (layout_names L)"
    using list_all2_lengthD [OF ts] length_delta_rows [OF ext] by (simp add: descs_def rws_def)
  have "rfold (plan_group_tails (int (length delta)))
      (zip [0..<length (groups L)] (zip (groups L) (zip bs (zip rs (map JInt us))))) (descs, int (length e), [])
    = Inr ([], int (length delta), tails_of sha (int (length e)) rws ts)"
    using plan_rows_run [OF sha ts, of "int (length e)" "int (length delta)" "[]" "[]"]
      plan_groups_rows [OF extends_lengths [OF ext] extends_pairs [OF ext]]
    by (simp add: rows_def delta_rows_def delta descs_def rws_def)
  then show thesis
    using that [OF delta] b u subs keys hex len extends_counts [OF ext] extends_lengths [OF ext]
    by (simp add: plan_page_delta_def delta rws_def comp_def)
qed

text \<open>
  Applying a delta gives the encoding of the patched payloads, whatever the encoder that
  made it.
\<close>

lemma apply_made:
  assumes L: "layout_ok L" and sha: "hex_hash sha" and b: "validate_delta_boundaries bb rb = Inr ()"
    and ext: "extends L bs rs us" and ts: "list_all2 tail_fits (delta_rows L bs rs us) ts"
    and base: "decode_page_snapshot sha L base bs = Inr (zip (layout_names L) segs)"
    and segs: "list_all2 fits (rows L bs) segs"
    and hd: "encode_page_snapshot_header sha L rs = Inr header"
    and result: "result = header @ concat (patches (delta_rows L bs rs us) segs ts)"
    and made: "make_delta sha L (sha base) (sha result) bs rs bb rb us
      (map2 (row_descriptor sha) (delta_rows L bs rs us) ts) ts = Inr delta"
  shows "apply_page_delta sha L base delta bs rs bb rb = Inr result"
    and "encode_page_snapshot sha L rs (zip (layout_names L) (patches (delta_rows L bs rs us) segs ts))
      = Inr result"
proof -
  define rws where "rws = delta_rows L bs rs us"
  define ps where "ps = patches rws segs ts"
  note len = extends_lengths [OF ext]
  have names: "map (\<lambda>r. lname (row_layer r)) rws = layout_names L"
    "map row_layer rws = concat (map layers (groups L))"
    using rows_names [of "zip bs (zip rs us)" L] rows_layers [of "zip bs (zip rs us)" L] len
    by (simp_all add: rws_def delta_rows_def)
  have img: "rows L bs = map base_row rws" "rows L rs = map result_row rws"
    using row_images [OF len] by (simp_all add: rws_def)
  have ok: "\<forall>r\<in>set rws. row_ok r"
    using rows_ok [OF L ext] by (simp add: rws_def)
  have fits: "list_all2 fits (rows L rs) ps"
    unfolding img ps_def using segs ts ok by (intro patches_fit) (simp_all add: img rws_def)
  have lens: "length segs = length rws" "length ts = length rws" "length ps = length rws"
    using list_all2_lengthD [OF segs] list_all2_lengthD [OF ts] list_all2_lengthD [OF fits]
    by (simp_all add: img rws_def)
  have pays: "map (\<lambda>r. payload_of (zip (layout_names L) segs) (row_layer r)) rws = segs"
    using payloads_of_zip [OF L len(1), of segs] lens by (simp add: img comp_def)
  obtain e where delta: "delta = e @ concat ts"
    and plan: "plan_page_delta sha L delta bs rs bb rb (Some (int (length delta))) = Inr
      \<lparr>delta_header_bytes = length e, delta_total_bytes = int (length delta), base_block_counts = bs,
       result_block_counts = rs, base_boundary_tokens = bb, result_boundary_tokens = rb,
       base_snapshot_sha256 = sha base, result_snapshot_sha256 = sha result, reused_pages_by_group = us,
       tails = tails_of sha (int (length e)) rws ts\<rparr>"
    using plan_delta_made [OF L sha b ext ts made] by (metis rws_def)
  have app: "rfold (apply_tail sha delta (zip (layout_names L) segs))
      (zip (tails_of sha (int (length e)) rws ts) (concat (map layers (groups L)))) []
    = Inr (zip (layout_names L) ps)"
    using apply_tails_run [of rws ts "[]" sha e "[]" "zip (layout_names L) segs"] lens
      layout_distinct [OF L]
    by (simp add: names pays delta ps_def)
  have "map (\<lambda>r. payload_of (zip (layout_names L) ps) (row_layer r)) (rows L rs) = ps"
    using payloads_of_zip [OF L len(2), of ps] lens by (simp add: img)
  moreover have "\<forall>r\<in>set (rows L rs). fits r (payload_of (zip (layout_names L) ps) (row_layer r))"
    using fits calculation
    by (metis (no_types, lifting) list_all2_map2 list.rel_map(2) list_all2_same)
  moreover have "fst ` set (zip (layout_names L) ps) = set (layout_names L)"
    using lens names by (metis length_map map_fst_zip list.set_map)
  ultimately show enc: "encode_page_snapshot sha L rs
      (zip (layout_names L) (patches (delta_rows L bs rs us) segs ts)) = Inr result"
    using hd result by (simp add: encode_iff ps_def rws_def)
  show "apply_page_delta sha L base delta bs rs bb rb = Inr result"
    using plan base app enc by (simp add: apply_page_delta_alt ps_def rws_def)
qed

section \<open>Reuse\<close>

lemma count_while_bounds:
  assumes "k \<le> n"
  shows "k + count_while f [k..<n] \<le> n \<and> (\<forall>i. k \<le> i \<and> i < k + count_while f [k..<n] \<longrightarrow> f i) \<and>
    (k + count_while f [k..<n] < n \<longrightarrow> \<not> f (k + count_while f [k..<n]))"
  using assms
proof (induction "n - k" arbitrary: k)
  case (Suc m)
  then have k: "[k..<n] = k # [Suc k..<n]"
    by (simp add: upt_conv_Cons)
  show ?case
  proof (cases "f k")
    case True
    have "Suc k + count_while f [Suc k..<n] \<le> n \<and>
        (\<forall>i. Suc k \<le> i \<and> i < Suc k + count_while f [Suc k..<n] \<longrightarrow> f i) \<and>
        (Suc k + count_while f [Suc k..<n] < n \<longrightarrow> \<not> f (Suc k + count_while f [Suc k..<n]))"
      using Suc by (intro Suc.hyps(1)) simp_all
    then show ?thesis
      using True by (simp add: k) (metis Suc_leI le_neq_implies_less)
  next
    case False
    then show ?thesis using Suc by (auto simp: k)
  qed
qed auto

lemma reusable_bounds:
  assumes "0 \<le> n"
  shows "0 \<le> reusable_pages base result g n" "reusable_pages base result g n \<le> n"
  using count_while_bounds [of 0 "nat n" "same_page base result g"] assms
  unfolding reusable_pages_def by linarith+

lemma reusable_same:
  assumes "int i < reusable_pages base result g n" "l \<in> set (layers g)"
  shows "page_at l i (payload_of base l) = page_at l i (payload_of result l)"
  using count_while_bounds [of 0 "nat n" "same_page base result g"] assms
  by (auto simp: reusable_pages_def same_page_def list_all_iff)

lemma pages_take:
  assumes "0 < bytes_per_page l" "\<And>i. i < m \<Longrightarrow> page_at l i x = page_at l i y"
  shows "take (nat (int m * bytes_per_page l)) x = take (nat (int m * bytes_per_page l)) y"
  using assms(2)
proof (induction m)
  case (Suc m)
  let ?a = "nat (int m * bytes_per_page l)" and ?b = "nat ((int m + 1) * bytes_per_page l)"
  have ab: "?a \<le> ?b"
    using assms(1) by (intro nat_mono mult_right_mono) simp_all
  have "take ?b z = take ?a z @ page_at l m z" for z
    using slice_join [OF _ ab, of 0 z] by (simp add: take_as_slice page_at_def)
  then show ?case
    using Suc by (simp add: add.commute)
qed simp

text \<open>The reused prefix of every row is common to the base and the result.\<close>

lemma reused_extends:
  assumes "length bs = length (groups L)" "length rs = length (groups L)"
    and "list_all2 (\<lambda>b r. 0 < b \<and> b \<le> r) bs rs"
  shows "extends L bs rs (map2 (reusable_pages base result) (groups L) bs)"
proof -
  have "0 < bs ! i \<and> bs ! i \<le> rs ! i" if "i < length (groups L)" for i
    using that assms by (auto simp: list_all2_conv_all_nth)
  then show ?thesis
    using assms by (fastforce simp: extends_def set_zip reusable_bounds)
qed

lemma delta_row_group:
  assumes "r \<in> set (delta_rows L bs rs (map2 f (groups L) bs))" "length bs = length (groups L)"
  obtains gi b q l g where "r = (gi, (b, q, f g b), l)" "g \<in> set (groups L)" "l \<in> set (layers g)"
proof -
  let ?us = "map2 f (groups L) bs"
  obtain gi g b q u l where r: "r = (gi, (b, q, u), l)" "l \<in> set (layers g)"
    and z: "(gi, g, b, q, u) \<in> set (zip [0..<length (groups L)] (zip (groups L) (zip bs (zip rs ?us))))"
    using assms(1) by (auto simp: delta_rows_def rows_def)
  have "(g, b, q, u) \<in> set (zip (groups L) (zip bs (zip rs ?us)))"
    using set_zip_rightD [OF z] .
  then have "u = f g b" "g \<in> set (groups L)"
    using assms(2) by (auto simp: set_zip)
  then show thesis
    using that r by blast
qed

lemma reused_prefix:
  assumes L: "layout_ok L" and len: "length bs = length (groups L)"
    and pos: "\<forall>b\<in>set bs. 0 < b"
    and r: "r \<in> set (delta_rows L bs rs (map2 (reusable_pages base result) (groups L) bs))"
  shows "take (nat (keep_size r)) (payload_of base (row_layer r)) =
    take (nat (keep_size r)) (payload_of result (row_layer r))"
proof -
  obtain gi b q l g where eq: "r = (gi, (b, q, reusable_pages base result g b), l)"
    and g: "g \<in> set (groups L)" "l \<in> set (layers g)"
    using delta_row_group [OF r len] .
  define m where "m = nat (reusable_pages base result g b)"
  have m: "reusable_pages base result g b = int m"
    by (simp add: m_def reusable_pages_def)
  have "take (nat (int m * bytes_per_page l)) (payload_of base l) =
      take (nat (int m * bytes_per_page l)) (payload_of result l)"
    by (rule pages_take [OF layout_layer_pos [OF L g]]) (rule reusable_same [where n = b and g = g], simp_all add: m g)
  then show ?thesis
    by (simp add: eq keep_size_def m)
qed

text \<open>What an encoder produced is a header and fitting payloads, and decodes to them.\<close>

lemma encode_sound:
  assumes L: "layout_ok L" and "encode_page_snapshot sha L counts payloads = Inr enc"
  obtains header segs where "encode_page_snapshot_header sha L counts = Inr header"
    "segs = map (\<lambda>r. payload_of payloads (row_layer r)) (rows L counts)"
    "fst ` set payloads = set (layout_names L)" "length counts = length (groups L)"
    "list_all2 fits (rows L counts) segs" "enc = header @ concat segs"
    "decode_page_snapshot sha L enc counts = Inr (zip (layout_names L) segs)"
proof -
  let ?segs = "map (\<lambda>r. payload_of payloads (row_layer r)) (rows L counts)"
  obtain header where names: "fst ` set payloads = set (layout_names L)"
    and h: "encode_page_snapshot_header sha L counts = Inr header"
    and fit: "\<forall>r\<in>set (rows L counts). fits r (payload_of payloads (row_layer r))"
    and enc: "enc = header @ concat ?segs"
    using assms(2) unfolding encode_iff by blast
  have fits: "list_all2 fits (rows L counts) ?segs"
    using fit by (simp add: list_all2_map2 list_all2_same)
  have "length counts = length (groups L)"
    using h by (auto simp: encode_header_iff)
  then show thesis
    using that [OF h refl names _ fits enc] decode_frame [OF L h fits] enc by simp
qed

text \<open>
  The delta encoder in terms of rows: the tails are what follows the reused prefix of each
  result payload, and patching the base payloads with them gives the result payloads.
\<close>

lemma encode_delta_rows:
  fixes d rd :: "(string \<times> byte list) list"
  assumes L: "layout_ok L" and c: "counts_extend L bs rs"
    and d: "d = zip (layout_names L) segs" and bfit: "list_all2 fits (rows L bs) segs"
    and rd: "rd = zip (layout_names L) rsegs" and rfit: "list_all2 fits (rows L rs) rsegs"
    and us: "us = map2 (reusable_pages d rd) (groups L) bs"
    and rws: "rws = delta_rows L bs rs us"
    and ts: "ts = map (\<lambda>r. drop (nat (keep_size r)) (payload_of rd (row_layer r))) rws"
  shows "extends L bs rs us" "list_all2 tail_fits rws ts" "patches rws segs ts = rsegs"
    and "map (\<lambda>(gi, k, l). drop (nat (k * bytes_per_page l)) (payload_of rd l)) (rows L us) = ts"
    and "map2 (\<lambda>(gi, k, l) t. tail_json sha (lname l) t) (rows L us) ts = map2 (row_descriptor sha) rws ts"
proof -
  have len: "length bs = length (groups L)" "length rs = length (groups L)"
    and pos: "\<forall>b\<in>set bs. 0 < b"
    using c by (auto simp: counts_extend_def list_all2_conv_all_nth in_set_conv_nth)
  show ext: "extends L bs rs us"
    unfolding us using c by (intro reused_extends len) (simp add: counts_extend_def)
  have ims: "rows L bs = map base_row rws" "rows L rs = map result_row rws" "rows L us = map reuse_row rws"
    using row_images [OF extends_lengths [OF ext]] by (simp_all add: rws)
  have ok: "row_ok r" if "r \<in> set rws" for r
    using rows_ok [OF L ext] that by (simp add: rws)
  have rpays: "map (\<lambda>r. payload_of rd (row_layer r)) rws = rsegs"
    using payloads_of_zip [OF L len(2), of rsegs] list_all2_lengthD [OF rfit] by (simp add: rd ims comp_def)
  have bpays: "map (\<lambda>r. payload_of d (row_layer r)) rws = segs"
    using payloads_of_zip [OF L len(1), of segs] list_all2_lengthD [OF bfit] by (simp add: d ims comp_def)
  have rf: "fits (result_row r) (payload_of rd (row_layer r))" if "r \<in> set rws" for r
    using rfit that unfolding rpays [symmetric] ims(2) by (auto simp: list_all2_map1 list_all2_map2 list_all2_same)
  show "list_all2 tail_fits rws ts"
    unfolding ts list_all2_map2 list_all2_same using tail_drop_fits [OF ok rf] by blast
  have "patches rws segs ts =
      map (\<lambda>r. patch r (payload_of d (row_layer r)) (drop (nat (keep_size r)) (payload_of rd (row_layer r)))) rws"
    unfolding bpays [symmetric] ts by (rule patches_map)
  also have "\<dots> = map (\<lambda>r. payload_of rd (row_layer r)) rws"
    using reused_prefix [OF L len(1) pos, of _ rs d rd]
    by (intro map_cong refl) (simp add: patch_def rws us)
  finally show "patches rws segs ts = rsegs" by (simp add: rpays)
  show "map (\<lambda>(gi, k, l). drop (nat (k * bytes_per_page l)) (payload_of rd l)) (rows L us) = ts"
    by (simp add: ims(3) ts keep_size_def reuse_row_def case_prod_beta)
  show "map2 (\<lambda>(gi, k, l) t. tail_json sha (lname l) t) (rows L us) ts = map2 (row_descriptor sha) rws ts"
    by (simp add: ims(3) zip_map1 reuse_row_def row_descriptor_def case_prod_beta)
qed

text \<open>
  What a delta encoder that succeeded wrote applies to the base and gives the result; it
  fails only because of the header's length.
\<close>

lemma encode_then_apply:
  assumes "layout_ok L" "hex_hash sha"
    and "validate_delta_boundaries bb rb = Inr ()" "counts_extend L bs rs"
    and "decode_page_snapshot sha L base bs = Inr d"
    and "encode_page_snapshot sha L rs payloads = Inr result"
  shows "encode_page_delta sha L base result bs rs bb rb = Inr delta \<Longrightarrow>
      apply_page_delta sha L base delta bs rs bb rb = Inr result"
    and "encode_page_delta sha L base result bs rs bb rb = Inl e \<Longrightarrow> e = StructError"
proof -
  note L = assms(1)
  obtain segs where bfit: "list_all2 fits (rows L bs) segs" and d: "d = zip (layout_names L) segs"
    using decode_sound [OF L assms(5)] by metis
  obtain header rsegs where h: "encode_page_snapshot_header sha L rs = Inr header"
    and rfit: "list_all2 fits (rows L rs) rsegs" and result: "result = header @ concat rsegs"
    and rdec: "decode_page_snapshot sha L result rs = Inr (zip (layout_names L) rsegs)"
    using encode_sound [OF L assms(6)] .
  define rd where "rd = zip (layout_names L) rsegs"
  define us where "us = map2 (reusable_pages d rd) (groups L) bs"
  define rws where "rws = delta_rows L bs rs us"
  define ts where "ts = map (\<lambda>r. drop (nat (keep_size r)) (payload_of rd (row_layer r))) rws"
  note rows = encode_delta_rows [OF L assms(4) d bfit rd_def rfit us_def rws_def ts_def]
  let ?made = "make_delta sha L (sha base) (sha result) bs rs bb rb us (map2 (row_descriptor sha) rws ts) ts"
  have made: "encode_page_delta sha L base result bs rs bb rb = ?made"
    using assms(3-5) rdec rows(4) rows(5) [of sha] unfolding encode_page_delta_def counts_extend_def
    by (simp add: Let_def us_def rd_def)
  show "apply_page_delta sha L base delta bs rs bb rb = Inr result"
    if "encode_page_delta sha L base result bs rs bb rb = Inr delta"
    using apply_made(1) [OF L assms(2,3) rows(1) rows(2) [unfolded rws_def] assms(5) [unfolded d] bfit h
        _ that [unfolded made rws_def]] rows(3) result by (simp add: rws_def)
  show "e = StructError" if "encode_page_delta sha L base result bs rs bb rb = Inl e"
    using that unfolding made by (auto simp: make_delta_def frame_def pack_u32_def Let_def split: if_splits)
qed

section \<open>Captures\<close>

lemma decode_plan:
  assumes L: "layout_ok L" and plan: "plan_page_snapshot sha L enc counts targ = Inr p"
    and dec: "decode_page_snapshot sha L enc counts = Inr d"
  obtains e where "spans p = spans_of (int e) (rows L counts)"
    "d = zip (layout_names L) (map (span_bytes enc) (spans_of (int e) (rows L counts)))"
    "list_all2 fits (rows L counts) (map (span_bytes enc) (spans_of (int e) (rows L counts)))"
proof -
  obtain h e segs where u: "unframe magic ''snapshot'' enc = Inr (h, e)"
    and fit: "list_all2 fits (rows L counts) segs" and tile: "drop e enc = concat segs"
    and d: "d = zip (layout_names L) segs"
    using decode_sound [OF L dec] by metis
  have "e \<le> length enc"
    using u by (simp add: unframe_iff)
  then have "length (take e enc) = e" and enc: "take e enc @ concat segs = enc"
    by (simp_all flip: tile)
  then have "map (span_bytes enc) (spans_of (int e) (rows L counts)) = segs"
    using spans_bytes [OF fit, of "take e enc"] by simp
  moreover have "spans p = spans_of (int e) (rows L counts)"
    using plan u unfolding plan_iff [OF L] by auto
  ultimately show thesis
    using that fit d by simp
qed

lemma read_tail_sound:
  assumes "read_tail c tot (extent_row r) cur = Inr (t, stop)"
  shows "tail_fits r t" "stop = cur + int (length t)"
proof -
  obtain gi b q u l where r: "r = (gi, (b, q, u), l)" by (cases r) auto
  show "tail_fits r t" "stop = cur + int (length t)"
    using assms by (auto simp: r read_tail_def extent_row_def Let_def tail_fits_def tail_size_def
        split: if_splits option.splits)
qed

lemma span_prefix:
  assumes "row_ok r" "0 \<le> off"
  shows "slice (nat off) (nat (off + keep_size r)) base =
    take (nat (keep_size r)) (span_bytes base (span_at off (base_row r)))"
  using row_ok_sizes [OF assms(1)] assms(2)
  by (simp add: span_bytes_at slice_def min_def nat_add_distrib)

lemma capture_layer_step:
  assumes "row_ok r" "0 \<le> off"
  shows "capture_layer sha base c tot (extent_row r) (span_at off (base_row r) # sps, cur, dig, parts, descs) =
    rbind (read_tail c tot (extent_row r) cur) (\<lambda>(t, stop).
      Inr (sps, stop, dig @ patch r (span_bytes base (span_at off (base_row r))) t, parts @ [t],
        descs @ [row_descriptor sha r t]))"
proof -
  have "\<exists>gi q u l. extent_row r = (gi, (q, u), l) \<and> u * bytes_per_page l = keep_size r \<and> l = row_layer r"
    by (cases r) (auto simp: extent_row_def keep_size_def)
  moreover have "source_start (span_at off (base_row r)) = off"
    by (simp add: span_at_def)
  ultimately show ?thesis
    using span_prefix [OF assms, of base]
    by (auto simp: capture_layer_def Let_def patch_def row_descriptor_def)
qed

lemma materialize_layer_step:
  assumes "lname (row_layer r) \<notin> fst ` set acc"
  shows "materialize_layer d c tot (extent_row r) (cur, acc) =
    rbind (read_tail c tot (extent_row r) cur) (\<lambda>(t, stop).
      Inr (stop, acc @ [(lname (row_layer r), patch r (payload_of d (row_layer r)) t)]))"
proof -
  have "\<exists>gi q u l. extent_row r = (gi, (q, u), l) \<and> u * bytes_per_page l = keep_size r \<and> l = row_layer r"
    by (cases r) (auto simp: extent_row_def keep_size_def)
  then show ?thesis
    using assms by (auto simp: materialize_layer_def Let_def patch_def update_fresh)
qed

text \<open>
  The loop of the capture encoder reads one tail per row and feeds the digest with the
  patched payloads, and the loop that materializes the result builds the same payloads.
\<close>

lemma capture_run:
  assumes "rfold (capture_layer sha base c tot) (map extent_row rws)
      (spans_of off (map base_row rws), cur, dig, parts, descs) = Inr (sps, cur', dig', parts', descs')"
    and "\<forall>r\<in>set rws. row_ok r" "0 \<le> off" "distinct (map fst acc @ map (\<lambda>r. lname (row_layer r)) rws)"
    and "map (\<lambda>r. payload_of d (row_layer r)) rws = map (span_bytes base) (spans_of off (map base_row rws))"
  shows "\<exists>ts. list_all2 tail_fits rws ts \<and> cur' = cur + int (length (concat ts)) \<and> parts' = parts @ ts \<and>
    descs' = descs @ map2 (row_descriptor sha) rws ts \<and>
    dig' = dig @ concat (patches rws (map (\<lambda>r. payload_of d (row_layer r)) rws) ts) \<and>
    rfold (materialize_layer d c tot) (map extent_row rws) (cur, acc) =
      Inr (cur', acc @ zip (map (\<lambda>r. lname (row_layer r)) rws)
        (patches rws (map (\<lambda>r. payload_of d (row_layer r)) rws) ts))"
  using assms
proof (induction rws arbitrary: off cur dig parts descs acc)
  case Nil
  then show ?case by (simp add: patches_def)
next
  case (Cons r rws)
  let ?n = "lname (row_layer r)"
  let ?b = "payload_of d (row_layer r)"
  have ok: "row_ok r" and pay: "span_bytes base (span_at off (base_row r)) = ?b"
    using Cons.prems(2,5) by simp_all
  obtain t stop where rd: "read_tail c tot (extent_row r) cur = Inr (t, stop)"
    and rest: "rfold (capture_layer sha base c tot) (map extent_row rws)
      (spans_of (off + row_size (base_row r)) (map base_row rws), stop, dig @ patch r ?b t, parts @ [t],
       descs @ [row_descriptor sha r t]) = Inr (sps, cur', dig', parts', descs')"
    using Cons.prems(1) by (auto simp: capture_layer_step [OF ok Cons.prems(3)] pay)
  note t = read_tail_sound [OF rd]
  have off: "0 \<le> off + row_size (base_row r)"
    using row_ok_sizes [OF ok] Cons.prems(3) by simp
  obtain ts where ts: "list_all2 tail_fits rws ts" "cur' = stop + int (length (concat ts))"
    "parts' = (parts @ [t]) @ ts" "descs' = (descs @ [row_descriptor sha r t]) @ map2 (row_descriptor sha) rws ts"
    "dig' = (dig @ patch r ?b t) @ concat (patches rws (map (\<lambda>r. payload_of d (row_layer r)) rws) ts)"
    "rfold (materialize_layer d c tot) (map extent_row rws) (stop, acc @ [(?n, patch r ?b t)]) =
      Inr (cur', (acc @ [(?n, patch r ?b t)]) @ zip (map (\<lambda>r. lname (row_layer r)) rws)
        (patches rws (map (\<lambda>r. payload_of d (row_layer r)) rws) ts))"
    using Cons.IH [OF rest, of "acc @ [(?n, patch r ?b t)]"] Cons.prems off by auto
  have "?n \<notin> fst ` set acc"
    using Cons.prems(4) by auto
  then have "rfold (materialize_layer d c tot) (map extent_row (r # rws)) (cur, acc) =
      rfold (materialize_layer d c tot) (map extent_row rws) (stop, acc @ [(?n, patch r ?b t)])"
    by (simp add: materialize_layer_step rd)
  then show ?case
    using ts t by (intro exI [of _ "t # ts"]) (simp add: patches_def)
qed

section \<open>The properties\<close>

text \<open>
  C11. Every snapshot that the encoder produces decodes, under the same layout and block
  counts, to exactly the payloads that were encoded: the layers appear once each, in layout
  order, with the bytes that were passed for them.
\<close>

theorem snapshot_roundtrip:
  assumes "layout_ok L" "encode_page_snapshot sha L counts payloads = Inr enc"
  shows "\<exists>d. decode_page_snapshot sha L enc counts = Inr d \<and> map_of d = map_of payloads \<and>
    map fst d = layout_names L"
proof -
  obtain header segs where segs: "segs = map (\<lambda>r. payload_of payloads (row_layer r)) (rows L counts)"
    and names: "fst ` set payloads = set (layout_names L)" and len: "length counts = length (groups L)"
    and dec: "decode_page_snapshot sha L enc counts = Inr (zip (layout_names L) segs)"
    using encode_sound [OF assms] .
  let ?d = "zip (layout_names L) segs"
  note ns = rows_names [OF len, symmetric]
  have "map_of ?d = map_of payloads"
  proof (rule map_of_eqI)
    show keys: "set (map fst ?d) = set (map fst payloads)"
      using names by (simp add: ns segs)
    have "map_of (map (\<lambda>r. (lname (row_layer r), payload_of payloads (row_layer r))) rws) n =
        (if n \<in> (\<lambda>r. lname (row_layer r)) ` set rws then Some (case map_of payloads n of Some b \<Rightarrow> b | None \<Rightarrow> []) else None)"
      for n and rws :: "int row list"
      by (induction rws) (auto simp: payload_of_def)
    then have "map_of ?d n = (if n \<in> set (layout_names L)
        then Some (case map_of payloads n of Some b \<Rightarrow> b | None \<Rightarrow> []) else None)" for n
      by (simp add: ns segs map_pair_zip)
    then show "\<forall>k\<in>set (map fst ?d). map_of ?d k = map_of payloads k"
      using keys by (auto split: option.splits simp: map_of_eq_None_iff names)
  qed
  moreover have "map fst ?d = layout_names L"
    by (simp add: ns segs)
  ultimately show ?thesis using dec by blast
qed

text \<open>
  A snapshot that decodes is what its header claims: the layout digest in the header is
  the layout's, the payloads are the bytes after the header, in layout order and without
  gap or rest, and each has exactly the bytes of its layer's pages.
\<close>

theorem decode_tiles:
  assumes "layout_ok L" "decode_page_snapshot sha L enc counts = Inr d"
  shows "\<exists>h e. unframe magic ''snapshot'' enc = Inr (h, e) \<and>
    jget h ''layout_sha256'' = Some (jstr (layout_digest sha L)) \<and>
    map fst d = layout_names L \<and> concat (map snd d) = drop e enc \<and>
    list_all2 (\<lambda>(gi, count, l) b. int (length b) = count * bytes_per_page l) (rows L counts) (map snd d)"
proof -
  obtain h e segs where u: "unframe magic ''snapshot'' enc = Inr (h, e)"
    and hd: "header_differs sha L h counts = Inr False" and len: "length counts = length (groups L)"
    and fit: "list_all2 fits (rows L counts) segs"
    and tile: "drop e enc = concat segs" and d: "d = zip (layout_names L) segs"
    using decode_sound [OF assms] by metis
  have "jget h ''layout_sha256'' = Some (jstr (layout_digest sha L))"
    using hd by (auto simp: header_differs_def split: if_splits)
  moreover have "length (layout_names L) = length segs"
    using list_all2_lengthD [OF fit] arg_cong [OF rows_names [OF len], of length] by simp
  moreover have "(\<lambda>(gi, count, l) b. int (length b) = count * bytes_per_page l) = fits"
    by (simp add: fun_eq_iff fits_def row_size_def)
  ultimately show ?thesis
    using u fit tile d by auto
qed

text \<open>
  Planning from any prefix that holds the header, with the total length passed, gives
  the plan of the complete snapshot: the payload bytes are not looked at.
\<close>

theorem plan_from_header:
  assumes "layout_ok L" "plan_page_snapshot sha L enc counts None = Inr p"
    and "header_bytes p \<le> m"
  shows "plan_page_snapshot sha L (take m enc) counts (Some (int (length enc))) = Inr p"
proof -
  obtain h e where u: "unframe magic ''snapshot'' enc = Inr (h, e)" and m: "e \<le> m"
    and rest: "\<forall>c\<in>set counts. 0 < c" "header_differs sha L h counts = Inr False"
      "int e + rows_size (rows L counts) = int (length enc)"
      "p = \<lparr>header_bytes = e, total_bytes = int e + rows_size (rows L counts),
         block_counts = counts, spans = spans_of (int e) (rows L counts)\<rparr>"
    using assms(2,3) unfolding plan_iff [OF assms(1)] by auto
  show ?thesis
    unfolding plan_iff [OF assms(1)] using unframe_prefix [OF u m] rest by auto
qed

text \<open>The announced size of a snapshot is the length of what the encoder then writes.\<close>

theorem encoded_size_exact:
  assumes "encode_page_snapshot sha L counts payloads = Inr enc"
  shows "page_snapshot_encoded_size sha L counts = Inr (int (length enc))"
proof -
  obtain header where h: "encode_page_snapshot_header sha L counts = Inr header"
    and fit: "\<forall>r\<in>set (rows L counts). fits r (payload_of payloads (row_layer r))"
    and enc: "enc = header @ concat (map (\<lambda>r. payload_of payloads (row_layer r)) (rows L counts))"
    using assms unfolding encode_iff by blast
  have "list_all2 fits (rows L counts) (map (\<lambda>r. payload_of payloads (row_layer r)) (rows L counts))"
    using fit by (simp add: list_all2_map2 list_all2_same)
  then have "rows_size (rows L counts) = int (length enc) - int (length header)"
    using fits_size by (fastforce simp: enc)
  moreover have "(\<lambda>(gi, c, l). c * bytes_per_page l) = row_size"
    by (simp add: fun_eq_iff row_size_def)
  ultimately show ?thesis
    by (simp add: page_snapshot_encoded_size_def h rows_size_def)
qed

text \<open>
  C1. Applying the delta between a base and an encoded result to that base gives back the
  result, byte for byte. The encoder can fail only because the header exceeds the four
  gigabytes its length field can hold.
\<close>

theorem delta_roundtrip:
  assumes "layout_ok L" "hex_hash sha"
    and "validate_delta_boundaries bb rb = Inr ()" "counts_extend L bs rs"
    and "decode_page_snapshot sha L base bs = Inr d"
    and "encode_page_snapshot sha L rs payloads = Inr result"
  shows "encode_page_delta sha L base result bs rs bb rb = Inl StructError \<or>
    (\<exists>delta. encode_page_delta sha L base result bs rs bb rb = Inr delta \<and>
      apply_page_delta sha L base delta bs rs bb rb = Inr result)"
  using encode_then_apply [OF assms] by (cases "encode_page_delta sha L base result bs rs bb rb") auto

text \<open>
  C23. A delta encoded from captured pages, without the result snapshot, is a delta to the
  snapshot that the direct construction from the base and the same capture gives: both
  succeed, and applying the one yields the other.
\<close>

theorem capture_delta_materializes:
  assumes "layout_ok L" "hex_hash sha"
    and "encode_page_delta_from_capture sha L base captured bs rs us bb rb = Inr delta"
  shows "\<exists>result. materialize_page_extension_capture sha L base captured bs rs us = Inr result \<and>
    apply_page_delta sha L base delta bs rs bb rb = Inr result"
proof -
  note L = assms(1)
  obtain plan tot header sps cur dig parts descs where b: "validate_delta_boundaries bb rb = Inr ()"
    and chk: "check_extension L bs rs us = Inr ()"
    and plan: "plan_page_snapshot sha L base bs (Some (int (length base))) = Inr plan"
    and tot: "check_capture captured = Inr tot" and h: "encode_page_snapshot_header sha L rs = Inr header"
    and run: "rfold (capture_layer sha base captured tot) (rows L (zip rs us)) (spans plan, 0, header, [], [])
      = Inr (sps, cur, dig, parts, descs)"
    and cur: "cur = tot"
    and made: "make_delta sha L (sha base) (sha dig) bs rs bb rb us descs parts = Inr delta"
    using assms(3) by (auto simp: encode_page_delta_from_capture_def split: if_splits)
  have ext: "extends L bs rs us"
    using chk by (simp add: check_extension_iff)
  note len = extends_lengths [OF ext]
  define rws where "rws = delta_rows L bs rs us"
  have ims: "rows L bs = map base_row rws" "rows L (zip rs us) = map extent_row rws"
    using row_images [OF len] by (simp_all add: rws_def)
  have ok: "\<forall>r\<in>set rws. row_ok r"
    using rows_ok [OF L ext] by (simp add: rws_def)
  have names: "map (\<lambda>r. lname (row_layer r)) rws = layout_names L"
    using rows_names [of "zip bs (zip rs us)" L] len by (simp add: rws_def delta_rows_def)
  have "plan_page_snapshot sha L base bs None = Inr plan"
    using plan unfolding plan_iff [OF L] by auto
  then obtain d where dec: "decode_page_snapshot sha L base bs = Inr d"
    by (simp add: decode_page_snapshot_def)
  obtain e where sp: "spans plan = spans_of (int e) (map base_row rws)"
    and dd: "d = zip (layout_names L) (map (span_bytes base) (spans_of (int e) (map base_row rws)))"
    and bfit: "list_all2 fits (rows L bs) (map (span_bytes base) (spans_of (int e) (map base_row rws)))"
    using decode_plan [OF L plan dec] by (auto simp: ims)
  have pays: "map (\<lambda>r. payload_of d (row_layer r)) rws = map (span_bytes base) (spans_of (int e) (map base_row rws))"
    using payloads_of_zip [OF L len(1)] by (simp add: dd ims comp_def)
  define ps where "ps = map (\<lambda>r. payload_of d (row_layer r)) rws"
  have d: "d = zip (layout_names L) ps"
    unfolding ps_def pays by (rule dd)
  obtain ts where ts: "list_all2 tail_fits rws ts" and parts: "parts = ts"
    and descs: "descs = map2 (row_descriptor sha) rws ts"
    and dig: "dig = header @ concat (patches rws ps ts)"
    and mat: "rfold (materialize_layer d captured tot) (map extent_row rws) (0, []) =
      Inr (cur, zip (layout_names L) (patches rws ps ts))"
    using capture_run [OF run [unfolded ims sp] ok, of "[]" d] layout_distinct [OF L] pays
    by (auto simp: names ps_def)
  have made': "make_delta sha L (sha base) (sha dig) bs rs bb rb us
      (map2 (row_descriptor sha) (delta_rows L bs rs us) ts) ts = Inr delta"
    using made by (simp add: parts descs rws_def)
  have segs: "list_all2 fits (rows L bs) ps"
    using bfit unfolding ps_def pays .
  note res = apply_made [OF L assms(2) b ext ts [unfolded rws_def] dec [unfolded d] segs h
      dig [unfolded rws_def] made']
  have "materialize_page_extension_capture sha L base captured bs rs us = Inr dig"
    using chk tot dec mat cur res(2)
    by (simp add: materialize_page_extension_capture_def ims rws_def)
  with res(1) show ?thesis by blast
qed

text \<open>
  C30. A delta that applies was meant for this base and gives what it announced: the plan's
  digests are the base's and the result's, and the result is a snapshot that decodes under
  the result counts.
\<close>

theorem apply_sound:
  assumes "layout_ok L" "apply_page_delta sha L base delta bs rs bb rb = Inr result"
  shows "\<exists>plan d. plan_page_delta sha L delta bs rs bb rb (Some (int (length delta))) = Inr plan \<and>
    base_snapshot_sha256 plan = sha base \<and> result_snapshot_sha256 plan = sha result \<and>
    decode_page_snapshot sha L result rs = Inr d"
proof -
  obtain plan payloads where plan: "plan_page_delta sha L delta bs rs bb rb (Some (int (length delta))) = Inr plan"
    and b: "base_snapshot_sha256 plan = sha base" "result_snapshot_sha256 plan = sha result"
    and enc: "encode_page_snapshot sha L (result_block_counts plan) payloads = Inr result"
    using assms(2) by (auto simp: apply_page_delta_alt split: if_splits)
  have "result_block_counts plan = rs"
    using plan by (auto simp: plan_page_delta_def Let_def split: if_splits option.splits)
  then show ?thesis
    using plan b enc encode_sound [OF assms(1)] by metis
qed

text \<open>
  C31. The encoder reuses exactly the longest run of leading pages on which base and result
  agree in every layer of the group.
\<close>

theorem reuse_is_maximal:
  "reusable_pages base result g (int n) = int k \<longleftrightarrow>
    k \<le> n \<and> (\<forall>i<k. \<forall>l\<in>set (layers g). page_at l i (payload_of base l) = page_at l i (payload_of result l)) \<and>
    (k < n \<longrightarrow> (\<exists>l\<in>set (layers g). page_at l k (payload_of base l) \<noteq> page_at l k (payload_of result l)))"
proof -
  let ?same = "same_page base result g"
  let ?m = "count_while ?same [0..<n]"
  have m: "?m \<le> n" "\<forall>i<?m. ?same i" "?m < n \<longrightarrow> \<not> ?same ?m"
    using count_while_bounds [of 0 n ?same] by simp_all
  have "?m = k \<longleftrightarrow> k \<le> n \<and> (\<forall>i<k. ?same i) \<and> (k < n \<longrightarrow> \<not> ?same k)"
    using m by (metis le_neq_implies_less linorder_neqE_nat less_le_trans)
  then show ?thesis
    by (auto simp: reusable_pages_def same_page_def list_all_iff)
qed

section \<open>Splitting\<close>

lemma split_from_spec:
  assumes "\<forall>k. w + (if k < r then 1 else 0) = f k"
  shows "concat (split_from enc w r off ks) = slice off (off + sum_list (map f ks)) enc"
    and "length (split_from enc w r off ks) = length ks"
    and "off + sum_list (map f ks) \<le> length enc \<Longrightarrow> map length (split_from enc w r off ks) = map f ks"
  using assms
proof (induction ks arbitrary: off)
  case (Cons k ks)
  {
    case 1
    then show ?case
      using Cons.IH(1) [of "off + f k"] slice_join [of off "off + f k" "off + f k + sum_list (map f ks)" enc]
      by (simp add: add.assoc Let_def)
  next
    case 2
    then show ?case using Cons.IH(2) by (simp add: Let_def)
  next
    case 3
    then show ?case using Cons.IH(3) [of "off + f k"] by (simp add: add.assoc Let_def)
  }
qed simp_all

lemma sum_widths: "sum_list (map (\<lambda>k. w + (if k < r then 1 else 0)) [0..<n]) = n * w + min r n"
  by (induction n) (auto simp: min_def)

text \<open>
  A snapshot is split into exactly the requested number of parts, which join to the
  snapshot again; part sizes differ by at most one byte and the longer parts come first.
\<close>

theorem split_joins:
  assumes "0 < n" "n \<le> length enc"
  shows "\<exists>parts. split_snapshot enc (int n) = Inr parts \<and> length parts = n \<and> concat parts = enc \<and>
    map length parts = map (\<lambda>k. length enc div n + (if k < length enc mod n then 1 else 0)) [0..<n]"
proof -
  let ?w = "length enc div n" and ?r = "length enc mod n"
  let ?f = "\<lambda>k. ?w + (if k < ?r then 1 else 0)"
  have "?r < n"
    using assms(1) by simp
  then have "sum_list (map ?f [0..<n]) = length enc"
    by (simp add: sum_widths)
  then show ?thesis
    using split_from_spec [where w = ?w and r = ?r and f = ?f and enc = enc and off = 0 and ks = "[0..<n]"] assms
    by (simp add: split_snapshot_def)
qed

end
