(* ===== verification/HybridSample.thy ===== *)
theory HybridSample
  imports HybridProps
begin

text \<open>
  The properties of the page codec at a concrete layout, with concrete payloads and a
  concrete digest.
\<close>

section \<open>A concrete layout\<close>

text \<open>
  The instances below use a layout of one group with two layers and a digest that is one
  fixed text of 64 hexadecimal characters.
\<close>

definition sample_hash :: hash where
  "sample_hash b = replicate 64 (CHR ''a'')"

definition sample_a :: page_layer where
  "sample_a = \<lparr>lname = ''a'', ldtype = ''u8'', page_shape = [2], bytes_per_page = 2\<rparr>"

definition sample_b :: page_layer where
  "sample_b = \<lparr>lname = ''b'', ldtype = ''u8'', page_shape = [1], bytes_per_page = 1\<rparr>"

definition sample_layout :: page_layout where
  "sample_layout = \<lparr>groups = [\<lparr>block_size = 4, layers = [sample_a, sample_b],
     reuse_policy = ''full'', reuse_window_tokens = None\<rparr>]\<rparr>"

lemma sample_layer [simp]: "lname sample_a = ''a''" "lname sample_b = ''b''"
  "bytes_per_page sample_a = 2" "bytes_per_page sample_b = 1"
  by (simp_all add: sample_a_def sample_b_def)

lemma sample_layout_ok: "layout_ok sample_layout"
  by (simp add: layout_ok_def sample_layout_def check_layout_def check_group_def check_layer_def
      layout_names_def Let_def asc_def code_def sample_a_def sample_b_def)

lemma hex_sample: "hex_hash sample_hash"
  by (simp add: hex_hash_def sample_hash_def is_sha256_def jstr_def hex_chars_def asc_def code_def)

definition sample_payloads :: "(string \<times> byte list) list" where
  "sample_payloads = [(''b'', [9, 8]), (''a'', [1, 2, 3, 4])]"

lemma sample_header_length:
  "length (dumps (header_json sample_hash sample_layout [1])) = 141"
  "length (dumps (header_json sample_hash sample_layout [2])) = 141"
  by code_simp+

lemma sample_delta_length:
  "length (dumps (delta_json sample_hash sample_layout (sample_hash []) (sample_hash []) [1] [2] 4 8 [1]
     [tail_json sample_hash ''a'' [3, 4], tail_json sample_hash ''b'' [8]])) < 1000"
  by code_simp

lemma frame_exists: "length (dumps h) < 4294967296 \<Longrightarrow> \<exists>f. frame mg h = Inr f"
  by (simp add: frame_def Let_def pack_u32_def)

lemma sample_groups: "length (groups sample_layout) = 1"
  by (simp add: sample_layout_def)

lemma sample_frame:
  "\<exists>f. frame delta_magic (delta_json sample_hash sample_layout (sample_hash []) (sample_hash []) [1] [2] 4 8 [1]
     [tail_json sample_hash ''a'' [3, 4], tail_json sample_hash ''b'' [8]]) = Inr f"
  by (rule frame_exists) (use sample_delta_length in linarith)

lemma sample_header: "c = 1 \<or> c = 2 \<Longrightarrow>
    \<exists>h. encode_page_snapshot_header sample_hash sample_layout [c] = Inr h"
  using frame_exists [of "header_json sample_hash sample_layout [c]" magic]
  by (auto simp: encode_header_iff sample_header_length sample_groups)

lemma sample_rows: "rows sample_layout [x] = [(0, x, sample_a), (0, x, sample_b)]"
  by (simp add: rows_def sample_layout_def)

lemma sample_names: "layout_names sample_layout = [''a'', ''b'']"
  by (simp add: layout_names_def sample_layout_def)

lemma sample_encodes:
  "\<exists>enc. encode_page_snapshot sample_hash sample_layout [1] [(''a'', [1, 2]), (''b'', [9])] = Inr enc"
  "\<exists>enc. encode_page_snapshot sample_hash sample_layout [2] sample_payloads = Inr enc"
  using sample_header [of 1] sample_header [of 2]
  by (auto simp: encode_iff sample_rows sample_names fits_def row_size_def payload_of_def sample_payloads_def)

lemma sample_decodes:
  assumes "encode_page_snapshot sample_hash sample_layout [1] [(''a'', [1, 2]), (''b'', [9])] = Inr enc"
  shows "decode_page_snapshot sample_hash sample_layout enc [1] = Inr [(''a'', [1, 2]), (''b'', [9])]"
  by (rule encode_sound [OF sample_layout_ok assms])
    (simp add: sample_rows sample_names payload_of_def sample_payloads_def)

lemma sample_decodes2:
  assumes "encode_page_snapshot sample_hash sample_layout [2] sample_payloads = Inr enc"
  shows "decode_page_snapshot sample_hash sample_layout enc [2] = Inr [(''a'', [1, 2, 3, 4]), (''b'', [9, 8])]"
  by (rule encode_sound [OF sample_layout_ok assms])
    (simp add: sample_rows sample_names payload_of_def sample_payloads_def)

lemma sample_reuse:
  "map2 (reusable_pages [(''a'', [1, 2]), (''b'', [9])] [(''a'', [1, 2, 3, 4]), (''b'', [9, 8])])
     (groups sample_layout) [1] = [1]"
  by (simp add: sample_layout_def reusable_pages_def same_page_def page_at_def payload_of_def slice_def)

lemma sample_delta:
  assumes "encode_page_snapshot sample_hash sample_layout [1] [(''a'', [1, 2]), (''b'', [9])] = Inr base"
    and "encode_page_snapshot sample_hash sample_layout [2] sample_payloads = Inr result"
  shows "encode_page_delta sample_hash sample_layout base result [1] [2] 4 8 \<noteq> Inl StructError"
proof -
  have h: "sample_hash base = sample_hash []" "sample_hash result = sample_hash []"
    by (simp_all add: sample_hash_def)
  show ?thesis
    using sample_frame
    unfolding encode_page_delta_def sample_decodes [OF assms(1)] sample_decodes2 [OF assms(2)]
    by (auto simp: validate_delta_boundaries_def sample_reuse sample_rows make_delta_def payload_of_def
      sample_groups Let_def h)
qed

lemma snapshot_roundtrip_witness:
  "\<exists>enc d. encode_page_snapshot sample_hash sample_layout [2] sample_payloads = Inr enc \<and>
    decode_page_snapshot sample_hash sample_layout enc [2] = Inr d \<and>
    map fst d = [''a'', ''b''] \<and> map_of d ''a'' = Some [1, 2, 3, 4]"
proof -
  obtain enc where enc: "encode_page_snapshot sample_hash sample_layout [2] sample_payloads = Inr enc"
    using sample_encodes(2) by blast
  show ?thesis
    using snapshot_roundtrip [OF sample_layout_ok enc] enc by (auto simp: sample_names sample_payloads_def)
qed

lemma decode_tiles_witness:
  "\<exists>enc e. decode_page_snapshot sample_hash sample_layout enc [2] =
      Inr [(''a'', [1, 2, 3, 4]), (''b'', [9, 8])] \<and> drop e enc = [1, 2, 3, 4, 9, 8]"
proof -
  obtain enc where "encode_page_snapshot sample_hash sample_layout [2] sample_payloads = Inr enc"
    using sample_encodes(2) by blast
  note d = sample_decodes2 [OF this]
  obtain e where "concat (map snd [(''a'', [1, 2, 3, 4]), (''b'', [9, 8])]) = drop e enc"
    using decode_tiles [OF sample_layout_ok d] by blast
  then have "drop e enc = [1, 2, 3, 4, 9, 8]"
    by simp
  with d show ?thesis by blast
qed

lemma plan_from_header_witness:
  "\<exists>enc p. plan_page_snapshot sample_hash sample_layout (take (header_bytes p) enc) [2]
      (Some (int (length enc))) = Inr p \<and> block_counts p = [2]"
proof -
  obtain enc where enc: "encode_page_snapshot sample_hash sample_layout [2] sample_payloads = Inr enc"
    using sample_encodes(2) by blast
  then obtain p where p: "plan_page_snapshot sample_hash sample_layout enc [2] None = Inr p"
    using sample_decodes2 [OF enc] by (auto simp: decode_page_snapshot_def)
  then have "block_counts p = [2]"
    by (auto simp: plan_iff [OF sample_layout_ok])
  then show ?thesis
    using plan_from_header [OF sample_layout_ok p order_refl] by blast
qed

lemma encoded_size_exact_witness:
  "\<exists>enc. encode_page_snapshot sample_hash sample_layout [2] sample_payloads = Inr enc \<and>
    page_snapshot_encoded_size sample_hash sample_layout [2] = Inr (int (length enc))"
  using sample_encodes(2) encoded_size_exact by blast

lemma delta_roundtrip_witness:
  "\<exists>base result delta. encode_page_snapshot sample_hash sample_layout [1] [(''a'', [1, 2]), (''b'', [9])] = Inr base \<and>
    encode_page_snapshot sample_hash sample_layout [2] sample_payloads = Inr result \<and>
    encode_page_delta sample_hash sample_layout base result [1] [2] 4 8 = Inr delta \<and>
    apply_page_delta sample_hash sample_layout base delta [1] [2] 4 8 = Inr result"
proof -
  obtain base result where b: "encode_page_snapshot sample_hash sample_layout [1] [(''a'', [1, 2]), (''b'', [9])] = Inr base"
    and r: "encode_page_snapshot sample_hash sample_layout [2] sample_payloads = Inr result"
    using sample_encodes by blast
  have "validate_delta_boundaries 4 8 = Inr ()" "counts_extend sample_layout [1] [2]"
    by (simp_all add: validate_delta_boundaries_def counts_extend_def sample_groups)
  then show ?thesis
    using delta_roundtrip [OF sample_layout_ok hex_sample _ _ sample_decodes [OF b] r] sample_delta [OF b r] b r
    by blast
qed

lemma sample_apply:
  "\<exists>base delta result. apply_page_delta sample_hash sample_layout base delta [1] [2] 4 8 = Inr result"
proof -
  obtain base result where b: "encode_page_snapshot sample_hash sample_layout [1] [(''a'', [1, 2]), (''b'', [9])] = Inr base"
    and r: "encode_page_snapshot sample_hash sample_layout [2] sample_payloads = Inr result"
    using sample_encodes by blast
  have "validate_delta_boundaries 4 8 = Inr ()" "counts_extend sample_layout [1] [2]"
    by (simp_all add: validate_delta_boundaries_def counts_extend_def sample_groups)
  note e = encode_then_apply [OF sample_layout_ok hex_sample this sample_decodes [OF b] r]
  show ?thesis
    using e sample_delta [OF b r]
    by (cases "encode_page_delta sample_hash sample_layout base result [1] [2] 4 8") blast+
qed

lemma sample_capture:
  assumes b: "encode_page_snapshot sample_hash sample_layout [1] [(''a'', [1, 2]), (''b'', [9])] = Inr base"
  shows "\<exists>delta. encode_page_delta_from_capture sample_hash sample_layout base (CaptureBytes [3, 4, 8])
    [1] [2] [1] 4 8 = Inr delta"
proof -
  let ?descs = "[tail_json sample_hash ''a'' [3, 4], tail_json sample_hash ''b'' [8]]"
  have h: "sample_hash x = sample_hash y" for x y
    by (simp add: sample_hash_def)
  obtain f where "frame delta_magic (delta_json sample_hash sample_layout (sample_hash [])
      (sample_hash []) [1] [2] 4 8 [1] ?descs) = Inr f"
    using sample_frame by blast
  then have f: "frame delta_magic (delta_json sample_hash sample_layout (sample_hash base)
      (sample_hash x) [1] [2] 4 8 [1] ?descs) = Inr f" for x
    using h [of base "[]"] h [of x "[]"] by simp
  obtain p where "plan_page_snapshot sample_hash sample_layout base [1] None = Inr p"
    using sample_decodes [OF b] by (auto simp: decode_page_snapshot_def)
  then obtain e where plan: "plan_page_snapshot sample_hash sample_layout base [1] (Some (int (length base))) = Inr p"
    and sp: "spans p = [span_at (int e) (0, 1, sample_a), span_at (int e + 2) (0, 1, sample_b)]"
    by (auto simp: plan_iff [OF sample_layout_ok] sample_rows row_size_def)
  obtain hd2 where hd2: "encode_page_snapshot_header sample_hash sample_layout [2] = Inr hd2"
    using sample_header [of 2] by blast
  have rows: "rows sample_layout (zip [2] [1]) = [(0, (2, 1), sample_a), (0, (2, 1), sample_b)]"
    by (simp add: sample_rows)
  have "\<exists>st dig. rfold (capture_layer sample_hash base (CaptureBytes [3, 4, 8]) 3)
      (rows sample_layout (zip [2] [1])) (spans p, 0, hd2, [], []) = Inr (st, 3, dig, [[3, 4], [8]], ?descs)"
    unfolding rows sp by (simp add: capture_layer_def read_tail_def slice_def)
  then obtain st dig where "rfold (capture_layer sample_hash base (CaptureBytes [3, 4, 8]) 3)
      (rows sample_layout (zip [2] [1])) (spans p, 0, hd2, [], []) = Inr (st, 3, dig, [[3, 4], [8]], ?descs)"
    by blast
  moreover have "check_extension sample_layout [1] [2] [1] = Inr ()"
    "check_capture (CaptureBytes [3, 4, 8]) = Inr 3" "validate_delta_boundaries 4 8 = Inr ()"
    by (simp_all add: check_extension_def sample_groups check_capture_def validate_delta_boundaries_def)
  ultimately show ?thesis
    using plan hd2 f [of dig] by (simp add: encode_page_delta_from_capture_def make_delta_def)
qed

lemma capture_delta_materializes_witness:
  "\<exists>base delta result. materialize_page_extension_capture sample_hash sample_layout base
      (CaptureBytes [3, 4, 8]) [1] [2] [1] = Inr result \<and>
    apply_page_delta sample_hash sample_layout base delta [1] [2] 4 8 = Inr result"
proof -
  obtain base where b: "encode_page_snapshot sample_hash sample_layout [1] [(''a'', [1, 2]), (''b'', [9])] = Inr base"
    using sample_encodes(1) by blast
  then show ?thesis
    using sample_capture [OF b] capture_delta_materializes [OF sample_layout_ok hex_sample] by blast
qed

lemma apply_sound_witness:
  "\<exists>base delta result plan. apply_page_delta sample_hash sample_layout base delta [1] [2] 4 8 = Inr result \<and>
    plan_page_delta sample_hash sample_layout delta [1] [2] 4 8 (Some (int (length delta))) = Inr plan \<and>
    base_snapshot_sha256 plan = sample_hash base"
proof -
  obtain base delta result where a: "apply_page_delta sample_hash sample_layout base delta [1] [2] 4 8 = Inr result"
    using sample_apply by blast
  show ?thesis
    using apply_sound [OF sample_layout_ok a] a by blast
qed

lemma split_joins_witness:
  "\<exists>parts. split_snapshot [1, 2, 3, 4, 5] 3 = Inr parts \<and> concat parts = [1, 2, 3, 4, 5] \<and>
    map length parts = [2, 2, 1]"
proof -
  have n: "[0..<3] = [0, 1, 2]"
    by (simp add: upt_conv_Cons)
  show ?thesis
    using split_joins [of 3 "[1, 2, 3, 4, 5]"] unfolding n by auto
qed

lemma reuse_is_maximal_witness:
  "reusable_pages [(''a'', [1, 2, 5, 6]), (''b'', [9, 8])] [(''a'', [1, 2, 3, 4]), (''b'', [9, 8])]
     (hd (groups sample_layout)) 2 = 1"
  using reuse_is_maximal [of "[(''a'', [1, 2, 5, 6]), (''b'', [9, 8])]"
      "[(''a'', [1, 2, 3, 4]), (''b'', [9, 8])]" "hd (groups sample_layout)" 2 1]
  by (simp add: sample_layout_def page_at_def payload_of_def slice_def)

end
