(* ===== verification/AsyncSem.thy ===== *)
theory AsyncSem
  imports Prelude
begin

text \<open>
  \<open>asyncio.Semaphore\<close> as CPython 3.12 implements it, which the admission middleware uses
  for its slots: a value, the futures of the waiting tasks in order, and the four points at
  which a task runs between two suspensions. A client of the semaphore sees it through the
  locale \<open>slots\<close>: whatever the interleaving, free slots, granted slots and held slots
  add up, and no waiter is left pending while a slot is free and nobody is on the way.
\<close>

section \<open>The semaphore\<close>

datatype fut = Pending | Granted | Cancelled

record sem =
  sem_value :: int
  sem_waiters :: "(nat \<times> fut) list"

definition new_sem :: "int \<Rightarrow> sem" where
  "new_sem n = \<lparr>sem_value = n, sem_waiters = []\<rparr>"

definition sem_locked :: "sem \<Rightarrow> bool" where
  "sem_locked s = (sem_value s = 0 \<or> list_ex (\<lambda>w. snd w \<noteq> Cancelled) (sem_waiters s))"

fun wake_first :: "(nat \<times> fut) list \<Rightarrow> (nat \<times> fut) list option" where
  "wake_first [] = None"
| "wake_first (w # ws) =
     (if snd w = Pending then Some ((fst w, Granted) # ws) else map_option (Cons w) (wake_first ws))"

text \<open>\<open>_wake_up_next\<close>: the new state and whether somebody was woken.\<close>

definition wake_up_next :: "sem \<Rightarrow> sem \<times> bool" where
  "wake_up_next s = (case wake_first (sem_waiters s) of
       None \<Rightarrow> (s, False)
     | Some ws \<Rightarrow> (s\<lparr>sem_value := sem_value s - 1, sem_waiters := ws\<rparr>, True))"

definition pending :: "sem \<Rightarrow> nat" where
  "pending s = length (filter (\<lambda>w. snd w = Pending) (sem_waiters s))"

definition granted :: "sem \<Rightarrow> nat" where
  "granted s = length (filter (\<lambda>w. snd w = Granted) (sem_waiters s))"

lemma wake_first_None: "wake_first ws = None \<longleftrightarrow> (\<forall>w\<in>set ws. snd w \<noteq> Pending)"
  by (induction ws) auto

lemma wake_first_Some:
  assumes "wake_first ws = Some vs"
  obtains a i b where "ws = a @ (i, Pending) # b" "\<forall>w\<in>set a. snd w \<noteq> Pending"
    "vs = a @ (i, Granted) # b"
  using assms
proof (induction ws arbitrary: vs thesis)
  case (Cons w ws)
  show ?case
  proof (cases "snd w = Pending")
    case True
    then show ?thesis
      using Cons.prems(1) [of "[]" "fst w" ws] Cons.prems(2) by (cases w) auto
  next
    case False
    then obtain us where us: "wake_first ws = Some us" "vs = w # us"
      using Cons.prems(2) by auto
    from Cons.IH [OF _ us(1)] obtain a i b where "ws = a @ (i, Pending) # b"
      "\<forall>w\<in>set a. snd w \<noteq> Pending" "us = a @ (i, Granted) # b"
      by blast
    then show ?thesis
      using Cons.prems(1) [of "w # a" i b] False us(2) by auto
  qed
qed simp

lemma wake_pending: "wake_up_next s = (t, True) \<Longrightarrow> pending t < pending s"
  by (auto simp: wake_up_next_def pending_def split: option.splits elim!: wake_first_Some)

text \<open>The loop at the end of \<open>acquire\<close>: wake while the value is positive and somebody waits.\<close>

function wake_all :: "sem \<Rightarrow> sem" where
  "wake_all s = (if 0 < sem_value s then
       (case wake_up_next s of (t, woken) \<Rightarrow> if woken then wake_all t else s)
     else s)"
  by pat_completeness auto
termination
  by (relation "measure pending") (auto intro: wake_pending)

declare wake_all.simps [simp del]

text \<open>
  \<open>acquire\<close> up to its suspension: either the slot is taken at once or a future is queued
  under the task's number.
\<close>

definition acquire_begin :: "sem \<Rightarrow> nat \<Rightarrow> sem \<times> bool" where
  "acquire_begin s i =
     (if \<not> sem_locked s then (s\<lparr>sem_value := sem_value s - 1\<rparr>, True)
      else (s\<lparr>sem_waiters := sem_waiters s @ [(i, Pending)]\<rparr>, False))"

definition remove_waiter :: "nat \<Rightarrow> sem \<Rightarrow> sem" where
  "remove_waiter i s = s\<lparr>sem_waiters := filter (\<lambda>w. fst w \<noteq> i) (sem_waiters s)\<rparr>"

definition fut_of :: "sem \<Rightarrow> nat \<Rightarrow> fut option" where
  "fut_of s i = map_of (sem_waiters s) i"

text \<open>\<open>acquire\<close> after its future got a result.\<close>

definition acquire_resume :: "sem \<Rightarrow> nat \<Rightarrow> sem" where
  "acquire_resume s i = wake_all (remove_waiter i s)"

text \<open>\<open>task.cancel()\<close> on a task that waits for its future: a pending future is cancelled.\<close>

definition cancel_future :: "sem \<Rightarrow> nat \<Rightarrow> sem" where
  "cancel_future s i = s\<lparr>sem_waiters :=
     map (\<lambda>w. if fst w = i \<and> snd w = Pending then (i, Cancelled) else w) (sem_waiters s)\<rparr>"

text \<open>\<open>acquire\<close> when it is cancelled: a slot that was already granted goes back.\<close>

definition acquire_abandon :: "sem \<Rightarrow> nat \<Rightarrow> sem" where
  "acquire_abandon s i = (let t = remove_waiter i s in
     wake_all (if fut_of s i = Some Granted then t\<lparr>sem_value := sem_value t + 1\<rparr> else t))"

definition sem_release :: "sem \<Rightarrow> sem" where
  "sem_release s = fst (wake_up_next (s\<lparr>sem_value := sem_value s + 1\<rparr>))"

section \<open>Invariant\<close>

text \<open>
  Futures are queued in the order of their numbers, no future is granted while an earlier
  one is pending, and a free slot with a pending waiter means that a granted task is still
  to run, which will pass the slot on.
\<close>

definition fifo :: "(nat \<times> fut) list \<Rightarrow> bool" where
  "fifo ws = sorted_wrt (\<lambda>v w. fst v < fst w \<and> (snd v = Pending \<longrightarrow> snd w \<noteq> Granted)) ws"

definition sem_ok :: "sem \<Rightarrow> bool" where
  "sem_ok s \<longleftrightarrow> 0 \<le> sem_value s \<and> fifo (sem_waiters s) \<and>
     (0 < sem_value s \<and> 0 < pending s \<longrightarrow> 0 < granted s)"

lemma fifo_append: "fifo (v @ w) \<longleftrightarrow> fifo v \<and> fifo w \<and>
    (\<forall>x\<in>set v. \<forall>y\<in>set w. fst x < fst y \<and> (snd x = Pending \<longrightarrow> snd y \<noteq> Granted))"
  by (simp add: fifo_def sorted_wrt_append)

lemma fifo_Cons: "fifo (x # w) \<longleftrightarrow> fifo w \<and>
    (\<forall>y\<in>set w. fst x < fst y \<and> (snd x = Pending \<longrightarrow> snd y \<noteq> Granted))"
  by (auto simp: fifo_def)

lemma fifo_single [simp]: "fifo []" "fifo [x]"
  by (simp_all add: fifo_def)

lemma fifo_distinct: "fifo ws \<Longrightarrow> distinct (map fst ws)"
  by (induction ws) (auto simp: fifo_Cons fifo_def)

lemma fifo_filter: "fifo ws \<Longrightarrow> fifo (filter P ws)"
  by (simp add: fifo_def sorted_wrt_filter)

lemma pending_0: "pending s = 0 \<longleftrightarrow> (\<forall>w\<in>set (sem_waiters s). snd w \<noteq> Pending)"
  by (auto simp: pending_def filter_empty_conv)

lemma wake_up_next_spec:
  assumes "wake_up_next s = (t, woken)" "fifo (sem_waiters s)"
  shows "fifo (sem_waiters t)" "map fst (sem_waiters t) = map fst (sem_waiters s)"
    "sem_value t + int (granted t) = sem_value s + int (granted s)"
    "woken \<Longrightarrow> sem_value t = sem_value s - 1 \<and> 0 < granted t"
    "\<not> woken \<Longrightarrow> t = s \<and> pending s = 0"
proof -
  show "\<not> woken \<Longrightarrow> t = s \<and> pending s = 0"
    using assms(1) by (auto simp: wake_up_next_def pending_0 wake_first_None split: option.splits)
  have *: "fifo (sem_waiters t) \<and> map fst (sem_waiters t) = map fst (sem_waiters s) \<and>
      sem_value t + int (granted t) = sem_value s + int (granted s) \<and>
      (woken \<longrightarrow> sem_value t = sem_value s - 1 \<and> 0 < granted t)"
  proof (cases "wake_first (sem_waiters s)")
    case None
    then show ?thesis using assms by (auto simp: wake_up_next_def)
  next
    case (Some vs)
    obtain a i b where w: "sem_waiters s = a @ (i, Pending) # b" "\<forall>w\<in>set a. snd w \<noteq> Pending"
      "vs = a @ (i, Granted) # b"
      using wake_first_Some [OF Some] .
    have t: "t = s\<lparr>sem_value := sem_value s - 1, sem_waiters := vs\<rparr>" "woken"
      using assms(1) Some by (simp_all add: wake_up_next_def)
    have "fifo vs"
      using assms(2) w by (auto simp: fifo_append fifo_Cons)
    then show ?thesis
      using t w by (simp add: granted_def)
  qed
  then show "fifo (sem_waiters t)" "map fst (sem_waiters t) = map fst (sem_waiters s)"
    "sem_value t + int (granted t) = sem_value s + int (granted s)"
    "woken \<Longrightarrow> sem_value t = sem_value s - 1 \<and> 0 < granted t"
    by simp_all
qed

lemma wake_all_spec:
  assumes "fifo (sem_waiters s)" "0 \<le> sem_value s"
  shows "fifo (sem_waiters (wake_all s)) \<and> map fst (sem_waiters (wake_all s)) = map fst (sem_waiters s) \<and>
    sem_value (wake_all s) + int (granted (wake_all s)) = sem_value s + int (granted s) \<and>
    0 \<le> sem_value (wake_all s) \<and> (sem_value (wake_all s) = 0 \<or> pending (wake_all s) = 0)"
  using assms
proof (induction s rule: wake_all.induct)
  case (1 s)
  show ?case
  proof (cases "0 < sem_value s")
    case True
    obtain t woken where t: "wake_up_next s = (t, woken)" by fastforce
    note spec = wake_up_next_spec [OF t 1(2)]
    show ?thesis
    proof (cases woken)
      case w: True
      then have "wake_all s = wake_all t"
        using True t by (simp add: wake_all.simps [of s])
      moreover have "0 \<le> sem_value t"
        using spec(4) w True by simp
      ultimately show ?thesis
        using 1(1) [OF True t [symmetric] w] spec by simp
    next
      case False
      then have "wake_all s = s"
        using True t by (simp add: wake_all.simps [of s])
      then show ?thesis using 1 spec(5) [OF False] by simp
    qed
  next
    case False
    then show ?thesis using 1 by (simp add: wake_all.simps [of s])
  qed
qed

lemma wake_all_ok: "fifo (sem_waiters s) \<Longrightarrow> 0 \<le> sem_value s \<Longrightarrow> sem_ok (wake_all s)"
  using wake_all_spec [of s] by (auto simp: sem_ok_def)

section \<open>The operations keep the invariant\<close>

definition avail :: "sem \<Rightarrow> int" where
  "avail s = sem_value s + int (granted s)"

definition sem_ids :: "sem \<Rightarrow> nat list" where
  "sem_ids s = map fst (sem_waiters s)"

lemma begin_now:
  assumes "sem_ok s" "acquire_begin s i = (t, True)"
  shows "sem_ok t" "avail t = avail s - 1" "sem_waiters t = sem_waiters s"
    "fut_of s j \<noteq> Some Pending"
proof -
  have free: "\<not> sem_locked s" and t: "t = s\<lparr>sem_value := sem_value s - 1\<rparr>"
    using assms(2) by (auto simp: acquire_begin_def split: if_splits)
  have c: "\<forall>w\<in>set (sem_waiters s). snd w = Cancelled"
    using free by (simp add: sem_locked_def list_ex_iff)
  then have "pending s = 0"
    by (auto simp: pending_0)
  moreover have "pending t = pending s"
    by (simp add: t pending_def)
  ultimately show "sem_ok t"
    using assms(1) free by (auto simp: sem_ok_def t sem_locked_def)
  show "avail t = avail s - 1" "sem_waiters t = sem_waiters s"
    by (simp_all add: t avail_def granted_def)
  show "fut_of s j \<noteq> Some Pending"
    using c by (auto simp: fut_of_def dest!: map_of_SomeD)
qed

lemma begin_wait:
  assumes "sem_ok s" "acquire_begin s i = (t, False)" "\<forall>j\<in>set (sem_ids s). j < i"
  shows "sem_ok t" "avail t = avail s" "sem_waiters t = sem_waiters s @ [(i, Pending)]"
proof -
  have lock: "sem_locked s" and t: "t = s\<lparr>sem_waiters := sem_waiters s @ [(i, Pending)]\<rparr>"
    using assms(2) by (auto simp: acquire_begin_def split: if_splits)
  have g: "granted t = granted s"
    by (simp add: t granted_def)
  then show "avail t = avail s" "sem_waiters t = sem_waiters s @ [(i, Pending)]"
    by (simp_all add: t avail_def)
  have "fifo (sem_waiters t)"
    using assms(1,3) by (auto simp: t sem_ok_def fifo_append sem_ids_def)
  moreover have "0 < granted s" if pos: "0 < sem_value s"
  proof -
    obtain w where w: "w \<in> set (sem_waiters s)" "snd w \<noteq> Cancelled"
      using lock pos by (auto simp: sem_locked_def list_ex_iff)
    show ?thesis
    proof (cases "snd w")
      case Pending
      then have "0 < pending s" using w pending_0 by (metis gr0I)
      then show ?thesis using assms(1) pos by (simp add: sem_ok_def)
    next
      case Granted
      then show ?thesis using w by (auto simp: granted_def filter_empty_conv)
    qed (use w in simp)
  qed
  ultimately show "sem_ok t"
    using assms(1) by (simp add: sem_ok_def g) (simp add: t)
qed

lemma granted_remove:
  assumes "fifo (sem_waiters s)"
  shows "int (granted (remove_waiter i s)) = int (granted s) - (if fut_of s i = Some Granted then 1 else 0)"
proof -
  have "distinct (map fst ws) \<Longrightarrow> int (length (filter (\<lambda>w. snd w = Granted) (filter (\<lambda>w. fst w \<noteq> i) ws))) =
      int (length (filter (\<lambda>w. snd w = Granted) ws)) - (if map_of ws i = Some Granted then 1 else 0)"
    for ws :: "(nat \<times> fut) list"
  proof (induction ws)
    case (Cons w ws)
    have "filter (\<lambda>w. fst w \<noteq> i) ws = ws" "map_of ws i = None" if "fst w = i"
    proof -
      have "i \<notin> fst ` set ws"
        using Cons.prems that by simp
      then show "filter (\<lambda>w. fst w \<noteq> i) ws = ws" "map_of ws i = None"
        by (auto simp: filter_id_conv map_of_eq_None_iff rev_image_eqI)
    qed
    then show ?case
      using Cons by (cases w) (auto simp del: filter_filter simp: rev_image_eqI)
  qed simp
  then show ?thesis
    using fifo_distinct [OF assms] by (simp add: granted_def remove_waiter_def fut_of_def)
qed

lemma remove_fifo: "fifo (sem_waiters s) \<Longrightarrow> fifo (sem_waiters (remove_waiter i s))"
  by (simp add: remove_waiter_def fifo_filter)

lemma remove_simps [simp]: "sem_value (remove_waiter i s) = sem_value s"
  "sem_ids (remove_waiter i s) = filter (\<lambda>j. j \<noteq> i) (sem_ids s)"
  by (simp_all add: remove_waiter_def sem_ids_def filter_map comp_def)

lemma resume_spec:
  assumes "sem_ok s" "fut_of s i = Some Granted"
  shows "sem_ok (acquire_resume s i)" "avail (acquire_resume s i) = avail s - 1"
    "sem_ids (acquire_resume s i) = filter (\<lambda>j. j \<noteq> i) (sem_ids s)"
proof -
  have f: "fifo (sem_waiters (remove_waiter i s))" "0 \<le> sem_value (remove_waiter i s)"
    using assms(1) by (simp_all add: sem_ok_def remove_fifo)
  note spec = wake_all_spec [OF f]
  show "sem_ok (acquire_resume s i)"
    using wake_all_ok [OF f] by (simp add: acquire_resume_def)
  show "avail (acquire_resume s i) = avail s - 1"
    using spec granted_remove [of s i] assms by (simp add: acquire_resume_def avail_def sem_ok_def)
  show "sem_ids (acquire_resume s i) = filter (\<lambda>j. j \<noteq> i) (sem_ids s)"
    using spec remove_simps(2) [of i s] by (simp add: acquire_resume_def sem_ids_def)
qed

lemma abandon_spec:
  assumes "sem_ok s"
  shows "sem_ok (acquire_abandon s i)" "avail (acquire_abandon s i) = avail s"
    "sem_ids (acquire_abandon s i) = filter (\<lambda>j. j \<noteq> i) (sem_ids s)"
proof -
  let ?t = "remove_waiter i s"
  let ?u = "if fut_of s i = Some Granted then ?t\<lparr>sem_value := sem_value ?t + 1\<rparr> else ?t"
  have f: "fifo (sem_waiters ?u)" "0 \<le> sem_value ?u" "granted ?u = granted ?t"
    using assms by (simp_all add: sem_ok_def remove_fifo granted_def)
  note spec = wake_all_spec [OF f(1,2)]
  have w: "acquire_abandon s i = wake_all ?u"
    by (simp add: acquire_abandon_def Let_def)
  show "sem_ok (acquire_abandon s i)"
    unfolding w by (rule wake_all_ok [OF f(1,2)])
  show "avail (acquire_abandon s i) = avail s"
    unfolding w using spec f(3) granted_remove [of s i] assms by (simp add: avail_def sem_ok_def)
  show "sem_ids (acquire_abandon s i) = filter (\<lambda>j. j \<noteq> i) (sem_ids s)"
    unfolding w using spec remove_simps(2) [of i s] by (simp add: sem_ids_def)
qed

lemma cancel_spec:
  assumes "sem_ok s"
  shows "sem_ok (cancel_future s i)" "avail (cancel_future s i) = avail s"
    "sem_ids (cancel_future s i) = sem_ids s"
proof -
  let ?g = "\<lambda>w. if fst w = i \<and> snd w = Pending then (i, Cancelled) else w"
  have snd: "snd (?g w) = Granted \<longleftrightarrow> snd w = Granted" "snd (?g w) = Pending \<longrightarrow> snd w = Pending"
    "fst (?g w) = fst w" for w :: "nat \<times> fut"
    by (cases "fst w = i \<and> snd w = Pending"; simp)+
  have "fifo ws \<Longrightarrow> fifo (map ?g ws)" for ws
    by (induction ws) (auto simp: fifo_Cons fifo_def)
  moreover have g: "granted (cancel_future s i) = granted s"
    using snd(1) by (simp add: granted_def cancel_future_def filter_map comp_def)
  moreover have "pending (cancel_future s i) \<le> pending s"
  proof -
    have "length (filter (\<lambda>w. snd w = Pending) (map ?g ws)) \<le> length (filter (\<lambda>w. snd w = Pending) ws)" for ws
      by (induction ws) auto
    then show ?thesis by (simp add: pending_def cancel_future_def)
  qed
  ultimately show "sem_ok (cancel_future s i)"
    using assms by (auto simp: sem_ok_def) (simp_all add: cancel_future_def)
  show "avail (cancel_future s i) = avail s"
    using g by (simp add: avail_def) (simp add: cancel_future_def)
  show "sem_ids (cancel_future s i) = sem_ids s"
    using snd(3) by (simp add: sem_ids_def cancel_future_def comp_def)
qed

lemma release_spec:
  assumes "sem_ok s"
  shows "sem_ok (sem_release s)" "avail (sem_release s) = avail s + 1" "sem_ids (sem_release s) = sem_ids s"
proof -
  let ?s = "s\<lparr>sem_value := sem_value s + 1\<rparr>"
  obtain t woken where t: "wake_up_next ?s = (t, woken)" by fastforce
  have f: "fifo (sem_waiters ?s)" "granted ?s = granted s" "pending ?s = pending s"
    using assms by (simp_all add: sem_ok_def granted_def pending_def)
  note spec = wake_up_next_spec [OF t f(1)]
  have r: "sem_release s = t" by (simp add: sem_release_def t)
  show "avail (sem_release s) = avail s + 1" "sem_ids (sem_release s) = sem_ids s"
    using spec f by (simp_all add: r avail_def sem_ids_def)
  show "sem_ok (sem_release s)"
  proof (cases woken)
    case True
    then show ?thesis using spec assms by (auto simp: r sem_ok_def)
  next
    case False
    then show ?thesis using spec f assms by (auto simp: r sem_ok_def)
  qed
qed

text \<open>A future is cancelled only by cancelling its own task, and only while it is pending.\<close>

definition is_dead :: "sem \<Rightarrow> nat \<Rightarrow> bool" where
  "is_dead s i = ((i, Cancelled) \<in> set (sem_waiters s))"

lemma wake_up_dead: "wake_up_next s = (t, b) \<Longrightarrow> is_dead t j \<longleftrightarrow> is_dead s j"
  by (auto simp: wake_up_next_def is_dead_def split: option.splits elim!: wake_first_Some)

lemma wake_all_dead: "is_dead (wake_all s) j \<longleftrightarrow> is_dead s j"
proof (induction s rule: wake_all.induct)
  case (1 s)
  obtain t b where t: "wake_up_next s = (t, b)" by fastforce
  show ?case
    using 1 [OF _ t [symmetric]] wake_up_dead [OF t] by (simp add: wake_all.simps [of s] t)
qed

lemma dead_ops:
  "acquire_begin s i = (t, b) \<Longrightarrow> is_dead t j \<longleftrightarrow> is_dead s j"
  "is_dead (acquire_resume s i) j \<longleftrightarrow> j \<noteq> i \<and> is_dead s j"
  "is_dead (acquire_abandon s i) j \<longleftrightarrow> j \<noteq> i \<and> is_dead s j"
  "is_dead (sem_release s) j \<longleftrightarrow> is_dead s j"
  "is_dead (cancel_future s i) j \<Longrightarrow> j = i \<or> is_dead s j"
proof -
  have rem: "is_dead (remove_waiter i s) j \<longleftrightarrow> j \<noteq> i \<and> is_dead s j" for s :: sem
    by (auto simp: is_dead_def remove_waiter_def)
  have val: "is_dead (s\<lparr>sem_value := v\<rparr>) j = is_dead s j" for s :: sem and v
    by (simp add: is_dead_def)
  show "acquire_begin s i = (t, b) \<Longrightarrow> is_dead t j \<longleftrightarrow> is_dead s j"
    by (auto simp: acquire_begin_def is_dead_def split: if_splits)
  show "is_dead (acquire_resume s i) j \<longleftrightarrow> j \<noteq> i \<and> is_dead s j"
    by (simp add: acquire_resume_def wake_all_dead rem)
  show "is_dead (acquire_abandon s i) j \<longleftrightarrow> j \<noteq> i \<and> is_dead s j"
    by (simp add: acquire_abandon_def Let_def wake_all_dead rem val)
  obtain t b where t: "wake_up_next (s\<lparr>sem_value := sem_value s + 1\<rparr>) = (t, b)" by fastforce
  show "is_dead (sem_release s) j \<longleftrightarrow> is_dead s j"
    using wake_up_dead [OF t] val by (simp add: sem_release_def t)
  show "is_dead (cancel_future s i) j \<Longrightarrow> j = i \<or> is_dead s j"
    by (auto simp: is_dead_def cancel_future_def split: if_splits)
qed

lemma queue_cases:
  assumes "sem_ok s" "i \<in> set (sem_ids s)"
  shows "fut_of s i = Some Pending \<or> fut_of s i = Some Granted \<or> is_dead s i"
proof -
  obtain f where f: "(i, f) \<in> set (sem_waiters s)"
    using assms(2) by (auto simp: sem_ids_def)
  moreover have "distinct (map fst (sem_waiters s))"
    using assms(1) by (simp add: sem_ok_def fifo_distinct)
  ultimately show ?thesis
    by (cases f) (auto simp: fut_of_def is_dead_def)
qed

lemma grant_in_queue: "fut_of s i = Some Granted \<Longrightarrow> i \<in> set (sem_ids s)"
  by (force simp: fut_of_def sem_ids_def dest: map_of_SomeD)

lemma dead_in_queue: "is_dead s i \<Longrightarrow> i \<in> set (sem_ids s)"
  by (force simp: is_dead_def sem_ids_def)

section \<open>What a client relies on\<close>

text \<open>
  A pool of slots for numbered tasks. A task asks once and is served at once or joins the
  queue; in the queue it is granted a slot, which it then takes up, or its wait is cancelled,
  which it then acknowledges. \<open>spare\<close> counts the slots that no task holds.
\<close>

locale slots =
  fixes ask :: "'s \<Rightarrow> nat \<Rightarrow> 's \<times> bool"
    and take_up :: "'s \<Rightarrow> nat \<Rightarrow> 's"
    and cancel :: "'s \<Rightarrow> nat \<Rightarrow> 's"
    and give_up :: "'s \<Rightarrow> nat \<Rightarrow> 's"
    and put_back :: "'s \<Rightarrow> 's"
    and spare :: "'s \<Rightarrow> int"
    and queue :: "'s \<Rightarrow> nat list"
    and waits :: "'s \<Rightarrow> nat \<Rightarrow> bool"
    and has_grant :: "'s \<Rightarrow> nat \<Rightarrow> bool"
    and dead :: "'s \<Rightarrow> nat \<Rightarrow> bool"
    and ok :: "'s \<Rightarrow> bool"
  assumes ask_now: "ok s \<Longrightarrow> ask s i = (t, True) \<Longrightarrow> ok t \<and> spare t = spare s - 1 \<and> queue t = queue s"
    and ask_fair: "ok s \<Longrightarrow> ask s i = (t, True) \<Longrightarrow> \<not> waits s j"
    and ask_wait: "ok s \<Longrightarrow> ask s i = (t, False) \<Longrightarrow> \<forall>j\<in>set (queue s). j < i \<Longrightarrow>
      ok t \<and> spare t = spare s \<and> queue t = queue s @ [i]"
    and take_up: "ok s \<Longrightarrow> has_grant s i \<Longrightarrow> ok (take_up s i) \<and> spare (take_up s i) = spare s - 1 \<and>
      queue (take_up s i) = filter (\<lambda>j. j \<noteq> i) (queue s)"
    and cancel: "ok s \<Longrightarrow> ok (cancel s i) \<and> spare (cancel s i) = spare s \<and> queue (cancel s i) = queue s"
    and give_up: "ok s \<Longrightarrow> ok (give_up s i) \<and> spare (give_up s i) = spare s \<and>
      queue (give_up s i) = filter (\<lambda>j. j \<noteq> i) (queue s)"
    and put_back: "ok s \<Longrightarrow> ok (put_back s) \<and> spare (put_back s) = spare s + 1 \<and> queue (put_back s) = queue s"
    and spare_nonneg: "ok s \<Longrightarrow> 0 \<le> spare s"
    and in_order: "ok s \<Longrightarrow> waits s i \<Longrightarrow> has_grant s j \<Longrightarrow> j < i"
    and queued_cases: "ok s \<Longrightarrow> i \<in> set (queue s) \<Longrightarrow> waits s i \<or> has_grant s i \<or> dead s i"
    and grant_queued: "has_grant s i \<Longrightarrow> i \<in> set (queue s)"
    and dead_ask: "ask s i = (t, b) \<Longrightarrow> dead t j = dead s j"
    and dead_take: "dead (take_up s i) j = (j \<noteq> i \<and> dead s j)"
    and dead_give: "dead (give_up s i) j = (j \<noteq> i \<and> dead s j)"
    and dead_back: "dead (put_back s) j = dead s j"
    and dead_cancel: "dead (cancel s i) j \<Longrightarrow> j = i \<or> dead s j"
    and no_lost_slot: "ok s \<Longrightarrow> waits s i \<Longrightarrow> 0 < spare s \<Longrightarrow> \<exists>j. has_grant s j"
begin

text \<open>With every slot accounted for, the holders never exceed the total.\<close>

lemma holders_bounded: "ok s \<Longrightarrow> spare s + int held = n \<Longrightarrow> int held \<le> n"
  using spare_nonneg [of s] by simp

text \<open>Somebody waits only while all slots are held or a granted task is about to run.\<close>

lemma waiting_is_justified:
  assumes "ok s" "spare s + int held = n" "waits s i"
  shows "int held = n \<or> (\<exists>j<i. has_grant s j)"
proof (cases "0 < spare s")
  case True
  then show ?thesis
    using no_lost_slot [OF assms(1,3)] in_order [OF assms(1,3)] by blast
next
  case False
  then show ?thesis
    using assms(2) spare_nonneg [OF assms(1)] by simp
qed

text \<open>While anybody is queued, all slots are held or some queued task can run.\<close>

lemma queue_moves:
  assumes "ok s" "spare s + int held = n" "i \<in> set (queue s)"
  shows "int held = n \<or> (\<exists>j\<in>set (queue s). has_grant s j \<or> dead s j)"
  using queued_cases [OF assms(1,3)] waiting_is_justified [OF assms(1,2), of i] grant_queued assms(3)
  by blast

text \<open>A task that gets a slot, at once or by taking up its grant, overtakes nobody.\<close>

lemma no_overtaking:
  assumes "ok s" "waits s i" "(\<exists>t. ask s j = (t, True)) \<or> has_grant s j"
  shows "j < i"
  using ask_fair [OF assms(1)] in_order [OF assms(1)] assms(2,3) by blast

lemma queue_distinct_step:
  assumes "ok s" "distinct (queue s)" "\<forall>j\<in>set (queue s). j < i" "ask s i = (t, b)"
  shows "distinct (queue t) \<and> set (queue t) = (if b then set (queue s) else insert i (set (queue s)))"
  using assms ask_now [of s i t] ask_wait [of s i t] by (cases b) auto

end

interpretation sem_slots: slots acquire_begin acquire_resume cancel_future acquire_abandon sem_release
  avail sem_ids "\<lambda>s i. fut_of s i = Some Pending" "\<lambda>s i. fut_of s i = Some Granted" is_dead sem_ok
proof unfold_locales
  fix s t :: sem and i j :: nat
  show "sem_ok s \<Longrightarrow> acquire_begin s i = (t, True) \<Longrightarrow> sem_ok t \<and> avail t = avail s - 1 \<and> sem_ids t = sem_ids s"
    using begin_now [of s i t] by (simp add: sem_ids_def)
  show "sem_ok s \<Longrightarrow> acquire_begin s i = (t, True) \<Longrightarrow> fut_of s j \<noteq> Some Pending"
    by (rule begin_now)
  show "sem_ok s \<Longrightarrow> acquire_begin s i = (t, False) \<Longrightarrow> \<forall>j\<in>set (sem_ids s). j < i \<Longrightarrow>
      sem_ok t \<and> avail t = avail s \<and> sem_ids t = sem_ids s @ [i]"
    using begin_wait [of s i t] by (simp add: sem_ids_def)
  show "sem_ok s \<Longrightarrow> fut_of s i = Some Granted \<Longrightarrow> sem_ok (acquire_resume s i) \<and>
      avail (acquire_resume s i) = avail s - 1 \<and> sem_ids (acquire_resume s i) = filter (\<lambda>j. j \<noteq> i) (sem_ids s)"
    using resume_spec by simp
  show "sem_ok s \<Longrightarrow> sem_ok (cancel_future s i) \<and> avail (cancel_future s i) = avail s \<and>
      sem_ids (cancel_future s i) = sem_ids s"
    using cancel_spec by simp
  show "sem_ok s \<Longrightarrow> sem_ok (acquire_abandon s i) \<and> avail (acquire_abandon s i) = avail s \<and>
      sem_ids (acquire_abandon s i) = filter (\<lambda>j. j \<noteq> i) (sem_ids s)"
    using abandon_spec by simp
  show "sem_ok s \<Longrightarrow> sem_ok (sem_release s) \<and> avail (sem_release s) = avail s + 1 \<and>
      sem_ids (sem_release s) = sem_ids s"
    using release_spec by simp
  show "sem_ok s \<Longrightarrow> i \<in> set (sem_ids s) \<Longrightarrow>
      fut_of s i = Some Pending \<or> fut_of s i = Some Granted \<or> is_dead s i"
    by (rule queue_cases)
  show "fut_of s i = Some Granted \<Longrightarrow> i \<in> set (sem_ids s)"
    by (rule grant_in_queue)
  show "is_dead t j = is_dead s j" if "acquire_begin s i = (t, b)" for b
    by (rule dead_ops(1) [OF that])
  show "is_dead (acquire_resume s i) j = (j \<noteq> i \<and> is_dead s j)"
    "is_dead (acquire_abandon s i) j = (j \<noteq> i \<and> is_dead s j)"
    "is_dead (sem_release s) j = is_dead s j"
    by (simp_all add: dead_ops)
  show "is_dead (cancel_future s i) j \<Longrightarrow> j = i \<or> is_dead s j"
    by (rule dead_ops)
  show "sem_ok s \<Longrightarrow> 0 \<le> avail s"
    by (simp add: sem_ok_def avail_def)
  show "j < i" if "sem_ok s" "fut_of s i = Some Pending" "fut_of s j = Some Granted"
  proof -
    have m: "(i, Pending) \<in> set (sem_waiters s)" "(j, Granted) \<in> set (sem_waiters s)"
      using that by (auto simp: fut_of_def dest: map_of_SomeD)
    have "fifo ws \<Longrightarrow> (i, Pending) \<in> set ws \<Longrightarrow> (j, Granted) \<in> set ws \<Longrightarrow> j < i" for ws
      by (induction ws) (auto simp: fifo_Cons)
    from this [of "sem_waiters s"] show ?thesis
      using m that(1) by (simp add: sem_ok_def)
  qed
  show "\<exists>j. fut_of s j = Some Granted" if "sem_ok s" "fut_of s i = Some Pending" "0 < avail s"
  proof -
    have d: "distinct (map fst (sem_waiters s))"
      using that(1) by (simp add: sem_ok_def fifo_distinct)
    have "(i, Pending) \<in> set (sem_waiters s)"
      using that(2) by (auto simp: fut_of_def dest: map_of_SomeD)
    then have "0 < pending s"
      using pending_0 [of s] by (metis gr0I snd_conv)
    then have "0 < granted s"
      using that(1,3) by (auto simp: sem_ok_def avail_def)
    then obtain w where "w \<in> set (sem_waiters s)" "snd w = Granted"
      by (auto simp: granted_def filter_empty_conv)
    then have "(fst w, Granted) \<in> set (sem_waiters s)"
      by (metis prod.collapse)
    then show ?thesis
      using map_of_is_SomeI [OF d] by (auto simp: fut_of_def)
  qed
qed

end
