(* ===== verification/Admission.thy ===== *)
theory Admission
  imports PyText PyJson AsyncSem
begin

text \<open>
  The bounded admission middleware of
  \<open>scripts/node/experiments/e03/bounded-admission/middleware.py\<close>: its configuration, the
  checks on a request, the reading of a body under a limit, and \<open>__call__\<close> as a state
  machine. A client of the machine is one call; an event is what happens to one call
  between two suspensions of its coroutine: a message arrives, a timer fires, the task is
  cancelled or resumed, the wrapped application finishes. Bytes of headers and paths are
  characters; the log records are left out, the counters they report are the state.
\<close>

section \<open>Configuration\<close>

definition env_defaults :: "(string \<times> string) list" where
  "env_defaults = [(''TP4_ADMISSION_MAX_ACTIVE'', ''6''),
     (''TP4_ADMISSION_MAX_QUEUED'', ''128''),
     (''TP4_ADMISSION_MAX_BODY_BYTES'', ''8388608''),
     (''TP4_ADMISSION_QUEUE_TIMEOUT_SECONDS'', ''1800''),
     (''TP4_ADMISSION_REQUEST_TIMEOUT_SECONDS'', ''3600''),
     (''TP4_ADMISSION_BODY_IDLE_SECONDS'', ''30''),
     (''TP4_ADMISSION_SEND_IDLE_SECONDS'', ''30'')]"

datatype config_error = ValueError string

type_synonym env = "(string \<times> string) list"

definition env_raw :: "env \<Rightarrow> string \<Rightarrow> string" where
  "env_raw e name = (case map_of e name of Some v \<Rightarrow> v
     | None \<Rightarrow> (case map_of env_defaults name of Some v \<Rightarrow> v | None \<Rightarrow> []))"

definition positive_int :: "env \<Rightarrow> string \<Rightarrow> config_error + int" where
  "positive_int e name = (let raw = env_raw e name in
     if \<not> str_isdecimal raw \<or> digits_value raw \<le> 0
     then Inl (ValueError (name @ '' must be a positive integer''))
     else Inr (digits_value raw))"

definition positive_float :: "env \<Rightarrow> string \<Rightarrow> config_error + rat" where
  "positive_float e name = (case py_float (env_raw e name) of
       Some (Fin v) \<Rightarrow> if v \<le> 0
         then Inl (ValueError (name @ '' must be a positive finite number'')) else Inr v
     | _ \<Rightarrow> Inl (ValueError (name @ '' must be a positive finite number'')))"

record adm_config =
  max_active :: int
  max_queued :: int
  max_body_bytes :: int
  queue_timeout :: rat
  request_timeout :: rat
  body_idle :: rat
  send_idle :: rat

definition read_config :: "env \<Rightarrow> config_error + adm_config" where
  "read_config e =
     rbind (positive_int e ''TP4_ADMISSION_MAX_ACTIVE'') (\<lambda>a.
     rbind (positive_int e ''TP4_ADMISSION_MAX_QUEUED'') (\<lambda>q.
     rbind (positive_int e ''TP4_ADMISSION_MAX_BODY_BYTES'') (\<lambda>b.
     rbind (positive_float e ''TP4_ADMISSION_QUEUE_TIMEOUT_SECONDS'') (\<lambda>qt.
     rbind (positive_float e ''TP4_ADMISSION_REQUEST_TIMEOUT_SECONDS'') (\<lambda>rt.
     rbind (positive_float e ''TP4_ADMISSION_BODY_IDLE_SECONDS'') (\<lambda>bi.
     rbind (positive_float e ''TP4_ADMISSION_SEND_IDLE_SECONDS'') (\<lambda>si.
       Inr \<lparr>max_active = a, max_queued = q, max_body_bytes = b, queue_timeout = qt,
            request_timeout = rt, body_idle = bi, send_idle = si\<rparr>)))))))"

section \<open>The checks on a request\<close>

text \<open>An ASGI scope; a missing or non-string field is \<open>None\<close>, header bytes are characters.\<close>

record scope =
  sc_type :: "string option"
  sc_method :: "string option"
  sc_path :: "string option"
  sc_headers :: "(string \<times> string) list"

definition is_ascii_char :: "char \<Rightarrow> bool" where
  "is_ascii_char c = (code c < 128)"

text \<open>\<open>int()\<close> refuses more than 4300 digits with a \<open>ValueError\<close> of its own.\<close>

definition digits_limit_message :: "string \<Rightarrow> string" where
  "digits_limit_message raw =
     ''Exceeds the limit (4300 digits) for integer string conversion: value has '' @
     map char_of (nat_digits (length raw)) @
     '' digits; use sys.set_int_max_str_digits() to increase the limit''"

definition content_length :: "scope \<Rightarrow> config_error + int option" where
  "content_length sc =
     (let vals = map snd (filter (\<lambda>(name, v). ascii_lower name = ''content-length'') (sc_headers sc)) in
      if vals = [] then Inr None
      else if length vals \<noteq> 1 then Inl (ValueError ''duplicate Content-Length'')
      else (let raw = hd vals in
        if \<not> list_all is_ascii_char raw then Inl (ValueError ''invalid Content-Length'')
        else if \<not> str_isdecimal raw then Inl (ValueError ''invalid Content-Length'')
        else if 4300 < length raw then Inl (ValueError (digits_limit_message raw))
        else Inr (Some (digits_value raw))))"

definition bypassed_post_paths :: "string list" where
  "bypassed_post_paths = [''/ping'', ''/scale_elastic_ep'', ''/is_scaling_elastic_ep'']"

definition is_response_cancel :: "string \<Rightarrow> bool" where
  "is_response_cancel path = (let parts = split_on (CHR ''/'') path in
     length parts = 5 \<and> take 3 parts = ['''', ''v1'', ''responses''] \<and> parts ! 3 \<noteq> [] \<and>
     parts ! 4 = ''cancel'')"

definition is_guarded :: "scope \<Rightarrow> bool" where
  "is_guarded sc =
     (if sc_type sc \<noteq> Some ''http'' \<or> sc_method sc \<noteq> Some ''POST'' then False
      else (case sc_path sc of None \<Rightarrow> False
        | Some path \<Rightarrow> path \<notin> set bypassed_post_paths \<and> \<not> is_response_cancel path))"

section \<open>Error responses\<close>

datatype response = ResponseStart int "(string \<times> string) list" | ResponseBody "byte list"

definition error_body :: "string \<Rightarrow> string \<Rightarrow> string \<Rightarrow> byte list" where
  "error_body message error_type err_code = ascii_bytes (dumps (JObj [(asc ''error'',
     JObj [(asc ''message'', JStr (asc message)), (asc ''type'', JStr (asc error_type)),
       (asc ''param'', JNull), (asc ''code'', JStr (asc err_code))])]))"

definition nat_text :: "nat \<Rightarrow> string" where
  "nat_text n = map char_of (nat_digits n)"

definition send_error ::
  "adm_config \<Rightarrow> int \<Rightarrow> string \<Rightarrow> string \<Rightarrow> string \<Rightarrow> bool \<Rightarrow> response list" where
  "send_error cfg status message error_type err_code retry_after =
     (let body = error_body message error_type err_code;
          headers = [(''content-type'', ''application/json''),
            (''content-length'', nat_text (length body))] in
      [ResponseStart status (headers @
         (if retry_after then [(''retry-after'', nat_text (nat (max 1 \<lceil>queue_timeout cfg\<rceil>)))] else [])),
       ResponseBody body])"

section \<open>Reading the body\<close>

text \<open>An ASGI message of the request; other fields of the message play no part.\<close>

record message =
  mtype :: string
  mbody :: "byte list option"
  mmore :: "bool option"

text \<open>The variables of one call: \<open>received\<close>, \<open>body\<close> and \<open>buffered\<close>.\<close>

record body_state =
  received :: nat
  body_acc :: "byte list"
  buffered :: "message list"

datatype read_result = ReadMore body_state | ReadDone body_state | ReadTooLarge body_state

definition new_body :: body_state where
  "new_body = \<lparr>received = 0, body_acc = [], buffered = []\<rparr>"

definition chunk_of :: "message \<Rightarrow> byte list" where
  "chunk_of m = (case mbody m of Some b \<Rightarrow> b | None \<Rightarrow> [])"

definition more_of :: "message \<Rightarrow> bool" where
  "more_of m = (case mmore m of Some b \<Rightarrow> b | None \<Rightarrow> False)"

text \<open>One turn of the loop of \<open>read_body\<close>.\<close>

definition read_step :: "int \<Rightarrow> body_state \<Rightarrow> message \<Rightarrow> read_result" where
  "read_step limit st m =
     (if mtype m \<noteq> ''http.request'' then
        (let st1 = (if body_acc st \<noteq> [] then st\<lparr>body_acc := [], buffered := buffered st @
               [\<lparr>mtype = ''http.request'', mbody = Some (body_acc st), mmore = Some True\<rparr>]\<rparr> else st)
         in ReadDone (st1\<lparr>buffered := buffered st1 @ [m]\<rparr>))
      else
        (let chunk = chunk_of m; st1 = st\<lparr>received := received st + length chunk\<rparr> in
         if int (received st1) > limit then ReadTooLarge st1
         else (let st2 = st1\<lparr>body_acc := body_acc st1 @ chunk\<rparr> in
           if \<not> more_of m
           then ReadDone (st2\<lparr>body_acc := [], buffered := buffered st2 @
                  [m\<lparr>mbody := Some (body_acc st2), mmore := Some False\<rparr>]\<rparr>)
           else ReadMore st2)))"

text \<open>The loop on the messages that arrive; \<open>None\<close> while it still waits for one.\<close>

fun read_body :: "int \<Rightarrow> body_state \<Rightarrow> message list \<Rightarrow> read_result option" where
  "read_body limit st [] = None"
| "read_body limit st (m # ms) = (case read_step limit st m of
     ReadMore st' \<Rightarrow> read_body limit st' ms | r \<Rightarrow> Some r)"

section \<open>The state machine\<close>

datatype reason = QueueTimeout | ClientCancel
datatype outcome = Returned | Raised

text \<open>
  Where a call is suspended: in the application it passed through to, in \<open>acquire\<close> (with the
  reason of a cancellation that is still to be delivered), in \<open>receive\<close>, in the wrapped
  application, or in \<open>send\<close> of an error response (with or without its slot, and what is left
  to send); or it is over.
\<close>

datatype phase =
    Passing
  | Waiting "reason option"
  | Reading
  | Serving
  | Answering bool "response list"
  | Gone outcome

record client =
  phase :: phase
  cbody :: body_state
  response_started :: bool
  sent :: "response list"
  replayed :: "message list"

definition new_client :: "phase \<Rightarrow> client" where
  "new_client p = \<lparr>phase = p, cbody = new_body, response_started = False, sent = [], replayed = []\<rparr>"

record counts =
  rejected_full :: int
  rejected_queue_timeout :: int
  request_timeouts :: int
  body_too_large :: int
  body_idles :: int
  send_idles :: int
  cancelled_queued :: int
  cancelled_active :: int

record admission =
  config :: adm_config
  slots :: sem
  active :: int
  queued :: int
  inflight :: int
  admitted_total :: int
  counts :: counts
  clients :: "client list"

definition zero_counts :: counts where
  "zero_counts = \<lparr>rejected_full = 0, rejected_queue_timeout = 0, request_timeouts = 0,
     body_too_large = 0, body_idles = 0, send_idles = 0, cancelled_queued = 0, cancelled_active = 0\<rparr>"

definition new_admission :: "env \<Rightarrow> config_error + admission" where
  "new_admission e = rbind (read_config e) (\<lambda>cfg. Inr
     \<lparr>config = cfg, slots = new_sem (max_active cfg), active = 0, queued = 0, inflight = 0,
      admitted_total = 0, counts = zero_counts, clients = []\<rparr>)"

definition rejected_total :: "admission \<Rightarrow> int" where
  "rejected_total s = rejected_full (counts s) + rejected_queue_timeout (counts s)"

definition set_client :: "nat \<Rightarrow> client \<Rightarrow> admission \<Rightarrow> admission" where
  "set_client i c s = s\<lparr>clients := (clients s)[i := c]\<rparr>"

definition set_phase :: "nat \<Rightarrow> phase \<Rightarrow> admission \<Rightarrow> admission" where
  "set_phase i p s = set_client i ((clients s ! i)\<lparr>phase := p\<rparr>) s"

text \<open>The \<open>finally\<close> block of a call that acquired its slot, and the end of the call.\<close>

definition finish :: "nat \<Rightarrow> outcome \<Rightarrow> admission \<Rightarrow> admission" where
  "finish i out s = set_phase i (Gone out)
     (s\<lparr>active := active s - 1, inflight := inflight s - 1, slots := sem_release (slots s)\<rparr>)"

text \<open>What follows a successful \<open>acquire\<close>.\<close>

definition enter :: "nat \<Rightarrow> admission \<Rightarrow> admission" where
  "enter i s = set_phase i Reading (s\<lparr>queued := queued s - 1, active := active s + 1\<rparr>)"

definition too_large_response :: "adm_config \<Rightarrow> response list" where
  "too_large_response cfg = send_error cfg 413 ''Request body exceeds the configured limit.''
     ''invalid_request_error'' ''request_body_too_large'' False"

definition full_response :: "adm_config \<Rightarrow> response list" where
  "full_response cfg = send_error cfg 503 ''The admission queue is full.'' ''overloaded''
     ''admission_queue_full'' True"

definition queue_timeout_response :: "adm_config \<Rightarrow> response list" where
  "queue_timeout_response cfg = send_error cfg 503 ''Admission queue wait timed out.'' ''overloaded''
     ''admission_queue_timeout'' True"

definition body_timeout_response :: "adm_config \<Rightarrow> response list" where
  "body_timeout_response cfg = send_error cfg 408 ''Request body read timed out.''
     ''invalid_request_error'' ''request_body_timeout'' False"

definition request_timeout_response :: "adm_config \<Rightarrow> response list" where
  "request_timeout_response cfg = send_error cfg 503 ''Request processing timed out.''
     ''server_error'' ''admission_request_timeout'' True"

definition add_client :: "phase \<Rightarrow> admission \<Rightarrow> admission" where
  "add_client p s = s\<lparr>clients := clients s @ [new_client p]\<rparr>"

text \<open>\<open>__call__\<close> up to its first suspension.\<close>

definition arrive :: "scope \<Rightarrow> admission \<Rightarrow> admission" where
  "arrive sc s =
     (if \<not> is_guarded sc then add_client Passing s
      else (case content_length sc of
        Inl (ValueError msg) \<Rightarrow> add_client (Answering False (send_error (config s) 400 msg
          ''invalid_request_error'' ''invalid_content_length'' False)) s
      | Inr cl \<Rightarrow>
        if (case cl of None \<Rightarrow> False | Some n \<Rightarrow> n > max_body_bytes (config s))
        then add_client (Answering False (too_large_response (config s)))
               (s\<lparr>counts := (counts s)\<lparr>body_too_large := body_too_large (counts s) + 1\<rparr>\<rparr>)
        else if inflight s \<ge> max_active (config s) + max_queued (config s)
        then add_client (Answering False (full_response (config s)))
               (s\<lparr>counts := (counts s)\<lparr>rejected_full := rejected_full (counts s) + 1\<rparr>\<rparr>)
        else (let i = length (clients s);
                  s1 = add_client (Waiting None) (s\<lparr>inflight := inflight s + 1,
                    admitted_total := admitted_total s + 1, queued := queued s + 1\<rparr>);
                  (sm, now) = acquire_begin (slots s1) i;
                  s2 = s1\<lparr>slots := sm\<rparr>
              in if now then enter i s2 else s2)))"

text \<open>An error inside \<open>run_active\<close>: count it, then answer unless the response has started.\<close>

definition fail_active ::
  "nat \<Rightarrow> response list \<Rightarrow> admission \<Rightarrow> admission" where
  "fail_active i rs s = (if response_started (clients s ! i) then finish i Raised s
     else set_phase i (Answering True rs) s)"

text \<open>How the wrapped application ends, or what ends it.\<close>

datatype app_end = AppReturned | AppSendIdle | AppRaised

datatype event =
    Arrive scope
  | Resume nat
  | WaitTimer nat
  | Cancel nat
  | Acknowledge nat
  | Receive nat message
  | BodyTimer nat
  | RequestTimer nat
  | AppReceive nat
  | AppSend nat bool
  | AppEnd nat app_end
  | PassEnd nat outcome
  | SendDone nat
  | SendTimer nat
  | SendFails nat

text \<open>A cancellation that arrives on top of another: the client's own wins over the timer's.\<close>

fun merge_reason :: "reason option \<Rightarrow> reason \<Rightarrow> reason" where
  "merge_reason (Some ClientCancel) r = ClientCancel"
| "merge_reason (Some QueueTimeout) r = r"
| "merge_reason None r = r"

text \<open>\<open>task.cancel()\<close> while the call waits in \<open>acquire\<close>, by the deadline or by the server.\<close>

definition cancel_wait :: "nat \<Rightarrow> reason option \<Rightarrow> reason \<Rightarrow> admission \<Rightarrow> admission" where
  "cancel_wait i old r s =
     set_phase i (Waiting (Some (merge_reason old r))) (s\<lparr>slots := cancel_future (slots s) i\<rparr>)"

text \<open>The cancelled \<open>acquire\<close> has returned to \<open>__call__\<close>.\<close>

definition acknowledge :: "nat \<Rightarrow> reason \<Rightarrow> admission \<Rightarrow> admission" where
  "acknowledge i r s =
     (let s1 = s\<lparr>slots := acquire_abandon (slots s) i, queued := queued s - 1,
                 inflight := inflight s - 1\<rparr>;
          cs = counts s in
      case r of
        QueueTimeout \<Rightarrow> set_phase i (Answering False (queue_timeout_response (config s)))
          (s1\<lparr>counts := cs\<lparr>rejected_queue_timeout := rejected_queue_timeout cs + 1\<rparr>\<rparr>)
      | ClientCancel \<Rightarrow> set_phase i (Gone Raised)
          (s1\<lparr>counts := cs\<lparr>cancelled_queued := cancelled_queued cs + 1\<rparr>\<rparr>))"

text \<open>\<open>read_body\<close> gets a message.\<close>

definition receive_message :: "nat \<Rightarrow> message \<Rightarrow> admission \<Rightarrow> admission" where
  "receive_message i m s =
     (let c = clients s ! i in
      case read_step (max_body_bytes (config s)) (cbody c) m of
        ReadMore b \<Rightarrow> set_client i (c\<lparr>cbody := b\<rparr>) s
      | ReadDone b \<Rightarrow> set_client i (c\<lparr>cbody := b, phase := Serving\<rparr>) s
      | ReadTooLarge b \<Rightarrow> fail_active i (too_large_response (config s))
          ((set_client i (c\<lparr>cbody := b\<rparr>) s)
            \<lparr>counts := (counts s)\<lparr>body_too_large := body_too_large (counts s) + 1\<rparr>\<rparr>))"

text \<open>\<open>replay_receive\<close>: the buffered messages first, then what the server delivers.\<close>

definition app_receive :: "nat \<Rightarrow> admission \<Rightarrow> admission" where
  "app_receive i s = (let c = clients s ! i; b = cbody c in
     case buffered b of [] \<Rightarrow> s
     | m # ms \<Rightarrow> set_client i (c\<lparr>cbody := b\<lparr>buffered := ms\<rparr>, replayed := replayed c @ [m]\<rparr>) s)"

definition app_send :: "nat \<Rightarrow> bool \<Rightarrow> admission \<Rightarrow> admission" where
  "app_send i start s = (let c = clients s ! i in
     if start then set_client i (c\<lparr>response_started := True\<rparr>) s else s)"

definition app_end :: "nat \<Rightarrow> app_end \<Rightarrow> admission \<Rightarrow> admission" where
  "app_end i r s = (case r of
       AppReturned \<Rightarrow> finish i Returned s
     | AppSendIdle \<Rightarrow> finish i Raised (s\<lparr>counts := (counts s)\<lparr>send_idles := send_idles (counts s) + 1\<rparr>\<rparr>)
     | AppRaised \<Rightarrow> finish i Raised s)"

text \<open>\<open>_send_error\<close> sent a message; after the last one the call ends.\<close>

definition leave :: "nat \<Rightarrow> bool \<Rightarrow> outcome \<Rightarrow> admission \<Rightarrow> admission" where
  "leave i held out s = (if held then finish i out s else set_phase i (Gone out) s)"

definition send_done :: "nat \<Rightarrow> bool \<Rightarrow> response list \<Rightarrow> admission \<Rightarrow> admission" where
  "send_done i held rs s = (let c = clients s ! i in
     case rs of [] \<Rightarrow> s
     | m # ms \<Rightarrow>
       (let s1 = set_client i (c\<lparr>sent := sent c @ [m], phase := Answering held ms\<rparr>) s in
        if ms = [] then leave i held Returned s1 else s1))"

definition in_call :: "admission \<Rightarrow> nat \<Rightarrow> bool" where
  "in_call s i = (i < length (clients s))"

text \<open>One event; \<open>None\<close> when it cannot happen to the call in its phase.\<close>

fun adm_step :: "admission \<Rightarrow> event \<Rightarrow> admission option" where
  "adm_step s (Arrive sc) = Some (arrive sc s)"
| "adm_step s (Resume i) =
     (if in_call s i \<and> phase (clients s ! i) = Waiting None \<and> fut_of (slots s) i = Some Granted
      then Some (enter i (s\<lparr>slots := acquire_resume (slots s) i\<rparr>)) else None)"
| "adm_step s (WaitTimer i) =
     (if \<not> in_call s i then None else (case phase (clients s ! i) of
        Waiting old \<Rightarrow> if old = Some QueueTimeout then None else Some (cancel_wait i old QueueTimeout s)
      | _ \<Rightarrow> None))"
| "adm_step s (Cancel i) =
     (if \<not> in_call s i then None else (case phase (clients s ! i) of
        Passing \<Rightarrow> Some (set_phase i (Gone Raised) s)
      | Waiting old \<Rightarrow> Some (cancel_wait i old ClientCancel s)
      | Answering held rs \<Rightarrow> Some (leave i held Raised s)
      | Gone out \<Rightarrow> None
      | _ \<Rightarrow> Some (finish i Raised
          (s\<lparr>counts := (counts s)\<lparr>cancelled_active := cancelled_active (counts s) + 1\<rparr>\<rparr>))))"
| "adm_step s (Acknowledge i) =
     (if \<not> in_call s i then None else (case phase (clients s ! i) of
        Waiting (Some r) \<Rightarrow> Some (acknowledge i r s) | _ \<Rightarrow> None))"
| "adm_step s (Receive i m) =
     (if in_call s i \<and> phase (clients s ! i) = Reading then Some (receive_message i m s) else None)"
| "adm_step s (BodyTimer i) =
     (if in_call s i \<and> phase (clients s ! i) = Reading
      then Some (fail_active i (body_timeout_response (config s))
             (s\<lparr>counts := (counts s)\<lparr>body_idles := body_idles (counts s) + 1\<rparr>\<rparr>)) else None)"
| "adm_step s (RequestTimer i) =
     (if in_call s i \<and> (phase (clients s ! i) = Reading \<or> phase (clients s ! i) = Serving)
      then Some (fail_active i (request_timeout_response (config s))
             (s\<lparr>counts := (counts s)\<lparr>request_timeouts := request_timeouts (counts s) + 1\<rparr>\<rparr>)) else None)"
| "adm_step s (AppReceive i) =
     (if in_call s i \<and> phase (clients s ! i) = Serving then Some (app_receive i s) else None)"
| "adm_step s (AppSend i start) =
     (if in_call s i \<and> phase (clients s ! i) = Serving then Some (app_send i start s) else None)"
| "adm_step s (AppEnd i r) =
     (if in_call s i \<and> phase (clients s ! i) = Serving then Some (app_end i r s) else None)"
| "adm_step s (PassEnd i out) =
     (if in_call s i \<and> phase (clients s ! i) = Passing then Some (set_phase i (Gone out) s) else None)"
| "adm_step s (SendDone i) =
     (if \<not> in_call s i then None else (case phase (clients s ! i) of
        Answering held rs \<Rightarrow> Some (send_done i held rs s) | _ \<Rightarrow> None))"
| "adm_step s (SendTimer i) =
     (if \<not> in_call s i then None else (case phase (clients s ! i) of
        Answering held rs \<Rightarrow> Some (leave i held Raised
          (s\<lparr>counts := (counts s)\<lparr>send_idles := send_idles (counts s) + 1\<rparr>\<rparr>))
      | _ \<Rightarrow> None))"
| "adm_step s (SendFails i) =
     (if \<not> in_call s i then None else (case phase (clients s ! i) of
        Answering held rs \<Rightarrow> Some (leave i held Raised s) | _ \<Rightarrow> None))"

inductive reachable :: "admission \<Rightarrow> admission \<Rightarrow> bool" for s0 where
  start: "reachable s0 s0"
| step: "reachable s0 s \<Longrightarrow> adm_step s e = Some t \<Longrightarrow> reachable s0 t"

fun adm_run :: "event list \<Rightarrow> admission \<Rightarrow> admission option" where
  "adm_run [] s = Some s"
| "adm_run (e # es) s = (case adm_step s e of None \<Rightarrow> None | Some t \<Rightarrow> adm_run es t)"

section \<open>Invariant\<close>

definition holds_slot :: "client \<Rightarrow> bool" where
  "holds_slot c = (case phase c of Reading \<Rightarrow> True | Serving \<Rightarrow> True | Answering held rs \<Rightarrow> held | _ \<Rightarrow> False)"

definition is_waiting :: "client \<Rightarrow> bool" where
  "is_waiting c = (case phase c of Waiting r \<Rightarrow> True | _ \<Rightarrow> False)"

definition holders :: "admission \<Rightarrow> nat" where
  "holders s = length (filter holds_slot (clients s))"

definition waiters :: "admission \<Rightarrow> nat" where
  "waiters s = length (filter is_waiting (clients s))"

definition waiting_ids :: "admission \<Rightarrow> nat list" where
  "waiting_ids s = filter (\<lambda>i. is_waiting (clients s ! i)) [0..<length (clients s)]"

definition adm_inv :: "admission \<Rightarrow> bool" where
  "adm_inv s \<longleftrightarrow> sem_ok (slots s) \<and> avail (slots s) + int (holders s) = max_active (config s) \<and>
     sem_ids (slots s) = waiting_ids s \<and> active s = int (holders s) \<and> queued s = int (waiters s) \<and>
     inflight s = active s + queued s \<and> inflight s \<le> max_active (config s) + max_queued (config s) \<and>
     (\<forall>i. is_dead (slots s) i \<longrightarrow> (\<exists>r. phase (clients s ! i) = Waiting (Some r)))"

text \<open>How counts and the waiting order change when one call changes its phase.\<close>

lemma length_filter_update:
  assumes "i < length xs"
  shows "int (length (filter P (xs[i := y]))) =
    int (length (filter P xs)) - (if P (xs ! i) then 1 else 0) + (if P y then 1 else 0)"
  using assms
proof (induction xs arbitrary: i)
  case (Cons x xs)
  show ?case
  proof (cases i)
    case (Suc j)
    then show ?thesis
      using Cons.IH [of j] Cons.prems by (cases "P (xs ! j)"; cases "P y") simp_all
  qed simp
qed simp

lemma waiting_ids_update:
  assumes "i < length (clients s)"
  shows "is_waiting c \<longleftrightarrow> is_waiting (clients s ! i) \<Longrightarrow> waiting_ids (set_client i c s) = waiting_ids s"
    and "\<not> is_waiting c \<Longrightarrow> waiting_ids (set_client i c s) = filter (\<lambda>j. j \<noteq> i) (waiting_ids s)"
  using assms unfolding waiting_ids_def set_client_def
  by (auto simp: nth_list_update intro!: filter_cong)

lemma waiting_ids_add:
  "waiting_ids (add_client p s) = waiting_ids s @ (case p of Waiting r \<Rightarrow> [length (clients s)] | _ \<Rightarrow> [])"
proof -
  have "filter (\<lambda>i. is_waiting ((clients s @ [c]) ! i)) [0..<length (clients s)] =
      filter (\<lambda>i. is_waiting (clients s ! i)) [0..<length (clients s)]" for c
    by (intro filter_cong) (simp_all add: nth_append)
  then show ?thesis
    by (simp add: waiting_ids_def add_client_def nth_append is_waiting_def new_client_def split: phase.split)
qed

lemma holders_set:
  assumes "i < length (clients s)"
  shows "int (holders (set_client i c s)) = int (holders s) -
      (if holds_slot (clients s ! i) then 1 else 0) + (if holds_slot c then 1 else 0)"
    and "int (waiters (set_client i c s)) = int (waiters s) -
      (if is_waiting (clients s ! i) then 1 else 0) + (if is_waiting c then 1 else 0)"
  using length_filter_update [OF assms] by (simp_all add: holders_def waiters_def set_client_def)

lemma set_client_simps [simp]:
  "config (set_client i c s) = config s" "slots (set_client i c s) = slots s"
  "active (set_client i c s) = active s" "queued (set_client i c s) = queued s"
  "inflight (set_client i c s) = inflight s" "counts (set_client i c s) = counts s"
  "clients (set_client i c s) = (clients s)[i := c]"
  by (simp_all add: set_client_def)

lemma add_client_simps [simp]:
  "config (add_client p s) = config s" "slots (add_client p s) = slots s"
  "active (add_client p s) = active s" "queued (add_client p s) = queued s"
  "inflight (add_client p s) = inflight s" "clients (add_client p s) = clients s @ [new_client p]"
  by (simp_all add: add_client_def)

lemma holders_add:
  "holders (add_client p s) = holders s + (if holds_slot (new_client p) then 1 else 0)"
  "waiters (add_client p s) = waiters s + (if is_waiting (new_client p) then 1 else 0)"
  by (simp_all add: holders_def waiters_def)

lemma kind_simps [simp]:
  "phase (new_client p) = p"
  "phase c = Passing \<Longrightarrow> \<not> holds_slot c \<and> \<not> is_waiting c"
  "phase c = Waiting r \<Longrightarrow> \<not> holds_slot c \<and> is_waiting c"
  "phase c = Reading \<Longrightarrow> holds_slot c \<and> \<not> is_waiting c"
  "phase c = Serving \<Longrightarrow> holds_slot c \<and> \<not> is_waiting c"
  "phase c = Answering h rs \<Longrightarrow> holds_slot c = h \<and> \<not> is_waiting c"
  "phase c = Gone out \<Longrightarrow> \<not> holds_slot c \<and> \<not> is_waiting c"
  by (simp_all add: new_client_def holds_slot_def is_waiting_def)

lemma answering_simps [simp]:
  "holds_slot (new_client (Answering h rs)) = h" "\<not> is_waiting (new_client (Answering h rs))"
  "holds_slot (c\<lparr>phase := Answering h rs\<rparr>) = h" "\<not> is_waiting (c\<lparr>phase := Answering h rs\<rparr>)"
  by (simp_all add: new_client_def holds_slot_def is_waiting_def)

text \<open>The counters of rejected and failed calls play no part in the invariant.\<close>

lemma inv_counts [simp]: "adm_inv (s\<lparr>counts := c\<rparr>) = adm_inv s"
  by (simp add: adm_inv_def holders_def waiters_def waiting_ids_def)

lemma clients_counts [simp]: "clients (s\<lparr>counts := c\<rparr>) = clients s"
  by simp

lemma set_phase_counts: "set_phase i p (s\<lparr>counts := k\<rparr>) = (set_phase i p s)\<lparr>counts := k\<rparr>"
  by (simp add: set_phase_def set_client_def)

lemma dead_waits:
  assumes "adm_inv s" "is_dead (slots s) j"
  shows "j < length (clients s) \<and> (\<exists>r. phase (clients s ! j) = Waiting (Some r))"
proof -
  have "j \<in> set (waiting_ids s)"
    using assms(1) dead_in_queue [OF assms(2)] by (simp add: adm_inv_def)
  then show ?thesis
    using assms by (auto simp: waiting_ids_def adm_inv_def)
qed

text \<open>A call that neither waits nor waited, with the same claim to a slot as before.\<close>

lemma inv_same [invs]:
  assumes "adm_inv s" "i < length (clients s)" "\<not> is_waiting (clients s ! i)" "\<not> is_waiting c"
    and "holds_slot c = holds_slot (clients s ! i)"
  shows "adm_inv (set_client i c s)"
proof -
  have "\<exists>r. phase ((clients s)[i := c] ! j) = Waiting (Some r)" if "is_dead (slots s) j" for j
    using dead_waits [OF assms(1) that] assms(3) by (cases "j = i") auto
  then show ?thesis
    using assms holders_set [OF assms(2), of c] waiting_ids_update(1) [OF assms(2), of c]
    by (auto simp: adm_inv_def)
qed

lemma inv_add [invs]:
  assumes "adm_inv s" "\<not> is_waiting (new_client p)" "\<not> holds_slot (new_client p)"
  shows "adm_inv (add_client p s)"
proof -
  have "\<exists>r. phase (clients (add_client p s) ! j) = Waiting (Some r)" if "is_dead (slots s) j" for j
    using dead_waits [OF assms(1) that] by (auto simp: nth_append)
  moreover have "waiting_ids (add_client p s) = waiting_ids s"
    using assms(2) by (auto simp: waiting_ids_add split: phase.split)
  ultimately show ?thesis
    using assms by (auto simp: adm_inv_def holders_add)
qed

text \<open>The end of a call that holds its slot.\<close>

lemma inv_finish [invs]:
  assumes "adm_inv s" "i < length (clients s)" "holds_slot (clients s ! i)"
  shows "adm_inv (finish i out s)"
proof -
  let ?c = "(clients s ! i)\<lparr>phase := Gone out\<rparr>"
  have n: "\<not> is_waiting (clients s ! i)"
    using assms(3) by (auto simp: holds_slot_def is_waiting_def split: phase.splits)
  have c: "\<not> is_waiting ?c" "\<not> holds_slot ?c"
    by simp_all
  have eq: "finish i out s = (set_client i ?c s)\<lparr>active := active s - 1, inflight := inflight s - 1,
      slots := sem_release (slots s)\<rparr>"
    by (simp add: finish_def set_phase_def set_client_def)
  have dead: "\<exists>r. phase ((clients s)[i := ?c] ! j) = Waiting (Some r)" if "is_dead (sem_release (slots s)) j" for j
    using dead_waits [OF assms(1), of j] that n by (cases "j = i") (auto simp: sem_slots.dead_back)
  have ids: "waiting_ids (finish i out s) = waiting_ids s"
    using waiting_ids_update(1) [OF assms(2), of ?c] n c
    by (simp add: eq waiting_ids_def)
  have cnt: "int (holders (finish i out s)) = int (holders s) - 1" "waiters (finish i out s) = waiters s"
    using holders_set [OF assms(2), of ?c] n c assms(3) by (simp_all add: eq holders_def waiters_def)
  have "sem_ok (slots s)"
    using assms(1) by (simp add: adm_inv_def)
  note rel = sem_slots.put_back [OF this]
  show ?thesis
    using assms(1) rel ids cnt dead by (auto simp: adm_inv_def eq)
qed

text \<open>A waiting call whose future was granted takes its slot up.\<close>

lemma inv_resume [invs]:
  assumes "adm_inv s" "i < length (clients s)" "is_waiting (clients s ! i)"
    and "fut_of (slots s) i = Some Granted"
  shows "adm_inv (enter i (s\<lparr>slots := acquire_resume (slots s) i\<rparr>))"
proof -
  let ?c = "(clients s ! i)\<lparr>phase := Reading\<rparr>"
  let ?t = "enter i (s\<lparr>slots := acquire_resume (slots s) i\<rparr>)"
  have c: "\<not> is_waiting ?c" "holds_slot ?c"
    by simp_all
  have n: "\<not> holds_slot (clients s ! i)"
    using assms(3) by (auto simp: holds_slot_def is_waiting_def split: phase.splits)
  have eq: "?t = (set_client i ?c s)\<lparr>slots := acquire_resume (slots s) i, queued := queued s - 1,
      active := active s + 1\<rparr>"
    by (simp add: enter_def set_phase_def set_client_def)
  have dead: "\<exists>r. phase ((clients s)[i := ?c] ! j) = Waiting (Some r)"
    if "is_dead (acquire_resume (slots s) i) j" for j
    using dead_waits [OF assms(1), of j] that by (auto simp: sem_slots.dead_take)
  have ids: "waiting_ids ?t = filter (\<lambda>j. j \<noteq> i) (waiting_ids s)"
    using waiting_ids_update(2) [OF assms(2) c(1)] by (simp add: eq waiting_ids_def)
  have cnt: "int (holders ?t) = int (holders s) + 1" "int (waiters ?t) = int (waiters s) - 1"
    using holders_set [OF assms(2), of ?c] n c assms(3) by (simp_all add: eq holders_def waiters_def)
  have "sem_ok (slots s)"
    using assms(1) by (simp add: adm_inv_def)
  note rel = sem_slots.take_up [OF this assms(4)]
  show ?thesis
    using assms(1) rel ids cnt dead by (auto simp: adm_inv_def eq)
qed

text \<open>A waiting call is cancelled, and acknowledges it.\<close>

lemma inv_cancel_wait [invs]:
  assumes "adm_inv s" "i < length (clients s)" "phase (clients s ! i) = Waiting old"
  shows "adm_inv (cancel_wait i old r s)"
proof -
  let ?c = "(clients s ! i)\<lparr>phase := Waiting (Some (merge_reason old r))\<rparr>"
  have c: "is_waiting ?c" "\<not> holds_slot ?c" and n: "is_waiting (clients s ! i)" "\<not> holds_slot (clients s ! i)"
    using assms(3) by simp_all
  have eq: "cancel_wait i old r s = (set_client i ?c s)\<lparr>slots := cancel_future (slots s) i\<rparr>"
    by (simp add: cancel_wait_def set_phase_def set_client_def)
  have dead: "\<exists>r. phase ((clients s)[i := ?c] ! j) = Waiting (Some r)"
    if "is_dead (cancel_future (slots s) i) j" for j
    using dead_waits [OF assms(1), of j] sem_slots.dead_cancel [OF that] assms(2) by (cases "j = i") auto
  have ids: "waiting_ids (cancel_wait i old r s) = waiting_ids s"
    using waiting_ids_update(1) [OF assms(2), of ?c] n c by (simp add: eq waiting_ids_def)
  have cnt: "holders (cancel_wait i old r s) = holders s" "waiters (cancel_wait i old r s) = waiters s"
    using holders_set [OF assms(2), of ?c] n c by (simp_all add: eq holders_def waiters_def)
  have "sem_ok (slots s)"
    using assms(1) by (simp add: adm_inv_def)
  note rel = sem_slots.cancel [OF this]
  show ?thesis
    using assms(1) rel ids cnt dead by (auto simp: adm_inv_def eq)
qed

lemma inv_leave_queue [invs]:
  assumes "adm_inv s" "i < length (clients s)" "is_waiting (clients s ! i)"
    and "\<not> is_waiting ((clients s ! i)\<lparr>phase := p\<rparr>)" "\<not> holds_slot ((clients s ! i)\<lparr>phase := p\<rparr>)"
  shows "adm_inv (set_phase i p (s\<lparr>slots := acquire_abandon (slots s) i, queued := queued s - 1,
    inflight := inflight s - 1\<rparr>))"
proof -
  define t where "t = set_phase i p (s\<lparr>slots := acquire_abandon (slots s) i, queued := queued s - 1,
    inflight := inflight s - 1\<rparr>)"
  let ?c = "(clients s ! i)\<lparr>phase := p\<rparr>"
  have n: "\<not> holds_slot (clients s ! i)"
    using assms(3) by (auto simp: holds_slot_def is_waiting_def split: phase.splits)
  have eq: "t = (set_client i ?c s)\<lparr>slots := acquire_abandon (slots s) i, queued := queued s - 1,
      inflight := inflight s - 1\<rparr>"
    by (simp add: t_def set_phase_def set_client_def)
  have dead: "\<exists>r. phase ((clients s)[i := ?c] ! j) = Waiting (Some r)"
    if "is_dead (acquire_abandon (slots s) i) j" for j
    using dead_waits [OF assms(1), of j] that by (auto simp: sem_slots.dead_give)
  have ids: "waiting_ids t = filter (\<lambda>j. j \<noteq> i) (waiting_ids s)"
    using waiting_ids_update(2) [OF assms(2,4)] by (simp add: eq waiting_ids_def)
  have cnt: "holders t = holders s" "int (waiters t) = int (waiters s) - 1"
    using holders_set [OF assms(2), of ?c] n assms(3-5) by (simp_all add: eq holders_def waiters_def)
  have "sem_ok (slots s)"
    using assms(1) by (simp add: adm_inv_def)
  note rel = sem_slots.give_up [OF this]
  have "adm_inv t"
    using assms(1) rel ids cnt dead by (auto simp: adm_inv_def eq)
  then show ?thesis by (simp add: t_def)
qed

text \<open>A new call is admitted: it gets its slot at once, or queues.\<close>

lemma inv_admit [invs]:
  assumes "adm_inv s" "inflight s < max_active (config s) + max_queued (config s)"
    and "acquire_begin (slots s) (length (clients s)) = (sm, now)"
  shows "adm_inv (let s2 = (add_client (Waiting None) (s\<lparr>inflight := inflight s + 1,
      admitted_total := admitted_total s + 1, queued := queued s + 1\<rparr>))\<lparr>slots := sm\<rparr>
    in if now then enter (length (clients s)) s2 else s2)"
proof -
  let ?n = "length (clients s)"
  have ok: "sem_ok (slots s)"
    using assms(1) by (simp add: adm_inv_def)
  have deadw: "j < ?n \<and> (\<exists>r. phase (clients s ! j) = Waiting (Some r))" if "is_dead sm j" for j
    using dead_waits [OF assms(1)] that sem_slots.dead_ask [OF assms(3)] by blast
  show ?thesis
  proof (cases now)
    case True
    let ?c = "(new_client (Waiting None))\<lparr>phase := Reading\<rparr>"
    have new: "new_client Reading = ?c"
      by (simp add: new_client_def)
    let ?t = "(add_client Reading s)\<lparr>inflight := inflight s + 1, admitted_total := admitted_total s + 1,
      active := active s + 1, slots := sm\<rparr>"
    have eq: "enter ?n ((add_client (Waiting None) (s\<lparr>inflight := inflight s + 1,
      admitted_total := admitted_total s + 1, queued := queued s + 1\<rparr>))\<lparr>slots := sm\<rparr>) = ?t"
      by (simp add: enter_def set_phase_def set_client_def add_client_def new)
    have rel: "sem_ok sm \<and> avail sm = avail (slots s) - 1 \<and> sem_ids sm = sem_ids (slots s)"
      using sem_slots.ask_now [OF ok assms(3) [unfolded eqTrueI [OF True]]] .
    have "waiting_ids ?t = waiting_ids s"
      using waiting_ids_add [of Reading s] by (simp add: waiting_ids_def)
    moreover have "holders ?t = holders s + 1" "waiters ?t = waiters s"
      using holders_add [of Reading s] by (simp_all add: holders_def waiters_def)
    moreover have "\<exists>r. phase (clients ?t ! j) = Waiting (Some r)" if "is_dead sm j" for j
      using deadw [OF that] by (auto simp: nth_append)
    ultimately have "adm_inv ?t"
      using assms(1,2) rel by (auto simp: adm_inv_def)
    then show ?thesis using True eq by simp
  next
    case False
    let ?t = "(add_client (Waiting None) (s\<lparr>inflight := inflight s + 1,
      admitted_total := admitted_total s + 1, queued := queued s + 1\<rparr>))\<lparr>slots := sm\<rparr>"
    have below: "\<forall>j\<in>set (sem_ids (slots s)). j < ?n"
      using assms(1) by (simp add: adm_inv_def waiting_ids_def)
    have rel: "sem_ok sm \<and> avail sm = avail (slots s) \<and> sem_ids sm = sem_ids (slots s) @ [?n]"
      using sem_slots.ask_wait [OF ok _ below] assms(3) False by simp
    have "waiting_ids ?t = waiting_ids s @ [?n]"
      using waiting_ids_add [of "Waiting None" s] by (simp add: waiting_ids_def add_client_def)
    moreover have "holders ?t = holders s" "waiters ?t = waiters s + 1"
      using holders_add [of "Waiting None" s] by (simp_all add: holders_def waiters_def add_client_def)
    moreover have "\<exists>r. phase (clients ?t ! j) = Waiting (Some r)" if "is_dead sm j" for j
      using deadw [OF that] by (auto simp: nth_append)
    ultimately have "adm_inv ?t"
      using assms(1,2) rel by (auto simp: adm_inv_def)
    then show ?thesis using False by simp
  qed
qed

lemma inv_arrive [invs]: "adm_inv s \<Longrightarrow> adm_inv (arrive sc s)"
proof -
  assume inv: "adm_inv s"
  have plain: "adm_inv (add_client p (s\<lparr>counts := c\<rparr>))" "adm_inv (add_client p s)"
    if "p = Passing \<or> (\<exists>rs. p = Answering False rs)" for p c
    using that inv by (auto intro!: inv_add)
  show ?thesis
  proof (cases "is_guarded sc \<and> (\<exists>cl. content_length sc = Inr cl \<and>
      \<not> (case cl of None \<Rightarrow> False | Some n \<Rightarrow> n > max_body_bytes (config s))) \<and>
      \<not> inflight s \<ge> max_active (config s) + max_queued (config s)")
    case True
    then obtain cl where cl: "is_guarded sc" "content_length sc = Inr cl"
      "\<not> (case cl of None \<Rightarrow> False | Some n \<Rightarrow> n > max_body_bytes (config s))"
      and room: "inflight s < max_active (config s) + max_queued (config s)"
      by auto
    obtain sm now where b: "acquire_begin (slots s) (length (clients s)) = (sm, now)" by fastforce
    show ?thesis
      using inv_admit [OF inv room b] cl room b
      by (simp add: arrive_def Let_def add_client_def)
  next
    case False
    then show ?thesis
      using plain by (auto simp: arrive_def split: sum.split config_error.split)
  qed
qed

lemma inv_set_phase [invs]:
  assumes "adm_inv s" "i < length (clients s)" "\<not> is_waiting (clients s ! i)"
    and "\<not> is_waiting ((clients s ! i)\<lparr>phase := p\<rparr>)"
    and "holds_slot ((clients s ! i)\<lparr>phase := p\<rparr>) = holds_slot (clients s ! i)"
  shows "adm_inv (set_phase i p s)"
  unfolding set_phase_def by (rule inv_same [OF assms])

lemma inv_fail_active [invs]:
  assumes "adm_inv s" "i < length (clients s)" "holds_slot (clients s ! i)"
  shows "adm_inv (fail_active i rs s)"
proof -
  have "\<not> is_waiting (clients s ! i)"
    using assms(3) by (auto simp: holds_slot_def is_waiting_def split: phase.splits)
  then show ?thesis
    using assms by (auto simp: fail_active_def intro!: inv_finish inv_set_phase)
qed

lemma inv_leave [invs]:
  assumes "adm_inv s" "i < length (clients s)" "phase (clients s ! i) = Answering held rs"
  shows "adm_inv (leave i held out s)"
  using assms by (auto simp: leave_def intro!: inv_finish inv_set_phase)

lemma inv_receive [invs]:
  assumes "adm_inv s" "i < length (clients s)" "phase (clients s ! i) = Reading"
  shows "adm_inv (receive_message i m s)"
proof -
  let ?c = "clients s ! i"
  have keep: "adm_inv (set_client i (?c\<lparr>cbody := b\<rparr>) s)" for b
    using assms by (intro inv_same) (simp_all add: holds_slot_def is_waiting_def)
  have "adm_inv (set_client i (?c\<lparr>cbody := b, phase := Serving\<rparr>) s)" for b
    using assms by (intro inv_same) simp_all
  moreover have "adm_inv (fail_active i rs ((set_client i (?c\<lparr>cbody := b\<rparr>) s)\<lparr>counts := k\<rparr>))" for rs b k
    using keep assms by (intro inv_fail_active) (simp_all add: holds_slot_def)
  ultimately show ?thesis
    using keep by (simp add: receive_message_def Let_def split: read_result.split)
qed

lemma inv_send_done [invs]:
  assumes "adm_inv s" "i < length (clients s)" "phase (clients s ! i) = Answering held rs"
  shows "adm_inv (send_done i held rs s)"
proof (cases rs)
  case Nil
  then show ?thesis using assms by (simp add: send_done_def)
next
  case (Cons m ms)
  let ?t = "set_client i ((clients s ! i)\<lparr>sent := sent (clients s ! i) @ [m], phase := Answering held ms\<rparr>) s"
  have t: "adm_inv ?t"
    using assms by (intro inv_same) simp_all
  have "adm_inv (leave i held Returned ?t)"
    using assms(2) by (intro inv_leave [OF t]) auto
  then show ?thesis
    using t Cons by (cases "ms = []") (simp_all add: send_done_def Let_def)
qed

lemma inv_acknowledge [invs]:
  assumes "adm_inv s" "i < length (clients s)" "phase (clients s ! i) = Waiting (Some r)"
  shows "adm_inv (acknowledge i r s)"
proof -
  have w: "is_waiting (clients s ! i)"
    using assms(3) by simp
  have "adm_inv (set_phase i p ((s\<lparr>slots := acquire_abandon (slots s) i, queued := queued s - 1,
      inflight := inflight s - 1\<rparr>)\<lparr>counts := k\<rparr>))"
    if "p = Gone Raised \<or> (\<exists>rs. p = Answering False rs)" for p k
  proof -
    have "adm_inv ((set_phase i p (s\<lparr>slots := acquire_abandon (slots s) i, queued := queued s - 1,
        inflight := inflight s - 1\<rparr>))\<lparr>counts := k\<rparr>)"
      using inv_leave_queue [OF assms(1,2) w, of p] that by auto
    then show ?thesis
      by (simp add: set_phase_counts)
  qed
  then show ?thesis
    by (simp add: acknowledge_def Let_def split: reason.split)
qed

lemma inv_step:
  assumes "adm_inv s" "adm_step s e = Some t"
  shows "adm_inv t"
proof (cases e)
  case (Cancel i)
  then show ?thesis
    using assms by (auto simp: in_call_def split: if_splits phase.splits
        intro!: inv_set_phase inv_cancel_wait inv_leave inv_finish)
next
  case (AppReceive i)
  then have s: "in_call s i" "phase (clients s ! i) = Serving" "t = app_receive i s"
    using assms(2) by (auto split: if_splits)
  have "adm_inv (set_client i ((clients s ! i)\<lparr>cbody := b, replayed := r\<rparr>) s)" for b r
    using assms(1) s by (intro inv_same) (auto simp: in_call_def holds_slot_def is_waiting_def)
  then show ?thesis
    using assms(1) s(3) by (auto simp: app_receive_def Let_def split: list.split)
next
  case (AppSend i b)
  then have s: "in_call s i" "phase (clients s ! i) = Serving" "t = app_send i b s"
    using assms(2) by (auto split: if_splits)
  have "adm_inv (set_client i ((clients s ! i)\<lparr>response_started := True\<rparr>) s)"
    using assms(1) s by (intro inv_same) (auto simp: in_call_def holds_slot_def is_waiting_def)
  then show ?thesis
    using assms(1) s(3) by (simp add: app_send_def Let_def)
next
  case (Arrive sc)
  then show ?thesis using assms inv_arrive by auto
next
  case (Resume i)
  then show ?thesis
    using assms by (auto simp: in_call_def split: if_splits intro!: inv_resume)
next
  case (Receive i m)
  then show ?thesis
    using assms by (auto simp: in_call_def split: if_splits intro!: inv_receive)
next
  case (SendDone i)
  then show ?thesis
    using assms by (auto simp: in_call_def split: if_splits phase.splits intro!: inv_send_done)
next
  case (Acknowledge i)
  then show ?thesis
    using assms by (auto simp: in_call_def split: if_splits phase.splits option.splits intro!: inv_acknowledge)
qed (use assms in \<open>auto simp: in_call_def app_end_def split: if_splits phase.splits app_end.splits
  intro!: inv_cancel_wait inv_fail_active inv_finish inv_set_phase inv_leave\<close>)

lemma inv_start: "new_admission e = Inr s \<Longrightarrow> adm_inv s"
  by (auto simp: new_admission_def read_config_def positive_int_def Let_def adm_inv_def new_sem_def
      sem_ok_def avail_def granted_def pending_def holders_def waiters_def waiting_ids_def sem_ids_def
      is_dead_def
      split: if_splits)

lemma reachable_inv: "reachable s0 s \<Longrightarrow> adm_inv s0 \<Longrightarrow> adm_inv s"
  by (induction rule: reachable.induct) (auto intro: inv_step)

section \<open>Reading a body\<close>

definition body_size :: "message list \<Rightarrow> nat" where
  "body_size ms = sum_list (map (length \<circ> chunk_of) ms)"

definition body_bytes :: "message list \<Rightarrow> byte list" where
  "body_bytes ms = concat (map chunk_of ms)"

lemma body_simps [simp]:
  "body_size [] = 0" "body_size (m # ms) = length (chunk_of m) + body_size ms"
  "body_size (ms @ ns) = body_size ms + body_size ns"
  "body_bytes [] = []" "body_bytes (m # ms) = chunk_of m @ body_bytes ms"
  "body_bytes (ms @ ns) = body_bytes ms @ body_bytes ns"
  by (simp_all add: body_size_def body_bytes_def)

text \<open>Chunks that announce more: gathered while the limit holds.\<close>

definition part :: "message \<Rightarrow> bool" where
  "part m = (mtype m = ''http.request'' \<and> more_of m)"

lemma read_parts:
  assumes "\<forall>m\<in>set ns. part m" "int (received st + body_size ns) \<le> limit"
  shows "read_body limit st (ns @ ms) =
    read_body limit (st\<lparr>received := received st + body_size ns, body_acc := body_acc st @ body_bytes ns\<rparr>) ms"
  using assms
proof (induction ns arbitrary: st)
  case (Cons n ns)
  let ?st = "st\<lparr>received := received st + length (chunk_of n), body_acc := body_acc st @ chunk_of n\<rparr>"
  have "read_step limit st n = ReadMore ?st"
    using Cons.prems by (simp add: read_step_def part_def Let_def)
  then show ?case
    using Cons.IH [of ?st] Cons.prems by (simp add: add.assoc)
qed simp

lemma read_parts_over:
  assumes "\<forall>m\<in>set ns. part m" "int (received st) \<le> limit" "limit < int (received st + body_size ns)"
  shows "\<exists>st'. read_body limit st (ns @ ms) = Some (ReadTooLarge st')"
  using assms
proof (induction ns arbitrary: st)
  case (Cons n ns)
  let ?st = "st\<lparr>received := received st + length (chunk_of n), body_acc := body_acc st @ chunk_of n\<rparr>"
  show ?case
  proof (cases "limit < int (received st + length (chunk_of n))")
    case True
    then show ?thesis
      using Cons.prems by (simp add: read_step_def part_def Let_def)
  next
    case False
    then have "read_step limit st n = ReadMore ?st"
      using Cons.prems by (simp add: read_step_def part_def Let_def)
    then show ?thesis
      using Cons.IH [of ?st] Cons.prems False by (simp add: add.assoc)
  qed
qed simp

text \<open>The bytes a call keeps in memory for its body.\<close>

definition kept_bytes :: "body_state \<Rightarrow> nat" where
  "kept_bytes b = length (body_acc b) + body_size (filter (\<lambda>m. mtype m = ''http.request'') (buffered b))"

definition body_ok :: "int \<Rightarrow> client \<Rightarrow> bool" where
  "body_ok limit c \<longleftrightarrow> int (kept_bytes (cbody c)) \<le> limit \<and>
     ((\<exists>r. phase c = Waiting r) \<or> phase c = Reading \<longrightarrow>
       buffered (cbody c) = [] \<and> length (body_acc (cbody c)) = received (cbody c))"

definition bodies_ok :: "admission \<Rightarrow> bool" where
  "bodies_ok s \<longleftrightarrow> 0 \<le> max_body_bytes (config s) \<and> (\<forall>c\<in>set (clients s). body_ok (max_body_bytes (config s)) c)"

lemma read_step_kept:
  assumes "buffered b = []" "length (body_acc b) = received b" "int (received b) \<le> limit"
  shows "case read_step limit b m of
      ReadMore b' \<Rightarrow> int (kept_bytes b') \<le> limit \<and> buffered b' = [] \<and> length (body_acc b') = received b'
    | ReadDone b' \<Rightarrow> int (kept_bytes b') \<le> limit
    | ReadTooLarge b' \<Rightarrow> int (kept_bytes b') \<le> limit"
  using assms by (auto simp: read_step_def Let_def kept_bytes_def chunk_of_def)

lemma bodies_set [intro]:
  "bodies_ok s \<Longrightarrow> body_ok (max_body_bytes (config s)) c \<Longrightarrow> bodies_ok (set_client i c s)"
  using set_update_subset_insert [of "clients s" i c] by (auto simp: bodies_ok_def)

lemma bodies_frame [simp]:
  "bodies_ok (s\<lparr>counts := k\<rparr>) = bodies_ok s" "bodies_ok (s\<lparr>slots := sm\<rparr>) = bodies_ok s"
  "bodies_ok (s\<lparr>active := a\<rparr>) = bodies_ok s" "bodies_ok (s\<lparr>queued := a\<rparr>) = bodies_ok s"
  "bodies_ok (s\<lparr>inflight := a\<rparr>) = bodies_ok s" "bodies_ok (s\<lparr>admitted_total := a\<rparr>) = bodies_ok s"
  by (simp_all add: bodies_ok_def)

lemma bodies_phase:
  assumes "bodies_ok s" "i < length (clients s)"
    and "((\<exists>r. p = Waiting r) \<or> p = Reading) \<longrightarrow> (\<exists>r. phase (clients s ! i) = Waiting r) \<or> phase (clients s ! i) = Reading"
  shows "bodies_ok (set_phase i p s)"
proof -
  have "body_ok (max_body_bytes (config s)) (clients s ! i)"
    using assms(1,2) by (simp add: bodies_ok_def)
  then show ?thesis
    using assms unfolding set_phase_def by (intro bodies_set) (auto simp: body_ok_def)
qed

lemma bodies_finish:
  assumes "bodies_ok s" "i < length (clients s)"
  shows "bodies_ok (finish i out s)" "bodies_ok (leave i held out s)" "bodies_ok (fail_active i rs s)"
  using assms by (auto simp: finish_def leave_def fail_active_def intro!: bodies_phase)

lemma bodies_arrive: "bodies_ok s \<Longrightarrow> bodies_ok (arrive sc s)"
proof -
  assume ok: "bodies_ok s"
  have add: "bodies_ok (add_client p u)" if "bodies_ok u" for p u
    using that by (auto simp: bodies_ok_def body_ok_def new_client_def new_body_def kept_bytes_def)
  let ?u = "s\<lparr>inflight := inflight s + 1, admitted_total := admitted_total s + 1, queued := queued s + 1\<rparr>"
  have "bodies_ok (enter (length (clients s)) ((add_client (Waiting None) ?u)\<lparr>slots := sm\<rparr>))" for sm
    using add [of ?u "Waiting None"] ok unfolding enter_def by (intro bodies_phase) auto
  then show ?thesis
    using ok add by (auto simp: arrive_def Let_def split: sum.split config_error.split prod.split)
qed

lemma bodies_receive:
  assumes "bodies_ok s" "i < length (clients s)" "phase (clients s ! i) = Reading"
  shows "bodies_ok (receive_message i m s)"
proof -
  let ?c = "clients s ! i"
  let ?n = "max_body_bytes (config s)"
  have c: "body_ok ?n ?c"
    using assms(1,2) by (simp add: bodies_ok_def)
  then have b: "buffered (cbody ?c) = []" "length (body_acc (cbody ?c)) = received (cbody ?c)"
    "int (received (cbody ?c)) \<le> ?n"
    using assms(3) by (auto simp: body_ok_def kept_bytes_def)
  note kept = read_step_kept [OF b, of m]
  show ?thesis
  proof (cases "read_step ?n (cbody ?c) m")
    case (ReadMore b')
    then show ?thesis
      using kept assms by (auto simp: receive_message_def body_ok_def)
  next
    case (ReadDone b')
    then show ?thesis
      using kept assms by (auto simp: receive_message_def body_ok_def)
  next
    case (ReadTooLarge b')
    have "fail_active i rs ((set_client i (?c\<lparr>cbody := b'\<rparr>) s)\<lparr>counts := k\<rparr>) = (fail_active i rs (set_client i (?c\<lparr>cbody := b'\<rparr>) s))\<lparr>counts := k\<rparr>" for rs k
      by (simp add: fail_active_def finish_def set_phase_def set_client_def)
    moreover have "bodies_ok (fail_active i rs (set_client i (?c\<lparr>cbody := b'\<rparr>) s))" for rs
    proof -
      have "fail_active i rs (set_client i (?c\<lparr>cbody := b'\<rparr>) s) =
          set_client i (?c\<lparr>cbody := b', phase := (if response_started ?c then Gone Raised else Answering True rs)\<rparr>)
            (if response_started ?c then s\<lparr>active := active s - 1, inflight := inflight s - 1,
               slots := sem_release (slots s)\<rparr> else s)"
        using assms(2) by (simp add: fail_active_def finish_def set_phase_def set_client_def)
      then show ?thesis
        using kept ReadTooLarge assms(1) by (auto simp: body_ok_def)
    qed
    ultimately show ?thesis
      using ReadTooLarge by (simp add: receive_message_def Let_def)
  qed
qed

lemma bodies_step:
  assumes "bodies_ok s" "adm_step s e = Some t"
  shows "bodies_ok t"
proof (cases e)
  case (Arrive sc)
  then show ?thesis using assms bodies_arrive by auto
next
  case (Receive i m)
  then show ?thesis
    using assms by (auto simp: in_call_def split: if_splits intro!: bodies_receive)
next
  case (AppReceive i)
  then have s: "i < length (clients s)" "phase (clients s ! i) = Serving" "t = app_receive i s"
    using assms(2) by (auto simp: in_call_def split: if_splits)
  have "body_ok (max_body_bytes (config s)) (clients s ! i)"
    using assms(1) s(1) by (simp add: bodies_ok_def)
  then show ?thesis
    using assms(1) s by (auto simp: app_receive_def Let_def body_ok_def kept_bytes_def split: list.split if_splits)
next
  case (AppSend i b)
  then have s: "i < length (clients s)" "t = app_send i b s"
    using assms(2) by (auto simp: in_call_def split: if_splits)
  have "body_ok (max_body_bytes (config s)) (clients s ! i)"
    using assms(1) s(1) by (simp add: bodies_ok_def)
  then show ?thesis
    using assms(1) s(2) by (auto simp: app_send_def Let_def body_ok_def)
next
  case (SendDone i)
  then obtain h rs where s: "i < length (clients s)" "phase (clients s ! i) = Answering h rs" "t = send_done i h rs s"
    using assms(2) by (auto simp: in_call_def split: if_splits phase.splits)
  have "body_ok (max_body_bytes (config s)) (clients s ! i)"
    using assms(1) s(1) by (simp add: bodies_ok_def)
  then have "bodies_ok (set_client i ((clients s ! i)\<lparr>sent := r, phase := Answering h ms\<rparr>) s)" for r ms
    using assms(1) by (auto simp: body_ok_def)
  then show ?thesis
    using assms(1) s(1,3) by (auto simp: send_done_def Let_def split: list.split intro!: bodies_finish)
next
  case (Resume i)
  then show ?thesis
    using assms by (auto simp: in_call_def enter_def split: if_splits intro!: bodies_phase)
next
  case (Acknowledge i)
  then show ?thesis
    using assms by (auto simp: in_call_def acknowledge_def Let_def split: if_splits phase.splits option.splits
        reason.splits intro!: bodies_phase)
qed (use assms in \<open>auto simp: in_call_def app_end_def cancel_wait_def split: if_splits phase.splits app_end.splits
  intro!: bodies_phase bodies_finish\<close>)

lemma bodies_start: "new_admission e = Inr s \<Longrightarrow> bodies_ok s"
  by (auto simp: new_admission_def read_config_def positive_int_def Let_def bodies_ok_def split: if_splits)

end
