(* ===== verification/AdmissionProps.thy ===== *)
theory AdmissionProps
  imports Admission
begin

text \<open>
  What the admission middleware guarantees in every reachable state: bounded and exact
  counters, no slot lost or held twice, first come first served, no waiting call without a
  reason, bodies within the limit and buffered whole, and error responses that say what
  they contain.
\<close>

lemma run_reachable: "adm_run es s = Some t \<Longrightarrow> reachable s0 s \<Longrightarrow> reachable s0 t"
  by (induction es arbitrary: s) (auto split: option.splits intro: reachable.step)

section \<open>A concrete run\<close>

definition sample_env :: "(string \<times> string) list" where
  "sample_env = [(''TP4_ADMISSION_MAX_ACTIVE'', ''1''), (''TP4_ADMISSION_MAX_QUEUED'', ''1''),
     (''TP4_ADMISSION_MAX_BODY_BYTES'', ''4'')]"

definition sample_admission :: admission where
  "sample_admission = \<lparr>config = \<lparr>max_active = 1, max_queued = 1, max_body_bytes = 4, queue_timeout = 1800,
     request_timeout = 3600, body_idle = 30, send_idle = 30\<rparr>,
     slots = new_sem 1, active = 0, queued = 0, inflight = 0, admitted_total = 0,
     counts = zero_counts, clients = []\<rparr>"

definition sample_post :: scope where
  "sample_post = \<lparr>sc_type = Some ''http'', sc_method = Some ''POST'', sc_path = Some ''/v1/completions'',
     sc_headers = []\<rparr>"

lemma sample_floats:
  "py_float ''1800'' = Some (Fin 1800)" "py_float ''3600'' = Some (Fin 3600)" "py_float ''30'' = Some (Fin 30)"
  by (simp_all add: py_float_def Let_def split_sign_def strip_def is_space_def code_def ascii_lower_def
      ascii_lower_char_def is_exp_char_def mantissa_part_def exponent_part_def is_decimal_char_def
      digits_value_def scale10_def fin_round_def)

lemma sample_ints:
  "str_isdecimal ''1''" "str_isdecimal ''4''" "digits_value ''1'' = 1" "digits_value ''4'' = 4"
  by code_simp+

lemma sample_start: "new_admission sample_env = Inr sample_admission"
  by (simp add: new_admission_def read_config_def positive_int_def positive_float_def env_raw_def
      sample_env_def env_defaults_def sample_floats sample_ints sample_admission_def Let_def)

lemma sample_post_facts: "is_guarded sample_post" "content_length sample_post = Inr None"
  by (simp_all add: sample_post_def is_guarded_def bypassed_post_paths_def is_response_cancel_def
      split_on_def content_length_def)

lemmas run_defs = arrive_def sample_post_facts sample_admission_def new_sem_def acquire_begin_def
  sem_locked_def add_client_def enter_def set_phase_def set_client_def new_client_def in_call_def
  finish_def sem_release_def wake_up_next_def cancel_wait_def cancel_future_def acknowledge_def
  acquire_abandon_def remove_waiter_def fut_of_def wake_all.simps leave_def zero_counts_def

text \<open>Two calls arrive: the first reads its body, the second waits for the only slot.\<close>

definition sample_two :: admission where
  "sample_two = sample_admission\<lparr>slots := \<lparr>sem_value = 0, sem_waiters = [(1, Pending)]\<rparr>,
     active := 1, queued := 1, inflight := 2, admitted_total := 2,
     clients := [new_client Reading, new_client (Waiting None)]\<rparr>"

lemma sample_two_run: "adm_run [Arrive sample_post, Arrive sample_post] sample_admission = Some sample_two"
  by (simp add: sample_two_def run_defs)

lemma sample_two_reachable: "reachable sample_admission sample_two"
  by (rule run_reachable [OF sample_two_run reachable.start])

text \<open>The first call ends, and its slot is granted to the second.\<close>

definition sample_granted :: admission where
  "sample_granted = sample_admission\<lparr>slots := \<lparr>sem_value = 0, sem_waiters = [(1, Granted)]\<rparr>,
     active := 0, queued := 1, inflight := 1, admitted_total := 2,
     counts := zero_counts\<lparr>cancelled_active := 1\<rparr>,
     clients := [new_client (Gone Raised), new_client (Waiting None)]\<rparr>"

lemma sample_granted_run:
  "adm_run [Arrive sample_post, Arrive sample_post, Cancel 0] sample_admission = Some sample_granted"
  by (simp add: sample_granted_def run_defs)

section \<open>The properties\<close>

text \<open>
  C2. In every reachable state the calls that hold a slot are at most \<open>max_active\<close>, the
  counters \<open>_active\<close>, \<open>_queued\<close> and \<open>_inflight\<close> count exactly the calls that hold a slot,
  wait for one, or either, and all of them together are at most \<open>max_active + max_queued\<close>.
\<close>

theorem admission_bounded:
  assumes "new_admission e = Inr s0" "reachable s0 s"
  shows "int (holders s) \<le> max_active (config s) \<and> active s = int (holders s) \<and>
    queued s = int (waiters s) \<and> inflight s = int (holders s) + int (waiters s) \<and>
    inflight s \<le> max_active (config s) + max_queued (config s)"
proof -
  have inv: "adm_inv s"
    using reachable_inv [OF assms(2) inv_start [OF assms(1)]] .
  then have "sem_ok (slots s)" "avail (slots s) + int (holders s) = max_active (config s)"
    by (simp_all add: adm_inv_def)
  then have "int (holders s) \<le> max_active (config s)"
    by (rule sem_slots.holders_bounded)
  then show ?thesis
    using inv by (simp add: adm_inv_def)
qed

lemma admission_bounded_witness: "int (holders sample_two) \<le> 1 \<and> holders sample_two = 1 \<and> waiters sample_two = 1"
proof -
  have "holders sample_two = 1 \<and> waiters sample_two = 1 \<and> max_active (config sample_two) = 1"
    by (simp add: holders_def waiters_def sample_two_def sample_admission_def)
  then show ?thesis
    using admission_bounded [OF sample_start sample_two_reachable] by simp
qed

text \<open>
  C15. No slot is lost: whenever no call holds or awaits a slot, whatever timeouts and
  cancellations came before, the semaphore is back at its initial value with an empty queue,
  and the counters are zero.
\<close>

theorem slots_come_back:
  assumes "new_admission e = Inr s0" "reachable s0 s"
    and "\<forall>c\<in>set (clients s). \<not> holds_slot c \<and> \<not> is_waiting c"
  shows "slots s = new_sem (max_active (config s)) \<and> active s = 0 \<and> queued s = 0 \<and> inflight s = 0"
proof -
  have inv: "adm_inv s"
    using reachable_inv [OF assms(2) inv_start [OF assms(1)]] .
  have none: "holders s = 0" "waiters s = 0" "waiting_ids s = []"
    using assms(3) by (auto simp: holders_def waiters_def waiting_ids_def filter_empty_conv)
  have "sem_waiters (slots s) = []"
    using inv none(3) by (simp add: adm_inv_def sem_ids_def)
  moreover from this have "sem_value (slots s) = max_active (config s)"
    using inv none(1) by (simp add: adm_inv_def avail_def granted_def)
  ultimately show ?thesis
    using inv none by (simp add: adm_inv_def new_sem_def)
qed

lemma slots_come_back_witness:
  "\<exists>t. adm_run [Arrive sample_post, Arrive sample_post, WaitTimer 1, Cancel 0, Acknowledge 1, SendFails 1]
      sample_admission = Some t \<and> slots t = new_sem 1 \<and> inflight t = 0"
proof -
  let ?es = "[Arrive sample_post, Arrive sample_post, WaitTimer 1, Cancel 0, Acknowledge 1, SendFails 1]"
  have "\<exists>t. adm_run ?es sample_admission = Some t \<and> (\<forall>c\<in>set (clients t). \<not> holds_slot c \<and> \<not> is_waiting c) \<and>
      max_active (config t) = 1"
    by (simp add: run_defs)
  then obtain t where t: "adm_run ?es sample_admission = Some t"
    and rest: "\<forall>c\<in>set (clients t). \<not> holds_slot c \<and> \<not> is_waiting c" "max_active (config t) = 1"
    by blast
  show ?thesis
    using slots_come_back [OF sample_start run_reachable [OF t reachable.start] rest(1)] t rest(2) by auto
qed

text \<open>
  C32. No call waits without a reason: while a call waits, either every slot is held, or some
  waiting call can move on its own, by taking up its granted slot or by acknowledging its
  cancellation.
\<close>

theorem waiting_has_reason:
  assumes "new_admission e = Inr s0" "reachable s0 s" "i < length (clients s)" "is_waiting (clients s ! i)"
  shows "int (holders s) = max_active (config s) \<or>
    (\<exists>j t. adm_step s (Resume j) = Some t \<or> adm_step s (Acknowledge j) = Some t)"
proof -
  have inv: "adm_inv s"
    using reachable_inv [OF assms(2) inv_start [OF assms(1)]] .
  then have ok: "sem_ok (slots s)" "avail (slots s) + int (holders s) = max_active (config s)"
    and ids: "sem_ids (slots s) = waiting_ids s"
    by (simp_all add: adm_inv_def)
  have "i \<in> set (sem_ids (slots s))"
    using assms(3,4) by (simp add: ids waiting_ids_def)
  from sem_slots.queue_moves [OF ok this]
  show ?thesis
  proof (elim disjE bexE)
    fix j assume j: "j \<in> set (sem_ids (slots s))"
      and move: "fut_of (slots s) j = Some Granted" 
    then have "in_call s j" "is_waiting (clients s ! j)"
      by (simp_all add: ids waiting_ids_def in_call_def)
    then show ?thesis
      using move by (cases "phase (clients s ! j)"; auto simp: is_waiting_def split: option.splits)
  next
    fix j assume "is_dead (slots s) j"
    then obtain r where "j < length (clients s)" "phase (clients s ! j) = Waiting (Some r)"
      using dead_waits [OF inv] by blast
    then have "adm_step s (Acknowledge j) = Some (acknowledge j r s)"
      by (simp add: in_call_def)
    then show ?thesis by blast
  qed simp
qed

lemma waiting_has_reason_witness:
  "holders sample_granted = 0 \<and>
   (\<exists>j t. adm_step sample_granted (Resume j) = Some t \<or> adm_step sample_granted (Acknowledge j) = Some t)"
proof -
  have r: "reachable sample_admission sample_granted"
    by (rule run_reachable [OF sample_granted_run reachable.start])
  have "1 < length (clients sample_granted) \<and> is_waiting (clients sample_granted ! 1)"
    and "holders sample_granted = 0 \<and> max_active (config sample_granted) = 1"
    by (simp_all add: sample_granted_def sample_admission_def holders_def)
  then show ?thesis
    using waiting_has_reason [OF sample_start r, of 1] by simp
qed

text \<open>
  C33. First come, first served: while a call waits for a slot that was not granted to it,
  no call that arrived later takes one up, and no newly arriving call gets one at once.
\<close>

theorem served_in_order:
  assumes "new_admission e = Inr s0" "reachable s0 s" "fut_of (slots s) i = Some Pending"
    and "adm_step s ev = Some t"
  shows "(\<forall>j. ev = Resume j \<longrightarrow> j < i) \<and> (\<forall>sc. ev = Arrive sc \<longrightarrow> \<not> holds_slot (last (clients t)))"
proof -
  have ok: "sem_ok (slots s)"
    using reachable_inv [OF assms(2) inv_start [OF assms(1)]] by (simp add: adm_inv_def)
  have "j < i" if "ev = Resume j" for j
    using sem_slots.no_overtaking [OF ok assms(3)] assms(4) that by (auto split: if_splits)
  moreover have "\<not> holds_slot (last (clients t))" if "ev = Arrive sc" for sc
  proof -
    have "snd (acquire_begin (slots s) k) = False" for k
      using sem_slots.ask_fair [OF ok, of k _ i] assms(3) by (metis prod.collapse)
    then show ?thesis
      using assms(4) that
      by (auto simp: arrive_def Let_def split: sum.splits config_error.splits if_splits prod.splits) (metis snd_conv)
  qed
  ultimately show ?thesis by blast
qed

lemma served_in_order_witness:
  "\<exists>t. adm_step sample_two (Arrive sample_post) = Some t \<and> \<not> holds_slot (last (clients t))"
proof -
  have "fut_of (slots sample_two) 1 = Some Pending"
    by (simp add: sample_two_def fut_of_def)
  then show ?thesis
    using served_in_order [OF sample_start sample_two_reachable, of 1 "Arrive sample_post"] by simp
qed

text \<open>
  C34. No call ever keeps more than \<open>max_body_bytes\<close> bytes of its request body in memory, in
  the accumulator and the replay buffer together.
\<close>

theorem body_memory_bounded:
  assumes "new_admission e = Inr s0" "reachable s0 s" "c \<in> set (clients s)"
  shows "int (kept_bytes (cbody c)) \<le> max_body_bytes (config s)"
proof -
  have "bodies_ok s"
    using assms(2) by (induction rule: reachable.induct) (use bodies_start [OF assms(1)] bodies_step in blast)+
  then show ?thesis
    using assms(3) by (simp add: bodies_ok_def body_ok_def)
qed

lemma body_memory_bounded_witness:
  "int (kept_bytes (cbody (hd (clients sample_two)))) \<le> 4"
  using body_memory_bounded [OF sample_start sample_two_reachable, of "hd (clients sample_two)"]
  by (simp add: sample_two_def sample_admission_def)

text \<open>
  \<open>read_body\<close> buffers a body whole or refuses it: when its chunks fit the limit, it buffers
  one message with their concatenation and no more to come; when they exceed it, it ends
  with \<open>_BodyTooLarge\<close>.
\<close>

lemma read_body_whole:
  assumes "\<forall>m\<in>set ns. part m" "mtype l = ''http.request''" "\<not> more_of l" "0 \<le> limit"
  shows "if int (body_size (ns @ [l])) \<le> limit
    then \<exists>st. read_body limit new_body (ns @ [l]) = Some (ReadDone st) \<and>
      buffered st = [l\<lparr>mbody := Some (body_bytes (ns @ [l])), mmore := Some False\<rparr>]
    else \<exists>st. read_body limit new_body (ns @ [l]) = Some (ReadTooLarge st)"
proof (cases "int (body_size ns) \<le> limit")
  case True
  then have "read_body limit new_body (ns @ [l]) =
      read_body limit (new_body\<lparr>received := body_size ns, body_acc := body_bytes ns\<rparr>) [l]"
    using read_parts [OF assms(1), of new_body limit "[l]"] by (simp add: new_body_def)
  then show ?thesis
    using assms(2,3) by (simp add: read_step_def Let_def new_body_def)
next
  case False
  then show ?thesis
    using read_parts_over [OF assms(1), of new_body limit "[l]"] assms(4) by (simp add: new_body_def)
qed

lemma read_body_whole_example:
  "\<exists>st. read_body 3 new_body [\<lparr>mtype = ''http.request'', mbody = Some [1, 2], mmore = Some True\<rparr>,
      \<lparr>mtype = ''http.request'', mbody = Some [3], mmore = None\<rparr>] = Some (ReadDone st) \<and>
    buffered st = [\<lparr>mtype = ''http.request'', mbody = Some [1, 2, 3], mmore = Some False\<rparr>]"
  using read_body_whole [of "[\<lparr>mtype = ''http.request'', mbody = Some [1, 2], mmore = Some True\<rparr>]"
      "\<lparr>mtype = ''http.request'', mbody = Some [3], mmore = None\<rparr>" 3]
  by (simp add: part_def more_of_def chunk_of_def)

text \<open>
  Every error response is a start with the given status and a body whose length is the
  announced \<open>Content-Length\<close> and which parses as the error object with the given message,
  type and code; a retry hint, when present, is a whole number of seconds not below the
  queue timeout.
\<close>

theorem error_response_parses:
  "\<exists>hs body. send_error cfg status msg ty err retry = [ResponseStart status hs, ResponseBody body] \<and>
    map_of hs ''content-length'' = Some (nat_text (length body)) \<and>
    loads_bytes body = Inr (JObj [(asc ''error'', JObj [(asc ''message'', JStr (asc msg)),
      (asc ''type'', JStr (asc ty)), (asc ''param'', JNull), (asc ''code'', JStr (asc err))])]) \<and>
    (map_of hs ''retry-after'' = (if retry then Some (nat_text (nat (max 1 \<lceil>queue_timeout cfg\<rceil>))) else None))"
proof -
  have "loads_bytes (error_body msg ty err) = Inr (JObj [(asc ''error'', JObj [(asc ''message'', JStr (asc msg)),
      (asc ''type'', JStr (asc ty)), (asc ''param'', JNull), (asc ''code'', JStr (asc err))])])"
    unfolding error_body_def by (intro loads_bytes_dumps) simp
  then show ?thesis
    by (simp add: send_error_def Let_def)
qed

end
