(* ===== verification/AdmissionBody.thy ===== *)
theory AdmissionBody
  imports AdmissionProps
begin

text \<open>
  From the messages a call received to the messages its application is given, over whole
  runs of the middleware: the events of other calls, timeouts and cancellations may come
  between any two steps of the call.
\<close>

section \<open>What was received and what is due\<close>

definition received_by :: "nat \<Rightarrow> event list \<Rightarrow> message list" where
  "received_by i es = concat (map (\<lambda>e. case e of Receive j m \<Rightarrow> if j = i then [m] else [] | _ \<Rightarrow> []) es)"

definition request_bytes :: "message list \<Rightarrow> byte list" where
  "request_bytes ms = concat (map chunk_of (filter (\<lambda>m. mtype m = ''http.request'') ms))"

text \<open>
  The messages due to the application: one with the whole body and no more to come; or, when
  the request ended with a message of another kind (a disconnect), what had come of the body
  and that message.
\<close>

definition due_messages :: "message list \<Rightarrow> message list" where
  "due_messages ms = (let l = last ms; b = request_bytes ms in
     if mtype l = ''http.request'' then [l\<lparr>mbody := Some b, mmore := Some False\<rparr>]
     else (if b \<noteq> [] then [\<lparr>mtype = ''http.request'', mbody = Some b, mmore = Some True\<rparr>] else []) @ [l])"

definition delivery :: "int \<Rightarrow> message list \<Rightarrow> client \<Rightarrow> bool" where
  "delivery limit ms c \<longleftrightarrow> (case phase c of
     Passing \<Rightarrow> ms = [] \<and> cbody c = new_body \<and> replayed c = []
   | Waiting r \<Rightarrow> ms = [] \<and> cbody c = new_body \<and> replayed c = []
   | Reading \<Rightarrow> list_all part ms \<and> int (body_size ms) \<le> limit \<and> replayed c = [] \<and>
       cbody c = new_body\<lparr>received := body_size ms, body_acc := body_bytes ms\<rparr>
   | Serving \<Rightarrow> replayed c @ buffered (cbody c) = due_messages ms \<and> int (length (request_bytes ms)) \<le> limit
   | _ \<Rightarrow> replayed c \<noteq> [] \<longrightarrow>
       (\<exists>rest. replayed c @ rest = due_messages ms) \<and> int (length (request_bytes ms)) \<le> limit)"

definition history :: "(nat \<Rightarrow> message list) \<Rightarrow> admission \<Rightarrow> bool" where
  "history h s \<longleftrightarrow> 0 \<le> max_body_bytes (config s) \<and>
     (\<forall>i < length (clients s). delivery (max_body_bytes (config s)) (h i) (clients s ! i)) \<and>
     (\<forall>i \<ge> length (clients s). h i = [])"

definition over :: "phase \<Rightarrow> bool" where
  "over p = (case p of Answering held rs \<Rightarrow> True | Gone out \<Rightarrow> True | _ \<Rightarrow> False)"

lemma over_simps [simp]: "over (Answering held rs)" "over (Gone out)"
  by (simp_all add: over_def)

section \<open>Preservation\<close>

lemma request_bytes_parts: "list_all part ms \<Longrightarrow> request_bytes ms = body_bytes ms"
  by (induction ms) (simp_all add: request_bytes_def body_bytes_def part_def)

lemma request_bytes_snoc [simp]:
  "request_bytes (ms @ [m]) = request_bytes ms @ (if mtype m = ''http.request'' then chunk_of m else [])"
  by (simp add: request_bytes_def)

lemma length_body_bytes: "length (body_bytes ms) = body_size ms"
  by (induction ms) simp_all

lemma delivery_over:
  "delivery limit ms c \<Longrightarrow> over p \<Longrightarrow> delivery limit ms (c\<lparr>phase := p\<rparr>)"
  by (auto simp: delivery_def over_def split: phase.splits)

lemma delivery_frame [simp]:
  "delivery limit ms (c\<lparr>sent := r\<rparr>) = delivery limit ms c"
  "delivery limit ms (c\<lparr>response_started := b\<rparr>) = delivery limit ms c"
  by (simp_all add: delivery_def split: phase.splits)

lemma history_frame [simp]:
  "history h (s\<lparr>counts := k\<rparr>) = history h s" "history h (s\<lparr>slots := sm\<rparr>) = history h s"
  "history h (s\<lparr>active := a\<rparr>) = history h s" "history h (s\<lparr>queued := a\<rparr>) = history h s"
  "history h (s\<lparr>inflight := a\<rparr>) = history h s" "history h (s\<lparr>admitted_total := a\<rparr>) = history h s"
  by (simp_all add: history_def)

text \<open>Only the configuration and the calls matter, and one call is replaced at a time.\<close>

lemma history_replace:
  assumes "history h s" "i < length (clients s)" "delivery (max_body_bytes (config s)) ms c"
    and "config u = config s" "clients u = (clients s)[i := c]"
  shows "history (h(i := ms)) u"
  unfolding history_def
proof (intro conjI allI impI)
  fix j assume "j < length (clients u)"
  then show "delivery (max_body_bytes (config u)) ((h(i := ms)) j) (clients u ! j)"
    using assms by (cases "j = i") (simp_all add: history_def)
qed (use assms in \<open>auto simp: history_def\<close>)

lemma history_set:
  assumes "history h s" "i < length (clients s)" "delivery (max_body_bytes (config s)) (h i) c"
  shows "history h (set_client i c s)"
  using history_replace [OF assms, of "set_client i c s"] by (simp add: set_client_def)

lemma history_client: "history h s \<Longrightarrow> i < length (clients s) \<Longrightarrow>
    delivery (max_body_bytes (config s)) (h i) (clients s ! i)"
  by (simp add: history_def)

lemma history_over:
  "history h s \<Longrightarrow> i < length (clients s) \<Longrightarrow> over p \<Longrightarrow> history h (set_phase i p s)"
  unfolding set_phase_def by (intro history_set delivery_over history_client) assumption+

lemma history_waiting:
  "history h s \<Longrightarrow> i < length (clients s) \<Longrightarrow> phase (clients s ! i) = Waiting r \<Longrightarrow>
   history h (set_phase i (Waiting q) s)"
  unfolding set_phase_def by (rule history_set) (auto simp: delivery_def dest: history_client)

lemma history_enter:
  assumes "history h s" "i < length (clients s)" "phase (clients s ! i) = Waiting r"
  shows "history h (enter i s)"
proof -
  have "delivery (max_body_bytes (config s)) (h i) (clients s ! i)" "0 \<le> max_body_bytes (config s)"
    using assms by (simp_all add: history_def)
  then have "delivery (max_body_bytes (config s)) (h i) ((clients s ! i)\<lparr>phase := Reading\<rparr>)"
    using assms(3) by (simp add: delivery_def new_body_def)
  then show ?thesis
    using history_set [OF assms(1,2)] by (simp add: enter_def set_phase_def set_client_def history_def)
qed

lemma history_finish:
  assumes "history h s" "i < length (clients s)"
  shows "history h (finish i out s)" "history h (leave i held out s)" "history h (fail_active i rs s)"
  using assms by (auto simp: finish_def leave_def fail_active_def intro!: history_over)

lemma history_add:
  assumes "history h s" "p = Passing \<or> (\<exists>r. p = Waiting r) \<or> over p"
  shows "history h (add_client p s)"
  using assms by (auto simp: history_def add_client_def new_client_def delivery_def nth_append over_def
      less_Suc_eq split: phase.splits)

lemma history_arrive:
  assumes "history h s"
  shows "history h (arrive sc s)"
proof -
  let ?u = "s\<lparr>inflight := inflight s + 1, admitted_total := admitted_total s + 1, queued := queued s + 1\<rparr>"
  have wait: "history h ((add_client (Waiting None) ?u)\<lparr>slots := sm\<rparr>)" for sm
    using history_add [of h ?u "Waiting None"] assms by simp
  have "history h (enter (length (clients s)) ((add_client (Waiting None) ?u)\<lparr>slots := sm\<rparr>))" for sm
    by (rule history_enter [OF wait, where r = None]) (simp_all add: add_client_def new_client_def)
  then show ?thesis
    using assms wait history_add
    by (auto simp: arrive_def Let_def split: sum.split config_error.split prod.split)
qed

lemma history_receive:
  assumes "history h s" "i < length (clients s)" "phase (clients s ! i) = Reading"
  shows "history (h(i := h i @ [m])) (receive_message i m s)"
proof -
  let ?c = "clients s ! i" and ?n = "max_body_bytes (config s)" and ?h = "h(i := h i @ [m])"
  have d: "list_all part (h i)" "int (body_size (h i)) \<le> ?n" "replayed ?c = []"
    "cbody ?c = new_body\<lparr>received := body_size (h i), body_acc := body_bytes (h i)\<rparr>"
    using history_client [OF assms(1,2)] assms(3) by (simp_all add: delivery_def)
  have set: "history ?h (set_client i c s)" if hd: "delivery ?n (h i @ [m]) c" for c
    by (rule history_replace [OF assms(1,2) hd]) (simp_all add: set_client_def)
  have bytes: "request_bytes (h i) = body_bytes (h i)" "length (body_bytes (h i)) = body_size (h i)"
    using d(1) by (simp_all add: request_bytes_parts length_body_bytes)
  show ?thesis
  proof (cases "read_step ?n (cbody ?c) m")
    case (ReadMore b)
    then have "delivery ?n (h i @ [m]) (?c\<lparr>cbody := b\<rparr>)"
      using d assms(3) by (auto simp: read_step_def Let_def delivery_def part_def new_body_def split: if_splits)
    with ReadMore set show ?thesis by (simp add: receive_message_def Let_def)
  next
    case (ReadDone b)
    then have "delivery ?n (h i @ [m]) (?c\<lparr>cbody := b, phase := Serving\<rparr>)"
      using d bytes by (auto simp: read_step_def Let_def delivery_def new_body_def due_messages_def split: if_splits)
    with ReadDone set show ?thesis by (simp add: receive_message_def Let_def)
  next
    case (ReadTooLarge b)
    have gone: "delivery ?n (h i @ [m]) (?c\<lparr>cbody := b, phase := p\<rparr>)" if hp: "over p" for p
      using d(3) hp by (cases p) (simp_all add: delivery_def over_def)
    have "history ?h (fail_active i rs ((set_client i (?c\<lparr>cbody := b\<rparr>) s)\<lparr>counts := k\<rparr>))" for rs k
      by (rule history_replace [OF assms(1,2) gone
            [of "if response_started ?c then Gone Raised else Answering True rs"]])
         (use assms(2) in \<open>simp_all add: fail_active_def finish_def set_phase_def set_client_def\<close>)
    with ReadTooLarge show ?thesis by (simp add: receive_message_def Let_def)
  qed
qed

lemma history_app_receive:
  assumes "history h s" "i < length (clients s)" "phase (clients s ! i) = Serving"
  shows "history h (app_receive i s)"
  using assms history_client [OF assms(1,2)]
  by (auto simp: app_receive_def Let_def delivery_def split: list.split intro!: history_set)

lemma history_step:
  assumes "history h s" "adm_step s e = Some t" "\<And>i m. e \<noteq> Receive i m"
  shows "history h t"
proof (cases e)
  case (Arrive sc)
  then show ?thesis using assms history_arrive by auto
next
  case (Receive i m)
  then show ?thesis using assms(3) by blast
next
  case (AppReceive i)
  then show ?thesis using assms by (auto simp: in_call_def split: if_splits intro!: history_app_receive)
next
  case (AppSend i b)
  then have s: "i < length (clients s)" "t = app_send i b s"
    using assms(2) by (auto simp: in_call_def split: if_splits)
  then show ?thesis
    using assms(1) history_client [OF assms(1) s(1)] by (auto simp: app_send_def Let_def intro!: history_set)
next
  case (SendDone i)
  then obtain held rs where s: "i < length (clients s)" "phase (clients s ! i) = Answering held rs" "t = send_done i held rs s"
    using assms(2) by (auto simp: in_call_def split: if_splits phase.splits)
  have "delivery (max_body_bytes (config s)) (h i) ((clients s ! i)\<lparr>phase := Answering held ms, sent := r\<rparr>)" for r ms
    using delivery_over [OF history_client [OF assms(1) s(1)]] by simp
  then have "history h (set_client i ((clients s ! i)\<lparr>sent := r, phase := Answering held ms\<rparr>) s)" for r ms
    using assms(1) s(1) by (auto intro!: history_set simp: delivery_def)
  then show ?thesis
    using assms(1) s(1,3)
    by (auto simp: send_done_def Let_def set_client_def split: list.split intro!: history_finish)
next
  case (Resume i)
  then have s: "i < length (clients s)" "phase (clients s ! i) = Waiting None"
    "t = enter i (s\<lparr>slots := acquire_resume (slots s) i\<rparr>)"
    using assms(2) by (auto simp: in_call_def split: if_splits)
  show ?thesis unfolding s(3) by (rule history_enter [where r = None]) (use assms(1) s in simp_all)
next
  case (Acknowledge i)
  then show ?thesis
    using assms(1,2) by (auto simp: in_call_def acknowledge_def Let_def split: if_splits phase.splits option.splits
        reason.splits intro!: history_over)
qed (use assms(1,2) in \<open>auto simp: in_call_def app_end_def cancel_wait_def split: if_splits phase.splits app_end.splits
  intro!: history_over history_waiting history_finish\<close>)

lemma received_by_snoc:
  "received_by i (es @ [e]) = received_by i es @ (case e of Receive j m \<Rightarrow> if j = i then [m] else [] | _ \<Rightarrow> [])"
  by (simp add: received_by_def split: event.split)

lemma adm_run_snoc: "adm_run (es @ [e]) s = Some t \<Longrightarrow> \<exists>u. adm_run es s = Some u \<and> adm_step u e = Some t"
  by (induction es arbitrary: s) (auto split: option.splits)

text \<open>Every run keeps the history of each call.\<close>

lemma history_run:
  assumes "new_admission en = Inr s0"
  shows "adm_run es s0 = Some s \<Longrightarrow> history (\<lambda>i. received_by i es) s"
proof (induction es arbitrary: s rule: rev_induct)
  case Nil
  have "bodies_ok s0" "clients s0 = []"
    using bodies_start [OF assms] assms by (auto simp: new_admission_def)
  with Nil show ?case by (simp add: history_def bodies_ok_def received_by_def)
next
  case (snoc e es)
  then obtain u where u: "adm_run es s0 = Some u" "adm_step u e = Some s" using adm_run_snoc by blast
  note h = snoc.IH [OF u(1)]
  show ?case
  proof (cases "\<exists>i m. e = Receive i m")
    case True
    then obtain i m where e: "e = Receive i m" by blast
    then have r: "i < length (clients u)" "phase (clients u ! i) = Reading" "s = receive_message i m u"
      using u(2) by (auto simp: in_call_def split: if_splits)
    have "(\<lambda>j. received_by j (es @ [e])) = (\<lambda>j. received_by j es)(i := received_by i es @ [m])"
      by (auto simp: e received_by_snoc)
    then show ?thesis using history_receive [OF h r(1,2)] r(3) by simp
  next
    case False
    then have "(\<lambda>j. received_by j (es @ [e])) = (\<lambda>j. received_by j es)"
      by (auto simp: received_by_snoc split: event.split)
    with history_step [OF h u(2)] False show ?thesis by simp
  qed
qed

section \<open>Delivery\<close>

text \<open>An application that keeps receiving gets all that is buffered.\<close>

lemma drain_buffer:
  assumes "i < length (clients s)" "phase (clients s ! i) = Serving"
  shows "\<exists>t. adm_run (replicate (length (buffered (cbody (clients s ! i)))) (AppReceive i)) s = Some t \<and>
    replayed (clients t ! i) = replayed (clients s ! i) @ buffered (cbody (clients s ! i)) \<and>
    buffered (cbody (clients t ! i)) = []"
  using assms
proof (induction "buffered (cbody (clients s ! i))" arbitrary: s)
  case Nil
  then show ?case by simp
next
  case (Cons m ms)
  let ?c = "clients s ! i"
  define t where "t = app_receive i s"
  have "clients t ! i = ?c\<lparr>cbody := (cbody ?c)\<lparr>buffered := ms\<rparr>, replayed := replayed ?c @ [m]\<rparr>"
    "length (clients t) = length (clients s)"
    using Cons.hyps(2) [symmetric] Cons.prems(1) by (simp_all add: t_def app_receive_def Let_def set_client_def)
  moreover have "adm_step s (AppReceive i) = Some t" using Cons.prems by (simp add: t_def in_call_def)
  ultimately show ?case
    using Cons.hyps(1) [of t] Cons.prems Cons.hyps(2) [symmetric] by simp
qed

text \<open>
  C35. A body reaches the application whole and once, or not at all. In every run, while a call
  is in its application, the messages replayed so far and those still buffered are together
  exactly the ones due: one message with the concatenation of all the chunks received and no
  more to come, or, when the client disconnected, what had come and the disconnect; and the
  application gets them by receiving. A call whose chunks exceed the limit is not in its
  application and has replayed nothing. A call whose last chunk has arrived is no longer read.
\<close>

theorem body_reaches_application:
  assumes "new_admission en = Inr s0" "adm_run es s0 = Some s" "i < length (clients s)"
    and "c = clients s ! i" "ms = received_by i es"
  shows "(phase c = Serving \<longrightarrow> replayed c @ buffered (cbody c) = due_messages ms \<and>
      (\<exists>t. adm_run (replicate (length (buffered (cbody c))) (AppReceive i)) s = Some t \<and>
         replayed (clients t ! i) = due_messages ms \<and> buffered (cbody (clients t ! i)) = [])) \<and>
    (replayed c \<noteq> [] \<longrightarrow> (\<exists>rest. replayed c @ rest = due_messages ms)) \<and>
    (max_body_bytes (config s) < int (length (request_bytes ms)) \<longrightarrow> phase c \<noteq> Serving \<and> replayed c = []) \<and>
    (ms \<noteq> [] \<and> \<not> part (last ms) \<longrightarrow> phase c \<noteq> Reading)"
proof -
  have d: "delivery (max_body_bytes (config s)) ms c"
    using history_client [OF history_run [OF assms(1,2)] assms(3)] assms(4,5) by simp
  have last: "part (last ms)" if h: "list_all part ms" "ms \<noteq> []"
    using h by (simp add: list_all_iff)
  show ?thesis
    using d last drain_buffer [OF assms(3)] assms(4) by (auto simp: delivery_def split: phase.splits)
qed

theorem body_reaches_application_witness:
  "\<exists>s. adm_run [Arrive sample_post, Receive 0 \<lparr>mtype = ''http.request'', mbody = Some [1, 2], mmore = Some True\<rparr>,
        Arrive sample_post, Receive 0 \<lparr>mtype = ''http.request'', mbody = Some [3], mmore = None\<rparr>, AppReceive 0]
      sample_admission = Some s \<and> phase (clients s ! 0) = Serving \<and>
    replayed (clients s ! 0) @ buffered (cbody (clients s ! 0)) =
      [\<lparr>mtype = ''http.request'', mbody = Some [1, 2, 3], mmore = Some False\<rparr>]"
proof -
  let ?es = "[Arrive sample_post, Receive 0 \<lparr>mtype = ''http.request'', mbody = Some [1, 2], mmore = Some True\<rparr>,
        Arrive sample_post, Receive 0 \<lparr>mtype = ''http.request'', mbody = Some [3], mmore = None\<rparr>, AppReceive 0]"
  have "\<exists>s. adm_run ?es sample_admission = Some s \<and> phase (clients s ! 0) = Serving \<and> 0 < length (clients s)"
    by (simp add: run_defs receive_message_def read_step_def app_receive_def new_body_def chunk_of_def more_of_def Let_def)
  then obtain s where s: "adm_run ?es sample_admission = Some s" "phase (clients s ! 0) = Serving" "0 < length (clients s)"
    by blast
  have "due_messages (received_by 0 ?es) = [\<lparr>mtype = ''http.request'', mbody = Some [1, 2, 3], mmore = Some False\<rparr>]"
    by (simp add: due_messages_def received_by_def request_bytes_def chunk_of_def)
  with body_reaches_application [OF sample_start s(1) s(3) refl refl] s(1,2) show ?thesis by auto
qed

end
