(* ===== verification/OsIO.thy ===== *)
theory OsIO
  imports HybridCodec
begin

text \<open>
  The operating system as the storage code of \<open>sparkcache-ram-budget\<close> sees it through
  Python's \<open>os\<close> and \<open>tempfile\<close>: regular files behind inodes, names, descriptors, and
  system calls that may fail or transfer fewer bytes than asked for. What the kernel will
  do is part of the state, as the list of the outcomes of the calls to come; a property
  that holds for every world holds for every such schedule. Closing a descriptor and the
  contents of directories on disk are not modelled to fail.
\<close>

section \<open>Actions\<close>

text \<open>A Python statement: it raises or returns, and in both cases leaves a state.\<close>

datatype io_exn =
    OSError nat
  | ShortWrite
  | ValueError string
  | TypeError string
  | RuntimeError string
  | CacheFormatError string
  | CommitConflict
  | IndexError
  | KeyError
  | ZeroDivisionError
  | AssertionError
  | CodecError codec_error
  | Diverges

type_synonym ('s, 'a) act = "'s \<Rightarrow> (io_exn + 'a) \<times> 's"

definition ret :: "'a \<Rightarrow> ('s, 'a) act" where
  "ret x = (\<lambda>s. (Inr x, s))"

definition throw :: "io_exn \<Rightarrow> ('s, 'a) act" where
  "throw e = (\<lambda>s. (Inl e, s))"

definition andthen :: "('s, 'a) act \<Rightarrow> ('a \<Rightarrow> ('s, 'b) act) \<Rightarrow> ('s, 'b) act" where
  "andthen m f = (\<lambda>s. case m s of (Inl e, t) \<Rightarrow> (Inl e, t) | (Inr x, t) \<Rightarrow> f x t)"

text \<open>\<open>try ... finally\<close>: what the handler raises replaces what the body did.\<close>

definition finally_do :: "('s, 'a) act \<Rightarrow> ('s, unit) act \<Rightarrow> ('s, 'a) act" where
  "finally_do m h = (\<lambda>s. case m s of (r, t) \<Rightarrow>
     (case h t of (Inl e, u) \<Rightarrow> (Inl e, u) | (Inr _, u) \<Rightarrow> (r, u)))"

text \<open>\<open>try ... except\<close> with a handler for the errors that \<open>h\<close> is defined on.\<close>

definition except_on :: "('s, 'a) act \<Rightarrow> (io_exn \<Rightarrow> ('s, 'a) act option) \<Rightarrow> ('s, 'a) act" where
  "except_on m h = (\<lambda>s. case m s of
     (Inl e, t) \<Rightarrow> (case h e of None \<Rightarrow> (Inl e, t) | Some k \<Rightarrow> k t)
   | (Inr x, t) \<Rightarrow> (Inr x, t))"

text \<open>An action on the second half of a state.\<close>

definition on_snd :: "('s, 'a) act \<Rightarrow> ('d \<times> 's, 'a) act" where
  "on_snd m = (\<lambda>(d, s). case m s of (r, t) \<Rightarrow> (r, (d, t)))"

lemma andthen_Inr:
  "andthen m f s = (Inr y, u) \<longleftrightarrow> (\<exists>x t. m s = (Inr x, t) \<and> f x t = (Inr y, u))"
  by (auto simp: andthen_def split: prod.splits sum.splits)

lemma andthen_Inl:
  "andthen m f s = (Inl e, u) \<longleftrightarrow>
     m s = (Inl e, u) \<or> (\<exists>x t. m s = (Inr x, t) \<and> f x t = (Inl e, u))"
  by (auto simp: andthen_def split: prod.splits sum.splits)

lemma andthen_step: "m s = (Inr x, t) \<Longrightarrow> andthen m f s = f x t"
  by (simp add: andthen_def)

lemma andthen_stop: "m s = (Inl e, t) \<Longrightarrow> andthen m f s = (Inl e, t)"
  by (simp add: andthen_def)

section \<open>Files, names and descriptors\<close>

datatype outcome = Moved nat | Failed nat

text \<open>\<open>synced\<close> is the length that the last \<open>fdatasync\<close> made durable.\<close>

record disk_file =
  content :: "byte list"
  synced :: nat
  is_regular :: bool

type_synonym path = "string list"

text \<open>\<open>w_suffixes\<close> are the random names the \<open>tempfile\<close> module will draw.\<close>

record world =
  w_files :: "nat \<Rightarrow> disk_file option"
  w_names :: "path \<Rightarrow> nat option"
  w_fds :: "nat \<Rightarrow> nat option"
  w_fresh :: nat
  w_outcomes :: "outcome list"
  w_suffixes :: "nat \<Rightarrow> string"
  w_fadvise :: bool

definition sys :: "(nat option \<Rightarrow> (world, 'a) act) \<Rightarrow> (world, 'a) act" where
  "sys k w = (case w_outcomes w of
     [] \<Rightarrow> k None w
   | Failed e # os \<Rightarrow> (Inl (OSError e), w\<lparr>w_outcomes := os\<rparr>)
   | Moved n # os \<Rightarrow> k (Some n) (w\<lparr>w_outcomes := os\<rparr>))"

definition moved :: "nat option \<Rightarrow> nat \<Rightarrow> nat" where
  "moved cap n = (case cap of None \<Rightarrow> n | Some k \<Rightarrow> min k n)"

text \<open>The file behind a descriptor; \<open>EBADF\<close> is error 9.\<close>

definition file_of :: "world \<Rightarrow> nat \<Rightarrow> disk_file option" where
  "file_of w fd = (case w_fds w fd of None \<Rightarrow> None | Some i \<Rightarrow> w_files w i)"

definition set_file :: "nat \<Rightarrow> disk_file \<Rightarrow> world \<Rightarrow> world" where
  "set_file fd f w = (case w_fds w fd of None \<Rightarrow> w
     | Some i \<Rightarrow> w\<lparr>w_files := (w_files w)(i \<mapsto> f)\<rparr>)"

definition with_file :: "nat \<Rightarrow> (disk_file \<Rightarrow> (world, 'a) act) \<Rightarrow> (world, 'a) act" where
  "with_file fd k w = (case file_of w fd of None \<Rightarrow> (Inl (OSError 9), w) | Some f \<Rightarrow> k f w)"

text \<open>\<open>os.write\<close> at the end of the file: the code writes sequentially from an empty file.\<close>

definition os_write :: "nat \<Rightarrow> byte list \<Rightarrow> (world, nat) act" where
  "os_write fd buf = sys (\<lambda>cap. with_file fd (\<lambda>f w.
     let n = moved cap (length buf) in
     (Inr n, set_file fd (f\<lparr>content := content f @ take n buf\<rparr>) w)))"

text \<open>\<open>os.preadv\<close> into one buffer of \<open>n\<close> bytes; the result is the bytes that were moved.\<close>

definition os_preadv :: "nat \<Rightarrow> nat \<Rightarrow> nat \<Rightarrow> (world, byte list) act" where
  "os_preadv fd n off = sys (\<lambda>cap. with_file fd (\<lambda>f w.
     let bs = slice off (off + n) (content f) in
     (Inr (take (moved cap (length bs)) bs), w)))"

definition os_fdatasync :: "nat \<Rightarrow> (world, unit) act" where
  "os_fdatasync fd = sys (\<lambda>_. with_file fd (\<lambda>f w.
     (Inr (), set_file fd (f\<lparr>synced := length (content f)\<rparr>) w)))"

definition os_posix_fadvise :: "nat \<Rightarrow> nat \<Rightarrow> nat \<Rightarrow> (world, unit) act" where
  "os_posix_fadvise fd start len = sys (\<lambda>_. with_file fd (\<lambda>f w. (Inr (), w)))"

definition os_fstat :: "nat \<Rightarrow> (world, bool \<times> nat) act" where
  "os_fstat fd = sys (\<lambda>_. with_file fd (\<lambda>f w. (Inr (is_regular f, length (content f)), w)))"

definition os_close :: "nat \<Rightarrow> (world, unit) act" where
  "os_close fd = (\<lambda>w. (Inr (), w\<lparr>w_fds := (w_fds w)(fd := None)\<rparr>))"

text \<open>\<open>ENOENT\<close> is error 2 and \<open>EEXIST\<close> error 17.\<close>

definition os_open :: "path \<Rightarrow> (world, nat) act" where
  "os_open p = sys (\<lambda>_ w. case w_names w p of None \<Rightarrow> (Inl (OSError 2), w)
     | Some i \<Rightarrow> (Inr (w_fresh w), w\<lparr>w_fds := (w_fds w)(w_fresh w \<mapsto> i), w_fresh := Suc (w_fresh w)\<rparr>))"

definition new_file :: disk_file where
  "new_file = \<lparr>content = [], synced = 0, is_regular = True\<rparr>"

text \<open>An unlinked temporary file, and a named one; a counter numbers inodes and descriptors.\<close>

definition temporary_file :: "(world, nat) act" where
  "temporary_file = sys (\<lambda>_ w. let n = w_fresh w in
     (Inr n, w\<lparr>w_files := (w_files w)(n \<mapsto> new_file), w_fds := (w_fds w)(n \<mapsto> n), w_fresh := Suc n\<rparr>))"

definition named_temporary_file :: "path \<Rightarrow> string \<Rightarrow> (world, nat \<times> path) act" where
  "named_temporary_file dir prefix = sys (\<lambda>_ w.
     let n = w_fresh w; p = dir @ [prefix @ w_suffixes w n] in
     if w_names w p \<noteq> None then (Inl (OSError 17), w)
     else (Inr (n, p), w\<lparr>w_files := (w_files w)(n \<mapsto> new_file), w_names := (w_names w)(p \<mapsto> n),
        w_fds := (w_fds w)(n \<mapsto> n), w_fresh := Suc n\<rparr>))"

definition os_link :: "path \<Rightarrow> path \<Rightarrow> (world, unit) act" where
  "os_link a b = sys (\<lambda>_ w. case w_names w a of None \<Rightarrow> (Inl (OSError 2), w)
     | Some i \<Rightarrow> (if w_names w b \<noteq> None then (Inl (OSError 17), w)
        else (Inr (), w\<lparr>w_names := (w_names w)(b \<mapsto> i)\<rparr>)))"

definition os_replace :: "path \<Rightarrow> path \<Rightarrow> (world, unit) act" where
  "os_replace a b = sys (\<lambda>_ w. case w_names w a of None \<Rightarrow> (Inl (OSError 2), w)
     | Some i \<Rightarrow> (Inr (), w\<lparr>w_names := (w_names w)(b \<mapsto> i, a := None)\<rparr>))"

definition os_unlink :: "path \<Rightarrow> (world, unit) act" where
  "os_unlink a = sys (\<lambda>_ w. case w_names w a of None \<Rightarrow> (Inl (OSError 2), w)
     | Some i \<Rightarrow> (Inr (), w\<lparr>w_names := (w_names w)(a := None)\<rparr>))"

text \<open>Creating or syncing a directory: only its failure is visible.\<close>

definition os_directory :: "(world, unit) act" where
  "os_directory = sys (\<lambda>_. ret ())"

section \<open>What a call leaves alone\<close>

text \<open>\<open>quiet\<close>: only the schedule moved. \<open>append_only fd bs\<close>: besides, the bytes of one file grew.\<close>

definition quiet :: "world \<Rightarrow> world \<Rightarrow> bool" where
  "quiet w w' \<longleftrightarrow> w'\<lparr>w_outcomes := w_outcomes w\<rparr> = w"

lemma quiet_iff: "quiet w w' \<longleftrightarrow> w_files w' = w_files w \<and> w_names w' = w_names w \<and>
   w_fds w' = w_fds w \<and> w_fresh w' = w_fresh w \<and> w_suffixes w' = w_suffixes w \<and>
   w_fadvise w' = w_fadvise w"
  by (cases w; cases w') (auto simp: quiet_def)

lemma quiet_refl [simp]: "quiet w w"
  by (simp add: quiet_def)

lemma quiet_trans: "quiet u v \<Longrightarrow> quiet v w \<Longrightarrow> quiet u w"
  by (simp add: quiet_iff)

lemma quiet_outcomes [simp]: "quiet w (w\<lparr>w_outcomes := os\<rparr>)"
  by (simp add: quiet_iff)

lemma quiet_file_of: "quiet w w' \<Longrightarrow> file_of w' fd = file_of w fd"
  by (simp add: quiet_iff file_of_def split: option.split)

lemma sys_cases:
  assumes "sys k w = (r, w')"
  obtains (fail) e where "r = Inl (OSError e)" "quiet w w'"
    | (run) cap w1 where "quiet w w1" "k cap w1 = (r, w')"
  using assms that unfolding sys_def
  by (auto split: list.splits outcome.splits) (metis quiet_refl, metis quiet_outcomes)

lemma moved_le: "moved cap n \<le> n"
  by (simp add: moved_def split: option.splits)

text \<open>\<open>became fd f w w'\<close>: the file behind \<open>fd\<close> is now \<open>f\<close>, and nothing else changed.\<close>

definition became :: "nat \<Rightarrow> disk_file \<Rightarrow> world \<Rightarrow> world \<Rightarrow> bool" where
  "became fd f w w' \<longleftrightarrow> quiet (set_file fd f w) w'"

lemma file_of_fd: "file_of w fd = Some f \<Longrightarrow> \<exists>i. w_fds w fd = Some i \<and> w_files w i = Some f"
  by (simp add: file_of_def split: option.splits)

lemma file_of_set_file [simp]: "file_of w fd = Some g \<Longrightarrow> file_of (set_file fd f w) fd = Some f"
  by (drule file_of_fd) (auto simp: file_of_def set_file_def)

lemma set_file_twice: "set_file fd g (set_file fd f w) = set_file fd g w"
  by (simp add: set_file_def split: option.splits)

lemma set_file_same: "file_of w fd = Some f \<Longrightarrow> set_file fd f w = w"
  by (drule file_of_fd) (auto simp: set_file_def fun_upd_idem)

lemma set_file_quiet: "quiet w w' \<Longrightarrow> quiet (set_file fd f w) (set_file fd f w')"
  by (simp add: quiet_iff set_file_def split: option.splits)

lemma became_file_of: "file_of w fd = Some g \<Longrightarrow> became fd f w w' \<Longrightarrow> file_of w' fd = Some f"
  by (simp add: became_def quiet_file_of)

lemma became_refl: "file_of w fd = Some f \<Longrightarrow> quiet w w' \<Longrightarrow> became fd f w w'"
  by (simp add: became_def set_file_same)

lemma became_trans: "became fd f u v \<Longrightarrow> became fd g v w \<Longrightarrow> became fd g u w"
  unfolding became_def
  by (metis set_file_quiet set_file_twice quiet_trans)

lemma became_quiet: "became fd f u v \<Longrightarrow> quiet v w \<Longrightarrow> became fd f u w"
  unfolding became_def by (rule quiet_trans)

lemma quiet_became: "quiet u v \<Longrightarrow> became fd f v w \<Longrightarrow> became fd f u w"
  unfolding became_def by (metis set_file_quiet quiet_trans)

lemma became_other:
  assumes "became fd f w w'" and "w_fds w fd' \<noteq> w_fds w fd"
  shows "file_of w' fd' = file_of w fd'"
  using assms unfolding became_def quiet_iff
  by (auto simp: set_file_def file_of_def split: option.splits)

lemma became_tables:
  "became fd f w w' \<Longrightarrow> w_fds w' = w_fds w \<and> w_names w' = w_names w \<and> w_fresh w' = w_fresh w \<and>
     w_suffixes w' = w_suffixes w"
  unfolding became_def quiet_iff by (simp add: set_file_def split: option.splits)

lemma became_files:
  "became fd f w w' \<Longrightarrow> w_fds w fd \<noteq> Some i \<Longrightarrow> w_files w' i = w_files w i"
  unfolding became_def quiet_iff by (auto simp: set_file_def split: option.splits)

text \<open>What each call does to the file it works on.\<close>

lemma sys_with_file:
  assumes "sys (\<lambda>cap. with_file fd (k cap)) w = (r, w')" and "file_of w fd = Some f"
  shows "(\<exists>e. r = Inl (OSError e) \<and> quiet w w') \<or>
    (\<exists>cap w1. quiet w w1 \<and> file_of w1 fd = Some f \<and> k cap f w1 = (r, w'))"
  using assms(1)
proof (cases rule: sys_cases)
  case (fail e)
  then show ?thesis by blast
next
  case (run cap w1)
  then show ?thesis
    using assms(2) quiet_file_of [OF run(1), of fd] by (auto simp: with_file_def)
qed

lemma os_write_became:
  assumes "os_write fd buf w = (r, w')" and "file_of w fd = Some f"
  shows "(\<exists>e. r = Inl (OSError e) \<and> quiet w w') \<or>
    (\<exists>n \<le> length buf. r = Inr n \<and> became fd (f\<lparr>content := content f @ take n buf\<rparr>) w w')"
  using sys_with_file [OF assms(1) [unfolded os_write_def] assms(2)]
  by (auto simp: Let_def moved_le became_def intro!: set_file_quiet)

lemma os_preadv_quiet:
  assumes "os_preadv fd n off w = (r, w')" and "file_of w fd = Some f"
  shows "quiet w w' \<and> ((\<exists>e. r = Inl (OSError e)) \<or>
    (\<exists>m \<le> n. r = Inr (slice off (off + m) (content f))))"
  using sys_with_file [OF assms(1) [unfolded os_preadv_def] assms(2)]
proof (elim disjE exE conjE)
  fix cap w1
  assume q: "quiet w w1" and
    k: "(let bs = slice off (off + n) (content f) in (Inr (take (moved cap (length bs)) bs), w1)) = (r, w')"
  define m where "m = moved cap (length (slice off (off + n) (content f)))"
  have "m \<le> n" unfolding m_def using moved_le [of cap "length (slice off (off + n) (content f))"] by simp
  moreover have "take m (slice off (off + n) (content f)) = slice off (off + m) (content f)"
    using \<open>m \<le> n\<close> by (simp add: slice_def min_def)
  ultimately show ?thesis using q k by (auto simp: Let_def m_def)
qed auto

lemma os_fdatasync_became:
  assumes "os_fdatasync fd w = (r, w')" and "file_of w fd = Some f"
  shows "(\<exists>e. r = Inl (OSError e) \<and> quiet w w') \<or>
    (r = Inr () \<and> became fd (f\<lparr>synced := length (content f)\<rparr>) w w')"
  using sys_with_file [OF assms(1) [unfolded os_fdatasync_def] assms(2)]
  by (auto simp: became_def intro!: set_file_quiet)

lemma os_fadvise_quiet: "os_posix_fadvise fd start n w = (r, w') \<Longrightarrow> quiet w w'"
  unfolding os_posix_fadvise_def
  by (erule sys_cases) (auto simp: with_file_def split: option.splits intro: quiet_trans)

lemma os_fstat_quiet:
  assumes "os_fstat fd w = (r, w')"
  shows "quiet w w' \<and> (\<forall>v. r = Inr v \<longrightarrow> (\<exists>f. file_of w fd = Some f \<and> v = (is_regular f, length (content f))))"
  using assms unfolding os_fstat_def
  by (elim sys_cases) (auto simp: with_file_def quiet_file_of split: option.splits)

lemma os_directory_quiet: "os_directory w = (r, w') \<Longrightarrow> quiet w w'"
  unfolding os_directory_def by (erule sys_cases) (auto simp: ret_def)

text \<open>A kind schedule: nothing fails and every transfer makes progress.\<close>

definition kind :: "world \<Rightarrow> bool" where
  "kind w \<longleftrightarrow> (\<forall>o1\<in>set (w_outcomes w). \<exists>n. o1 = Moved (Suc n))"

lemma kind_sys:
  assumes "kind w" and "sys k w = (r, w')"
  shows "\<exists>cap w1. kind w1 \<and> quiet w w1 \<and> cap \<noteq> Some 0 \<and> k cap w1 = (r, w')"
proof (cases "w_outcomes w")
  case Nil
  then show ?thesis using assms by (intro exI [of _ None] exI [of _ w]) (simp add: sys_def)
next
  case (Cons o1 os)
  then obtain n where "o1 = Moved (Suc n)" using assms(1) by (auto simp: kind_def)
  then show ?thesis
    using assms Cons
    by (intro exI [of _ "Some (Suc n)"] exI [of _ "w\<lparr>w_outcomes := os\<rparr>"]) (auto simp: sys_def kind_def)
qed

lemma kind_set_file [simp]: "kind (set_file fd f w) = kind w"
  by (simp add: kind_def set_file_def split: option.splits)

end
