(* ===== verification/StreamIO.thy ===== *)
theory StreamIO
  imports OsIO MemBudget HybridCodec
begin

text \<open>
  Bounded disk staging of page snapshots
  (\<open>scripts/node/experiments/e03/sparkcache-ram-budget/stream_io.py\<close>): the spool
  \<open>DiskSnapshot\<close>, the publication of immutable objects named by their digest, and the
  authenticated sequential reader. An incremental \<open>hashlib\<close> digest is the list of bytes
  it was fed. Positions that the code starts at zero and only increases are naturals.
\<close>

section \<open>Descriptors\<close>

definition stream_chunk :: nat where
  "stream_chunk = 8388608"

text \<open>\<open>EINVAL\<close>, \<open>ENOSYS\<close> and \<open>ENOTSUP\<close> of Linux.\<close>

definition stream_drop_cache :: "nat \<Rightarrow> nat \<Rightarrow> nat \<Rightarrow> (world, unit) act" where
  "stream_drop_cache fd start len = (\<lambda>w.
     if \<not> w_fadvise w \<or> len = 0 then (Inr (), w)
     else except_on (os_posix_fadvise fd start len)
       (\<lambda>e. if e \<in> {OSError 22, OSError 38, OSError 95} then Some (ret ()) else None) w)"

definition stream_sync_and_drop :: "nat \<Rightarrow> nat \<Rightarrow> nat \<Rightarrow> (world, unit) act" where
  "stream_sync_and_drop fd start len =
     andthen (os_fdatasync fd) (\<lambda>_. stream_drop_cache fd start len)"

text \<open>The loop has written \<open>done\<close> bytes of the payload.\<close>

function write_from :: "nat \<Rightarrow> byte list \<Rightarrow> nat \<Rightarrow> (world, unit) act" where
  "write_from fd payload so_far w =
     (if so_far < length payload
      then (case os_write fd (drop so_far payload) w of
          (Inl e, w1) \<Rightarrow> (Inl e, w1)
        | (Inr count, w1) \<Rightarrow> if count = 0 then (Inl ShortWrite, w1)
            else write_from fd payload (so_far + count) w1)
      else (Inr (), w))"
  by pat_completeness auto
termination
  by (relation "measure (\<lambda>(fd, payload, so_far, w). length payload - so_far)") auto

declare write_from.simps [simp del]

definition stream_write_all :: "nat \<Rightarrow> byte list \<Rightarrow> (world, unit) act" where
  "stream_write_all fd payload = write_from fd payload 0"

definition stream_open_readonly :: "path \<Rightarrow> (world, nat) act" where
  "stream_open_readonly p = os_open p"

definition stream_require_regular_size :: "nat \<Rightarrow> nat \<Rightarrow> (world, unit) act" where
  "stream_require_regular_size fd nbytes = andthen (os_fstat fd) (\<lambda>(regular, st_size).
     if \<not> regular \<or> st_size \<noteq> nbytes
     then throw (CacheFormatError ''page snapshot object file geometry differs'') else ret ())"

text \<open>The loop has filled the first bytes of a target of \<open>len\<close> bytes with \<open>got\<close>.\<close>

function pread_from :: "nat \<Rightarrow> nat \<Rightarrow> nat \<Rightarrow> byte list \<Rightarrow> (world, byte list) act" where
  "pread_from fd len off got w =
     (if length got < len
      then (case os_preadv fd (len - length got) (off + length got) w of
          (Inl e, w1) \<Rightarrow> (Inl e, w1)
        | (Inr bs, w1) \<Rightarrow> if bs = []
            then (Inl (CacheFormatError ''page snapshot object file was truncated''), w1)
            else pread_from fd len off (got @ bs) w1)
      else (Inr got, w))"
  by pat_completeness auto
termination
  by (relation "measure (\<lambda>(fd, len, off, got, w). len - length got)")
    (auto simp: neq_Nil_conv)

declare pread_from.simps [simp del]

definition stream_pread_into :: "nat \<Rightarrow> nat \<Rightarrow> nat \<Rightarrow> (world, byte list) act" where
  "stream_pread_into fd len off = pread_from fd len off []"

section \<open>The spool\<close>

record disk_snapshot =
  d_fd :: nat
  expected_bytes :: nat
  d_written :: nat
  d_durable :: nat
  d_sealed :: bool
  d_released :: bool

type_synonym spool_state = "disk_snapshot \<times> world"

definition new_disk_snapshot :: "pyval \<Rightarrow> (world, disk_snapshot) act" where
  "new_disk_snapshot expected = (case expected of
     PyInt n \<Rightarrow> if n \<le> 0 then throw (ValueError ''expected_bytes must be a positive integer'')
       else andthen os_directory (\<lambda>_. andthen temporary_file (\<lambda>fd. ret
         \<lparr>d_fd = fd, expected_bytes = nat n, d_written = 0, d_durable = 0,
          d_sealed = False, d_released = False\<rparr>))
   | _ \<Rightarrow> throw (ValueError ''expected_bytes must be a positive integer''))"

definition d_total_bytes :: "disk_snapshot \<Rightarrow> nat" where
  "d_total_bytes d = d_written d"

definition d_is_sealed :: "disk_snapshot \<Rightarrow> bool" where
  "d_is_sealed d \<longleftrightarrow> d_sealed d \<and> \<not> d_released d"

text \<open>
  The loop of \<open>append\<close>. An iteration whose piece is empty and which does not sync changes
  nothing, so Python would repeat it forever; \<open>Diverges\<close> is that case.
\<close>

function append_from :: "byte list \<Rightarrow> nat \<Rightarrow> (spool_state, unit) act" where
  "append_from payload consumed (d, w) =
     (if consumed < length payload then
        let interval = stream_chunk - (d_written d - d_durable d);
            piece = slice consumed (consumed + interval) payload;
            d1 = d\<lparr>d_written := d_written d + length piece\<rparr>
        in case stream_write_all (d_fd d) piece w of
          (Inl e, w1) \<Rightarrow> (Inl e, (d, w1))
        | (Inr _, w1) \<Rightarrow>
          if d_written d1 - d_durable d1 = stream_chunk then
            (case stream_sync_and_drop (d_fd d) (d_durable d1) stream_chunk w1 of
              (Inl e, w2) \<Rightarrow> (Inl e, (d1, w2))
            | (Inr _, w2) \<Rightarrow> append_from payload (consumed + length piece)
                (d1\<lparr>d_durable := d_written d1\<rparr>, w2))
          else if piece = [] then (Inl Diverges, (d, w))
          else append_from payload (consumed + length piece) (d1, w1)
      else (Inr (), (d, w)))"
  by pat_completeness auto
termination
  by (relation "measure (\<lambda>(payload, consumed, d, w). 2 * (length payload - consumed) +
        (if d_written d - d_durable d = stream_chunk then 1 else 0))")
    (auto simp: stream_chunk_def slice_def min_def split: if_splits)

declare append_from.simps [simp del]

text \<open>\<open>data\<close> is \<open>None\<close> when the argument has no contiguous byte view.\<close>

definition spool_append :: "byte list option \<Rightarrow> (spool_state, unit) act" where
  "spool_append data = (\<lambda>(d, w).
     if d_released d \<or> d_sealed d then (Inl (ValueError ''page snapshot is not writable''), (d, w))
     else case data of
       None \<Rightarrow> (Inl (TypeError ''page snapshot append requires contiguous bytes-like data''), (d, w))
     | Some payload \<Rightarrow>
       if stream_chunk < length payload
       then (Inl (ValueError ''page snapshot append exceeds STREAM_CHUNK_BYTES''), (d, w))
       else if expected_bytes d < d_written d + length payload
       then (Inl (ValueError ''page snapshot exceeds its declared size''), (d, w))
       else append_from payload 0 (d, w))"

definition spool_release :: "(spool_state, unit) act" where
  "spool_release = (\<lambda>(d, w). if d_released d then (Inr (), (d, w))
     else on_snd (os_close (d_fd d)) (d\<lparr>d_released := True\<rparr>, w))"

definition spool_seal :: "(spool_state, unit) act" where
  "spool_seal = (\<lambda>(d, w).
     if d_released d then (Inl (ValueError ''page snapshot was released''), (d, w))
     else if d_sealed d then (Inr (), (d, w))
     else if d_written d \<noteq> expected_bytes d
     then andthen spool_release
       (\<lambda>_. throw (ValueError ''page snapshot size differs from its declaration'')) (d, w)
     else if d_durable d \<noteq> d_written d
     then (case stream_sync_and_drop (d_fd d) (d_durable d) (d_written d - d_durable d) w of
         (Inl e, w1) \<Rightarrow> (Inl e, (d, w1))
       | (Inr _, w1) \<Rightarrow> (Inr (), (d\<lparr>d_durable := d_written d, d_sealed := True\<rparr>, w1)))
     else (Inr (), (d\<lparr>d_sealed := True\<rparr>, w)))"

definition read_range :: "disk_snapshot \<Rightarrow> pyval \<Rightarrow> pyval \<Rightarrow> (world, byte list) act" where
  "read_range d start stop =
     (if \<not> d_is_sealed d then throw (ValueError ''page snapshot must be sealed before reading'')
      else (case (start, stop) of
        (PyInt i, PyInt j) \<Rightarrow>
          if i < 0 \<or> j < i \<or> int (d_written d) < j \<or> int stream_chunk < j - i
          then throw (ValueError ''page snapshot read range is invalid'')
          else if i = j then ret []
          else andthen (stream_pread_into (d_fd d) (nat (j - i)) (nat i)) (\<lambda>bs.
            andthen (stream_drop_cache (d_fd d) (nat i) (nat (j - i))) (\<lambda>_. ret bs))
      | _ \<Rightarrow> throw (ValueError ''page snapshot read range is invalid'')))"

section \<open>Publishing immutable objects\<close>

record object_descriptor =
  o_sha256 :: string
  o_bytes :: nat
  o_start :: nat
  o_end :: nat

definition chunks_dir :: "path \<Rightarrow> path" where
  "chunks_dir base = base @ [''chunks'']"

definition object_path :: "path \<Rightarrow> string \<Rightarrow> path" where
  "object_path base digest = chunks_dir base @ [digest @ ''.spcc'']"

text \<open>The offsets of \<open>range(start, stop, step)\<close> for a positive step.\<close>

definition chunk_offsets :: "nat \<Rightarrow> nat \<Rightarrow> nat \<Rightarrow> nat list" where
  "chunk_offsets start stop step = map (\<lambda>k. start + k * step) [0..<(stop - start + step - 1) div step]"

fun compare_from :: "nat \<Rightarrow> nat \<Rightarrow> nat \<Rightarrow> nat list \<Rightarrow> (world, bool) act" where
  "compare_from existing_fd staged_fd n [] =
     andthen (stream_require_regular_size existing_fd n) (\<lambda>_. ret True)"
| "compare_from existing_fd staged_fd n (start # starts) =
     (let len = min stream_chunk (n - start) in
      andthen (stream_pread_into existing_fd len start) (\<lambda>existing.
      andthen (stream_pread_into staged_fd len start) (\<lambda>staged.
      if existing \<noteq> staged then ret False
      else andthen (stream_drop_cache existing_fd start len) (\<lambda>_.
        andthen (stream_drop_cache staged_fd start len) (\<lambda>_.
        compare_from existing_fd staged_fd n starts)))))"

definition stream_existing_matches :: "path \<Rightarrow> nat \<Rightarrow> nat \<Rightarrow> (world, bool) act" where
  "stream_existing_matches p staged_fd n =
     andthen (except_on (stream_open_readonly p)
         (\<lambda>e. case e of OSError _ \<Rightarrow> Some (throw CommitConflict) | _ \<Rightarrow> None)) (\<lambda>existing_fd.
       finally_do
         (andthen (except_on (andthen (stream_require_regular_size existing_fd n) (\<lambda>_. ret True))
             (\<lambda>e. case e of CacheFormatError _ \<Rightarrow> Some (ret False) | _ \<Rightarrow> None)) (\<lambda>fits.
           if \<not> fits then ret False
           else compare_from existing_fd staged_fd n (chunk_offsets 0 n stream_chunk)))
         (os_close existing_fd))"

text \<open>
  One object: copy the range piece by piece, feeding the object's digest and that of the
  whole snapshot (\<open>fed\<close>), which is returned even when the copy raises.
\<close>

fun copy_pieces :: "disk_snapshot \<Rightarrow> nat \<Rightarrow> nat \<Rightarrow> nat \<Rightarrow> nat list \<Rightarrow> byte list \<Rightarrow>
  (byte list \<times> world, byte list) act" where
  "copy_pieces d fd start stop [] sofar = ret sofar"
| "copy_pieces d fd start stop (offset # offsets) sofar = (\<lambda>(fed, w).
     (case read_range d (PyInt (int offset)) (PyInt (int (min stop (offset + stream_chunk)))) w of
       (Inl e, w1) \<Rightarrow> (Inl e, (fed, w1))
     | (Inr encoded, w1) \<Rightarrow>
       (case stream_write_all fd encoded w1 of
         (Inl e, w2) \<Rightarrow> (Inl e, (fed @ encoded, w2))
       | (Inr _, w2) \<Rightarrow>
         (case stream_sync_and_drop fd (offset - start) (length encoded) w2 of
           (Inl e, w3) \<Rightarrow> (Inl e, (fed @ encoded, w3))
         | (Inr _, w3) \<Rightarrow>
             copy_pieces d fd start stop offsets (sofar @ encoded) (fed @ encoded, w3)))))"

text \<open>What the publication's counters were told.\<close>

datatype pub_event = Staged nat | Unique nat | Deduplicated nat

definition link_object :: "path \<Rightarrow> path \<Rightarrow> nat \<Rightarrow> nat \<Rightarrow> (world, pub_event) act" where
  "link_object temporary_path p fd n =
     except_on (andthen (os_link temporary_path p) (\<lambda>_. ret (Unique n)))
       (\<lambda>e. if e = OSError 17
          then Some (andthen (stream_existing_matches p fd n) (\<lambda>same.
            if same then ret (Deduplicated n)
            else andthen (os_replace temporary_path p) (\<lambda>_. ret (Unique n))))
          else None)"

definition unlink_missing_ok :: "path \<Rightarrow> (world, unit) act" where
  "unlink_missing_ok p = except_on (os_unlink p)
     (\<lambda>e. if e = OSError 2 then Some (ret ()) else None)"

text \<open>The cleanup of \<open>_stream_publish_object\<close>: close, then unlink, then sync the directory.\<close>

definition discard_temporary :: "nat \<Rightarrow> path \<Rightarrow> (world, unit) act" where
  "discard_temporary fd p =
     finally_do (os_close fd)
       (andthen (unlink_missing_ok p) (\<lambda>_. os_directory))"

definition publish_staged :: "hash \<Rightarrow> path \<Rightarrow> disk_snapshot \<Rightarrow> nat \<Rightarrow> nat \<Rightarrow> nat \<Rightarrow> path \<Rightarrow>
  (byte list \<times> world, object_descriptor \<times> pub_event list) act" where
  "publish_staged sha base d start stop fd temporary_path =
     andthen (copy_pieces d fd start stop (chunk_offsets start stop stream_chunk) []) (\<lambda>bytes.
       andthen (on_snd (link_object temporary_path (object_path base (sha bytes)) fd (stop - start)))
         (\<lambda>ev. ret (\<lparr>o_sha256 = sha bytes, o_bytes = stop - start, o_start = start, o_end = stop\<rparr>,
            [Staged (stop - start), ev])))"

definition stream_publish_object :: "hash \<Rightarrow> path \<Rightarrow> disk_snapshot \<Rightarrow> nat \<Rightarrow> nat \<Rightarrow>
  (byte list \<times> world, object_descriptor \<times> pub_event list) act" where
  "stream_publish_object sha base d start stop =
     andthen (on_snd os_directory) (\<lambda>_.
       \<lambda>s. (case on_snd (named_temporary_file (chunks_dir base) ''.snapshot.writing-'') s of
         (Inl e, s1) \<Rightarrow> finally_do (throw e) (on_snd os_directory) s1
       | (Inr (fd, p), s1) \<Rightarrow>
         finally_do (publish_staged sha base d start stop fd p) (on_snd (discard_temporary fd p)) s1))"

section \<open>Reading objects back\<close>

record snapshot_reader =
  r_root :: path
  r_objects :: "object_descriptor list"
  r_encoded_bytes :: nat
  r_encoded_sha256 :: string
  r_index :: nat
  r_object_offset :: nat
  r_position :: nat
  r_fd :: "nat option"
  r_object_fed :: "byte list option"
  r_snapshot_fed :: "byte list"
  r_closed :: bool
  r_finished :: bool

type_synonym reader_state = "snapshot_reader \<times> world"

fun preflight_files :: "path \<Rightarrow> object_descriptor list \<Rightarrow> (world, unit) act" where
  "preflight_files base [] = ret ()"
| "preflight_files base (o1 # os) =
     andthen (stream_open_readonly (object_path base (o_sha256 o1))) (\<lambda>fd.
     andthen (finally_do (stream_require_regular_size fd (o_bytes o1)) (os_close fd)) (\<lambda>_.
     preflight_files base os))"

definition new_reader :: "path \<Rightarrow> object_descriptor list \<Rightarrow> nat \<Rightarrow> string \<Rightarrow> snapshot_reader" where
  "new_reader base os n digest = \<lparr>r_root = base, r_objects = os, r_encoded_bytes = n,
     r_encoded_sha256 = digest, r_index = 0, r_object_offset = 0, r_position = 0, r_fd = None,
     r_object_fed = None, r_snapshot_fed = [], r_closed = False, r_finished = False\<rparr>"

definition make_reader :: "path \<Rightarrow> object_descriptor list \<Rightarrow> nat \<Rightarrow> string \<Rightarrow>
  (world, snapshot_reader) act" where
  "make_reader base os n digest =
     andthen (preflight_files base os) (\<lambda>_. ret (new_reader base os n digest))"

definition open_object :: "(reader_state, unit) act" where
  "open_object = (\<lambda>(r, w).
     if length (r_objects r) \<le> r_index r then (Inl IndexError, (r, w))
     else let o1 = r_objects r ! r_index r in
       case stream_open_readonly (object_path (r_root r) (o_sha256 o1)) w of
         (Inl e, w1) \<Rightarrow> (Inl e, (r, w1))
       | (Inr fd, w1) \<Rightarrow>
         (case stream_require_regular_size fd (o_bytes o1) w1 of
           (Inl e, w2) \<Rightarrow> (Inl e, (r\<lparr>r_fd := None\<rparr>, snd (os_close fd w2)))
         | (Inr _, w2) \<Rightarrow>
             (Inr (), (r\<lparr>r_fd := Some fd, r_object_fed := Some [], r_object_offset := 0\<rparr>, w2))))"

definition finish_object :: "hash \<Rightarrow> (reader_state, unit) act" where
  "finish_object sha = (\<lambda>(r, w).
     case (r_fd r, r_object_fed r) of
       (Some fd, Some fed) \<Rightarrow>
         (let o1 = r_objects r ! r_index r in
          case finally_do
              (andthen (stream_require_regular_size fd (o_bytes o1)) (\<lambda>_.
                if sha fed \<noteq> o_sha256 o1
                then throw (CacheFormatError ''page snapshot object checksum mismatch'') else ret ()))
              (os_close fd) w of
            (Inl e, w1) \<Rightarrow> (Inl e, (r\<lparr>r_fd := None, r_object_fed := None\<rparr>, w1))
          | (Inr _, w1) \<Rightarrow> (Inr (), (r\<lparr>r_fd := None, r_object_fed := None,
              r_index := Suc (r_index r), r_object_offset := 0\<rparr>, w1)))
     | _ \<Rightarrow> (Inl AssertionError, (r, w)))"

definition reader_close :: "(reader_state, unit) act" where
  "reader_close = (\<lambda>(r, w). case r_fd r of
     None \<Rightarrow> (Inr (), (r\<lparr>r_closed := True\<rparr>, w))
   | Some fd \<Rightarrow> (Inr (), (r\<lparr>r_fd := None, r_closed := True\<rparr>, snd (os_close fd w))))"

lemma os_preadv_length: "os_preadv fd n off w = (Inr bs, w1) \<Longrightarrow> length bs \<le> n"
  by (auto simp: os_preadv_def with_file_def sys_def Let_def moved_def
      split: list.splits outcome.splits option.splits)

lemma pread_from_length:
  "pread_from fd len off got w = (Inr bs, w1) \<Longrightarrow> length got \<le> len \<Longrightarrow> length bs = len"
proof (induction fd len off got w rule: pread_from.induct)
  case (1 fd len off got w)
  show ?case
  proof (cases "length got < len")
    case True
    obtain q w2 where q: "os_preadv fd (len - length got) (off + length got) w = (q, w2)" by fastforce
    from "1.prems"(1) True q obtain ps where ps: "q = Inr ps" "ps \<noteq> []"
      "pread_from fd len off (got @ ps) w2 = (Inr bs, w1)"
      by (subst (asm) pread_from.simps) (auto split: sum.splits if_splits)
    have "length (got @ ps) \<le> len"
      using os_preadv_length [OF q [unfolded ps(1)]] True by simp
    then show ?thesis
      using "1.IH" [OF True q [symmetric] ps(1) ps(2) ps(3)] by simp
  next
    case False
    then show ?thesis
      using "1.prems" by (subst (asm) pread_from.simps) simp
  qed
qed

lemma pread_into_length: "stream_pread_into fd len off w = (Inr bs, w1) \<Longrightarrow> length bs = len"
  unfolding stream_pread_into_def by (rule pread_from_length) auto

lemma open_object_keeps:
  "open_object (r, w) = (Inr (), (r1, w1)) \<Longrightarrow>
     r_objects r1 = r_objects r \<and> r_index r1 = r_index r \<and> r_index r < length (r_objects r) \<and>
     r_fd r1 \<noteq> None \<and> r_object_offset r1 = 0 \<and> r_object_fed r1 = Some []"
  by (auto simp: open_object_def Let_def split: if_splits prod.splits sum.splits)

lemma finish_object_keeps:
  "finish_object sha (r, w) = (Inr (), (r1, w1)) \<Longrightarrow>
     r_objects r1 = r_objects r \<and> r_index r1 = Suc (r_index r)"
  by (auto simp: finish_object_def Let_def split: prod.splits sum.splits option.splits)

definition ensure_object :: "(reader_state, unit) act" where
  "ensure_object = (\<lambda>(r, w). case r_fd r of None \<Rightarrow> open_object (r, w) | Some _ \<Rightarrow> (Inr (), (r, w)))"

lemma ensure_object_keeps:
  "ensure_object (r, w) = (Inr (), (r1, w1)) \<Longrightarrow>
     r_objects r1 = r_objects r \<and> r_index r1 = r_index r"
  by (auto simp: ensure_object_def dest: open_object_keeps split: option.splits)

text \<open>
  One turn of the loop of \<open>read_exact\<close>: at most \<open>want\<close> bytes of the current object. The
  turn that moves no byte and does not finish the object would be repeated forever.
\<close>

definition read_turn :: "hash \<Rightarrow> nat \<Rightarrow> (reader_state, byte list) act" where
  "read_turn sha want = andthen ensure_object (\<lambda>_. \<lambda>(r, w).
     if length (r_objects r) \<le> r_index r then (Inl IndexError, (r, w))
     else let o1 = r_objects r ! r_index r;
              count = min want (o_bytes o1 - r_object_offset r)
     in case (r_fd r, r_object_fed r) of
       (Some fd, Some fed) \<Rightarrow>
         (case stream_pread_into fd count (r_object_offset r) w of
           (Inl e, w1) \<Rightarrow> (Inl e, (r, w1))
         | (Inr bs, w1) \<Rightarrow>
           let r1 = r\<lparr>r_object_fed := Some (fed @ bs), r_snapshot_fed := r_snapshot_fed r @ bs\<rparr> in
           (case stream_drop_cache fd (r_object_offset r) count w1 of
             (Inl e, w2) \<Rightarrow> (Inl e, (r1, w2))
           | (Inr _, w2) \<Rightarrow>
             let r2 = r1\<lparr>r_object_offset := r_object_offset r + count,
                          r_position := r_position r + count\<rparr> in
             if r_object_offset r2 = o_bytes o1
             then andthen (finish_object sha) (\<lambda>_. ret bs) (r2, w2)
             else if count = 0 then (Inl Diverges, (r2, w2))
             else (Inr bs, (r2, w2))))
     | _ \<Rightarrow> (Inl AssertionError, (r, w)))"

lemma read_turn_progress:
  assumes "read_turn sha want (r, w) = (Inr bs, (r1, w1))" and "0 < want"
  shows "length bs \<le> want \<and> r_objects r1 = r_objects r \<and>
    (r_index r1 = r_index r \<and> bs \<noteq> [] \<or>
     r_index r1 = Suc (r_index r) \<and> r_index r < length (r_objects r))"
proof -
  from assms(1) obtain ra wa where e: "ensure_object (r, w) = (Inr (), (ra, wa))"
    unfolding read_turn_def by (auto simp: andthen_Inr)
  note k = ensure_object_keeps [OF e]
  have step: "andthen ensure_object f (r, w) = f () (ra, wa)" for f :: "unit \<Rightarrow> (reader_state, byte list) act"
    by (rule andthen_step [where m = ensure_object]) (rule e)
  show ?thesis
    using assms k unfolding read_turn_def step
    by (auto simp: Let_def andthen_Inr ret_def split: if_splits option.splits prod.splits sum.splits
        dest!: pread_into_length finish_object_keeps)
qed

function read_from :: "hash \<Rightarrow> nat \<Rightarrow> byte list \<Rightarrow> (reader_state, byte list) act" where
  "read_from sha n got (r, w) =
     (if length got < n then
        (case read_turn sha (n - length got) (r, w) of
          (Inl e, s) \<Rightarrow> (Inl e, s)
        | (Inr bs, s) \<Rightarrow> read_from sha n (got @ bs) s)
      else (Inr got, (r, w)))"
  by pat_completeness auto
termination
proof (relation "measure (\<lambda>(sha, n, got, r, w). (n - length got) + (length (r_objects r) - r_index r))",
    goal_cases)
  case 1
  show ?case by simp
next
  case (2 sha n got r w p y bs)
  obtain r1 w1 where y: "y = (r1, w1)" by fastforce
  have "read_turn sha (n - length got) (r, w) = (Inr bs, (r1, w1))" and "0 < n - length got"
    using 2 y by simp_all
  note pr = read_turn_progress [OF this]
  show ?case
  proof (cases "r_index r1 = r_index r \<and> bs \<noteq> []")
    case True
    then obtain b cs where "bs = b # cs" by (cases bs) auto
    then show ?thesis using pr True 2(1) y by auto
  next
    case False
    then show ?thesis using pr 2(1) y by auto
  qed
qed

declare read_from.simps [simp del]

text \<open>\<open>except BaseException: self.close(); raise\<close>.\<close>

definition read_exact :: "hash \<Rightarrow> pyval \<Rightarrow> (reader_state, byte list) act" where
  "read_exact sha arg = (\<lambda>(r, w).
     if r_closed r \<or> r_finished r then (Inl (ValueError ''page snapshot reader is closed''), (r, w))
     else case arg of
       PyInt i \<Rightarrow>
         if i < 0 \<or> int stream_chunk < i
         then (Inl (ValueError ''read_exact size exceeds STREAM_CHUNK_BYTES''), (r, w))
         else if r_encoded_bytes r < r_position r + nat i
         then (Inl (CacheFormatError ''page snapshot read exceeds payload''), (r, w))
         else (case read_from sha (nat i) [] (r, w) of
             (Inl e, s) \<Rightarrow> (Inl e, snd (reader_close s))
           | (Inr bs, s) \<Rightarrow> (Inr bs, s))
     | _ \<Rightarrow> (Inl (ValueError ''read_exact size exceeds STREAM_CHUNK_BYTES''), (r, w)))"

definition reader_finish :: "hash \<Rightarrow> (reader_state, unit) act" where
  "reader_finish sha = (\<lambda>(r, w).
     if r_finished r then (Inr (), (r, w))
     else if r_closed r then (Inl (ValueError ''page snapshot reader is closed''), (r, w))
     else if r_position r \<noteq> r_encoded_bytes r \<or> r_index r \<noteq> length (r_objects r) \<or> r_fd r \<noteq> None
     then (Inl (CacheFormatError ''page snapshot payload is incomplete''), snd (reader_close (r, w)))
     else if sha (r_snapshot_fed r) \<noteq> r_encoded_sha256 r
     then (Inl (CacheFormatError ''page snapshot payload checksum mismatch''), snd (reader_close (r, w)))
     else (Inr (), (r\<lparr>r_finished := True\<rparr>, w)))"

text \<open>Leaving the \<open>with\<close> block, after an exception or not.\<close>

definition reader_exit :: "hash \<Rightarrow> bool \<Rightarrow> (reader_state, unit) act" where
  "reader_exit sha raised = (if raised then reader_close else reader_finish sha)"

end
