(* ===== verification/StreamStore.thy ===== *)
theory StreamStore
  imports StreamIO
begin

text \<open>
  \<open>StreamingManifestStore\<close> of \<open>stream_io.py\<close>: publication of a sealed spool as immutable
  objects and a manifest, and opening a published snapshot for restore. The manifest
  library it extends (\<open>sparkcache.persistent_context_cache.cache_manifest\<close>) is not part of
  the repository; what the code calls of it is the record \<open>manifest_lib\<close>.
\<close>

record cache_identity =
  publication_schema :: string
  required_records :: "string list"
  chunk_tokens :: int
  identity_wire :: json

record manifest_lib =
  lib_sha :: hash
  lib_object_bytes :: nat
  lib_valid_digest :: "string \<Rightarrow> bool"
  lib_canonical_json :: "json \<Rightarrow> byte list"
  lib_manifest_path :: "cache_identity \<Rightarrow> string \<Rightarrow> path"
  lib_publish :: "path \<Rightarrow> byte list \<Rightarrow> (world, unit) act"
  lib_is_snapshot_root :: "json \<Rightarrow> bool"
  lib_validate_root :: "json \<Rightarrow> io_exn + object_descriptor list"
  lib_schema :: json
  lib_format_abi :: json

record commit_receipt =
  manifest_digest :: string
  committed_tokens :: int
  receipt_bytes :: nat
  allocated_bytes_upper_bound :: nat

text \<open>The guards of \<open>commit_page_snapshot\<close>, in the order of the code.\<close>

definition check_commit :: "manifest_lib \<Rightarrow> cache_identity \<Rightarrow> string \<Rightarrow> pyval \<Rightarrow> disk_snapshot \<Rightarrow>
  io_exn + int" where
  "check_commit lib idn context_digest span_tokens d =
     (if \<not> lib_valid_digest lib context_digest then Inl (ValueError ''context_digest'')
      else if \<not> d_is_sealed d
      then Inl (ValueError ''streaming page snapshot must be a sealed DiskSnapshot'')
      else if publication_schema idn \<notin> {'''', ''page-tail-cow-v1'', ''page-tail-cow-v2''}
      then Inl (ValueError ''page snapshot publication schema differs'')
      else if set (required_records idn) \<noteq> {''target_ckv'', ''logical_positions''}
      then Inl (ValueError ''page snapshot record schema differs'')
      else case span_tokens of
        PyInt n \<Rightarrow>
          if n \<le> 0 then Inl (ValueError ''page snapshot span must cover complete logical chunks'')
          else if chunk_tokens idn = 0 then Inl ZeroDivisionError
          else if n mod chunk_tokens idn \<noteq> 0
          then Inl (ValueError ''page snapshot span must cover complete logical chunks'')
          else Inr n
      | _ \<Rightarrow> Inl (ValueError ''page snapshot span must cover complete logical chunks''))"

text \<open>The loop over the object starts; the first component of the state is the snapshot's digest.\<close>

fun publish_objects :: "manifest_lib \<Rightarrow> path \<Rightarrow> disk_snapshot \<Rightarrow> nat list \<Rightarrow>
  (byte list \<times> world, object_descriptor list \<times> pub_event list) act" where
  "publish_objects lib base d [] = ret ([], [])"
| "publish_objects lib base d (start # starts) =
     andthen (stream_publish_object (lib_sha lib) base d start
         (min (d_total_bytes d) (start + lib_object_bytes lib))) (\<lambda>(o1, evs).
       andthen (publish_objects lib base d starts) (\<lambda>(os, evs').
         ret (o1 # os, evs @ evs')))"

definition descriptor_json :: "object_descriptor \<Rightarrow> json" where
  "descriptor_json o1 = JObj [(asc ''sha256'', jstr (o_sha256 o1)), (asc ''bytes'', JInt (int (o_bytes o1))),
     (asc ''encoded_start'', JInt (int (o_start o1))), (asc ''encoded_end'', JInt (int (o_end o1)))]"

definition manifest_fields :: "manifest_lib \<Rightarrow> cache_identity \<Rightarrow> string \<Rightarrow> int \<Rightarrow> nat \<Rightarrow>
  object_descriptor list \<Rightarrow> string \<Rightarrow> (utext \<times> json) list" where
  "manifest_fields lib idn context_digest span_tokens n os digest =
     [(asc ''schema'', lib_schema lib), (asc ''format_abi'', lib_format_abi lib),
      (asc ''storage_mode'', jstr ''block_pages_v1''), (asc ''identity'', identity_wire idn),
      (asc ''context_digest'', jstr context_digest), (asc ''committed_tokens'', JInt span_tokens),
      (asc ''snapshot_encoded_bytes'', JInt (int n)),
      (asc ''snapshot_object_bytes'', JInt (int (lib_object_bytes lib))),
      (asc ''snapshot_objects'', JArr (map descriptor_json os)),
      (asc ''snapshot_sha256'', jstr digest),
      (asc ''logical_chunk_tokens'', JInt (chunk_tokens idn)),
      (asc ''logical_chunk_count'', JInt (span_tokens div chunk_tokens idn))]"

definition manifest_root :: "manifest_lib \<Rightarrow> cache_identity \<Rightarrow> string \<Rightarrow> int \<Rightarrow> nat \<Rightarrow>
  object_descriptor list \<Rightarrow> string \<Rightarrow> json" where
  "manifest_root lib idn context_digest span_tokens n os digest =
     (let fields = manifest_fields lib idn context_digest span_tokens n os digest in
      JObj (fields @ [(asc ''metadata_sha256'',
        jstr (lib_sha lib (lib_canonical_json lib (JObj fields))))]))"

text \<open>Disk blocks of 4096 bytes.\<close>

definition round_4096 :: "nat \<Rightarrow> nat" where
  "round_4096 n = (n + 4095) div 4096 * 4096"

definition commit_body :: "manifest_lib \<Rightarrow> path \<Rightarrow> cache_identity \<Rightarrow> string \<Rightarrow> int \<Rightarrow> disk_snapshot \<Rightarrow>
  (world, commit_receipt) act" where
  "commit_body lib base idn context_digest n d = (\<lambda>w.
     let total_bytes = d_total_bytes d in
     case publish_objects lib base d (chunk_offsets 0 total_bytes (lib_object_bytes lib)) ([], w) of
       (Inl e, (fed, w1)) \<Rightarrow> (Inl e, w1)
     | (Inr (os, evs), (fed, w1)) \<Rightarrow>
       let encoded = lib_canonical_json lib
             (manifest_root lib idn context_digest n total_bytes os (lib_sha lib fed)) in
       andthen (lib_publish lib (lib_manifest_path lib idn context_digest) encoded) (\<lambda>_. ret
         \<lparr>manifest_digest = lib_sha lib encoded, committed_tokens = n,
          receipt_bytes = length encoded + sum_list (map o_bytes os),
          allocated_bytes_upper_bound = sum_list (map round_4096 (length encoded # map o_bytes os))\<rparr>) w1)"

definition commit_page_snapshot :: "manifest_lib \<Rightarrow> path \<Rightarrow> cache_identity \<Rightarrow> string \<Rightarrow> pyval \<Rightarrow>
  (spool_state, commit_receipt) act" where
  "commit_page_snapshot lib base idn context_digest span_tokens = finally_do (\<lambda>(d, w).
     case check_commit lib idn context_digest span_tokens d of
       Inl e \<Rightarrow> (Inl e, (d, w))
     | Inr n \<Rightarrow> on_snd (commit_body lib base idn context_digest n d) (d, w)) spool_release"

text \<open>What the lookup of the base class returned.\<close>

record cache_lookup =
  is_hit :: bool
  root_kind :: string
  lookup_manifest :: "json option"

definition open_snapshot :: "manifest_lib \<Rightarrow> path \<Rightarrow> cache_lookup \<Rightarrow> page_layout \<Rightarrow> int list \<Rightarrow> int \<Rightarrow>
  (world, snapshot_reader) act" where
  "open_snapshot lib base lookup layout counts boundary =
     (case lookup_manifest lookup of
       None \<Rightarrow> throw (ValueError ''cannot stream a non-page-snapshot lookup'')
     | Some manifest \<Rightarrow>
       if \<not> is_hit lookup \<or> root_kind lookup \<noteq> ''page_snapshot'' \<or> \<not> lib_is_snapshot_root lib manifest
       then throw (ValueError ''cannot stream a non-page-snapshot lookup'')
       else (case lib_validate_root lib manifest of
         Inl e \<Rightarrow> throw e
       | Inr os \<Rightarrow>
         (case (jget manifest ''committed_tokens'', jget manifest ''snapshot_encoded_bytes'',
                jget manifest ''snapshot_sha256'') of
           (Some tokens, Some bytes, Some digest) \<Rightarrow>
             if \<not> num_eq tokens boundary
             then throw (CacheFormatError ''page snapshot restore boundary differs'')
             else (case page_snapshot_encoded_size (lib_sha lib) layout counts of
               Inl e \<Rightarrow> throw (CodecError e)
             | Inr expected \<Rightarrow>
               if \<not> num_eq bytes expected
               then throw (CacheFormatError ''page snapshot restore geometry differs'')
               else make_reader base os (nat expected) (str_of digest))
         | _ \<Rightarrow> throw KeyError)))"

end
