(* ===== verification/StreamSpool.thy ===== *)
theory StreamSpool
  imports StreamStore
begin

text \<open>
  The spool and the I/O loops: what they do to the file for every schedule of short and
  failing calls, and that they succeed when every call makes progress.
\<close>

section \<open>The loops\<close>

text \<open>The errors a call on an open descriptor can raise here.\<close>

definition io_error :: "io_exn \<Rightarrow> bool" where
  "io_error e \<longleftrightarrow> (\<exists>n. e = OSError n) \<or> e = ShortWrite"

lemma io_error_simps [simp]: "io_error (OSError n)" "io_error ShortWrite" "\<not> io_error Diverges"
  by (simp_all add: io_error_def)

lemma kind_os_write:
  assumes "kind w" "os_write fd buf w = (r, w')" "file_of w fd = Some f" "buf \<noteq> []"
  shows "kind w' \<and> (\<exists>n. r = Inr (Suc n))"
proof -
  obtain cap w1 where k: "kind w1" "quiet w w1" "cap \<noteq> Some 0"
    "with_file fd (\<lambda>f w. let n = moved cap (length buf) in
       (Inr n, set_file fd (f\<lparr>content := content f @ take n buf\<rparr>) w)) w1 = (r, w')"
    using kind_sys [OF assms(1) assms(2) [unfolded os_write_def]] by blast
  have f: "file_of w1 fd = Some f" using quiet_file_of [OF k(2)] assms(3) by simp
  have "moved cap (length buf) \<noteq> 0"
    using k(3) assms(4) by (cases cap) (auto simp: moved_def min_def)
  then obtain n where n: "moved cap (length buf) = Suc n" by (cases "moved cap (length buf)") auto
  show ?thesis using k(1,4) f by (auto simp: with_file_def Let_def n)
qed

lemma write_from_became:
  "write_from fd payload k w = (r, w') \<Longrightarrow> file_of w fd = Some f \<Longrightarrow> k \<le> length payload \<Longrightarrow>
   \<exists>j. k \<le> j \<and> j \<le> length payload \<and>
     became fd (f\<lparr>content := content f @ slice k j payload\<rparr>) w w' \<and>
     (\<forall>u. r = Inr u \<longrightarrow> j = length payload) \<and> (\<forall>e. r = Inl e \<longrightarrow> io_error e) \<and>
     (kind w \<longrightarrow> kind w' \<and> r = Inr ())"
proof (induction fd payload k w arbitrary: f rule: write_from.induct)
  case (1 fd payload k w)
  show ?case
  proof (cases "k < length payload")
    case False
    then have "write_from fd payload k w = (Inr (), w)"
      by (subst write_from.simps) simp
    then have "r = Inr ()" "w' = w" "k = length payload"
      using "1.prems" False by simp_all
    then show ?thesis
      using "1.prems"(2) by (auto intro: became_refl)
  next
    case True
    obtain q w1 where q: "os_write fd (drop k payload) w = (q, w1)" by fastforce
    have ne: "drop k payload \<noteq> []" using True by simp
    from os_write_became [OF q "1.prems"(2)] show ?thesis
    proof (elim disjE exE conjE)
      fix e assume e: "q = Inl (OSError e)" "quiet w w1"
      then have "r = Inl (OSError e)" "w' = w1"
        using "1.prems"(1) True q by (simp_all add: write_from.simps [of fd payload k w])
      moreover have "\<not> kind w" using kind_os_write [OF _ q "1.prems"(2) ne] e(1) by auto
      ultimately show ?thesis
        using True e(2) "1.prems"(2) by (intro exI [of _ k]) (simp add: became_refl)
    next
      fix n assume n: "n \<le> length (drop k payload)" "q = Inr n"
        and b: "became fd (f\<lparr>content := content f @ take n (drop k payload)\<rparr>) w w1"
      have sl: "take n (drop k payload) = slice k (k + n) payload" by (simp add: slice_def)
      show ?thesis
      proof (cases "n = 0")
        case zero: True
        then have "r = Inl ShortWrite" "w' = w1"
          using "1.prems"(1) True q n(2) by (simp_all add: write_from.simps [of fd payload k w])
        moreover have "\<not> kind w" using kind_os_write [OF _ q "1.prems"(2) ne] n(2) zero by auto
        ultimately show ?thesis
          using True b zero by (intro exI [of _ k]) simp
      next
        case pos: False
        have rest: "write_from fd payload (k + n) w1 = (r, w')"
          using "1.prems"(1) True q n(2) pos by (simp add: write_from.simps [of fd payload k w])
        have f1: "file_of w1 fd = Some (f\<lparr>content := content f @ slice k (k + n) payload\<rparr>)"
          using became_file_of [OF "1.prems"(2) b] by (simp add: sl)
        have le: "k + n \<le> length payload" using n(1) True by simp
        obtain j where j: "k + n \<le> j" "j \<le> length payload"
          "became fd (f\<lparr>content := content f @ slice k (k + n) payload @ slice (k + n) j payload\<rparr>) w1 w'"
          "\<forall>u. r = Inr u \<longrightarrow> j = length payload" "\<forall>e. r = Inl e \<longrightarrow> io_error e"
          "kind w1 \<longrightarrow> kind w' \<and> r = Inr ()"
          using "1.IH" [OF True q [symmetric] n(2) pos rest f1 le] by auto
        have "became fd (f\<lparr>content := content f @ slice k j payload\<rparr>) w w'"
          using became_trans [OF b j(3)] j(1) by (simp add: slice_join)
        moreover have "kind w \<longrightarrow> kind w1" using kind_os_write [OF _ q "1.prems"(2) ne] by blast
        ultimately show ?thesis using j by (intro exI [of _ j]) auto
      qed
    qed
  qed
qed

lemma write_all_became:
  assumes "stream_write_all fd payload w = (r, w')" and "file_of w fd = Some f"
  shows "\<exists>j \<le> length payload. became fd (f\<lparr>content := content f @ take j payload\<rparr>) w w' \<and>
    (\<forall>u. r = Inr u \<longrightarrow> j = length payload) \<and> (\<forall>e. r = Inl e \<longrightarrow> io_error e) \<and>
    (kind w \<longrightarrow> kind w' \<and> r = Inr ())"
  using write_from_became [OF assms(1) [unfolded stream_write_all_def] assms(2)]
  by (auto simp: take_as_slice [symmetric])

lemma kind_os_preadv:
  assumes "kind w" "os_preadv fd n off w = (r, w')" "file_of w fd = Some f"
    "0 < n" "off < length (content f)"
  shows "kind w' \<and> (\<exists>b bs. r = Inr (b # bs))"
proof -
  let ?bs = "slice off (off + n) (content f)"
  obtain cap w1 where k: "kind w1" "quiet w w1" "cap \<noteq> Some 0"
    "with_file fd (\<lambda>f w. let bs = slice off (off + n) (content f) in
       (Inr (take (moved cap (length bs)) bs), w)) w1 = (r, w')"
    using kind_sys [OF assms(1) assms(2) [unfolded os_preadv_def]] by blast
  have f: "file_of w1 fd = Some f" using quiet_file_of [OF k(2)] assms(3) by simp
  have "length ?bs \<noteq> 0" using assms(4,5) by simp
  then have "?bs \<noteq> []" unfolding length_0_conv .
  then have "take (moved cap (length ?bs)) ?bs \<noteq> []"
    using k(3) assms(4,5) by (cases cap) (auto simp: moved_def min_def)
  then obtain b bs where "take (moved cap (length ?bs)) ?bs = b # bs" by (meson neq_Nil_conv)
  then show ?thesis using k(1,4) f by (auto simp: with_file_def Let_def)
qed

lemma pread_from_quiet:
  "pread_from fd len off got w = (r, w') \<Longrightarrow> file_of w fd = Some f \<Longrightarrow>
   quiet w w' \<and>
   (\<forall>bs. r = Inr bs \<longrightarrow> bs = got @ slice (off + length got) (off + len) (content f)) \<and>
   (kind w \<and> off + len \<le> length (content f) \<longrightarrow> kind w' \<and> (\<exists>bs. r = Inr bs))"
proof (induction fd len off got w rule: pread_from.induct)
  case (1 fd len off got w)
  show ?case
  proof (cases "length got < len")
    case False
    then show ?thesis
      using "1.prems" by (subst (asm) pread_from.simps) (auto simp: slice_def)
  next
    case True
    obtain q w1 where q: "os_preadv fd (len - length got) (off + length got) w = (q, w1)" by fastforce
    have u: "pread_from fd len off got w = (case q of Inl e \<Rightarrow> (Inl e, w1)
        | Inr bs \<Rightarrow> if bs = [] then (Inl (CacheFormatError ''page snapshot object file was truncated''), w1)
            else pread_from fd len off (got @ bs) w1)"
      using True by (subst pread_from.simps) (simp add: q split: sum.split)
    note qq = os_preadv_quiet [OF q "1.prems"(2)]
    have kq: "kind w1 \<and> (\<exists>b bs. q = Inr (b # bs))" if "kind w" "off + len \<le> length (content f)"
      using kind_os_preadv [OF that(1) q "1.prems"(2)] True that(2) by simp
    show ?thesis
    proof (cases "\<exists>b bs. q = Inr (b # bs)")
      case False
      then have "w' = w1 \<and> (\<exists>e. r = Inl e)"
        using "1.prems"(1) unfolding u by (auto split: sum.splits if_splits simp: neq_Nil_conv)
      then show ?thesis using qq kq False by blast
    next
      case bs: True
      then obtain b cs where b: "q = Inr (b # cs)" by blast
      have rest: "pread_from fd len off (got @ b # cs) w1 = (r, w')"
        using "1.prems"(1) by (simp add: u b)
      have f1: "file_of w1 fd = Some f"
        using quiet_file_of [OF conjunct1 [OF qq], of fd] "1.prems"(2) by simp
      have ih: "quiet w1 w' \<and>
        (\<forall>bs. r = Inr bs \<longrightarrow> bs = (got @ b # cs) @ slice (off + length (got @ b # cs)) (off + len) (content f)) \<and>
        (kind w1 \<and> off + len \<le> length (content f) \<longrightarrow> kind w' \<and> (\<exists>bs. r = Inr bs))"
        using "1.IH" [OF True q [symmetric] b _ rest f1] by simp
      obtain m where m: "m \<le> len - length got" "b # cs = slice (off + length got) (off + length got + m) (content f)"
        using qq b by auto
      have "length (b # cs) \<le> m" by (simp only: m(2) length_slice)
      moreover have "slice (off + length got) (off + length got + length (b # cs)) (content f) = b # cs"
        by (simp only: m(2) length_slice) (simp add: slice_def min_def)
      ultimately have "(b # cs) @ slice (off + length (got @ b # cs)) (off + len) (content f) =
          slice (off + length got) (off + len) (content f)"
        using slice_join [of "off + length got" "off + length got + length (b # cs)" "off + len" "content f"] m(1) True
        by (simp add: add.assoc)
      then show ?thesis using ih qq kq by (auto intro: quiet_trans)
    qed
  qed
qed

lemma pread_into_quiet:
  assumes "stream_pread_into fd len off w = (r, w')" and "file_of w fd = Some f"
  shows "quiet w w'"
    and "\<And>bs. r = Inr bs \<Longrightarrow> bs = slice off (off + len) (content f)"
    and "kind w \<Longrightarrow> off + len \<le> length (content f) \<Longrightarrow>
      kind w' \<and> r = Inr (slice off (off + len) (content f))"
  using pread_from_quiet [OF assms(1) [unfolded stream_pread_into_def] assms(2)] by auto

lemma drop_cache_quiet:
  assumes "stream_drop_cache fd start len w = (r, w')" and "file_of w fd = Some f"
  shows "quiet w w' \<and> (\<forall>e. r = Inl e \<longrightarrow> io_error e) \<and> (kind w \<longrightarrow> kind w' \<and> r = Inr ())"
proof (cases "\<not> w_fadvise w \<or> len = 0")
  case True
  then show ?thesis using assms by (auto simp: stream_drop_cache_def)
next
  case False
  obtain q w1 where q: "os_posix_fadvise fd start len w = (q, w1)" by fastforce
  have r: "w' = w1 \<and> (\<forall>e. r = Inl e \<longrightarrow> q = Inl e) \<and> (q = Inr () \<longrightarrow> r = Inr ())"
    using assms(1) False q
    by (auto simp: stream_drop_cache_def except_on_def ret_def split: sum.splits if_splits)
  have e: "\<exists>n. e = OSError n" if "q = Inl e" for e
    using sys_with_file [OF q [unfolded os_posix_fadvise_def] assms(2)] that by auto
  have "kind w1 \<and> q = Inr ()" if "kind w"
    using kind_sys [OF that q [unfolded os_posix_fadvise_def]] assms(2)
    by (auto simp: with_file_def quiet_file_of split: option.splits)
  then show ?thesis
    using r e os_fadvise_quiet [OF q] by (fastforce simp: io_error_def)
qed

lemma sync_and_drop_became:
  assumes "stream_sync_and_drop fd start len w = (r, w')" and "file_of w fd = Some f"
  shows "\<exists>f'. (f' = f \<or> f' = f\<lparr>synced := length (content f)\<rparr>) \<and> became fd f' w w' \<and>
    (\<forall>u. r = Inr u \<longrightarrow> f' = f\<lparr>synced := length (content f)\<rparr>) \<and> (\<forall>e. r = Inl e \<longrightarrow> io_error e) \<and>
    (kind w \<longrightarrow> kind w' \<and> r = Inr ())"
proof -
  let ?g = "f\<lparr>synced := length (content f)\<rparr>"
  obtain q w1 where q: "os_fdatasync fd w = (q, w1)" by fastforce
  have k: "kind w1 \<and> q = Inr ()" if "kind w"
    using kind_sys [OF that q [unfolded os_fdatasync_def]] assms(2)
    by (auto simp: with_file_def quiet_file_of split: option.splits)
  from os_fdatasync_became [OF q assms(2)] show ?thesis
  proof (elim disjE exE conjE)
    fix e assume e: "q = Inl (OSError e)" "quiet w w1"
    then have "r = Inl (OSError e) \<and> w' = w1"
      using assms(1) by (simp add: stream_sync_and_drop_def andthen_def q)
    then show ?thesis using e k assms(2) by (intro exI [of _ f]) (auto intro: became_refl)
  next
    assume s: "q = Inr ()" "became fd ?g w w1"
    then have d: "stream_drop_cache fd start len w1 = (r, w')"
      using assms(1) by (simp add: stream_sync_and_drop_def andthen_def q)
    note dq = drop_cache_quiet [OF d became_file_of [OF assms(2) s(2)]]
    show ?thesis
      using s(2) dq k by (intro exI [of _ ?g]) (auto intro: became_quiet)
  qed
qed

section \<open>The invariant of a spool\<close>

definition spool_inv :: "disk_snapshot \<Rightarrow> disk_file \<Rightarrow> bool" where
  "spool_inv d f \<longleftrightarrow> is_regular f \<and> d_durable d \<le> d_written d \<and> d_written d \<le> expected_bytes d \<and>
     d_written d - d_durable d \<le> stream_chunk \<and> d_durable d \<le> synced f \<and> synced f \<le> length (content f) \<and>
     d_written d \<le> length (content f) \<and>
     (d_sealed d \<longrightarrow> d_written d = expected_bytes d \<and> d_durable d = d_written d)"

definition same_spool :: "disk_snapshot \<Rightarrow> disk_snapshot \<Rightarrow> bool" where
  "same_spool d d' \<longleftrightarrow> d_fd d' = d_fd d \<and> expected_bytes d' = expected_bytes d \<and>
     d_sealed d' = d_sealed d \<and> d_released d' = d_released d"

lemma same_spool_trans: "same_spool a b \<Longrightarrow> same_spool b c \<Longrightarrow> same_spool a c"
  by (simp add: same_spool_def)

lemma stream_chunk_pos [simp]: "0 < stream_chunk"
  by (simp add: stream_chunk_def)

text \<open>
  One run of the loop of \<open>append\<close> from \<open>consumed\<close>: it appended a slice to the file, all of
  the payload when it returned, and never spins.
\<close>

definition appended :: "byte list \<Rightarrow> nat \<Rightarrow> disk_snapshot \<Rightarrow> disk_file \<Rightarrow> world \<Rightarrow>
  io_exn + unit \<Rightarrow> disk_snapshot \<Rightarrow> world \<Rightarrow> bool" where
  "appended payload k d f w r d' w' \<longleftrightarrow>
     (\<exists>j f'. k \<le> j \<and> j \<le> length payload \<and> content f' = content f @ slice k j payload \<and>
       became (d_fd d) f' w w' \<and> spool_inv d' f' \<and> same_spool d d' \<and>
       d_written d \<le> d_written d' \<and> d_written d' \<le> d_written d + (j - k) \<and>
       (\<forall>u. r = Inr u \<longrightarrow> j = length payload \<and> d_written d' = d_written d + (length payload - k) \<and>
         (k < length payload \<or> d_written d - d_durable d < stream_chunk \<longrightarrow>
           d_written d' - d_durable d' < stream_chunk)) \<and>
       (\<forall>e. r = Inl e \<longrightarrow> io_error e) \<and> (kind w \<longrightarrow> kind w' \<and> r = Inr ()))"

lemma appended_step:
  assumes "content f1 = content f @ slice k j payload" "became (d_fd d) f1 w w1" "same_spool d d1"
    "d_written d1 = d_written d + (j - k)" "k \<le> j" "j \<le> length payload"
    "kind w \<longrightarrow> kind w1" "d_written d1 - d_durable d1 < stream_chunk"
    "appended payload j d1 f1 w1 r d' w'"
  shows "appended payload k d f w r d' w'"
proof -
  obtain i g where i: "j \<le> i" "i \<le> length payload" "content g = content f1 @ slice j i payload"
    "became (d_fd d1) g w1 w'" "spool_inv d' g" "same_spool d1 d'"
    "d_written d1 \<le> d_written d'" "d_written d' \<le> d_written d1 + (i - j)"
    "\<forall>u. r = Inr u \<longrightarrow> i = length payload \<and> d_written d' = d_written d1 + (length payload - j) \<and>
         (j < length payload \<or> d_written d1 - d_durable d1 < stream_chunk \<longrightarrow>
           d_written d' - d_durable d' < stream_chunk)"
    "\<forall>e. r = Inl e \<longrightarrow> io_error e" "kind w1 \<longrightarrow> kind w' \<and> r = Inr ()"
    using assms(9) unfolding appended_def by blast
  have c: "content g = content f @ slice k i payload"
    using i(1,3) assms(1,5) slice_join [of k j i payload] by simp
  have b: "became (d_fd d) g w w'"
    using became_trans [OF assms(2)] i(4) assms(3) by (simp add: same_spool_def)
  show ?thesis
    unfolding appended_def using i c b assms(3-8) same_spool_trans [OF assms(3) i(6)]
    by (intro exI [of _ i] exI [of _ g]) auto
qed

lemma append_from_appended:
  "append_from payload k (d, w) = (r, (d', w')) \<Longrightarrow> file_of w (d_fd d) = Some f \<Longrightarrow> spool_inv d f \<Longrightarrow>
   \<not> d_sealed d \<Longrightarrow> k \<le> length payload \<Longrightarrow> d_written d + (length payload - k) \<le> expected_bytes d \<Longrightarrow>
   appended payload k d f w r d' w'"
proof (induction payload k "(d, w)" arbitrary: d w f rule: append_from.induct)
  case (1 payload k d w)
  let ?iv = "stream_chunk - (d_written d - d_durable d)"
  define piece where piece_eq: "piece = slice k (k + ?iv) payload"
  let ?n = "length piece"
  let ?d1 = "d\<lparr>d_written := d_written d + ?n\<rparr>"
  note inv = "1.prems"(3) and opened = "1.prems"(2)
  have nle: "?n \<le> ?iv" "?n \<le> length payload - k" by (simp_all add: piece_eq)
  show ?case
  proof (cases "k < length payload")
    case False
    then have "append_from payload k (d, w) = (Inr (), (d, w))" "k = length payload"
      using "1.prems"(5) by (subst append_from.simps, simp_all)
    then show ?thesis
      using "1.prems" unfolding appended_def
      by (intro exI [of _ k] exI [of _ f]) (auto intro: became_refl simp: same_spool_def)
  next
    case True
    obtain q w1 where q: "stream_write_all (d_fd d) piece w = (q, w1)" by fastforce
    obtain j where j: "j \<le> ?n" "became (d_fd d) (f\<lparr>content := content f @ take j piece\<rparr>) w w1"
      "\<forall>u. q = Inr u \<longrightarrow> j = ?n" "\<forall>e. q = Inl e \<longrightarrow> io_error e" "kind w \<longrightarrow> kind w1 \<and> q = Inr ()"
      using write_all_became [OF q opened] by blast
    have "j \<le> ?iv \<and> j \<le> length payload - k" using j(1) nle by simp
    then have kj: "take j piece = slice k (k + j) payload" and klen: "k + j \<le> length payload"
      subgoal by (simp add: piece_eq slice_def min_absorb1)
      using True \<open>j \<le> ?iv \<and> j \<le> length payload - k\<close> by linarith
    note u = "1.prems"(1) [unfolded append_from.simps [of payload k d w] Let_def, folded piece_eq, unfolded q]
    show ?thesis
    proof (cases q)
      case (Inl e)
      then have "r = Inl e" "d' = d" "w' = w1" using u True by simp_all
      moreover have "spool_inv d (f\<lparr>content := content f @ take j piece\<rparr>)"
        using inv by (simp add: spool_inv_def)
      ultimately show ?thesis
        using j klen kj Inl unfolding appended_def
        by (intro exI [of _ "k + j"] exI [of _ "f\<lparr>content := content f @ take j piece\<rparr>"])
          (auto simp: same_spool_def)
    next
      case (Inr x)
      let ?f1 = "f\<lparr>content := content f @ piece\<rparr>"
      have jn: "j = ?n" using j(3) Inr by simp
      have b1: "became (d_fd d) ?f1 w w1" using j(2) jn by simp
      have f1: "file_of w1 (d_fd d) = Some ?f1" by (rule became_file_of [OF opened b1])
      have pc: "piece = slice k (k + ?n) payload" using kj jn by simp
      have inv1: "spool_inv ?d1 ?f1"
      proof -
        have "d_written d + ?n - d_durable d \<le> stream_chunk" "d_written d + ?n \<le> expected_bytes d"
          "d_durable d \<le> d_written d + ?n"
          using inv nle "1.prems"(5,6) unfolding spool_inv_def by linarith+
        then show ?thesis using inv "1.prems"(4) by (simp add: spool_inv_def)
      qed
      show ?thesis
      proof (cases "d_written ?d1 - d_durable ?d1 = stream_chunk")
        case sync: True
        let ?f2 = "?f1\<lparr>synced := length (content ?f1)\<rparr>"
        let ?d2 = "?d1\<lparr>d_durable := d_written ?d1\<rparr>"
        obtain p w2 where p: "stream_sync_and_drop (d_fd d) (d_durable ?d1) stream_chunk w1 = (p, w2)" by fastforce
        obtain f2 where f2: "f2 = ?f1 \<or> f2 = ?f2" "became (d_fd d) f2 w1 w2"
          "\<forall>u. p = Inr u \<longrightarrow> f2 = ?f2" "\<forall>e. p = Inl e \<longrightarrow> io_error e" "kind w1 \<longrightarrow> kind w2 \<and> p = Inr ()"
          using sync_and_drop_became [OF p f1] by blast
        have b2: "became (d_fd d) f2 w w2" by (rule became_trans [OF b1 f2(2)])
        have c2: "content f2 = content f @ slice k (k + ?n) payload" using f2(1) pc by auto
        show ?thesis
        proof (cases p)
          case (Inl e)
          then have "r = Inl e" "d' = ?d1" "w' = w2" using u True Inr sync p by simp_all
          moreover have "spool_inv ?d1 f2" using inv1 f2(1) by (auto simp: spool_inv_def)
          ultimately show ?thesis
            using b2 c2 f2 j Inl Inr klen jn unfolding appended_def
            by (intro exI [of _ "k + ?n"] exI [of _ f2]) (auto simp: same_spool_def)
        next
          case (Inr y)
          have rest: "append_from payload (k + ?n) (?d2, w2) = (r, (d', w'))"
            using u True \<open>q = Inr x\<close> sync p Inr by simp
          have f22: "file_of w2 (d_fd ?d2) = Some f2"
            using became_file_of [OF f1 f2(2)] by simp
          have inv2: "spool_inv ?d2 f2"
            using inv1 f2(3) Inr by (auto simp: spool_inv_def)
          have "appended payload (k + ?n) ?d2 f2 w2 r d' w'"
            using "1.hyps"(1) [OF True refl piece_eq refl q [symmetric] \<open>q = Inr x\<close> sync p [symmetric] Inr
              rest f22 inv2] "1.prems"(4,6) klen jn by simp
          then show ?thesis
            using c2 b2 klen jn j(5) f2(5) by (intro appended_step [of f2 f k "k + ?n" payload d w w2 ?d2]) (auto simp: same_spool_def)
        qed
      next
        case noSync: False
        have ne: "piece \<noteq> []"
          using noSync inv True by (auto simp: spool_inv_def slice_def piece_eq)
        have rest: "append_from payload (k + ?n) (?d1, w1) = (r, (d', w'))"
          using u True Inr noSync ne by simp
        have lt: "d_written ?d1 - d_durable ?d1 < stream_chunk"
          using inv1 noSync by (auto simp: spool_inv_def)
        have "appended payload (k + ?n) ?d1 ?f1 w1 r d' w'"
          using "1.hyps"(2) [OF True refl piece_eq refl q [symmetric] Inr noSync ne rest _ inv1] f1 "1.prems"(4,6) klen jn by simp
        then show ?thesis
          using pc b1 klen jn j(5) lt by (intro appended_step [of ?f1 f k "k + ?n" payload d w w1 ?d1]) (auto simp: same_spool_def)
      qed
    qed
  qed
qed

section \<open>Operations of a spool\<close>

text \<open>A live spool: its file is open and the invariant holds.\<close>

definition spool_at :: "spool_state \<Rightarrow> disk_file \<Rightarrow> bool" where
  "spool_at s f \<longleftrightarrow> (case s of (d, w) \<Rightarrow>
     file_of w (d_fd d) = Some f \<and> spool_inv d f \<and> \<not> d_released d)"

lemma spool_append_cases:
  assumes "spool_append arg (d, w) = (r, (d', w'))" and "spool_at (d, w) f"
  shows "(d' = d \<and> w' = w \<and> (\<exists>msg. r = Inl (ValueError msg) \<or> r = Inl (TypeError msg))) \<or>
    (\<exists>data. arg = Some data \<and> length data \<le> stream_chunk \<and> \<not> d_sealed d \<and>
       d_written d + length data \<le> expected_bytes d \<and> appended data 0 d f w r d' w')"
proof (cases "d_released d \<or> d_sealed d")
  case True
  then show ?thesis using assms(1) by (auto simp: spool_append_def)
next
  case False
  show ?thesis
  proof (cases arg)
    case None
    then show ?thesis using assms(1) False by (auto simp: spool_append_def)
  next
    case (Some data)
    show ?thesis
    proof (cases "stream_chunk < length data \<or> expected_bytes d < d_written d + length data")
      case True
      then show ?thesis using assms(1) False Some by (auto simp: spool_append_def split: if_splits)
    next
      case fits: False
      then have "append_from data 0 (d, w) = (r, (d', w'))"
        using assms(1) False Some by (simp add: spool_append_def)
      then have "appended data 0 d f w r d' w'"
        using append_from_appended [of data 0 d w r d' w' f] assms(2) False fits
        by (simp add: spool_at_def)
      then show ?thesis using Some fits False by auto
    qed
  qed
qed

lemma spool_append_at:
  assumes "spool_append arg (d, w) = (r, (d', w'))" and "spool_at (d, w) f"
  shows "\<exists>f' bs. spool_at (d', w') f' \<and> same_spool d d' \<and> content f' = content f @ bs \<and>
    w_fds w' = w_fds w \<and> w_names w' = w_names w \<and>
    (\<forall>u. r = Inr u \<longrightarrow> arg = Some bs \<and> length bs \<le> stream_chunk \<and>
      d_written d' = d_written d + length bs \<and>
      (d_written d - d_durable d < stream_chunk \<longrightarrow> d_written d' - d_durable d' < stream_chunk))"
  using spool_append_cases [OF assms]
proof (elim disjE exE conjE)
  fix data assume a: "arg = Some data" "length data \<le> stream_chunk" "appended data 0 d f w r d' w'"
  then obtain j f' where j: "content f' = content f @ slice 0 j data" "became (d_fd d) f' w w'"
    "spool_inv d' f'" "same_spool d d'"
    "\<forall>u. r = Inr u \<longrightarrow> j = length data \<and> d_written d' = d_written d + length data \<and>
         (0 < length data \<or> d_written d - d_durable d < stream_chunk \<longrightarrow>
           d_written d' - d_durable d' < stream_chunk)"
    unfolding appended_def by auto
  have "file_of w' (d_fd d') = Some f'"
    using became_file_of [OF _ j(2)] assms(2) j(4) by (auto simp: spool_at_def same_spool_def)
  then show ?thesis
    using j a assms(2) became_tables [OF j(2)]
    by (intro exI [of _ f'] exI [of _ "slice 0 j data"]) (auto simp: spool_at_def same_spool_def)
qed (use assms(2) in \<open>auto simp: same_spool_def intro!: exI [of _ f]\<close>)

lemma spool_append_kind:
  assumes "spool_at (d, w) f" "kind w" "length data \<le> stream_chunk" "\<not> d_sealed d"
    "d_written d + length data \<le> expected_bytes d"
  shows "\<exists>d' w'. spool_append (Some data) (d, w) = (Inr (), (d', w')) \<and> kind w'"
proof -
  obtain r d' w' where s: "spool_append (Some data) (d, w) = (r, (d', w'))"
    by (cases "spool_append (Some data) (d, w)") auto
  have "spool_append (Some data) (d, w) = append_from data 0 (d, w)"
    using assms by (simp add: spool_append_def spool_at_def)
  then have "append_from data 0 (d, w) = (r, (d', w'))" using s by simp
  from append_from_appended [OF this] assms
  have "appended data 0 d f w r d' w'" by (simp add: spool_at_def)
  then show ?thesis using s assms(2) by (auto simp: appended_def)
qed

lemma seal_result:
  assumes "spool_seal (d, w) = (Inr (), (d', w'))" and "spool_at (d, w) f"
  shows "\<exists>f'. spool_at (d', w') f' \<and> content f' = content f \<and> d_sealed d' \<and>
    d_written d' = expected_bytes d \<and> d_fd d' = d_fd d \<and> expected_bytes d' = expected_bytes d \<and>
    d_written d' = d_written d \<and> w_fds w' = w_fds w \<and> w_names w' = w_names w"
proof -
  have opened: "file_of w (d_fd d) = Some f" and inv: "spool_inv d f" and live: "\<not> d_released d"
    using assms(2) by (simp_all add: spool_at_def)
  consider (already) "d_sealed d" | (short) "\<not> d_sealed d" "d_written d \<noteq> expected_bytes d"
    | (clean) "\<not> d_sealed d" "d_written d = expected_bytes d" "d_durable d = d_written d"
    | (dirty) "\<not> d_sealed d" "d_written d = expected_bytes d" "d_durable d \<noteq> d_written d" by blast
  then show ?thesis
  proof cases
    case already
    then have "d' = d \<and> w' = w" using assms(1) live by (simp add: spool_seal_def)
    then show ?thesis using assms(2) already inv by (intro exI [of _ f]) (simp add: spool_inv_def)
  next
    case short
    then have False
      using assms(1) live by (simp add: spool_seal_def andthen_Inr throw_def)
    then show ?thesis ..
  next
    case clean
    then have "d' = d\<lparr>d_sealed := True\<rparr> \<and> w' = w" using assms(1) live by (simp add: spool_seal_def)
    then show ?thesis
      using opened inv live clean by (intro exI [of _ f]) (simp add: spool_at_def spool_inv_def)
  next
    case dirty
    obtain q w1 where q: "stream_sync_and_drop (d_fd d) (d_durable d) (d_written d - d_durable d) w = (q, w1)"
      by fastforce
    have s: "q = Inr ()" "d' = d\<lparr>d_durable := d_written d, d_sealed := True\<rparr>" "w' = w1"
      using assms(1) live dirty q by (auto simp: spool_seal_def split: sum.splits)
    obtain f' where f': "became (d_fd d) f' w w1" "f' = f\<lparr>synced := length (content f)\<rparr>"
      using sync_and_drop_became [OF q opened] s(1) by auto
    have "file_of w1 (d_fd d) = Some f'" by (rule became_file_of [OF opened f'(1)])
    then show ?thesis
      using s f'(2) inv live dirty(2) became_tables [OF f'(1)]
      by (intro exI [of _ f']) (simp add: spool_at_def spool_inv_def)
  qed
qed

lemma seal_kind:
  assumes "spool_at (d, w) f" "kind w" "d_written d = expected_bytes d"
  shows "\<exists>d' w'. spool_seal (d, w) = (Inr (), (d', w')) \<and> kind w'"
proof -
  obtain q w1 where q: "stream_sync_and_drop (d_fd d) (d_durable d) (expected_bytes d - d_durable d) w = (q, w1)"
    by fastforce
  have "kind w1 \<and> q = Inr ()"
    using sync_and_drop_became [OF q, of f] assms by (auto simp: spool_at_def)
  then show ?thesis using q assms by (auto simp: spool_seal_def spool_at_def)
qed

lemma read_range_quiet:
  assumes "read_range d a b w = (r, w')" and "file_of w (d_fd d) = Some f"
  shows "quiet w w'"
    and "\<And>bs. r = Inr bs \<Longrightarrow> \<exists>i j. a = PyInt (int i) \<and> b = PyInt (int j) \<and> i \<le> j \<and> j \<le> d_written d \<and>
      j - i \<le> stream_chunk \<and> bs = slice i j (content f)"
proof -
  have "quiet w w' \<and> (\<forall>bs. r = Inr bs \<longrightarrow> (\<exists>i j. a = PyInt (int i) \<and> b = PyInt (int j) \<and> i \<le> j \<and>
      j \<le> d_written d \<and> j - i \<le> stream_chunk \<and> bs = slice i j (content f)))"
  proof (cases "d_is_sealed d \<and> (\<exists>x y. a = PyInt x \<and> b = PyInt y \<and>
      \<not> (x < 0 \<or> y < x \<or> int (d_written d) < y \<or> int stream_chunk < y - x))")
    case False
    then have "w' = w \<and> (\<exists>e. r = Inl e)"
      using assms(1) unfolding read_range_def
      by (auto simp: throw_def split: pyval.splits if_splits)
    then show ?thesis by auto
  next
    case True
    then obtain x y where xy: "a = PyInt x" "b = PyInt y" "0 \<le> x" "x \<le> y" "y \<le> int (d_written d)"
      "y - x \<le> int stream_chunk" and sealed: "d_is_sealed d" by auto
    define i j where "i = nat x" and "j = nat y"
    have ij: "x = int i" "y = int j" "i \<le> j" "j \<le> d_written d" "j - i \<le> stream_chunk"
      using xy by (auto simp: i_def j_def)
    show ?thesis
    proof (cases "i = j")
      case eq: True
      then have "w' = w \<and> r = Inr []"
        using assms(1) sealed xy ij by (simp add: read_range_def ret_def)
      then show ?thesis using xy ij eq by (auto intro!: exI [of _ i] exI [of _ j])
    next
      case ne: False
      obtain q w1 where q: "stream_pread_into (d_fd d) (j - i) i w = (q, w1)" by fastforce
      note p = pread_into_quiet [OF q assms(2)]
      have f1: "file_of w1 (d_fd d) = Some f" using quiet_file_of [OF p(1)] assms(2) by simp
      have rr: "andthen (stream_pread_into (d_fd d) (j - i) i) (\<lambda>bs.
          andthen (stream_drop_cache (d_fd d) i (j - i)) (\<lambda>_. ret bs)) w = (r, w')"
        using assms(1) sealed xy ij ne unfolding read_range_def
        by (simp add: nat_diff_distrib')
      show ?thesis
      proof (cases q)
        case (Inl e)
        then show ?thesis using rr q p(1) by (auto simp: andthen_def)
      next
        case (Inr bs)
        obtain t w2 where t: "stream_drop_cache (d_fd d) i (j - i) w1 = (t, w2)" by fastforce
        have "quiet w1 w2" using drop_cache_quiet [OF t f1] by blast
        moreover have "w' = w2 \<and> (\<forall>cs. r = Inr cs \<longrightarrow> cs = bs)"
          using rr q Inr t by (auto simp: andthen_def ret_def split: sum.splits)
        ultimately show ?thesis
          using p(1) p(2) [OF Inr] xy ij quiet_trans by (auto intro!: exI [of _ i] exI [of _ j])
      qed
    qed
  qed
  then show "quiet w w'" "\<And>bs. r = Inr bs \<Longrightarrow> \<exists>i j. a = PyInt (int i) \<and> b = PyInt (int j) \<and> i \<le> j \<and>
      j \<le> d_written d \<and> j - i \<le> stream_chunk \<and> bs = slice i j (content f)" by blast+
qed

lemma read_range_kind:
  assumes "d_is_sealed d" "file_of w (d_fd d) = Some f" "spool_inv d f" "kind w"
    "i \<le> j" "j \<le> d_written d" "j - i \<le> stream_chunk"
  shows "\<exists>w'. read_range d (PyInt (int i)) (PyInt (int j)) w = (Inr (slice i j (content f)), w') \<and>
    kind w' \<and> quiet w w'"
proof (cases "i = j")
  case True
  then show ?thesis using assms by (simp add: read_range_def ret_def)
next
  case False
  obtain q w1 where q: "stream_pread_into (d_fd d) (j - i) i w = (q, w1)" by fastforce
  note p = pread_into_quiet [OF q assms(2)]
  have "i + (j - i) \<le> length (content f)" using assms(3,5,6) by (simp add: spool_inv_def)
  then have q1: "kind w1" "q = Inr (slice i j (content f))" using p(3) assms(4,5) by auto
  have f1: "file_of w1 (d_fd d) = Some f" using quiet_file_of [OF p(1)] assms(2) by simp
  obtain t w2 where t: "stream_drop_cache (d_fd d) i (j - i) w1 = (t, w2)" by fastforce
  have t1: "t = Inr ()" "kind w2" "quiet w1 w2" using drop_cache_quiet [OF t f1] q1(1) by auto
  have chunked: "\<not> int stream_chunk < int j - int i" using assms(5,7) by linarith
  have "read_range d (PyInt (int i)) (PyInt (int j)) w = (Inr (slice i j (content f)), w2)"
    using assms False q q1 t t1 chunked by (simp add: read_range_def nat_diff_distrib' andthen_def ret_def)
  then show ?thesis using t1 quiet_trans [OF p(1) t1(3)] by auto
qed

section \<open>Properties of the spool\<close>

text \<open>The appends of one capture, in order, stopping at the first that raises.\<close>

fun append_all :: "byte list list \<Rightarrow> (spool_state, unit) act" where
  "append_all [] = ret ()"
| "append_all (p # ps) = andthen (spool_append (Some p)) (\<lambda>_. append_all ps)"

definition unsynced :: "disk_file \<Rightarrow> nat" where
  "unsynced f = length (content f) - synced f"

lemma append_all_at:
  "append_all ps (d, w) = (Inr u, (d', w')) \<Longrightarrow> spool_at (d, w) f \<Longrightarrow> length (content f) = d_written d \<Longrightarrow>
   d_written d - d_durable d < stream_chunk \<Longrightarrow>
   \<exists>f'. spool_at (d', w') f' \<and> same_spool d d' \<and> content f' = content f @ concat ps \<and>
     length (content f') = d_written d' \<and> d_written d' - d_durable d' < stream_chunk \<and> w_fds w' = w_fds w"
proof (induction ps arbitrary: d w f)
  case Nil
  then show ?case by (auto simp: ret_def same_spool_def)
next
  case (Cons p ps)
  obtain d1 w1 where a: "spool_append (Some p) (d, w) = (Inr (), (d1, w1))"
    and rest: "append_all ps (d1, w1) = (Inr u, (d', w'))"
    using Cons.prems(1) by (auto simp: andthen_Inr)
  obtain f1 where f1: "spool_at (d1, w1) f1" "same_spool d d1" "content f1 = content f @ p"
    "d_written d1 = d_written d + length p" "d_written d1 - d_durable d1 < stream_chunk" "w_fds w1 = w_fds w"
    using spool_append_at [OF a Cons.prems(2)] Cons.prems(4) by auto
  have "length (content f1) = d_written d1" using f1(3,4) Cons.prems(3) by simp
  from Cons.IH [OF rest f1(1) this f1(5)] show ?case
    using f1(2,3,6) by (auto intro: same_spool_trans)
qed

lemma append_all_kind:
  "spool_at (d, w) f \<Longrightarrow> kind w \<Longrightarrow> \<forall>p\<in>set ps. length p \<le> stream_chunk \<Longrightarrow> \<not> d_sealed d \<Longrightarrow>
   d_written d + length (concat ps) \<le> expected_bytes d \<Longrightarrow>
   \<exists>d' w'. append_all ps (d, w) = (Inr (), (d', w')) \<and> kind w' \<and>
     d_written d' = d_written d + length (concat ps)"
proof (induction ps arbitrary: d w f)
  case Nil
  then show ?case by (simp add: ret_def)
next
  case (Cons p ps)
  obtain d1 w1 where a: "spool_append (Some p) (d, w) = (Inr (), (d1, w1))" and k: "kind w1"
    using spool_append_kind [OF Cons.prems(1,2), of p] Cons.prems(3-5) by auto
  obtain f1 where f1: "spool_at (d1, w1) f1" "same_spool d d1" "d_written d1 = d_written d + length p"
    using spool_append_at [OF a Cons.prems(1)] by auto
  obtain d' w' where "append_all ps (d1, w1) = (Inr (), (d', w'))" "kind w'"
    "d_written d' = d_written d1 + length (concat ps)"
    using Cons.IH [OF f1(1) k] Cons.prems(3-5) f1(2,3) by (auto simp: same_spool_def)
  then show ?case using a f1(3) by (auto simp: andthen_def)
qed

lemma new_snapshot_at:
  assumes "new_disk_snapshot arg w = (Inr d, w')"
  shows "\<exists>f n. arg = PyInt (int n) \<and> 0 < n \<and> expected_bytes d = n \<and> spool_at (d, w') f \<and>
    content f = [] \<and> d_written d = 0 \<and> d_durable d = 0 \<and> \<not> d_sealed d"
proof -
  obtain z where z: "arg = PyInt z" "0 < z"
    using assms by (auto simp: new_disk_snapshot_def throw_def split: pyval.splits if_splits)
  obtain w1 fd where a: "os_directory w = (Inr (), w1)" "temporary_file w1 = (Inr fd, w')"
    "d = \<lparr>d_fd = fd, expected_bytes = nat z, d_written = 0, d_durable = 0,
      d_sealed = False, d_released = False\<rparr>"
    using assms z by (auto simp: new_disk_snapshot_def andthen_Inr ret_def split: if_splits)
  have "file_of w' fd = Some new_file"
    using a(2) unfolding temporary_file_def
    by (elim sys_cases) (auto simp: Let_def file_of_def)
  then show ?thesis
    using z a(3)
    by (intro exI [of _ new_file] exI [of _ "nat z"])
      (auto simp: spool_at_def spool_inv_def new_file_def)
qed

lemma new_snapshot_kind:
  assumes "kind w" "0 < n"
  shows "\<exists>d w'. new_disk_snapshot (PyInt (int n)) w = (Inr d, w') \<and> kind w'"
proof -
  obtain q w1 where q: "os_directory w = (q, w1)" by fastforce
  have 1: "kind w1 \<and> q = Inr ()"
    using kind_sys [OF assms(1) q [unfolded os_directory_def]] by (auto simp: ret_def)
  obtain t w2 where t: "temporary_file w1 = (t, w2)" by fastforce
  have 2: "kind w2 \<and> (\<exists>fd. t = Inr fd)"
    using kind_sys [OF conjunct1 [OF 1] t [unfolded temporary_file_def]] by (auto simp: Let_def kind_def)
  then obtain fd where "t = Inr fd" by blast
  then show ?thesis using q t 1 2 assms(2) by (simp add: new_disk_snapshot_def andthen_def ret_def)
qed

text \<open>
  An append on a live spool appends a prefix of its argument to the file and keeps the
  spool's invariant whatever the operating system does; it returns only after the whole
  argument is in the file, never touches another file or descriptor, and leaves less than
  one chunk that is not durable.
\<close>

theorem append_exact:
  assumes "spool_at (d, w) f" and "length (content f) = d_written d"
    and "d_written d - d_durable d < stream_chunk"
    and "spool_append arg (d, w) = (r, (d', w'))"
  shows "\<exists>f' k. spool_at (d', w') f' \<and> content f' = content f @ take k (case arg of Some data \<Rightarrow> data | None \<Rightarrow> []) \<and>
    w_fds w' = w_fds w \<and> w_names w' = w_names w \<and>
    (r = Inr () \<longrightarrow> (\<exists>data. arg = Some data \<and> k = length data \<and> k \<le> stream_chunk) \<and>
       length (content f') = d_written d' \<and> d_written d' \<le> expected_bytes d \<and> unsynced f' < stream_chunk) \<and>
    (\<forall>e. r = Inl e \<longrightarrow> io_error e \<or> (d', w') = (d, w) \<and> (\<exists>msg. e = ValueError msg \<or> e = TypeError msg))"
  using spool_append_cases [OF assms(4,1)]
proof (elim disjE exE conjE)
  fix data assume a: "arg = Some data" "length data \<le> stream_chunk" "appended data 0 d f w r d' w'"
  then obtain j f' where j: "content f' = content f @ slice 0 j data" "became (d_fd d) f' w w'"
    "spool_inv d' f'" "same_spool d d'" "\<forall>e. r = Inl e \<longrightarrow> io_error e"
    "\<forall>u. r = Inr u \<longrightarrow> j = length data \<and> d_written d' = d_written d + length data \<and>
         (0 < length data \<or> d_written d - d_durable d < stream_chunk \<longrightarrow>
           d_written d' - d_durable d' < stream_chunk)"
    unfolding appended_def by auto
  have "file_of w' (d_fd d') = Some f'"
    using became_file_of [OF _ j(2)] assms(1) j(4) by (auto simp: spool_at_def same_spool_def)
  then have at: "spool_at (d', w') f'"
    using assms(1) j(3,4) by (auto simp: spool_at_def same_spool_def)
  have "unsynced f' < stream_chunk" if "r = Inr ()"
    using that j(1,3,6) assms(2,3) by (auto simp: unsynced_def spool_inv_def)
  then show ?thesis
    using at j a assms(2) became_tables [OF j(2)]
    by (intro exI [of _ f'] exI [of _ j]) (auto simp: take_as_slice spool_inv_def same_spool_def)
qed (use assms(1) in \<open>auto intro!: exI [of _ f] exI [of _ 0]\<close>)

text \<open>
  A spool that was created, filled by appends of at most a chunk and sealed holds
  exactly the appended bytes, all durable and exactly as many as declared; every read
  that returns gives the bytes of its range, at most a chunk.
\<close>

theorem spool_roundtrip:
  assumes "new_disk_snapshot (PyInt (int n)) w = (Inr d, w1)"
    and "append_all ps (d, w1) = (Inr (), (d2, w2))"
    and "spool_seal (d2, w2) = (Inr (), (d3, w3))"
  shows "n = length (concat ps) \<and> d_is_sealed d3 \<and> d_total_bytes d3 = n \<and>
    (\<exists>f. file_of w3 (d_fd d3) = Some f \<and> content f = concat ps \<and> synced f = n) \<and>
    (\<forall>a b r w4. read_range d3 a b w3 = (Inr r, w4) \<longrightarrow>
       (\<exists>i j. a = PyInt (int i) \<and> b = PyInt (int j) \<and> r = slice i j (concat ps) \<and> length r \<le> stream_chunk))"
proof -
  obtain f where f: "0 < n" "expected_bytes d = n" "spool_at (d, w1) f" "content f = []"
    "d_written d = 0" "d_durable d = 0"
    using new_snapshot_at [OF assms(1)] by auto
  obtain f2 where f2: "spool_at (d2, w2) f2" "same_spool d d2" "content f2 = concat ps"
    "length (content f2) = d_written d2"
    using append_all_at [OF assms(2) f(3)] f(4-6) by auto
  obtain f3 where f3: "spool_at (d3, w3) f3" "content f3 = concat ps" "d_sealed d3"
    "d_written d3 = n" "expected_bytes d3 = n" "d_written d3 = d_written d2"
    using seal_result [OF assms(3) f2(1)] f2(2,3) f(2) by (auto simp: same_spool_def)
  have len: "length (concat ps) = n" using f2(3,4) f3(4,6) by simp
  have file3: "file_of w3 (d_fd d3) = Some f3" using f3(1) by (simp add: spool_at_def)
  have "synced f3 = n" using f3 len by (auto simp: spool_at_def spool_inv_def)
  moreover have "\<exists>i j. a = PyInt (int i) \<and> b = PyInt (int j) \<and> r = slice i j (concat ps) \<and>
      length r \<le> stream_chunk" if "read_range d3 a b w3 = (Inr r, w4)" for a b r w4
    using read_range_quiet(2) [OF that file3] f3(2) by auto
  ultimately show ?thesis
    using len f3 file3 by (auto simp: d_is_sealed_def d_total_bytes_def spool_at_def)
qed

lemma fill_succeeds:
  assumes "kind w" and "0 < length (concat ps)" and "\<forall>p\<in>set ps. length p \<le> stream_chunk"
  shows "\<exists>d w1 d2 w2 d3 w3 f.
    new_disk_snapshot (PyInt (int (length (concat ps)))) w = (Inr d, w1) \<and>
    append_all ps (d, w1) = (Inr (), (d2, w2)) \<and> spool_seal (d2, w2) = (Inr (), (d3, w3)) \<and>
    spool_at (d3, w3) f \<and> kind w3 \<and> content f = concat ps \<and> d_sealed d3 \<and>
    d_written d3 = length (concat ps)"
proof -
  let ?n = "length (concat ps)"
  obtain d w1 where n: "new_disk_snapshot (PyInt (int ?n)) w = (Inr d, w1)" and k1: "kind w1"
    using new_snapshot_kind [OF assms(1,2)] by blast
  obtain f where f: "expected_bytes d = ?n" "spool_at (d, w1) f" "content f = []"
    "d_written d = 0" "d_durable d = 0" "\<not> d_sealed d"
    using new_snapshot_at [OF n] by auto
  obtain d2 w2 where a: "append_all ps (d, w1) = (Inr (), (d2, w2))" and k2: "kind w2"
    using append_all_kind [OF f(2) k1 assms(3) f(6)] f(1,4) by auto
  obtain f2 where f2: "spool_at (d2, w2) f2" "same_spool d d2" "content f2 = concat ps"
    "length (content f2) = d_written d2"
    using append_all_at [OF a f(2)] f(3-5) by auto
  have full: "d_written d2 = expected_bytes d2" using f2(2,3,4) f(1) by (simp add: same_spool_def)
  obtain d3 w3 where s: "spool_seal (d2, w2) = (Inr (), (d3, w3))" and k3: "kind w3"
    using seal_kind [OF f2(1) k2 full] by blast
  obtain f3 where f3: "spool_at (d3, w3) f3" "content f3 = concat ps" "d_sealed d3" "d_written d3 = ?n"
    using seal_result [OF s f2(1)] f2(2,3) f(1) by (auto simp: same_spool_def)
  show ?thesis using n a s f3 k3 by blast
qed

text \<open>
  C37. When no call fails, creating, filling and sealing a spool returns, however short the
  transfers are, and so does every read of at most a chunk of it: the loops end.
\<close>

theorem spool_fills:
  assumes "kind w" and "0 < length (concat ps)" and "\<forall>p\<in>set ps. length p \<le> stream_chunk"
  shows "\<exists>d w1 d2 w2 d3 w3.
    new_disk_snapshot (PyInt (int (length (concat ps)))) w = (Inr d, w1) \<and>
    append_all ps (d, w1) = (Inr (), (d2, w2)) \<and> spool_seal (d2, w2) = (Inr (), (d3, w3)) \<and>
    (\<forall>i j. i \<le> j \<and> j \<le> length (concat ps) \<and> j - i \<le> stream_chunk \<longrightarrow>
      (\<exists>w4. read_range d3 (PyInt (int i)) (PyInt (int j)) w3 = (Inr (slice i j (concat ps)), w4)))"
proof -
  obtain d w1 d2 w2 d3 w3 f where s: "new_disk_snapshot (PyInt (int (length (concat ps)))) w = (Inr d, w1)"
    "append_all ps (d, w1) = (Inr (), (d2, w2))" "spool_seal (d2, w2) = (Inr (), (d3, w3))"
    "spool_at (d3, w3) f" "kind w3" "content f = concat ps" "d_sealed d3" "d_written d3 = length (concat ps)"
    using fill_succeeds [OF assms] by blast
  have "\<exists>w4. read_range d3 (PyInt (int i)) (PyInt (int j)) w3 = (Inr (slice i j (concat ps)), w4)"
    if "i \<le> j" "j \<le> length (concat ps)" "j - i \<le> stream_chunk" for i j
    using read_range_kind [of d3 w3 f i j] s that by (auto simp: spool_at_def d_is_sealed_def)
  then show ?thesis using s(1-3) by blast
qed

end
