(* ===== verification/StreamReader.thy ===== *)
theory StreamReader
  imports StreamSpool
begin

text \<open>
  The authenticated reader: what it hands out is what its digests were fed, whatever
  happens to the files under it, and it leaves no descriptor open.
\<close>

section \<open>One turn of the reading loop\<close>

definition advanced :: "snapshot_reader \<Rightarrow> byte list \<Rightarrow> byte list \<Rightarrow> nat \<Rightarrow> snapshot_reader" where
  "advanced r fed bs count = r\<lparr>r_object_fed := Some (fed @ bs), r_snapshot_fed := r_snapshot_fed r @ bs,
     r_object_offset := r_object_offset r + count, r_position := r_position r + count\<rparr>"

lemma read_turn_Inr:
  assumes "read_turn sha want (r, w) = (Inr bs, (r', w'))"
  obtains ra wa fd fed count w1 w2 where
    "ensure_object (r, w) = (Inr (), (ra, wa))" "r_index ra < length (r_objects ra)"
    "r_fd ra = Some fd" "r_object_fed ra = Some fed"
    "count = min want (o_bytes (r_objects ra ! r_index ra) - r_object_offset ra)"
    "stream_pread_into fd count (r_object_offset ra) wa = (Inr bs, w1)"
    "stream_drop_cache fd (r_object_offset ra) count w1 = (Inr (), w2)"
    "r_object_offset ra + count = o_bytes (r_objects ra ! r_index ra) \<and>
       finish_object sha (advanced ra fed bs count, w2) = (Inr (), (r', w')) \<or>
     r_object_offset ra + count \<noteq> o_bytes (r_objects ra ! r_index ra) \<and> count \<noteq> 0 \<and>
       r' = advanced ra fed bs count \<and> w' = w2"
proof -
  obtain ra wa where e: "ensure_object (r, w) = (Inr (), (ra, wa))"
    using assms unfolding read_turn_def by (auto simp: andthen_Inr)
  define count where "count = min want (o_bytes (r_objects ra ! r_index ra) - r_object_offset ra)"
  have step: "andthen ensure_object f (r, w) = f () (ra, wa)" for f :: "unit \<Rightarrow> (reader_state, byte list) act"
    by (rule andthen_step [where m = ensure_object]) (rule e)
  have t: "(\<lambda>(r, w).
     if length (r_objects r) \<le> r_index r then (Inl IndexError, (r, w))
     else let o1 = r_objects r ! r_index r;
              count = min want (o_bytes o1 - r_object_offset r)
     in case (r_fd r, r_object_fed r) of
       (Some fd, Some fed) \<Rightarrow>
         (case stream_pread_into fd count (r_object_offset r) w of
           (Inl e, w1) \<Rightarrow> (Inl e, (r, w1))
         | (Inr bs, w1) \<Rightarrow>
           let r1 = r\<lparr>r_object_fed := Some (fed @ bs), r_snapshot_fed := r_snapshot_fed r @ bs\<rparr> in
           (case stream_drop_cache fd (r_object_offset r) count w1 of
             (Inl e, w2) \<Rightarrow> (Inl e, (r1, w2))
           | (Inr _, w2) \<Rightarrow>
             let r2 = r1\<lparr>r_object_offset := r_object_offset r + count,
                          r_position := r_position r + count\<rparr> in
             if r_object_offset r2 = o_bytes o1
             then andthen (finish_object sha) (\<lambda>_. ret bs) (r2, w2)
             else if count = 0 then (Inl Diverges, (r2, w2))
             else (Inr bs, (r2, w2))))
     | _ \<Rightarrow> (Inl AssertionError, (r, w))) (ra, wa) = (Inr bs, (r', w'))"
    using assms unfolding read_turn_def step .
  from t have inx: "r_index ra < length (r_objects ra)" by (auto split: if_splits)
  obtain fd fed where ff: "r_fd ra = Some fd" "r_object_fed ra = Some fed"
    using t inx by (auto simp: Let_def split: option.splits)
  obtain cs w1 where p: "stream_pread_into fd count (r_object_offset ra) wa = (Inr cs, w1)"
    using t inx ff by (auto simp: Let_def count_def split: prod.splits sum.splits)
  obtain w2 where d: "stream_drop_cache fd (r_object_offset ra) count w1 = (Inr (), w2)"
    using t inx ff p by (auto simp: Let_def count_def [symmetric] split: prod.splits sum.splits)
  have fin: "cs = bs \<and> (r_object_offset ra + count = o_bytes (r_objects ra ! r_index ra) \<and>
       finish_object sha (advanced ra fed bs count, w2) = (Inr (), (r', w')) \<or>
     r_object_offset ra + count \<noteq> o_bytes (r_objects ra ! r_index ra) \<and> count \<noteq> 0 \<and>
       r' = advanced ra fed bs count \<and> w' = w2)"
    using t inx ff p d
    by (auto simp: Let_def count_def [symmetric] advanced_def andthen_Inr ret_def split: if_splits)
  show thesis
    by (rule that [OF e inx ff count_def p [THEN trans] d]) (use fin in auto)
qed

section \<open>Authenticity\<close>

text \<open>The bytes of the objects that were completed carry the digests and sizes of the manifest.\<close>

definition matches :: "hash \<Rightarrow> byte list \<Rightarrow> object_descriptor \<Rightarrow> bool" where
  "matches sha b o1 \<longleftrightarrow> sha b = o_sha256 o1 \<and> length b = o_bytes o1"

definition fed_inv :: "hash \<Rightarrow> snapshot_reader \<Rightarrow> bool" where
  "fed_inv sha r \<longleftrightarrow> r_position r = length (r_snapshot_fed r) \<and> r_index r \<le> length (r_objects r) \<and>
     (\<exists>objs. list_all2 (matches sha) objs (take (r_index r) (r_objects r)) \<and>
       r_snapshot_fed r = concat objs @ (case r_fd r of None \<Rightarrow> [] | Some _ \<Rightarrow> the (r_object_fed r))) \<and>
     (r_fd r \<noteq> None \<longrightarrow> r_object_fed r \<noteq> None \<and> length (the (r_object_fed r)) = r_object_offset r)"

lemma ensure_object_fed:
  assumes "ensure_object (r, w) = (Inr (), (ra, wa))" and "fed_inv sha r"
  shows "fed_inv sha ra \<and> r_snapshot_fed ra = r_snapshot_fed r \<and> r_fd ra \<noteq> None \<and>
    r_objects ra = r_objects r \<and> r_encoded_bytes ra = r_encoded_bytes r \<and>
    r_encoded_sha256 ra = r_encoded_sha256 r \<and> r_closed ra = r_closed r \<and> r_finished ra = r_finished r"
  using assms
  by (auto simp: ensure_object_def open_object_def Let_def fed_inv_def
      split: option.splits if_splits prod.splits sum.splits)

lemma finish_object_Inr:
  assumes "finish_object sha (r, w) = (Inr (), (r', w'))"
  shows "\<exists>fed. r_object_fed r = Some fed \<and> sha fed = o_sha256 (r_objects r ! r_index r) \<and>
    r' = r\<lparr>r_fd := None, r_object_fed := None, r_index := Suc (r_index r), r_object_offset := 0\<rparr>"
  using assms unfolding finish_object_def
  by (auto simp: Let_def finally_do_def andthen_def throw_def
      split: option.splits prod.splits sum.splits if_splits)

lemma read_turn_fed:
  assumes "read_turn sha want (r, w) = (Inr bs, (r', w'))" and "fed_inv sha r"
  shows "fed_inv sha r' \<and> r_snapshot_fed r' = r_snapshot_fed r @ bs \<and> length bs \<le> want \<and>
    r_objects r' = r_objects r \<and> r_encoded_bytes r' = r_encoded_bytes r \<and>
    r_encoded_sha256 r' = r_encoded_sha256 r \<and> r_closed r' = r_closed r \<and> r_finished r' = r_finished r"
  using assms(1)
proof (cases rule: read_turn_Inr)
  case (1 ra wa fd fed count w1 w2)
  note en = ensure_object_fed [OF 1(1) assms(2)]
  have len: "length bs = count" by (rule pread_into_length [OF 1(6)])
  obtain objs where objs: "list_all2 (matches sha) objs (take (r_index ra) (r_objects ra))"
    "r_snapshot_fed ra = concat objs @ fed" and off: "length fed = r_object_offset ra"
    "r_position ra = length (r_snapshot_fed ra)"
    using en 1(3,4) by (auto simp: fed_inv_def)
  from 1(8) show ?thesis
  proof (elim disjE conjE)
    assume full: "r_object_offset ra + count = o_bytes (r_objects ra ! r_index ra)"
      and f: "finish_object sha (advanced ra fed bs count, w2) = (Inr (), (r', w'))"
    have sh: "sha (fed @ bs) = o_sha256 (r_objects ra ! r_index ra)" and
      r': "r' = (advanced ra fed bs count)\<lparr>r_fd := None, r_object_fed := None,
        r_index := Suc (r_index ra), r_object_offset := 0\<rparr>"
      using finish_object_Inr [OF f] by (auto simp: advanced_def)
    have "list_all2 (matches sha) (objs @ [fed @ bs]) (take (Suc (r_index ra)) (r_objects ra))"
      using objs(1) sh full off(1) len 1(2)
      by (simp add: take_Suc_conv_app_nth list_all2_appendI matches_def)
    then have "fed_inv sha r'"
      using objs(2) off 1(2) len r'
      by (auto simp: fed_inv_def advanced_def intro!: exI [of _ "objs @ [fed @ bs]"])
    then show ?thesis using en len r' 1(5) by (simp add: advanced_def)
  next
    assume r': "r' = advanced ra fed bs count"
    have "fed_inv sha r'"
      using objs off 1(2,3) len r' by (auto simp: fed_inv_def advanced_def)
    then show ?thesis using en len r' 1(5) by (simp add: advanced_def)
  qed
qed

lemma read_from_fed:
  "read_from sha n got (r, w) = (Inr bs, (r', w')) \<Longrightarrow> fed_inv sha r \<Longrightarrow> length got \<le> n \<Longrightarrow>
   \<exists>cs. bs = got @ cs \<and> length bs = n \<and> fed_inv sha r' \<and> r_snapshot_fed r' = r_snapshot_fed r @ cs \<and>
     r_objects r' = r_objects r \<and> r_encoded_bytes r' = r_encoded_bytes r \<and>
     r_encoded_sha256 r' = r_encoded_sha256 r \<and> r_closed r' = r_closed r \<and> r_finished r' = r_finished r"
proof (induction sha n got "(r, w)" arbitrary: r w rule: read_from.induct)
  case (1 sha n got r w)
  show ?case
  proof (cases "length got < n")
    case False
    then have "read_from sha n got (r, w) = (Inr got, (r, w))"
      by (subst read_from.simps) simp
    then show ?thesis using "1.prems" False by simp
  next
    case True
    obtain ps r1 w1 where t: "read_turn sha (n - length got) (r, w) = (Inr ps, (r1, w1))"
      and rest: "read_from sha n (got @ ps) (r1, w1) = (Inr bs, (r', w'))"
      using "1.prems"(1) True by (subst (asm) read_from.simps) (auto split: prod.splits sum.splits)
    note tf = read_turn_fed [OF t "1.prems"(2)]
    have "length (got @ ps) \<le> n" using tf True by auto
    then obtain cs where "bs = (got @ ps) @ cs" "length bs = n" "fed_inv sha r'"
      "r_snapshot_fed r' = r_snapshot_fed r1 @ cs" "r_objects r' = r_objects r1"
      "r_encoded_bytes r' = r_encoded_bytes r1" "r_encoded_sha256 r' = r_encoded_sha256 r1"
      "r_closed r' = r_closed r1" "r_finished r' = r_finished r1"
      using "1.hyps" [OF True t [symmetric] refl rest] tf by blast
    then show ?thesis using tf by (intro exI [of _ "ps @ cs"]) simp
  qed
qed

lemma read_exact_fed:
  assumes "read_exact sha a (r, w) = (Inr bs, (r', w'))" and "fed_inv sha r"
  shows "\<exists>n. a = PyInt (int n) \<and> n \<le> stream_chunk \<and> length bs = n \<and> fed_inv sha r' \<and>
    r_snapshot_fed r' = r_snapshot_fed r @ bs \<and> r_objects r' = r_objects r \<and>
    r_encoded_bytes r' = r_encoded_bytes r \<and> r_encoded_sha256 r' = r_encoded_sha256 r \<and>
    r_finished r' = r_finished r"
proof -
  obtain z where z: "a = PyInt z" "0 \<le> z" "z \<le> int stream_chunk"
    "read_from sha (nat z) [] (r, w) = (Inr bs, (r', w'))"
    using assms(1) unfolding read_exact_def
    by (auto split: if_splits pyval.splits prod.splits sum.splits)
  from read_from_fed [OF z(4) assms(2)] z(1-3) show ?thesis
    by (intro exI [of _ "nat z"]) auto
qed

text \<open>
  A restore: reads at any moments, the files, names, descriptors and schedule being
  whatever they are by then.
\<close>

fun read_calls :: "hash \<Rightarrow> (world \<times> pyval) list \<Rightarrow> snapshot_reader \<Rightarrow>
  (io_exn + byte list list) \<times> snapshot_reader" where
  "read_calls sha [] r = (Inr [], r)"
| "read_calls sha ((w, a) # cs) r = (case read_exact sha a (r, w) of
     (Inl e, (r1, w1)) \<Rightarrow> (Inl e, r1)
   | (Inr b, (r1, w1)) \<Rightarrow> (case read_calls sha cs r1 of
       (Inl e, r2) \<Rightarrow> (Inl e, r2) | (Inr bs, r2) \<Rightarrow> (Inr (b # bs), r2)))"

lemma read_calls_fed:
  "read_calls sha cs r = (Inr bs, r') \<Longrightarrow> fed_inv sha r \<Longrightarrow>
   fed_inv sha r' \<and> r_snapshot_fed r' = r_snapshot_fed r @ concat bs \<and> r_objects r' = r_objects r \<and>
   r_encoded_bytes r' = r_encoded_bytes r \<and> r_encoded_sha256 r' = r_encoded_sha256 r \<and>
   r_finished r' = r_finished r \<and>
   list_all2 (\<lambda>(w, a) b. a = PyInt (int (length b)) \<and> length b \<le> stream_chunk) cs bs"
proof (induction cs arbitrary: r bs)
  case (Cons c cs)
  obtain w a where c: "c = (w, a)" by fastforce
  obtain b r1 w1 bs1 where b: "read_exact sha a (r, w) = (Inr b, (r1, w1))"
    and rest: "read_calls sha cs r1 = (Inr bs1, r')" and bs: "bs = b # bs1"
    using Cons.prems(1) c by (auto split: prod.splits sum.splits)
  from read_exact_fed [OF b Cons.prems(2)] Cons.IH [OF rest] show ?case
    using bs c by auto
qed simp

lemma new_reader_fed: "fed_inv sha (new_reader base os n digest)"
  by (simp add: fed_inv_def new_reader_def)

text \<open>
  C4. A restore is authentic: if all reads return and \<open>finish\<close> accepts, the bytes handed
  out hash to the digest of the manifest, have its length, and are the concatenation of
  objects of exactly the digests and sizes listed, no matter how files were replaced,
  truncated or corrupted between the calls. Each read gave exactly the bytes asked for, at
  most a chunk.
\<close>

theorem restore_authentic:
  assumes "read_calls sha calls (new_reader base os n digest) = (Inr outs, r)"
    and "reader_finish sha (r, w) = (Inr (), (r', w'))"
  shows "sha (concat outs) = digest \<and> length (concat outs) = n \<and>
    (\<exists>objs. concat outs = concat objs \<and> list_all2 (matches sha) objs os) \<and>
    list_all2 (\<lambda>(w, a) b. a = PyInt (int (length b)) \<and> length b \<le> stream_chunk) calls outs"
proof -
  note rc = read_calls_fed [OF assms(1) new_reader_fed]
  have fin: "r_position r = n" "r_index r = length (r_objects r)" "r_fd r = None"
    "sha (r_snapshot_fed r) = digest"
    using assms(2) rc unfolding reader_finish_def
    by (auto simp: new_reader_def split: if_splits)
  obtain objs where "list_all2 (matches sha) objs os" "concat outs = concat objs"
    using rc fin by (auto simp: fed_inv_def new_reader_def)
  then show ?thesis
    using rc fin by (auto simp: fed_inv_def new_reader_def)
qed

section \<open>Descriptors\<close>

text \<open>Calls that only read change nothing but the schedule, whatever their descriptor is.\<close>

lemma sys_with_file_quiet:
  assumes "sys (\<lambda>cap. with_file fd (k cap)) w = (r, w')"
    and "\<And>cap f w1. quiet w1 (snd (k cap f w1))"
  shows "quiet w w'"
  using assms(1)
proof (cases rule: sys_cases)
  case (run cap w1)
  then show ?thesis
    using assms(2) [of w1 cap] quiet_trans [OF run(1)]
    by (auto simp: with_file_def split: option.splits) (metis snd_conv)
qed simp

lemma preadv_quiet: "os_preadv fd n off w = (r, w') \<Longrightarrow> quiet w w'"
  unfolding os_preadv_def by (erule sys_with_file_quiet) (simp add: Let_def)

lemma fadvise_quiet: "os_posix_fadvise fd a n w = (r, w') \<Longrightarrow> quiet w w'"
  unfolding os_posix_fadvise_def by (erule sys_with_file_quiet) simp

lemma fstat_quiet: "os_fstat fd w = (r, w') \<Longrightarrow> quiet w w'"
  unfolding os_fstat_def by (erule sys_with_file_quiet) simp

lemma pread_quiet: "pread_from fd len off got w = (r, w') \<Longrightarrow> quiet w w'"
proof (induction fd len off got w rule: pread_from.induct)
  case (1 fd len off got w)
  show ?case
  proof (cases "length got < len")
    case False
    then show ?thesis using "1.prems" by (subst (asm) pread_from.simps) simp
  next
    case True
    obtain q w1 where q: "os_preadv fd (len - length got) (off + length got) w = (q, w1)" by fastforce
    note qq = preadv_quiet [OF q]
    have u: "pread_from fd len off got w = (case q of Inl e \<Rightarrow> (Inl e, w1)
        | Inr bs \<Rightarrow> if bs = [] then (Inl (CacheFormatError ''page snapshot object file was truncated''), w1)
            else pread_from fd len off (got @ bs) w1)"
      using True by (subst pread_from.simps) (simp add: q split: sum.split)
    show ?thesis
    proof (cases "\<exists>bs. q = Inr bs \<and> bs \<noteq> []")
      case False
      then show ?thesis using "1.prems" qq unfolding u by (auto split: sum.splits if_splits)
    next
      case bs: True
      then obtain bs where b: "q = Inr bs" "bs \<noteq> []" by blast
      then have "pread_from fd len off (got @ bs) w1 = (r, w')" using "1.prems" u by simp
      from "1.IH" [OF True q [symmetric] b this] qq show ?thesis by (blast intro: quiet_trans)
    qed
  qed
qed

lemma pread_into_any: "stream_pread_into fd len off w = (r, w') \<Longrightarrow> quiet w w'"
  unfolding stream_pread_into_def by (rule pread_quiet)

lemma drop_cache_any:
  assumes "stream_drop_cache fd a n w = (r, w')"
  shows "quiet w w'"
proof -
  obtain q w1 where q: "os_posix_fadvise fd a n w = (q, w1)" by fastforce
  show ?thesis
    using assms fadvise_quiet [OF q] q
    by (auto simp: stream_drop_cache_def except_on_def ret_def split: if_splits sum.splits)
qed

lemma regular_size_quiet:
  assumes "stream_require_regular_size fd n w = (r, w')"
  shows "quiet w w'"
proof -
  obtain q w1 where q: "os_fstat fd w = (q, w1)" by fastforce
  show ?thesis
    using assms fstat_quiet [OF q] q
    by (auto simp: stream_require_regular_size_def andthen_def ret_def throw_def
        split: if_splits sum.splits prod.splits)
qed

lemma open_readonly_cases:
  assumes "stream_open_readonly p w = (r, w')"
  obtains (fail) e where "r = Inl (OSError e)" "quiet w w'"
    | (opened) i where "r = Inr (w_fresh w)" "w_names w p = Some i"
        "quiet (w\<lparr>w_fds := (w_fds w)(w_fresh w \<mapsto> i), w_fresh := Suc (w_fresh w)\<rparr>) w'"
  using assms unfolding stream_open_readonly_def os_open_def
proof (cases rule: sys_cases)
  case (fail e)
  then show thesis using that(1) by blast
next
  case (run cap w1)
  then show thesis
    using that by (auto simp: quiet_iff split: option.splits)
qed

text \<open>No number that was not handed out yet is open.\<close>

definition fds_ok :: "world \<Rightarrow> bool" where
  "fds_ok w \<longleftrightarrow> (\<forall>fd. w_fresh w \<le> fd \<longrightarrow> w_fds w fd = None)"

lemma fds_ok_quiet: "quiet w w' \<Longrightarrow> fds_ok w' = fds_ok w"
  by (simp add: fds_ok_def quiet_iff)

text \<open>The open descriptors are \<open>fds\<close> and, while an object is open, the reader's own.\<close>

definition owns :: "(nat \<Rightarrow> nat option) \<Rightarrow> snapshot_reader \<Rightarrow> world \<Rightarrow> bool" where
  "owns fds r w \<longleftrightarrow> fds_ok w \<and> (case r_fd r of None \<Rightarrow> w_fds w = fds
     | Some fd \<Rightarrow> fds fd = None \<and> (w_fds w)(fd := None) = fds)"

lemma owns_quiet: "owns fds r w \<Longrightarrow> quiet w w' \<Longrightarrow> owns fds r w'"
  by (simp add: owns_def fds_ok_quiet) (simp add: quiet_iff split: option.splits)

lemma owns_fd: "owns fds r w \<Longrightarrow> r_fd r' = r_fd r \<Longrightarrow> owns fds r' w"
  by (simp add: owns_def)

lemma owns_close:
  assumes "owns fds r w" "r_fd r = Some fd" "r_fd r' = None"
  shows "owns fds r' (snd (os_close fd w))"
  using assms by (auto simp: owns_def os_close_def fds_ok_def)

lemma same_tables_close: "w_files (snd (os_close fd w)) = w_files w" "w_names (snd (os_close fd w)) = w_names w"
  by (simp_all add: os_close_def)

text \<open>Reading leaves files and names alone.\<close>

definition unchanged :: "world \<Rightarrow> world \<Rightarrow> bool" where
  "unchanged w w' \<longleftrightarrow> w_files w' = w_files w \<and> w_names w' = w_names w"

lemma unchanged_quiet: "quiet w w' \<Longrightarrow> unchanged w w'"
  by (simp add: unchanged_def quiet_iff)

lemma unchanged_trans: "unchanged u v \<Longrightarrow> unchanged v w \<Longrightarrow> unchanged u w"
  by (simp add: unchanged_def)

lemma unchanged_refl [simp]: "unchanged w w"
  by (simp add: unchanged_def)

lemma unchanged_close [simp]: "unchanged w (snd (os_close fd w))"
  by (simp add: unchanged_def os_close_def)

definition same_flags :: "snapshot_reader \<Rightarrow> snapshot_reader \<Rightarrow> bool" where
  "same_flags r r' \<longleftrightarrow> r_closed r' = r_closed r \<and> r_finished r' = r_finished r"

lemma same_flags_refl [simp]: "same_flags r r"
  by (simp add: same_flags_def)

lemma same_flags_trans: "same_flags a b \<Longrightarrow> same_flags b c \<Longrightarrow> same_flags a c"
  by (simp add: same_flags_def)

lemma open_object_owns:
  assumes "open_object (r, w) = (q, (r', w'))" "owns fds r w" "r_fd r = None"
  shows "owns fds r' w' \<and> unchanged w w' \<and> same_flags r r'"
proof (cases "length (r_objects r) \<le> r_index r")
  case True
  then show ?thesis using assms by (auto simp: open_object_def)
next
  case False
  let ?o = "r_objects r ! r_index r"
  obtain t w1 where t: "stream_open_readonly (object_path (r_root r) (o_sha256 ?o)) w = (t, w1)" by fastforce
  from t show ?thesis
  proof (cases rule: open_readonly_cases)
    case (fail e)
    then show ?thesis
      using assms False t by (auto simp: open_object_def Let_def intro: owns_quiet unchanged_quiet)
  next
    case (opened i)
    let ?r1 = "r\<lparr>r_fd := Some (w_fresh w), r_object_fed := Some [], r_object_offset := 0\<rparr>"
    have own: "owns fds ?r1 w1" and un: "unchanged w w1"
      using opened(3) assms(2,3)
      by (auto simp: owns_def fds_ok_def quiet_iff unchanged_def)
    obtain u w2 where u: "stream_require_regular_size (w_fresh w) (o_bytes ?o) w1 = (u, w2)" by fastforce
    note q = regular_size_quiet [OF u]
    have own2: "owns fds ?r1 w2" by (rule owns_quiet [OF own q])
    show ?thesis
    proof (cases u)
      case (Inl e)
      then have "r' = r\<lparr>r_fd := None\<rparr>" "w' = snd (os_close (w_fresh w) w2)"
        using assms(1) False t opened(1) u by (simp_all add: open_object_def Let_def)
      then show ?thesis
        using owns_close [OF own2] un unchanged_quiet [OF q] unchanged_trans
        by (auto intro: unchanged_trans simp: same_flags_def)
    next
      case (Inr x)
      then have "r' = ?r1" "w' = w2"
        using assms(1) False t opened(1) u by (simp_all add: open_object_def Let_def)
      then show ?thesis
        using own2 unchanged_trans [OF un unchanged_quiet [OF q]] by (simp add: same_flags_def)
    qed
  qed
qed

lemma finish_object_owns:
  assumes "finish_object sha (r, w) = (q, (r', w'))" "owns fds r w"
  shows "owns fds r' w' \<and> unchanged w w' \<and> same_flags r r'"
proof (cases "\<exists>fd fed. r_fd r = Some fd \<and> r_object_fed r = Some fed")
  case False
  then have "r' = r \<and> w' = w"
    using assms(1) by (auto simp: finish_object_def split: option.splits)
  then show ?thesis using assms(2) by simp
next
  case True
  then obtain fd fed where ff: "r_fd r = Some fd" "r_object_fed r = Some fed" by blast
  obtain u w1 where u: "stream_require_regular_size fd (o_bytes (r_objects r ! r_index r)) w = (u, w1)" by fastforce
  note q = regular_size_quiet [OF u]
  have "r_fd r' = None \<and> w' = snd (os_close fd w1) \<and> same_flags r r'"
    using assms(1) ff u
    by (auto simp: same_flags_def finish_object_def Let_def finally_do_def andthen_def throw_def ret_def os_close_def
        split: sum.splits prod.splits if_splits)
  then show ?thesis
    using owns_close [OF owns_quiet [OF assms(2) q] ff(1)] unchanged_quiet [OF q]
    by (auto intro: unchanged_trans)
qed

lemma read_turn_owns:
  assumes "read_turn sha want (r, w) = (q, (r', w'))" "owns fds r w"
  shows "owns fds r' w' \<and> unchanged w w' \<and> same_flags r r'"
proof -
  obtain eq ra wa where e: "ensure_object (r, w) = (eq, (ra, wa))"
    by (cases "ensure_object (r, w)") auto
  have a: "owns fds ra wa" "unchanged w wa" "same_flags r ra"
    using e assms(2) open_object_owns by (auto simp: ensure_object_def split: option.splits)
  show ?thesis
  proof (cases eq)
    case (Inl x)
    then show ?thesis using assms(1) e a by (simp add: read_turn_def andthen_def)
  next
    case (Inr x)
    define count where "count = min want (o_bytes (r_objects ra ! r_index ra) - r_object_offset ra)"
    show ?thesis
    proof (cases "r_index ra < length (r_objects ra) \<and> (\<exists>fd fed. r_fd ra = Some fd \<and> r_object_fed ra = Some fed)")
      case False
      then have "r' = ra \<and> w' = wa"
        using assms(1) e Inr
        by (auto simp: read_turn_def andthen_def Let_def split: if_splits option.splits)
      then show ?thesis using a by simp
    next
      case True
      then obtain fd fed where ff: "r_index ra < length (r_objects ra)" "r_fd ra = Some fd" "r_object_fed ra = Some fed"
        by blast
      obtain p w1 where p: "stream_pread_into fd count (r_object_offset ra) wa = (p, w1)" by fastforce
      note q1 = pread_into_any [OF p]
      obtain t w2 where t: "stream_drop_cache fd (r_object_offset ra) count w1 = (t, w2)" by fastforce
      note q2 = quiet_trans [OF q1 drop_cache_any [OF t]]
      have o2: "owns fds ra w2" and u2: "unchanged w w2"
        using owns_quiet [OF a(1) q2] unchanged_trans [OF a(2) unchanged_quiet [OF q2]] by simp_all
      have o1: "owns fds ra w1" and u1: "unchanged w w1"
        using owns_quiet [OF a(1) q1] unchanged_trans [OF a(2) unchanged_quiet [OF q1]] by simp_all
      have m: "(case p of Inl e \<Rightarrow> q = Inl e \<and> r' = ra \<and> w' = w1
        | Inr bs \<Rightarrow> (case t of Inl e \<Rightarrow> r_fd r' = r_fd ra \<and> same_flags ra r' \<and> w' = w2
          | Inr _ \<Rightarrow> (\<exists>y. finish_object sha (advanced ra fed bs count, w2) = (y, (r', w'))) \<or>
              r' = advanced ra fed bs count \<and> w' = w2))"
        using assms(1) e Inr ff p t
        by (auto simp: read_turn_def andthen_def Let_def count_def [symmetric] advanced_def ret_def same_flags_def
            split: sum.splits prod.splits if_splits)
      show ?thesis
      proof (cases p)
        case (Inl y)
        then show ?thesis using m o1 u1 a(3) by simp
      next
        case bs: (Inr bs)
        have adv: "owns fds (advanced ra fed bs count) w2" "same_flags r (advanced ra fed bs count)"
          using owns_fd [OF o2] a(3) by (simp_all add: advanced_def same_flags_def)
        show ?thesis
        proof (cases t)
          case (Inl y)
          then show ?thesis using m bs o2 u2 owns_fd same_flags_trans [OF a(3)] by auto
        next
          case (Inr y)
          then show ?thesis
            using m bs adv u2 finish_object_owns [OF _ adv(1)] unchanged_trans
              same_flags_trans [OF adv(2)] by auto
        qed
      qed
    qed
  qed
qed

lemma read_from_owns:
  "read_from sha n got (r, w) = (q, (r', w')) \<Longrightarrow> owns fds r w \<Longrightarrow>
   owns fds r' w' \<and> unchanged w w' \<and> same_flags r r'"
proof (induction sha n got "(r, w)" arbitrary: r w rule: read_from.induct)
  case (1 sha n got r w)
  show ?case
  proof (cases "length got < n")
    case False
    then have "read_from sha n got (r, w) = (Inr got, (r, w))"
      by (subst read_from.simps) simp
    then show ?thesis using "1.prems" by simp
  next
    case True
    obtain t r1 w1 where t: "read_turn sha (n - length got) (r, w) = (t, (r1, w1))"
      by (cases "read_turn sha (n - length got) (r, w)") auto
    note o1 = read_turn_owns [OF t "1.prems"(2)]
    have u: "read_from sha n got (r, w) = (case t of Inl e \<Rightarrow> (Inl e, (r1, w1))
        | Inr bs \<Rightarrow> read_from sha n (got @ bs) (r1, w1))"
      using True t by (subst read_from.simps) (simp split: sum.split)
    show ?thesis
    proof (cases t)
      case (Inl e)
      then show ?thesis using "1.prems"(1) o1 u by simp
    next
      case (Inr bs)
      then have "read_from sha n (got @ bs) (r1, w1) = (q, (r', w'))" using "1.prems"(1) u by simp
      from "1.hyps" [OF True t [symmetric] Inr this] o1 show ?thesis
        using unchanged_trans same_flags_trans by blast
    qed
  qed
qed

lemma reader_close_owns:
  assumes "owns fds r w" and "snd (reader_close (r, w)) = (r', w')"
  shows "owns fds r' w' \<and> unchanged w w' \<and> r_fd r' = None"
proof (cases "r_fd r")
  case None
  then show ?thesis using assms owns_fd [OF assms(1)] by (auto simp: reader_close_def)
next
  case (Some fd)
  then show ?thesis using assms owns_close [OF assms(1) Some] by (auto simp: reader_close_def)
qed

lemma read_exact_owns:
  assumes "read_exact sha a (r, w) = (q, (r', w'))" and "owns fds r w"
  shows "owns fds r' w' \<and> unchanged w w'"
proof (cases "\<exists>z. a = PyInt z \<and> \<not> (r_closed r \<or> r_finished r) \<and> 0 \<le> z \<and> z \<le> int stream_chunk \<and>
    r_position r + nat z \<le> r_encoded_bytes r")
  case False
  then have "r' = r \<and> w' = w"
    using assms(1) unfolding read_exact_def by (auto split: if_splits pyval.splits)
  then show ?thesis using assms(2) by simp
next
  case True
  then obtain z where z: "a = PyInt z" "\<not> (r_closed r \<or> r_finished r)" "0 \<le> z" "z \<le> int stream_chunk"
    "r_position r + nat z \<le> r_encoded_bytes r" by blast
  obtain t r1 w1 where t: "read_from sha (nat z) [] (r, w) = (t, (r1, w1))"
    by (cases "read_from sha (nat z) [] (r, w)") auto
  note o1 = read_from_owns [OF t assms(2)]
  show ?thesis
  proof (cases t)
    case (Inl e)
    then have "snd (reader_close (r1, w1)) = (r', w')"
      using assms(1) z t by (auto simp: read_exact_def split: if_splits)
    from reader_close_owns [OF conjunct1 [OF o1] this] o1 show ?thesis
      using unchanged_trans by blast
  next
    case (Inr bs)
    then have "r' = r1 \<and> w' = w1"
      using assms(1) z t by (auto simp: read_exact_def split: if_splits)
    then show ?thesis using o1 by simp
  qed
qed

text \<open>The body of a \<open>with\<close> block that reads a number of pieces, and the block itself.\<close>

fun read_pieces :: "hash \<Rightarrow> pyval list \<Rightarrow> (reader_state, byte list list) act" where
  "read_pieces sha [] = ret []"
| "read_pieces sha (a # as) =
     andthen (read_exact sha a) (\<lambda>b. andthen (read_pieces sha as) (\<lambda>bs. ret (b # bs)))"

definition with_reader :: "hash \<Rightarrow> (reader_state, 'a) act \<Rightarrow> (reader_state, 'a) act" where
  "with_reader sha body = (\<lambda>s. case body s of
     (Inl e, t) \<Rightarrow> andthen (reader_exit sha True) (\<lambda>_. throw e) t
   | (Inr x, t) \<Rightarrow> andthen (reader_exit sha False) (\<lambda>_. ret x) t)"

lemma read_pieces_owns:
  "read_pieces sha as (r, w) = (q, (r', w')) \<Longrightarrow> owns fds r w \<Longrightarrow> owns fds r' w' \<and> unchanged w w'"
proof (induction as arbitrary: r w q)
  case Nil
  then show ?case by (simp add: ret_def)
next
  case (Cons a as)
  obtain t r1 w1 where t: "read_exact sha a (r, w) = (t, (r1, w1))"
    by (cases "read_exact sha a (r, w)") auto
  note o1 = read_exact_owns [OF t Cons.prems(2)]
  show ?case
  proof (cases t)
    case (Inl e)
    then show ?thesis using Cons.prems(1) t o1 by (simp add: andthen_def)
  next
    case (Inr b)
    obtain p r2 w2 where p: "read_pieces sha as (r1, w1) = (p, (r2, w2))"
      by (cases "read_pieces sha as (r1, w1)") auto
    have "r' = r2 \<and> w' = w2"
      using Cons.prems(1) t Inr p by (auto simp: andthen_def ret_def split: sum.splits)
    then show ?thesis using Cons.IH [of r1 w1 p] p o1 unchanged_trans by blast
  qed
qed

lemma finish_owns:
  assumes "reader_finish sha (r, w) = (q, (r', w'))" and "owns fds r w" and "\<not> r_finished r"
  shows "owns fds r' w' \<and> unchanged w w' \<and> (r_closed r \<or> r_fd r' = None)"
proof -
  consider (closed) "r_closed r" | (bad) "\<not> r_closed r" "snd (reader_close (r, w)) = (r', w')"
    | (good) "\<not> r_closed r" "r_fd r = None" "r' = r\<lparr>r_finished := True\<rparr>" "w' = w"
    using assms(1,3) unfolding reader_finish_def by (auto split: if_splits)
  then show ?thesis
  proof cases
    case closed
    then have "r' = r \<and> w' = w" using assms(1,3) by (auto simp: reader_finish_def)
    then show ?thesis using assms(2) closed by simp
  next
    case bad
    then show ?thesis using reader_close_owns [OF assms(2), of r' w'] by simp
  next
    case good
    then show ?thesis using owns_fd [OF assms(2), of r'] by simp
  qed
qed

text \<open>A closed reader has no descriptor; reading keeps it so.\<close>

definition settled :: "snapshot_reader \<Rightarrow> bool" where
  "settled r \<longleftrightarrow> \<not> r_finished r \<and> (r_closed r \<longrightarrow> r_fd r = None)"

lemma close_settled: "snd (reader_close (r, w)) = (r', w') \<Longrightarrow> \<not> r_finished r \<Longrightarrow> settled r' \<and> r_fd r' = None"
  by (auto simp: reader_close_def settled_def split: option.splits)

lemma read_exact_settled:
  assumes "read_exact sha a (r, w) = (q, (r', w'))" and "owns fds r w" and "settled r"
  shows "settled r'"
proof (cases "\<exists>z. a = PyInt z \<and> \<not> (r_closed r \<or> r_finished r) \<and> 0 \<le> z \<and> z \<le> int stream_chunk \<and>
    r_position r + nat z \<le> r_encoded_bytes r")
  case False
  then have "r' = r"
    using assms(1) unfolding read_exact_def by (auto split: if_splits pyval.splits)
  then show ?thesis using assms(3) by simp
next
  case True
  then obtain z where z: "a = PyInt z" "\<not> (r_closed r \<or> r_finished r)" "0 \<le> z" "z \<le> int stream_chunk"
    "r_position r + nat z \<le> r_encoded_bytes r" by blast
  obtain t r1 w1 where t: "read_from sha (nat z) [] (r, w) = (t, (r1, w1))"
    by (cases "read_from sha (nat z) [] (r, w)") auto
  have fl: "\<not> r_closed r1" "\<not> r_finished r1"
    using read_from_owns [OF t assms(2)] z(2) by (simp_all add: same_flags_def)
  show ?thesis
  proof (cases t)
    case (Inl e)
    then have "snd (reader_close (r1, w1)) = (r', w')"
      using assms(1) z t by (auto simp: read_exact_def split: if_splits)
    then show ?thesis using close_settled fl by blast
  next
    case (Inr bs)
    then have "r' = r1"
      using assms(1) z t by (auto simp: read_exact_def split: if_splits)
    then show ?thesis using fl by (simp add: settled_def)
  qed
qed

lemma read_pieces_settled:
  "read_pieces sha as (r, w) = (q, (r', w')) \<Longrightarrow> owns fds r w \<Longrightarrow> settled r \<Longrightarrow> settled r'"
proof (induction as arbitrary: r w q)
  case Nil
  then show ?case by (simp add: ret_def)
next
  case (Cons a as)
  obtain t r1 w1 where t: "read_exact sha a (r, w) = (t, (r1, w1))"
    by (cases "read_exact sha a (r, w)") auto
  have s1: "settled r1" "owns fds r1 w1"
    using read_exact_settled [OF t Cons.prems(2,3)] read_exact_owns [OF t Cons.prems(2)] by simp_all
  show ?case
  proof (cases t)
    case (Inl e)
    then show ?thesis using Cons.prems(1) t s1 by (simp add: andthen_def)
  next
    case (Inr b)
    obtain p r2 w2 where p: "read_pieces sha as (r1, w1) = (p, (r2, w2))"
      by (cases "read_pieces sha as (r1, w1)") auto
    have "r' = r2 \<and> w' = w2"
      using Cons.prems(1) t Inr p by (auto simp: andthen_def ret_def split: sum.splits)
    then show ?thesis using Cons.IH [of r1 w1 p] p s1 by blast
  qed
qed

lemma exit_owns:
  assumes "reader_exit sha raised (r, w) = (q, (r', w'))" and "owns fds r w" and "settled r"
  shows "owns fds r' w' \<and> unchanged w w' \<and> r_fd r' = None"
proof (cases raised)
  case True
  then show ?thesis
    using assms reader_close_owns [OF assms(2), of r' w'] by (simp add: reader_exit_def)
next
  case False
  then have f: "reader_finish sha (r, w) = (q, (r', w'))" using assms(1) by (simp add: reader_exit_def)
  show ?thesis
  proof (cases "r_closed r")
    case True
    then have "r' = r \<and> w' = w" using f assms(3) by (auto simp: reader_finish_def settled_def)
    then show ?thesis using assms(2,3) True by (simp add: settled_def)
  next
    case False
    then show ?thesis using finish_owns [OF f assms(2)] assms(3) by (simp add: settled_def)
  qed
qed

lemma preflight_fds:
  "preflight_files base os w = (q, w') \<Longrightarrow> fds_ok w \<Longrightarrow>
   w_fds w' = w_fds w \<and> fds_ok w' \<and> unchanged w w'"
proof (induction os arbitrary: w)
  case Nil
  then show ?case by (simp add: ret_def)
next
  case (Cons o1 os)
  obtain t w1 where t: "stream_open_readonly (object_path base (o_sha256 o1)) w = (t, w1)" by fastforce
  from t show ?case
  proof (cases rule: open_readonly_cases)
    case (fail e)
    then show ?thesis
      using Cons.prems t fds_ok_quiet [OF fail(2)] unchanged_quiet [OF fail(2)]
      by (simp add: andthen_def) (use fail(2) in \<open>simp add: quiet_iff\<close>)
  next
    case (opened i)
    obtain u w2 where u: "stream_require_regular_size (w_fresh w) (o_bytes o1) w1 = (u, w2)" by fastforce
    note q = regular_size_quiet [OF u]
    let ?w3 = "w2\<lparr>w_fds := (w_fds w2)(w_fresh w := None)\<rparr>"
    have w3: "w_fds ?w3 = w_fds w" "fds_ok ?w3" "unchanged w ?w3"
      using opened(3) q Cons.prems(2) by (auto simp: quiet_iff fds_ok_def unchanged_def)
    show ?thesis
    proof (cases u)
      case (Inl e)
      then have "w' = ?w3"
        using Cons.prems(1) t opened(1) u by (simp add: andthen_def finally_do_def os_close_def)
      then show ?thesis using w3 by simp
    next
      case (Inr x)
      then have "preflight_files base os ?w3 = (q, w')"
        using Cons.prems(1) t opened(1) u by (simp add: andthen_def finally_do_def os_close_def)
      from Cons.IH [OF this w3(2)] show ?thesis using w3 unchanged_trans by auto
    qed
  qed
qed

text \<open>
  C36. Opening a reader and reading through it in a \<open>with\<close> block, with any arguments and any
  failing or short calls, leaves the open descriptors, the names and the files as they
  were, whether it returns or raises.
\<close>

theorem reader_closes:
  assumes "fds_ok w" and "make_reader base os n digest w = (q, w1)"
  shows "w_fds w1 = w_fds w \<and> unchanged w w1 \<and>
    (\<forall>r args p r' w2. q = Inr r \<and> with_reader sha (read_pieces sha args) (r, w1) = (p, (r', w2)) \<longrightarrow>
      w_fds w2 = w_fds w \<and> unchanged w w2 \<and> r_fd r' = None)"
proof -
  obtain t v where t: "preflight_files base os w = (t, v)" by fastforce
  have m: "w1 = v \<and> (\<forall>r. q = Inr r \<longrightarrow> r = new_reader base os n digest)"
    using assms(2) t by (auto simp: make_reader_def andthen_def ret_def split: sum.splits)
  note pf = preflight_fds [OF t assms(1)]
  have "w_fds w2 = w_fds w \<and> unchanged w w2 \<and> r_fd r' = None"
    if q: "q = Inr r" and run: "with_reader sha (read_pieces sha args) (r, w1) = (p, (r', w2))"
    for r args p r' w2
  proof -
    have own: "owns (w_fds w) r w1" and set: "settled r"
      using m q pf by (auto simp: owns_def settled_def new_reader_def)
    obtain b r1 v1 where b: "read_pieces sha args (r, w1) = (b, (r1, v1))"
      by (cases "read_pieces sha args (r, w1)") auto
    note o1 = read_pieces_owns [OF b own] and s1 = read_pieces_settled [OF b own set]
    obtain y where "reader_exit sha (\<exists>e. b = Inl e) (r1, v1) = (y, (r', w2))"
      using run b by (auto simp: with_reader_def andthen_def throw_def ret_def
          split: sum.splits prod.splits)
    from exit_owns [OF this conjunct1 [OF o1] s1] o1 show ?thesis
      using m pf by (auto simp: owns_def unchanged_def)
  qed
  then show ?thesis using m pf by blast
qed

end
