(* ===== verification/StreamPublish.thy ===== *)
theory StreamPublish
  imports StreamReader
begin

text \<open>
  Publication: what one object and a whole snapshot leave on disk, and that a reader of
  the published objects gets the spool's bytes back.
\<close>

section \<open>Chunk offsets\<close>

lemma chunk_offsets_rec:
  assumes "0 < s"
  shows "chunk_offsets a b s = (if a < b then a # chunk_offsets (a + s) b s else [])"
proof (cases "a < b")
  case False
  then show ?thesis using assms by (simp add: chunk_offsets_def)
next
  case True
  have "(b - a + s - 1) div s = Suc ((b - (a + s) + s - 1) div s)"
  proof (cases "b \<le> a + s")
    case le: True
    have "s * 1 \<le> b - a + s - 1" "b - a + s - 1 < s * Suc 1" using True assms le by simp_all
    then have "(b - a + s - 1) div s = 1" by (rule div_nat_eqI)
    then show ?thesis using le assms by simp
  next
    case False
    then have "b - a + s - 1 = s + (b - (a + s) + s - 1)" using assms by simp
    then show ?thesis using assms div_add_self1 [of s "b - (a + s) + s - 1"] by (simp only:)
  qed
  moreover have "map f [0..<Suc m] = f 0 # map (\<lambda>k. f (Suc k)) [0..<m]" for f :: "nat \<Rightarrow> nat" and m
    by (simp add: upt_conv_Cons map_Suc_upt [symmetric] comp_def del: upt_Suc)
  ultimately show ?thesis
    using True by (simp add: chunk_offsets_def algebra_simps del: upt_Suc)
qed

section \<open>Copying a range to the staged file\<close>

lemma copy_pieces_became:
  assumes "d_is_sealed d" "spool_inv d f" "start \<le> a" "stop \<le> d_written d"
    "copy_pieces d fd start stop (chunk_offsets a stop stream_chunk) sofar (fed, w) = (r, (fed', w'))"
    "file_of w (d_fd d) = Some f" "file_of w fd = Some g" "w_fds w (d_fd d) \<noteq> w_fds w fd"
  shows "\<exists>g'. became fd g' w w' \<and> is_regular g' = is_regular g \<and>
    (\<forall>bs. r = Inr bs \<longrightarrow> bs = sofar @ slice a stop (content f) \<and>
      content g' = content g @ slice a stop (content f) \<and> fed' = fed @ slice a stop (content f)) \<and>
    (kind w \<longrightarrow> kind w' \<and> (\<exists>bs. r = Inr bs))"
  using assms(3,5-8)
proof (induction "stop - a" arbitrary: a sofar fed w g rule: less_induct)
  case less
  note pr = less.prems
  show ?case
  proof (cases "a < stop")
    case False
    then have "chunk_offsets a stop stream_chunk = []" by (subst chunk_offsets_rec) auto
    then show ?thesis
      using False pr by (intro exI [of _ g]) (auto simp: ret_def slice_def intro: became_refl)
  next
  case True
  let ?e = "min stop (a + stream_chunk)"
  have off: "chunk_offsets a stop stream_chunk = a # chunk_offsets (a + stream_chunk) stop stream_chunk"
    using True by (subst chunk_offsets_rec) auto
  obtain q1 w1 where q1: "read_range d (PyInt (int a)) (PyInt (int ?e)) w = (q1, w1)" by fastforce
  note R = read_range_quiet [OF q1 pr(3)]
  note run = pr(2) [unfolded off copy_pieces.simps prod.case q1]
  have g1: "file_of w1 fd = Some g" and f1: "file_of w1 (d_fd d) = Some f"
    using quiet_file_of [OF R(1)] pr(3,4) by simp_all
  have K1: "kind w1 \<and> q1 = Inr (slice a ?e (content f))" if "kind w"
    using read_range_kind [of d w f a ?e] assms(1,2,4) True pr(3) q1 that by auto
  show ?thesis
  proof (cases q1)
    case (Inl e)
    then show ?thesis
      using run R(1) pr(4) K1 by (intro exI [of _ g]) (auto intro: became_refl)
  next
    case (Inr enc)
    have enc: "enc = slice a ?e (content f)" using R(2) [OF Inr] by auto
    obtain q2 w2 where q2: "stream_write_all fd enc w1 = (q2, w2)" by fastforce
    obtain j where j: "became fd (g\<lparr>content := content g @ take j enc\<rparr>) w1 w2"
      "\<forall>u. q2 = Inr u \<longrightarrow> j = length enc" "kind w1 \<longrightarrow> kind w2 \<and> q2 = Inr ()"
      using write_all_became [OF q2 g1] by blast
    let ?g2 = "g\<lparr>content := content g @ take j enc\<rparr>"
    have b2: "became fd ?g2 w w2" by (rule quiet_became [OF R(1) j(1)])
    show ?thesis
    proof (cases q2)
      case (Inl e)
      then show ?thesis
        using run \<open>q1 = Inr enc\<close> q2 b2 K1 j(3) by (intro exI [of _ ?g2]) auto
    next
      case (Inr u)
      have full: "content ?g2 = content g @ enc" using j(2) Inr by simp
      have g2: "file_of w2 fd = Some ?g2" by (rule became_file_of [OF g1 j(1)])
      obtain q3 w3 where q3: "stream_sync_and_drop fd (a - start) (length enc) w2 = (q3, w3)" by fastforce
      obtain g3 where g3: "g3 = ?g2 \<or> g3 = ?g2\<lparr>synced := length (content ?g2)\<rparr>" "became fd g3 w2 w3"
        "kind w2 \<longrightarrow> kind w3 \<and> q3 = Inr ()"
        using sync_and_drop_became [OF q3 g2] by blast
      have b3: "became fd g3 w w3" by (rule became_trans [OF b2 g3(2)])
      have c3: "content g3 = content g @ enc" "is_regular g3 = is_regular g" using g3(1) full by auto
      show ?thesis
      proof (cases q3)
        case (Inl e)
        then show ?thesis
          using run \<open>q1 = Inr enc\<close> q2 Inr q3 b3 c3(2) K1 j(3) g3(3) by (intro exI [of _ g3]) auto
      next
        case (Inr v)
        have rest: "copy_pieces d fd start stop (chunk_offsets (a + stream_chunk) stop stream_chunk)
            (sofar @ enc) (fed @ enc, w3) = (r, (fed', w'))"
          using run \<open>q1 = Inr enc\<close> q2 \<open>q2 = Inr u\<close> q3 Inr by simp
        have f3: "file_of w3 (d_fd d) = Some f" "file_of w3 fd = Some g3"
          using became_other [OF b3 pr(5)] pr(3) became_file_of [OF pr(4) b3] by simp_all
        have ne: "w_fds w3 (d_fd d) \<noteq> w_fds w3 fd" using became_tables [OF b3] pr(5) by simp
        have dec: "stop - (a + stream_chunk) < stop - a"
          using True stream_chunk_pos by linarith
        obtain g' where g': "became fd g' w3 w'" "is_regular g' = is_regular g3"
          "\<forall>bs. r = Inr bs \<longrightarrow> bs = (sofar @ enc) @ slice (a + stream_chunk) stop (content f) \<and>
             content g' = content g3 @ slice (a + stream_chunk) stop (content f) \<and>
             fed' = (fed @ enc) @ slice (a + stream_chunk) stop (content f)"
          "kind w3 \<longrightarrow> kind w' \<and> (\<exists>bs. r = Inr bs)"
          using less.hyps [OF dec _ rest f3 ne] pr(1) by auto
        have sl: "enc @ slice (a + stream_chunk) stop (content f) = slice a stop (content f)"
        proof (cases "a + stream_chunk \<le> stop")
          case True
          then show ?thesis using slice_join [of a "a + stream_chunk" stop "content f"] enc by simp
        next
          case False
          then show ?thesis using enc by (simp add: slice_def)
        qed
        show ?thesis
          using g' became_trans [OF b3 g'(1)] c3 sl K1 j(3) g3(3) by (intro exI [of _ g']) auto
      qed
    qed
  qed
  qed
qed

section \<open>Comparing and linking\<close>

text \<open>\<open>idle\<close>: descriptors are as before and no file or name changed.\<close>

definition idle :: "world \<Rightarrow> world \<Rightarrow> bool" where
  "idle w w' \<longleftrightarrow> w_fds w' = w_fds w \<and> w_files w' = w_files w \<and> w_names w' = w_names w \<and>
     w_suffixes w' = w_suffixes w \<and> w_fresh w \<le> w_fresh w'"

lemma idle_quiet: "quiet w w' \<Longrightarrow> idle w w'"
  by (simp add: idle_def quiet_iff)

lemma idle_trans: "idle u v \<Longrightarrow> idle v w \<Longrightarrow> idle u w"
  by (simp add: idle_def)

definition world_ok :: "world \<Rightarrow> bool" where
  "world_ok w \<longleftrightarrow> (\<forall>fd. w_fresh w \<le> fd \<longrightarrow> w_fds w fd = None) \<and>
     (\<forall>fd i. w_fds w fd = Some i \<longrightarrow> i < w_fresh w) \<and>
     (\<forall>p i. w_names w p = Some i \<longrightarrow> i < w_fresh w \<and> w_files w i \<noteq> None)"

lemma world_ok_idle:
  assumes "world_ok w" and "idle w w'"
  shows "world_ok w'"
proof -
  have "i < w_fresh w'" if "w_fds w fd = Some i \<or> w_names w p = Some i" for i fd p
    using that assms unfolding world_ok_def idle_def by (meson less_le_trans)
  then show ?thesis using assms unfolding world_ok_def idle_def by auto
qed

definition holds :: "world \<Rightarrow> path \<Rightarrow> byte list \<Rightarrow> bool" where
  "holds w p bs \<longleftrightarrow> (\<exists>i h. w_names w p = Some i \<and> w_files w i = Some h \<and> is_regular h \<and> content h = bs)"

lemma regular_size_file:
  assumes "stream_require_regular_size fd n w = (r, w')" and "file_of w fd = Some f"
  shows "quiet w w'" and "r = Inr () \<Longrightarrow> is_regular f \<and> length (content f) = n"
    and "kind w \<Longrightarrow> kind w' \<and> r = (if is_regular f \<and> length (content f) = n then Inr ()
      else Inl (CacheFormatError ''page snapshot object file geometry differs''))"
proof -
  show "quiet w w'" by (rule regular_size_quiet [OF assms(1)])
  obtain q w1 where q: "os_fstat fd w = (q, w1)" by fastforce
  have v: "q = Inr (is_regular f, length (content f)) \<or> (\<exists>e. q = Inl e)"
    using os_fstat_quiet [OF q] assms(2) by (cases q) auto
  have k: "kind w1 \<and> q = Inr (is_regular f, length (content f))" if "kind w"
    using kind_sys [OF that q [unfolded os_fstat_def]] assms(2)
    by (auto simp: with_file_def quiet_file_of split: option.splits)
  have d: "(r, w') = (case q of Inl e \<Rightarrow> (Inl e, w1) | Inr (regular, sz) \<Rightarrow>
      (if \<not> regular \<or> sz \<noteq> n
       then (Inl (CacheFormatError ''page snapshot object file geometry differs''), w1) else (Inr (), w1)))"
    using assms(1) q by (auto simp: stream_require_regular_size_def andthen_def throw_def ret_def
        split: sum.splits prod.splits)
  show "r = Inr () \<Longrightarrow> is_regular f \<and> length (content f) = n"
    using d v by (auto split: if_splits)
  show "kind w \<Longrightarrow> kind w' \<and> r = (if is_regular f \<and> length (content f) = n then Inr ()
      else Inl (CacheFormatError ''page snapshot object file geometry differs''))"
    using d k by auto
qed

lemma compare_from_result:
  assumes "compare_from e s n (chunk_offsets a n stream_chunk) w = (r, w')"
    "file_of w e = Some h" "file_of w s = Some g"
  shows "quiet w w' \<and> (r = Inr True \<longrightarrow> is_regular h \<and> length (content h) = n \<and>
      slice a n (content h) = slice a n (content g)) \<and>
    (kind w \<and> is_regular h \<and> length (content h) = n \<and> length (content g) = n \<longrightarrow>
      kind w' \<and> (\<exists>b. r = Inr b))"
  using assms
proof (induction "n - a" arbitrary: a w rule: less_induct)
  case less
  show ?case
  proof (cases "a < n")
    case False
    then have off: "chunk_offsets a n stream_chunk = []" by (subst chunk_offsets_rec) auto
    obtain q w1 where q: "stream_require_regular_size e n w = (q, w1)" by fastforce
    note rs = regular_size_file [OF q less.prems(2)]
    have "w' = w1 \<and> (r = Inr True \<longrightarrow> q = Inr ()) \<and> (q = Inr () \<longrightarrow> r = Inr True)"
      using less.prems(1) q by (auto simp: off andthen_def ret_def split: sum.splits)
    moreover have "slice a n (content h) = slice a n (content g)" using False by (simp add: slice_def)
    ultimately show ?thesis using rs by auto
  next
    case True
    let ?len = "min stream_chunk (n - a)"
    have off: "chunk_offsets a n stream_chunk = a # chunk_offsets (a + stream_chunk) n stream_chunk"
      using True by (subst chunk_offsets_rec) auto
    have dec: "n - (a + stream_chunk) < n - a" using True stream_chunk_pos by linarith
    obtain q1 w1 where q1: "stream_pread_into e ?len a w = (q1, w1)" by fastforce
    note p1 = pread_into_quiet [OF q1 less.prems(2)]
    have s1: "file_of w1 s = Some g" "file_of w1 e = Some h"
      using quiet_file_of [OF p1(1)] less.prems(2,3) by simp_all
    obtain q2 w2 where q2: "stream_pread_into s ?len a w1 = (q2, w2)" by fastforce
    note p2 = pread_into_quiet [OF q2 s1(1)]
    have s2: "file_of w2 s = Some g" "file_of w2 e = Some h"
      using quiet_file_of [OF p2(1)] s1 by simp_all
    obtain q3 w3 where q3: "stream_drop_cache e a ?len w2 = (q3, w3)" by fastforce
    note p3 = drop_cache_quiet [OF q3 s2(2)]
    have s3: "file_of w3 s = Some g" "file_of w3 e = Some h"
      using quiet_file_of [OF conjunct1 [OF p3]] s2 by simp_all
    obtain q4 w4 where q4: "stream_drop_cache s a ?len w3 = (q4, w4)" by fastforce
    note p4 = drop_cache_quiet [OF q4 s3(1)]
    have s4: "file_of w4 s = Some g" "file_of w4 e = Some h"
      using quiet_file_of [OF conjunct1 [OF p4]] s3 by simp_all
    have qs: "quiet w w1" "quiet w w2" "quiet w w3" "quiet w w4"
      using p1(1) p2(1) p3 p4 by (meson quiet_trans)+
    have run: "(r, w') = (case q1 of Inl e \<Rightarrow> (Inl e, w1) | Inr x \<Rightarrow>
        (case q2 of Inl e \<Rightarrow> (Inl e, w2) | Inr y \<Rightarrow>
         if x \<noteq> y then (Inr False, w2) else
         (case q3 of Inl e \<Rightarrow> (Inl e, w3) | Inr _ \<Rightarrow>
         (case q4 of Inl e \<Rightarrow> (Inl e, w4) | Inr _ \<Rightarrow>
           compare_from e s n (chunk_offsets (a + stream_chunk) n stream_chunk) w4))))"
      using less.prems(1) q1 q2 q3 q4
      by (auto simp: off andthen_def Let_def ret_def split: sum.splits)
    have kk: "kind w1 \<and> q1 = Inr (slice a (a + ?len) (content h)) \<and> kind w2 \<and>
        q2 = Inr (slice a (a + ?len) (content g)) \<and> kind w3 \<and> q3 = Inr () \<and> kind w4 \<and> q4 = Inr ()"
      if "kind w" "length (content h) = n" "length (content g) = n"
    proof -
      have le: "a + ?len \<le> n" using True by auto
      have k1: "kind w1" "q1 = Inr (slice a (a + ?len) (content h))" using p1(3) that le by simp_all
      have k2: "kind w2" "q2 = Inr (slice a (a + ?len) (content g))" using p2(3) k1 that le by simp_all
      show ?thesis using k1 k2 p3 p4 by simp
    qed
    show ?thesis
    proof (cases "\<exists>x. q1 = Inr x \<and> q2 = Inr x \<and> q3 = Inr () \<and> q4 = Inr ()")
      case False
      have "r \<noteq> Inr True" "w' \<in> {w1, w2, w3, w4}"
        using run False by (auto split: sum.splits if_splits)
      moreover have "kind w' \<and> (\<exists>b. r = Inr b)" if "kind w" "length (content h) = n" "length (content g) = n"
        using run kk [OF that] False by (auto split: sum.splits if_splits)
      ultimately show ?thesis using qs by auto
    next
      case c: True
      then obtain x where x: "q1 = Inr x" "q2 = Inr x" "q3 = Inr ()" "q4 = Inr ()" by blast
      then have rest: "compare_from e s n (chunk_offsets (a + stream_chunk) n stream_chunk) w4 = (r, w')"
        using run by simp
      note ih = less.hyps [OF dec rest s4(2,1)]
      have eq: "slice a (a + ?len) (content h) = slice a (a + ?len) (content g)"
        using p1(2) [OF x(1)] p2(2) [OF x(2)] by simp
      have "slice a n (content h) = slice a n (content g)"
        if "slice (a + stream_chunk) n (content h) = slice (a + stream_chunk) n (content g)"
      proof (cases "a + stream_chunk \<le> n")
        case True
        then show ?thesis
          using eq that slice_join [of a "a + stream_chunk" n "content h"]
            slice_join [of a "a + stream_chunk" n "content g"] by simp
      next
        case False
        then have "a + ?len = n" using \<open>a < n\<close> by simp
        then show ?thesis using eq by simp
      qed
      then show ?thesis using ih kk qs(4) quiet_trans by blast
    qed
  qed
qed

lemma os_open_kind:
  assumes "kind w" "os_open p w = (r, w')" "w_names w p = Some i"
  shows "kind w' \<and> r = Inr (w_fresh w)"
  using kind_sys [OF assms(1) assms(2) [unfolded os_open_def]] assms(3)
  by (auto simp: quiet_iff kind_def)

lemma existing_matches_result:
  assumes "stream_existing_matches p s n w = (r, w')" "world_ok w"
    "file_of w s = Some g" "length (content g) = n"
  shows "idle w w' \<and> (r = Inr True \<longrightarrow> holds w p (content g)) \<and>
    (kind w \<and> w_names w p \<noteq> None \<longrightarrow> kind w' \<and> (\<exists>b. r = Inr b))"
proof -
  obtain t w1 where t: "stream_open_readonly p w = (t, w1)" by fastforce
  from t show ?thesis
  proof (cases rule: open_readonly_cases)
    case (fail e)
    then have "w' = w1" "r = Inl CommitConflict"
      using assms(1) t by (simp_all add: stream_existing_matches_def andthen_def except_on_def throw_def)
    moreover have "\<not> (kind w \<and> w_names w p \<noteq> None)"
      using os_open_kind [OF _ t [unfolded stream_open_readonly_def]] fail(1)
      by (cases "w_names w p") auto
    ultimately show ?thesis using idle_quiet [OF fail(2)] by simp
  next
    case (opened i)
    let ?e = "w_fresh w"
    obtain h where h: "w_files w i = Some h" using assms(2) opened(2) unfolding world_ok_def by blast
    have fresh: "w_fds w ?e = None" using assms(2) by (simp add: world_ok_def)
    have files1: "w_files w1 = w_files w" and fds1: "w_fds w1 = (w_fds w)(?e \<mapsto> i)"
      and rest1: "w_names w1 = w_names w" "w_fresh w1 = Suc (w_fresh w)" "w_suffixes w1 = w_suffixes w"
      using opened(3) by (simp_all add: quiet_iff)
    have e1: "file_of w1 ?e = Some h" by (simp add: file_of_def fds1 files1 h)
    have "w_fds w s \<noteq> None" using file_of_fd [OF assms(3)] by auto
    then have s1: "file_of w1 s = Some g"
      using assms(3) fresh by (auto simp: file_of_def fds1 files1 split: option.splits)
    obtain q w2 where q: "stream_require_regular_size ?e n w1 = (q, w2)" by fastforce
    note rs = regular_size_file [OF q e1]
    have e2: "file_of w2 ?e = Some h" "file_of w2 s = Some g"
      using quiet_file_of [OF rs(1)] e1 s1 by simp_all
    obtain c w3 where c: "compare_from ?e s n (chunk_offsets 0 n stream_chunk) w2 = (c, w3)" by fastforce
    note cf = compare_from_result [OF c e2]
    have close: "idle w (snd (os_close ?e v))" if "quiet w1 v" for v
      using that fds1 files1 rest1 fresh by (auto simp: idle_def os_close_def quiet_iff)
    have run: "(r, w') = (case q of
        Inl (CacheFormatError _) \<Rightarrow> (Inr False, snd (os_close ?e w2))
      | Inl e \<Rightarrow> (Inl e, snd (os_close ?e w2))
      | Inr _ \<Rightarrow> (c, snd (os_close ?e w3)))"
      using assms(1) t opened(1) q c
      by (auto simp: stream_existing_matches_def andthen_def except_on_def throw_def ret_def
          finally_do_def os_close_def split: sum.splits io_exn.splits)
    have tr: "quiet w1 w3" using rs(1) cf quiet_trans by blast
    have k: "kind w2" "(q = Inr () \<longrightarrow> kind w3 \<and> (\<exists>b. c = Inr b)) \<and>
        (q = Inr () \<or> (\<exists>m. q = Inl (CacheFormatError m)))" if "kind w"
    proof -
      have "kind w1" using os_open_kind [OF that t [unfolded stream_open_readonly_def] opened(2)] by simp
      note r3 = rs(3) [OF this]
      show "kind w2" using r3 by simp
      show "(q = Inr () \<longrightarrow> kind w3 \<and> (\<exists>b. c = Inr b)) \<and>
        (q = Inr () \<or> (\<exists>m. q = Inl (CacheFormatError m)))"
      proof (intro conjI impI)
        assume "q = Inr ()"
        from rs(2) [OF this] show "kind w3" "\<exists>b. c = Inr b"
          using conjunct2 [OF conjunct2 [OF cf]] r3 assms(4) by blast+
      qed (use r3 in \<open>auto split: if_splits\<close>)
    qed
    have kc: "kind (snd (os_close ?e v)) = kind v" for v by (simp add: os_close_def kind_def)
    have match: "holds w p (content g)" if "q = Inr ()" "c = Inr True"
    proof -
      have c: "is_regular h" "length (content h) = n" "slice 0 n (content h) = slice 0 n (content g)"
        using cf that(2) by blast+
      then have "content h = content g"
        using slice_all [of "content h"] slice_all [of "content g"] assms(4) by simp
      then show ?thesis using c(1) opened(2) h by (auto simp: holds_def)
    qed
    show ?thesis
    proof (cases q)
      case (Inl e)
      then have "w' = snd (os_close ?e w2)" "r \<noteq> Inr True"
        "\<And>m. e = CacheFormatError m \<Longrightarrow> r = Inr False"
        using run by (auto split: io_exn.splits)
      then show ?thesis using close [OF rs(1)] k kc Inl by auto
    next
      case (Inr u)
      then have "w' = snd (os_close ?e w3)" "r = c" using run by simp_all
      then show ?thesis using close [OF tr] match k kc Inr by auto
    qed
  qed
qed

text \<open>Calls on names: what they may change, and the names they leave.\<close>

definition renamed :: "path set \<Rightarrow> world \<Rightarrow> world \<Rightarrow> bool" where
  "renamed P w w' \<longleftrightarrow> w_fds w' = w_fds w \<and> w_files w' = w_files w \<and> w_suffixes w' = w_suffixes w \<and>
     w_fresh w \<le> w_fresh w' \<and> (\<forall>q. q \<notin> P \<longrightarrow> w_names w' q = w_names w q)"

lemma idle_renamed: "idle w w' \<Longrightarrow> renamed P w w'"
  by (simp add: idle_def renamed_def)

lemma renamed_trans: "renamed P u v \<Longrightarrow> renamed P v w \<Longrightarrow> renamed P u w"
  by (simp add: renamed_def)

lemma os_link_result:
  assumes "os_link a b w = (r, w')" "w_names w a = Some i"
  shows "(r = Inr () \<and> renamed {b} w w' \<and> w_names w' b = Some i \<and> w_names w b = None) \<or>
    (\<exists>e. r = Inl (OSError e) \<and> quiet w w' \<and> (kind w \<longrightarrow> e = 17 \<and> w_names w b \<noteq> None))"
    and "kind w \<Longrightarrow> kind w'"
proof -
  show "(r = Inr () \<and> renamed {b} w w' \<and> w_names w' b = Some i \<and> w_names w b = None) \<or>
    (\<exists>e. r = Inl (OSError e) \<and> quiet w w' \<and> (kind w \<longrightarrow> e = 17 \<and> w_names w b \<noteq> None))"
    using assms(1) unfolding os_link_def
  proof (cases rule: sys_cases)
    case (fail e)
    moreover have "\<not> kind w" if "w_outcomes w = Failed e # os" for os
      using that by (auto simp: kind_def)
    ultimately show ?thesis
      using assms kind_sys [OF _ assms(1) [unfolded os_link_def]]
      by (fastforce simp: quiet_iff split: if_splits)
  next
    case (run cap w1)
    then show ?thesis using assms(2) by (auto simp: quiet_iff renamed_def split: if_splits)
  qed
  show "kind w \<Longrightarrow> kind w'"
    using kind_sys [OF _ assms(1) [unfolded os_link_def]] assms(2)
    by (fastforce simp: quiet_iff kind_def split: if_splits)
qed

lemma os_replace_result:
  assumes "os_replace a b w = (r, w')" "w_names w a = Some i" "a \<noteq> b"
  shows "(r = Inr () \<and> renamed {a, b} w w' \<and> w_names w' b = Some i \<and> w_names w' a = None) \<or>
    (\<exists>e. r = Inl e \<and> quiet w w')"
    and "kind w \<Longrightarrow> kind w' \<and> r = Inr ()"
proof -
  show "(r = Inr () \<and> renamed {a, b} w w' \<and> w_names w' b = Some i \<and> w_names w' a = None) \<or>
    (\<exists>e. r = Inl e \<and> quiet w w')"
    using assms(1) unfolding os_replace_def
  proof (cases rule: sys_cases)
    case (run cap w1)
    then show ?thesis using assms(2,3) by (auto simp: quiet_iff renamed_def)
  qed auto
  show "kind w \<Longrightarrow> kind w' \<and> r = Inr ()"
    using kind_sys [OF _ assms(1) [unfolded os_replace_def]] assms(2)
    by (fastforce simp: quiet_iff kind_def)
qed

lemma os_unlink_result:
  assumes "unlink_missing_ok a w = (r, w')"
  shows "renamed {a} w w'" and "kind w \<Longrightarrow> kind w' \<and> r = Inr () \<and> w_names w' a = None"
proof -
  obtain q w1 where q: "os_unlink a w = (q, w1)" by fastforce
  have u: "renamed {a} w w1"
    using q unfolding os_unlink_def
    by (elim sys_cases) (auto simp: quiet_iff renamed_def split: option.splits)
  have k: "kind w1 \<and> w_names w1 a = None \<and> (q = Inr () \<or> q = Inl (OSError 2))" if "kind w"
    using kind_sys [OF that q [unfolded os_unlink_def]]
    by (auto simp: quiet_iff kind_def split: option.splits)
  have m: "w' = w1 \<and> (q = Inr () \<or> q = Inl (OSError 2) \<longrightarrow> r = Inr ())"
    using assms q by (auto simp: unlink_missing_ok_def except_on_def ret_def split: sum.splits if_splits)
  show "renamed {a} w w'" using u m by simp
  show "kind w \<Longrightarrow> kind w' \<and> r = Inr () \<and> w_names w' a = None" using k m by blast
qed

text \<open>Linking the staged file under the object's name.\<close>

lemma link_object_result:
  assumes "link_object tp p fd n w = (r, w')" "world_ok w" "tp \<noteq> p"
    "w_names w tp = Some i" "w_files w i = Some g" "is_regular g"
    "file_of w fd = Some g" "length (content g) = n"
  shows "renamed {tp, p} w w'" and "world_ok w'" and "r = Inr ev \<Longrightarrow> holds w' p (content g)"
    and "kind w \<Longrightarrow> kind w' \<and> (\<exists>ev. r = Inr ev)"
proof -
  have "renamed {tp, p} w w' \<and> world_ok w' \<and> (\<forall>ev. r = Inr ev \<longrightarrow> holds w' p (content g)) \<and>
    (kind w \<longrightarrow> kind w' \<and> (\<exists>ev. r = Inr ev))"
  proof -
    have okP: "world_ok v'" if "world_ok v" "renamed {tp, p} v v'" "w_names v tp = Some i" "w_files v i = Some g"
      "w_names v' p = Some i" "w_names v' tp \<in> {None, Some i}" for v v'
    proof -
      have i: "i < w_fresh v" using that(1,3) by (simp add: world_ok_def)
      have "j < w_fresh v' \<and> w_files v' j \<noteq> None" if q: "w_names v' q = Some j" for q j
      proof (cases "q \<in> {tp, p}")
        case True
        then have "j = i" using q \<open>w_names v' p = Some i\<close> \<open>w_names v' tp \<in> {None, Some i}\<close> by auto
        then show ?thesis
          using i \<open>renamed {tp, p} v v'\<close> \<open>w_files v i = Some g\<close> by (auto simp: renamed_def)
      next
        case False
        then have "w_names v q = Some j" using q \<open>renamed {tp, p} v v'\<close> by (simp add: renamed_def)
        then show ?thesis
          using \<open>world_ok v\<close> \<open>renamed {tp, p} v v'\<close> unfolding world_ok_def renamed_def
          by (metis less_le_trans)
      qed
      moreover have "j < w_fresh v'" if "w_fds v' x = Some j" for x j
        using that \<open>world_ok v\<close> \<open>renamed {tp, p} v v'\<close> unfolding world_ok_def renamed_def
        by (metis less_le_trans)
      moreover have "w_fds v' x = None" if "w_fresh v' \<le> x" for x
        using that \<open>world_ok v\<close> \<open>renamed {tp, p} v v'\<close> unfolding world_ok_def renamed_def
        by (metis le_trans)
      ultimately show ?thesis unfolding world_ok_def by blast
    qed
    have holdsP: "holds v' p (content g)" if "renamed {tp, p} v v'" "w_files v i = Some g" "w_names v' p = Some i" for v v'
      using that assms(6) by (auto simp: holds_def renamed_def)
    obtain q w1 where q: "os_link tp p w = (q, w1)" by fastforce
    note L = os_link_result [OF q assms(4)]
    show ?thesis
    proof (cases q)
      case (Inr u)
      then have c: "renamed {p} w w1" "w_names w1 p = Some i" using L(1) by auto
      have r1: "renamed {tp, p} w w1" using c(1) by (simp add: renamed_def)
      have tp1: "w_names w1 tp = Some i" using c(1) assms(3,4) by (simp add: renamed_def)
      have "w' = w1 \<and> (\<exists>ev. r = Inr ev)"
        using assms(1) q Inr by (auto simp: link_object_def except_on_def andthen_def ret_def)
      then show ?thesis
        using r1 okP [OF assms(2) r1 assms(4,5) c(2)] tp1 holdsP [OF r1 assms(5) c(2)] L(2) by auto
    next
      case (Inl e)
      then obtain k where k: "e = OSError k" "quiet w w1" "kind w \<longrightarrow> k = 17 \<and> w_names w p \<noteq> None"
        using L(1) by auto
      have p1: "idle w w1" by (rule idle_quiet [OF k(2)])
      show ?thesis
      proof (cases "k = 17")
        case False
        then have "w' = w1 \<and> r = Inl (OSError k)"
          using assms(1) q Inl k(1) by (simp add: link_object_def except_on_def andthen_def)
        then show ?thesis
          using idle_renamed [OF p1] world_ok_idle [OF assms(2) p1] k(3) False by auto
      next
        case True
        obtain m w2 where m: "stream_existing_matches p fd n w1 = (m, w2)" by fastforce
        have f1: "file_of w1 fd = Some g" using quiet_file_of [OF k(2)] assms(7) by simp
        note E = existing_matches_result [OF m world_ok_idle [OF assms(2) p1] f1 assms(8)]
        have p2: "idle w w2" using idle_trans [OF p1] E by blast
        have ok2: "world_ok w2" by (rule world_ok_idle [OF assms(2) p2])
        have t2: "w_names w2 tp = Some i" "w_files w2 i = Some g"
          using p2 assms(4,5) by (simp_all add: idle_def)
        have n1: "w_names w1 p = w_names w p" using p1 by (simp add: idle_def)
        obtain s w3 where s: "os_replace tp p w2 = (s, w3)" by fastforce
        note R = os_replace_result [OF s t2(1) assms(3)]
        have run: "(r, w') = (case m of Inl e \<Rightarrow> (Inl e, w2)
            | Inr same \<Rightarrow> if same then (Inr (Deduplicated n), w2)
              else (case s of Inl e \<Rightarrow> (Inl e, w3) | Inr _ \<Rightarrow> (Inr (Unique n), w3)))"
          using assms(1) q Inl k(1) True m s
          by (auto simp: link_object_def except_on_def andthen_def ret_def split: sum.splits)
        have kk: "kind w2 \<and> (\<exists>b. m = Inr b)" if "kind w" using E L(2) that k(3) n1 by simp
        have h2: "holds w2 p (content g)" if "m = Inr True"
          using E that idle_trans p2 by (auto simp: holds_def idle_def)
        consider (done2) "w' = w2" "r = Inr (Deduplicated n)" "m = Inr True" | (err) e where "w' = w2" "r = Inl e" "m = Inl e"
          | (rep) "m = Inr False" "w' = w3" "r = (case s of Inl e \<Rightarrow> Inl e | Inr _ \<Rightarrow> Inr (Unique n))"
          using run by (cases m; cases s) (auto split: if_splits)
        then show ?thesis
        proof cases
          case done2
          then show ?thesis using idle_renamed [OF p2] ok2 h2 kk by auto
        next
          case (err e)
          then show ?thesis using idle_renamed [OF p2] ok2 kk by auto
        next
          case rep
          show ?thesis
          proof (cases s)
            case (Inl x)
            then have "quiet w2 w3" "\<not> kind w2" using R by auto
            then show ?thesis
              using rep Inl idle_renamed [OF idle_trans [OF p2 idle_quiet]] kk
                world_ok_idle [OF ok2 idle_quiet] by auto
          next
            case (Inr x)
            then have c: "renamed {tp, p} w2 w3" "w_names w3 p = Some i" "w_names w3 tp = None"
              using R(1) by auto
            show ?thesis
              using rep Inr renamed_trans [OF idle_renamed [OF p2] c(1)]
                okP [OF ok2 c(1) t2 c(2)] c(3) holdsP [OF c(1) t2(2) c(2)] R(2) kk by auto
          qed
        qed
      qed
    qed
  qed
  then show "renamed {tp, p} w w'" "world_ok w'" "r = Inr ev \<Longrightarrow> holds w' p (content g)"
    "kind w \<Longrightarrow> kind w' \<and> (\<exists>ev. r = Inr ev)" by blast+
qed

section \<open>One object\<close>

definition temp_path :: "path \<Rightarrow> world \<Rightarrow> path" where
  "temp_path base w = chunks_dir base @ [''.snapshot.writing-'' @ w_suffixes w (w_fresh w)]"

lemma temp_not_object:
  assumes "hex_hash sha"
  shows "chunks_dir base @ [''.snapshot.writing-'' @ x] \<noteq> object_path base (sha b)"
proof -
  have h: "length (sha b) = 64" "\<forall>c\<in>set (asc (sha b)). c \<in> set hex_chars"
    using assms by (auto simp: hex_hash_def is_sha256_def jstr_def asc_def)
  obtain c t where ct: "sha b = c # t" using h(1) by (cases "sha b") auto
  have "code c \<in> set hex_chars" using h(2) by (simp add: ct asc_def)
  moreover have "code (CHR ''.'') \<notin> set hex_chars" by (simp add: hex_chars_def asc_def code_def)
  ultimately have "c \<noteq> CHR ''.''" by auto
  then show ?thesis by (simp add: object_path_def ct)
qed

lemma world_ok_became:
  assumes "world_ok w" "became fd f w w'" "file_of w fd = Some g"
  shows "world_ok w'"
proof -
  note t = became_tables [OF assms(2)]
  have "w_files w' i \<noteq> None" if "w_files w i \<noteq> None" for i
  proof (cases "w_fds w fd = Some i")
    case True
    then have "file_of w' fd = w_files w' i" using t by (simp add: file_of_def)
    then show ?thesis using became_file_of [OF assms(3,2)] by (metis option.distinct(1))
  next
    case False
    then show ?thesis using became_files [OF assms(2) False] that by simp
  qed
  then show ?thesis using assms(1) t by (simp add: world_ok_def)
qed

lemma discard_result:
  assumes "discard_temporary fd tp w = (r, w')" "world_ok w"
  shows "w_fds w' = (w_fds w)(fd := None) \<and> w_files w' = w_files w \<and> w_suffixes w' = w_suffixes w \<and>
    w_fresh w' = w_fresh w \<and> world_ok w' \<and> (\<forall>q. q \<noteq> tp \<longrightarrow> w_names w' q = w_names w q)"
    and "kind w \<Longrightarrow> kind w' \<and> r = Inr () \<and> w_names w' tp = None"
proof -
  let ?w1 = "w\<lparr>w_fds := (w_fds w)(fd := None)\<rparr>"
  obtain u w2 where u: "unlink_missing_ok tp ?w1 = (u, w2)" by fastforce
  note U = os_unlink_result [OF u]
  obtain e w3 where e: "os_directory w2 = (e, w3)" by fastforce
  note Q = os_directory_quiet [OF e]
  have run: "(r, w') = (case u of Inl x \<Rightarrow> (Inl x, w2) | Inr _ \<Rightarrow> (case e of Inl x \<Rightarrow> (Inl x, w3) | Inr _ \<Rightarrow> (Inr (), w3)))"
    using assms(1) u e by (auto simp: discard_temporary_def finally_do_def os_close_def andthen_def split: sum.splits)
  have c: "w' = w2 \<or> w' = w3" using run by (auto split: sum.splits)
  have fr: "w_fresh w2 = w_fresh w"
    using u unfolding unlink_missing_ok_def except_on_def os_unlink_def
    by (auto simp: sys_def ret_def split: list.splits outcome.splits option.splits sum.splits if_splits prod.splits)
  have nm: "w_names w2 q = w_names w q" if "q \<noteq> tp" for q using U(1) that by (auto simp: renamed_def)
  have tpn: "w_names w2 tp = None \<or> w_names w2 tp = w_names w tp"
    using u unfolding unlink_missing_ok_def except_on_def os_unlink_def
    by (auto simp: sys_def ret_def split: list.splits outcome.splits option.splits sum.splits if_splits prod.splits)
  have sub: "w_names w q = Some i" if "w_names w2 q = Some i" for q i
    using that nm [of q] tpn by (cases "q = tp") auto
  have ok2: "world_ok w2"
    using assms(2) U(1) fr sub unfolding world_ok_def renamed_def by (simp add: fun_upd_def) blast
  have t2: "w_fds w2 = (w_fds w)(fd := None)" "w_files w2 = w_files w" "w_suffixes w2 = w_suffixes w"
    using U(1) by (simp_all add: renamed_def)
  show "w_fds w' = (w_fds w)(fd := None) \<and> w_files w' = w_files w \<and> w_suffixes w' = w_suffixes w \<and>
    w_fresh w' = w_fresh w \<and> world_ok w' \<and> (\<forall>q. q \<noteq> tp \<longrightarrow> w_names w' q = w_names w q)"
    using c t2 fr ok2 nm world_ok_idle [OF ok2 idle_quiet [OF Q]] Q by (auto simp: quiet_iff)
  show "kind w \<Longrightarrow> kind w' \<and> r = Inr () \<and> w_names w' tp = None"
  proof -
    assume k: "kind w"
    then have "kind ?w1" by (simp add: kind_def)
    then have u1: "kind w2" "u = Inr ()" "w_names w2 tp = None" using U(2) by auto
    have "kind w3 \<and> e = Inr ()"
      using kind_sys [OF u1(1) e [unfolded os_directory_def]] by (auto simp: ret_def)
    then show ?thesis using run u1 Q by (auto simp: quiet_iff)
  qed
qed

lemma publish_object_result:
  assumes "stream_publish_object sha base d start stop (fed, w) = (r, (fed', w'))"
    and "world_ok w" "file_of w (d_fd d) = Some f" "spool_inv d f" "d_is_sealed d"
    and "start \<le> stop" "stop \<le> d_written d" "hex_hash sha"
    and bs: "bs = slice start stop (content f)"
    and p: "p = object_path base (sha bs)"
  shows "w_fds w' = w_fds w \<and> w_suffixes w' = w_suffixes w \<and> w_fresh w \<le> w_fresh w' \<and> world_ok w' \<and>
      (\<forall>i < w_fresh w. w_files w' i = w_files w i) \<and>
      (\<forall>q. q \<noteq> p \<and> q \<noteq> temp_path base w \<longrightarrow> w_names w' q = w_names w q)"
    and "r = Inr (o1, evs) \<Longrightarrow> o1 = \<lparr>o_sha256 = sha bs, o_bytes = stop - start, o_start = start, o_end = stop\<rparr> \<and>
      fed' = fed @ bs \<and> holds w' p bs"
    and "kind w \<Longrightarrow> w_names w (temp_path base w) = None \<Longrightarrow>
      kind w' \<and> w_names w' (temp_path base w) = None \<and> (\<exists>v. r = Inr v)"
proof -
  let ?tp = "temp_path base w" and ?n = "w_fresh w"
  let ?desc = "\<lparr>o_sha256 = sha bs, o_bytes = stop - start, o_start = start, o_end = stop\<rparr>"
  define good where "good v \<longleftrightarrow> w_fds v = w_fds w \<and> w_suffixes v = w_suffixes w \<and> w_fresh w \<le> w_fresh v \<and>
      world_ok v \<and> (\<forall>i < w_fresh w. w_files v i = w_files w i) \<and>
      (\<forall>q. q \<noteq> p \<and> q \<noteq> ?tp \<longrightarrow> w_names v q = w_names w q)" for v
  have good_quiet: "good v'" if "good v" "quiet v v'" for v v'
    using that world_ok_idle [OF _ idle_quiet [OF that(2)]] unfolding good_def by (simp add: quiet_iff)
  have "good w' \<and> (\<forall>o1 evs. r = Inr (o1, evs) \<longrightarrow> o1 = ?desc \<and> fed' = fed @ bs \<and> holds w' p bs) \<and>
    (kind w \<and> w_names w ?tp = None \<longrightarrow> kind w' \<and> w_names w' ?tp = None \<and> (\<exists>v. r = Inr v))"
  proof -
    obtain q0 w0 where q0: "os_directory w = (q0, w0)" by fastforce
    note Q0 = os_directory_quiet [OF q0]
    have k0: "kind w0 \<and> q0 = Inr ()" if "kind w"
      using kind_sys [OF that q0 [unfolded os_directory_def]] by (auto simp: ret_def)
    have g0: "good w0" using good_quiet [OF _ Q0] assms(2) by (simp add: good_def)
    obtain q1 w1 where q1: "named_temporary_file (chunks_dir base) ''.snapshot.writing-'' w0 = (q1, w1)" by fastforce
    have tp0: "chunks_dir base @ [''.snapshot.writing-'' @ w_suffixes w0 (w_fresh w0)] = ?tp"
      using Q0 by (simp add: temp_path_def quiet_iff)
    show ?thesis
    proof (cases q0)
      case (Inl e)
      then have "r = Inl e" "w' = w0"
        using assms(1) q0 by (simp_all add: stream_publish_object_def andthen_def on_snd_def)
      then show ?thesis using g0 k0 Inl by auto
    next
      case (Inr u0)
      show ?thesis
      proof (cases q1)
        case (Inl e)
        have "quiet w0 w1"
          using q1 Inl unfolding named_temporary_file_def
          by (elim sys_cases) (auto simp: Let_def split: if_splits)
        then have g1: "good w1" by (rule good_quiet [OF g0])
        obtain q2 w2 where q2: "os_directory w1 = (q2, w2)" by fastforce
        have "w' = w2" "\<exists>e. r = Inl e"
          using assms(1) q0 \<open>q0 = Inr u0\<close> q1 Inl q2
          by (auto simp: stream_publish_object_def andthen_def on_snd_def finally_do_def throw_def split: sum.splits)
        moreover have "\<not> (kind w \<and> w_names w ?tp = None)"
        proof
          assume k: "kind w \<and> w_names w ?tp = None"
          then have "kind w0" using k0 by simp
          from kind_sys [OF this q1 [unfolded named_temporary_file_def]] k tp0 Q0 Inl show False
            by (auto simp: Let_def quiet_iff split: if_splits)
        qed
        ultimately show ?thesis using good_quiet [OF g1 os_directory_quiet [OF q2]] by auto
      next
        case (Inr v)
        obtain fd tp where v: "v = (fd, tp)" by fastforce
        have made: "fd = ?n" "tp = ?tp" "w_names w ?tp = None"
          "w_files w1 = (w_files w)(?n \<mapsto> new_file)" "w_names w1 = (w_names w)(?tp \<mapsto> ?n)"
          "w_fds w1 = (w_fds w)(?n \<mapsto> ?n)" "w_fresh w1 = Suc ?n" "w_suffixes w1 = w_suffixes w"
          using q1 [unfolded named_temporary_file_def Inr v] Q0
          by (elim sys_cases; auto simp: Let_def quiet_iff temp_path_def split: if_splits)+
        have k1: "kind w1" if "kind w"
          using kind_sys [OF conjunct1 [OF k0 [OF that]] q1 [unfolded named_temporary_file_def]] Inr v
          by (auto simp: Let_def kind_def split: if_splits)
        have nofd: "w_fds w ?n = None" using assms(2) by (simp add: world_ok_def)
        have ok1: "world_ok w1"
          using assms(2) unfolding world_ok_def made(4-8)
          by (auto simp: less_Suc_eq split: if_splits)
        obtain di where di: "w_fds w (d_fd d) = Some di" "w_files w di = Some f"
          using file_of_fd [OF assms(3)] by blast
        have din: "d_fd d \<noteq> ?n" "di \<noteq> ?n" using di nofd assms(2) by (auto simp: world_ok_def)
        have f1: "file_of w1 (d_fd d) = Some f" "file_of w1 ?n = Some new_file" "w_fds w1 (d_fd d) \<noteq> w_fds w1 ?n"
          using di din by (auto simp: file_of_def made)
        obtain q2 fed2 w2 where q2: "copy_pieces d ?n start stop (chunk_offsets start stop stream_chunk) [] (fed, w1) = (q2, (fed2, w2))"
          by (cases "copy_pieces d ?n start stop (chunk_offsets start stop stream_chunk) [] (fed, w1)") auto
        obtain g where g: "became ?n g w1 w2" "is_regular g"
          "\<forall>cs. q2 = Inr cs \<longrightarrow> cs = bs \<and> content g = bs \<and> fed2 = fed @ bs"
          "kind w1 \<longrightarrow> kind w2 \<and> (\<exists>cs. q2 = Inr cs)"
          using copy_pieces_became [OF assms(5,4) order.refl assms(7) q2 f1] bs by (auto simp: new_file_def)
        have ok2: "world_ok w2" by (rule world_ok_became [OF ok1 g(1) f1(2)])
        note T2 = became_tables [OF g(1)]
        have files2: "w_files w2 i = w_files w i" if "i < ?n" for i
          using became_files [OF g(1), of i] that by (simp add: made)
        have gi: "w_files w2 ?n = Some g" "file_of w2 ?n = Some g"
          using became_file_of [OF f1(2) g(1)] T2 by (simp_all add: file_of_def made)
        have ntp: "?tp \<noteq> p"
          unfolding p temp_path_def by (rule temp_not_object [OF assms(8)])
        obtain q3 w3 where q3: "link_object ?tp p ?n (stop - start) w2 = (q3, w3)" by fastforce
        define wl where "wl = (case q2 of Inl _ \<Rightarrow> w2 | Inr _ \<Rightarrow> w3)"
        obtain q4 w4 where q4: "discard_temporary ?n ?tp wl = (q4, w4)" by fastforce
        have run: "r = (case q4 of Inl e \<Rightarrow> Inl e | Inr _ \<Rightarrow> (case q2 of Inl e \<Rightarrow> Inl e
            | Inr cs \<Rightarrow> (case q3 of Inl e \<Rightarrow> Inl e | Inr ev \<Rightarrow> Inr (?desc, [Staged (stop - start), ev]))))"
          "w' = w4" "fed' = fed2"
          using assms(1) q0 \<open>q0 = Inr u0\<close> q1 Inr v made(1,2) q2 q3 q4 g(3) p
          by (auto simp: stream_publish_object_def andthen_def on_snd_def finally_do_def publish_staged_def
              ret_def wl_def split: sum.splits prod.splits)
        have tn: "w_names w2 ?tp = Some ?n" using T2 by (simp add: made)
        have len: "length bs = stop - start" if "q2 = Inr cs" for cs
        proof -
          have "stop \<le> length (content f)" using assms(4,7) by (simp add: spool_inv_def)
          then show ?thesis using bs assms(6) by simp
        qed
        have LL: "renamed {?tp, p} w2 wl \<and> world_ok wl" and LH: "\<And>cs ev. q2 = Inr cs \<Longrightarrow> q3 = Inr ev \<Longrightarrow> holds wl p bs"
          and LK: "kind w2 \<Longrightarrow> kind wl \<and> (\<forall>cs. q2 = Inr cs \<longrightarrow> (\<exists>ev. q3 = Inr ev))"
        proof -
          have *: "(renamed {?tp, p} w2 wl \<and> world_ok wl) \<and> (\<forall>cs ev. q2 = Inr cs \<and> q3 = Inr ev \<longrightarrow> holds wl p bs) \<and>
              (kind w2 \<longrightarrow> kind wl \<and> (\<forall>cs. q2 = Inr cs \<longrightarrow> (\<exists>ev. q3 = Inr ev)))"
          proof (cases q2)
            case (Inl e)
            then show ?thesis using ok2 by (simp add: wl_def renamed_def)
          next
            case (Inr cs)
            have cg: "content g = bs" "length (content g) = stop - start" using g(3) Inr len by auto
            note L = link_object_result [OF q3 ok2 ntp tn gi(1) g(2) gi(2) cg(2)]
            show ?thesis using L Inr cg(1) by (auto simp: wl_def)
          qed
          show "renamed {?tp, p} w2 wl \<and> world_ok wl" using * by blast
          show "\<And>cs ev. q2 = Inr cs \<Longrightarrow> q3 = Inr ev \<Longrightarrow> holds wl p bs" using * by blast
          show "kind w2 \<Longrightarrow> kind wl \<and> (\<forall>cs. q2 = Inr cs \<longrightarrow> (\<exists>ev. q3 = Inr ev))" using * by blast
        qed
        note D = discard_result [OF q4 conjunct2 [OF LL]]
        have "w_fds w4 = w_fds w"
          using D(1) LL T2 nofd by (auto simp: renamed_def made fun_upd_idem)
        then have "good w4"
          using D(1) LL T2 files2 unfolding good_def renamed_def by (auto simp: made)
        moreover have "holds w4 p bs" if "holds wl p bs"
          using that D(1) ntp by (auto simp: holds_def)
        ultimately show ?thesis
          using run LH LK D(2) g(3,4) k1 made(3) by (auto split: sum.splits)
      qed
    qed
  qed
  then show "w_fds w' = w_fds w \<and> w_suffixes w' = w_suffixes w \<and> w_fresh w \<le> w_fresh w' \<and> world_ok w' \<and>
      (\<forall>i < w_fresh w. w_files w' i = w_files w i) \<and>
      (\<forall>q. q \<noteq> p \<and> q \<noteq> temp_path base w \<longrightarrow> w_names w' q = w_names w q)"
    "r = Inr (o1, evs) \<Longrightarrow> o1 = ?desc \<and> fed' = fed @ bs \<and> holds w' p bs"
    "kind w \<Longrightarrow> w_names w (temp_path base w) = None \<Longrightarrow>
      kind w' \<and> w_names w' (temp_path base w) = None \<and> (\<exists>v. r = Inr v)"
    unfolding good_def by blast+
qed

end
