(* ===== verification/StreamRestore.thy ===== *)
theory StreamRestore
  imports StreamPublish
begin

text \<open>
  The round trip: what a commit publishes, a reader of its descriptors hands back.
\<close>

section \<open>A whole snapshot\<close>

text \<open>No two pieces of the snapshot have one digest.\<close>

definition no_collision :: "hash \<Rightarrow> byte list \<Rightarrow> bool" where
  "no_collision sha bs \<longleftrightarrow> (\<forall>i j k l. sha (slice i j bs) = sha (slice k l bs) \<longrightarrow> slice i j bs = slice k l bs)"

text \<open>No name the \<open>tempfile\<close> module will draw is taken.\<close>

definition no_temps :: "path \<Rightarrow> world \<Rightarrow> bool" where
  "no_temps base w \<longleftrightarrow> (\<forall>k. w_names w (chunks_dir base @ [''.snapshot.writing-'' @ w_suffixes w k]) = None)"

definition piece_of :: "nat \<Rightarrow> byte list \<Rightarrow> nat \<Rightarrow> byte list" where
  "piece_of ob bs s = slice s (min (length bs) (s + ob)) bs"

definition piece_descriptor :: "hash \<Rightarrow> nat \<Rightarrow> byte list \<Rightarrow> nat \<Rightarrow> object_descriptor" where
  "piece_descriptor sha ob bs s = \<lparr>o_sha256 = sha (piece_of ob bs s), o_bytes = length (piece_of ob bs s),
     o_start = s, o_end = min (length bs) (s + ob)\<rparr>"

lemma pieces_tile:
  assumes "0 < ob"
  shows "concat (map (piece_of ob bs) (chunk_offsets a (length bs) ob)) = drop a bs"
proof (induction "length bs - a" arbitrary: a rule: less_induct)
  case less
  show ?case
  proof (cases "a < length bs")
    case False
    then show ?thesis using assms by (subst chunk_offsets_rec) auto
  next
    case True
    have "length bs - (a + ob) < length bs - a" using True assms by linarith
    from less.hyps [OF this] True assms
    have "concat (map (piece_of ob bs) (chunk_offsets a (length bs) ob)) = piece_of ob bs a @ drop (a + ob) bs"
      by (subst chunk_offsets_rec) auto
    also have "\<dots> = drop a bs"
    proof (cases "a + ob \<le> length bs")
      case True
      then show ?thesis by (simp add: piece_of_def slice_drop)
    next
      case False
      then show ?thesis using True by (simp add: piece_of_def slice_def)
    qed
    finally show ?thesis .
  qed
qed

lemma object_path_inj: "object_path base x = object_path base y \<longleftrightarrow> x = y"
  by (simp add: object_path_def)

lemma publish_objects_result:
  assumes "publish_objects lib base d (chunk_offsets a (length bs) ob) (fed, w) = (r, (fed', w'))"
    and "ob = lib_object_bytes lib" "0 < ob" "world_ok w" "spool_at (d, w) f" "d_is_sealed d"
    and "content f = bs" "d_written d = length bs" "hex_hash (lib_sha lib)"
  shows "w_fds w' = w_fds w \<and> w_suffixes w' = w_suffixes w \<and> w_fresh w \<le> w_fresh w' \<and> world_ok w' \<and>
      (\<forall>i < w_fresh w. w_files w' i = w_files w i) \<and>
      (\<forall>os evs. r = Inr (os, evs) \<longrightarrow>
        os = map (piece_descriptor (lib_sha lib) ob bs) (chunk_offsets a (length bs) ob) \<and>
        fed' = fed @ drop a bs \<and>
        (no_collision (lib_sha lib) bs \<longrightarrow>
         (\<forall>i j. holds w (object_path base (lib_sha lib (slice i j bs))) (slice i j bs) \<longrightarrow>
            holds w' (object_path base (lib_sha lib (slice i j bs))) (slice i j bs)) \<and>
         (\<forall>s\<in>set (chunk_offsets a (length bs) ob).
            holds w' (object_path base (lib_sha lib (piece_of ob bs s))) (piece_of ob bs s)))) \<and>
      (kind w \<and> no_temps base w \<longrightarrow> kind w' \<and> no_temps base w' \<and> (\<exists>v. r = Inr v))"
  using assms(1,4,5)
proof (induction "length bs - a" arbitrary: a fed w r fed' w' rule: less_induct)
  case less
  let ?sha = "lib_sha lib"
  show ?case
  proof (cases "a < length bs")
    case False
    then have off: "chunk_offsets a (length bs) ob = []" using assms(3) by (subst chunk_offsets_rec) auto
    show ?thesis using less.prems False by (auto simp: off ret_def)
  next
    case True
    have dec: "length bs - (a + ob) < length bs - a" using True assms(3) by linarith
    let ?e = "min (length bs) (a + ob)"
    let ?p = "object_path base (?sha (piece_of ob bs a))"
    have off: "chunk_offsets a (length bs) ob = a # chunk_offsets (a + ob) (length bs) ob"
      using True assms(3) by (subst chunk_offsets_rec) auto
    obtain q fed1 w1 where q: "stream_publish_object ?sha base d a ?e (fed, w) = (q, (fed1, w1))"
      by (cases "stream_publish_object ?sha base d a ?e (fed, w)") auto
    have spool: "file_of w (d_fd d) = Some f" "spool_inv d f"
      using less.prems(3) by (simp_all add: spool_at_def)
    have pc: "piece_of ob bs a = slice a ?e (content f)" by (simp add: piece_of_def assms(7))
    have le: "a \<le> ?e" "?e \<le> d_written d" using True assms(8) by auto
    note P = publish_object_result [OF q less.prems(2) spool assms(6) le assms(9) pc refl]
    have names_fresh: "i < w_fresh w" if "w_names w x = Some i" for x i
      using that less.prems(2) by (simp add: world_ok_def)
    have keep: "holds w1 (object_path base (?sha (slice i j bs))) (slice i j bs)"
      if "holds w (object_path base (?sha (slice i j bs))) (slice i j bs)" "no_collision ?sha bs" "q = Inr (o1, evs)"
      for i j o1 evs
    proof (cases "object_path base (?sha (slice i j bs)) = ?p")
      case eq: True
      then have "slice i j bs = piece_of ob bs a"
        using that(2) by (auto simp: object_path_inj no_collision_def piece_of_def)
      then show ?thesis using P(2) [OF that(3)] by simp
    next
      case False
      moreover have "object_path base (?sha (slice i j bs)) \<noteq> temp_path base w"
        using temp_not_object [OF assms(9)] by (metis temp_path_def)
      ultimately have "w_names w1 (object_path base (?sha (slice i j bs))) = w_names w (object_path base (?sha (slice i j bs)))"
        using P(1) by blast
      then show ?thesis using that(1) P(1) names_fresh by (auto simp: holds_def)
    qed
    have k1: "kind w1 \<and> no_temps base w1 \<and> (\<exists>v. q = Inr v)" if "kind w \<and> no_temps base w"
    proof -
      have t: "w_names w (temp_path base w) = None" using that by (simp add: no_temps_def temp_path_def)
      note K = P(3) [OF conjunct1 [OF that] t]
      have "w_names w1 (chunks_dir base @ [''.snapshot.writing-'' @ w_suffixes w k]) = None" for k
      proof (cases "chunks_dir base @ [''.snapshot.writing-'' @ w_suffixes w k] = temp_path base w")
        case True
        then show ?thesis using K by simp
      next
        case False
        then show ?thesis
          using that P(1) temp_not_object [OF assms(9)] by (auto simp: no_temps_def)
      qed
      then show ?thesis using K P(1) by (simp add: no_temps_def)
    qed
    obtain q2 fed2 w2 where q2: "publish_objects lib base d (chunk_offsets (a + ob) (length bs) ob) (fed1, w1) = (q2, (fed2, w2))"
      by (cases "publish_objects lib base d (chunk_offsets (a + ob) (length bs) ob) (fed1, w1)") auto
    have run: "(r, (fed', w')) = (case q of Inl e \<Rightarrow> (Inl e, (fed1, w1)) | Inr (o1, evs) \<Rightarrow>
        (case q2 of Inl e \<Rightarrow> (Inl e, (fed2, w2)) | Inr (os, evs') \<Rightarrow> (Inr (o1 # os, evs @ evs'), (fed2, w2))))"
    proof -
      have tb: "min (d_total_bytes d) (a + lib_object_bytes lib) = ?e"
        by (simp add: assms(2,8) d_total_bytes_def)
      show ?thesis
        using less.prems(1) [unfolded off publish_objects.simps tb] q q2
        by (auto simp: andthen_def ret_def split: sum.splits prod.splits)
    qed
    have sp1: "spool_at (d, w1) f"
    proof -
      obtain di where "w_fds w (d_fd d) = Some di" "w_files w di = Some f"
        using file_of_fd [OF spool(1)] by blast
      then have "file_of w1 (d_fd d) = Some f"
        using P(1) less.prems(2) by (auto simp: file_of_def world_ok_def)
      then show ?thesis using less.prems(3) by (simp add: spool_at_def)
    qed
    have ok1: "world_ok w1" using P(1) by blast
    note I = less.hyps [OF dec q2 ok1 sp1]
    show ?thesis
    proof (cases q)
      case (Inl e)
      then show ?thesis using run P(1) k1 by auto
    next
      case (Inr v)
      obtain o1 evs where v: "q = Inr (o1, evs)" using Inr by (cases v) auto
      have len: "length (piece_of ob bs a) = ?e - a" by (auto simp: piece_of_def min_def)
      have o1: "o1 = piece_descriptor ?sha ob bs a" "fed1 = fed @ piece_of ob bs a" "holds w1 ?p (piece_of ob bs a)"
        using P(2) [OF v] len by (simp_all add: piece_descriptor_def)
      have w': "w' = w2" "fed' = fed2" using run v by (auto split: sum.splits prod.splits)
      have dr: "piece_of ob bs a @ drop (a + ob) bs = drop a bs"
      proof (cases "a + ob \<le> length bs")
        case True
        then show ?thesis by (simp add: piece_of_def slice_drop)
      next
        case False
        then show ?thesis using True by (simp add: piece_of_def slice_def)
      qed
      have main: "os = map (piece_descriptor ?sha ob bs) (chunk_offsets a (length bs) ob) \<and>
        fed' = fed @ drop a bs \<and>
        (no_collision ?sha bs \<longrightarrow>
         (\<forall>i j. holds w (object_path base (?sha (slice i j bs))) (slice i j bs) \<longrightarrow>
            holds w' (object_path base (?sha (slice i j bs))) (slice i j bs)) \<and>
         (\<forall>s\<in>set (chunk_offsets a (length bs) ob).
            holds w' (object_path base (?sha (piece_of ob bs s))) (piece_of ob bs s)))"
        if rr: "r = Inr (os, evs2)" for os evs2
      proof -
        obtain os1 evs1 where q2v: "q2 = Inr (os1, evs1)" "os = o1 # os1"
          using run v rr by (auto split: sum.splits prod.splits)
        have i1: "os1 = map (piece_descriptor ?sha ob bs) (chunk_offsets (a + ob) (length bs) ob)"
          "fed2 = fed1 @ drop (a + ob) bs"
          "no_collision ?sha bs \<Longrightarrow> holds w1 (object_path base (?sha (slice i j bs))) (slice i j bs) \<Longrightarrow>
            holds w2 (object_path base (?sha (slice i j bs))) (slice i j bs)"
          "no_collision ?sha bs \<Longrightarrow> s \<in> set (chunk_offsets (a + ob) (length bs) ob) \<Longrightarrow>
            holds w2 (object_path base (?sha (piece_of ob bs s))) (piece_of ob bs s)" for i j s
          using I q2v(1) by blast+
        have "holds w2 ?p (piece_of ob bs a)" if "no_collision ?sha bs"
          using i1(3) [OF that] o1(3) by (simp add: piece_of_def)
        then show ?thesis
          using i1 o1(1,2) dr q2v w' keep [OF _ _ v] by (auto simp: off)
      qed
      have "kind w' \<and> no_temps base w' \<and> (\<exists>v. r = Inr v)" if "kind w \<and> no_temps base w"
      proof -
        have "kind w2 \<and> no_temps base w2 \<and> (\<exists>v. q2 = Inr v)" using I k1 [OF that] by blast
        then show ?thesis using run v w' by (auto split: sum.splits prod.splits)
      qed
      then show ?thesis using main I P(1) w' by (auto intro: order.trans)
    qed
  qed
qed

section \<open>Reading published objects\<close>

text \<open>The reader stands at a position of the objects \<open>objs\<close>, all of which are on disk.\<close>

definition on_disk :: "hash \<Rightarrow> snapshot_reader \<Rightarrow> byte list list \<Rightarrow> world \<Rightarrow> bool" where
  "on_disk sha r objs w \<longleftrightarrow> world_ok w \<and> list_all2 (matches sha) objs (r_objects r) \<and>
     (\<forall>b\<in>set objs. b \<noteq> []) \<and> (\<forall>b\<in>set objs. holds w (object_path (r_root r) (sha b)) b)"

definition tracks :: "hash \<Rightarrow> byte list list \<Rightarrow> snapshot_reader \<Rightarrow> world \<Rightarrow> bool" where
  "tracks sha objs r w \<longleftrightarrow> on_disk sha r objs w \<and> r_index r \<le> length objs \<and>
     r_position r = length (r_snapshot_fed r) \<and> \<not> r_closed r \<and> \<not> r_finished r \<and>
     (case r_fd r of
       None \<Rightarrow> r_snapshot_fed r = concat (take (r_index r) objs)
     | Some fd \<Rightarrow> r_index r < length objs \<and> r_object_offset r < length (objs ! r_index r) \<and>
         r_object_fed r = Some (take (r_object_offset r) (objs ! r_index r)) \<and>
         r_snapshot_fed r = concat (take (r_index r) objs) @ take (r_object_offset r) (objs ! r_index r) \<and>
         (\<exists>h. file_of w fd = Some h \<and> is_regular h \<and> content h = objs ! r_index r))"

lemma holds_idle: "idle w w' \<Longrightarrow> holds w p b \<Longrightarrow> holds w' p b"
  by (simp add: idle_def holds_def)

lemma tracks_quiet:
  assumes "tracks sha objs r w" "quiet w w'"
  shows "tracks sha objs r w'"
proof -
  have "on_disk sha r objs w'"
    using assms(1) holds_idle [OF idle_quiet [OF assms(2)]] world_ok_idle [OF _ idle_quiet [OF assms(2)]]
    by (auto simp: tracks_def on_disk_def)
  then show ?thesis
    using assms(1) quiet_file_of [OF assms(2)] by (auto simp: tracks_def split: option.splits)
qed

lemma tracks_take:
  assumes "tracks sha objs r w"
  shows "r_snapshot_fed r = take (r_position r) (concat objs)"
proof -
  have split: "concat objs = concat (take (r_index r) objs) @ concat (drop (r_index r) objs)"
    by (metis append_take_drop_id concat_append)
  show ?thesis
  proof (cases "r_fd r")
    case None
    then show ?thesis using assms split by (simp add: tracks_def)
  next
    case (Some fd)
    then have "r_index r < length objs" using assms by (simp add: tracks_def)
    then have "concat (drop (r_index r) objs) = objs ! r_index r @ concat (drop (Suc (r_index r)) objs)"
      by (metis Cons_nth_drop_Suc concat.simps(2))
    then show ?thesis using assms Some split by (simp add: tracks_def)
  qed
qed

lemma tracks_open:
  assumes "tracks sha objs r w" "r_fd r = None" "r_index r < length objs" "kind w"
  shows "\<exists>r' w'. open_object (r, w) = (Inr (), (r', w')) \<and> tracks sha objs r' w' \<and> kind w' \<and>
    r_fd r' \<noteq> None \<and> r_snapshot_fed r' = r_snapshot_fed r \<and> r_index r' = r_index r"
proof -
  let ?b = "objs ! r_index r" and ?o = "r_objects r ! r_index r"
  have disk: "world_ok w" "list_all2 (matches sha) objs (r_objects r)"
    "\<forall>b\<in>set objs. b \<noteq> []" "\<forall>b\<in>set objs. holds w (object_path (r_root r) (sha b)) b"
    using assms(1) by (simp_all add: tracks_def on_disk_def)
  have m: "matches sha ?b ?o" and lt: "r_index r < length (r_objects r)"
    using disk(2) assms(3) by (auto simp: list_all2_conv_all_nth)
  have mem: "?b \<in> set objs" using assms(3) by simp
  obtain i h where ih: "w_names w (object_path (r_root r) (o_sha256 ?o)) = Some i"
    "w_files w i = Some h" "is_regular h" "content h = ?b"
    using disk(4) mem m by (auto simp: holds_def matches_def)
  obtain q w1 where q: "stream_open_readonly (object_path (r_root r) (o_sha256 ?o)) w = (q, w1)" by fastforce
  have k1: "kind w1" "q = Inr (w_fresh w)"
    using os_open_kind [OF assms(4) q [unfolded stream_open_readonly_def] ih(1)] by simp_all
  have w1: "quiet (w\<lparr>w_fds := (w_fds w)(w_fresh w \<mapsto> i), w_fresh := Suc (w_fresh w)\<rparr>) w1"
    using q k1(2) ih(1) by (cases rule: open_readonly_cases) auto
  have e1: "file_of w1 (w_fresh w) = Some h"
    using w1 ih(2) by (simp add: file_of_def quiet_iff)
  obtain u w2 where u: "stream_require_regular_size (w_fresh w) (o_bytes ?o) w1 = (u, w2)" by fastforce
  note rs = regular_size_file [OF u e1]
  have k2: "kind w2" "u = Inr ()" using rs(3) [OF k1(1)] ih m by (simp_all add: matches_def)
  let ?r1 = "r\<lparr>r_fd := Some (w_fresh w), r_object_fed := Some [], r_object_offset := 0\<rparr>"
  have op: "open_object (r, w) = (Inr (), (?r1, w2))"
    using lt q k1(2) u k2(2) by (simp add: open_object_def Let_def)
  have ok2: "world_ok w2"
    using disk(1) ih(1) w1 rs(1) unfolding world_ok_def quiet_iff
    by (auto simp: less_Suc_eq split: if_splits)
  have "on_disk sha ?r1 objs w2"
    using disk ok2 w1 rs(1) by (auto simp: on_disk_def holds_def quiet_iff)
  moreover have "file_of w2 (w_fresh w) = Some h" using quiet_file_of [OF rs(1)] e1 by simp
  ultimately have "tracks sha objs ?r1 w2"
    using assms(1-3) disk(3) mem ih(3,4) by (auto simp: tracks_def)
  then show ?thesis using op k2(1) by auto
qed

lemma finish_tracks:
  assumes "r_fd r = Some fd" "r_object_fed r = Some (objs ! r_index r)" "r_index r < length objs"
    "r_snapshot_fed r = concat (take (Suc (r_index r)) objs)" "r_position r = length (r_snapshot_fed r)"
    "\<not> r_closed r" "\<not> r_finished r" "on_disk sha r objs w" "kind w"
    "file_of w fd = Some h" "is_regular h" "content h = objs ! r_index r"
  shows "\<exists>r' w'. finish_object sha (r, w) = (Inr (), (r', w')) \<and> tracks sha objs r' w' \<and> kind w' \<and>
    r_snapshot_fed r' = r_snapshot_fed r"
proof -
  have m: "matches sha (objs ! r_index r) (r_objects r ! r_index r)"
    using assms(3,8) by (auto simp: on_disk_def list_all2_conv_all_nth)
  obtain u w1 where u: "stream_require_regular_size fd (o_bytes (r_objects r ! r_index r)) w = (u, w1)" by fastforce
  note rs = regular_size_file [OF u assms(10)]
  have k: "kind w1" "u = Inr ()" using rs(3) [OF assms(9)] assms(11,12) m by (simp_all add: matches_def)
  let ?r1 = "r\<lparr>r_fd := None, r_object_fed := None, r_index := Suc (r_index r), r_object_offset := 0\<rparr>"
  let ?w2 = "w1\<lparr>w_fds := (w_fds w1)(fd := None)\<rparr>"
  have f: "finish_object sha (r, w) = (Inr (), (?r1, ?w2))"
    using assms(1,2) u k(2) m
    by (simp add: finish_object_def Let_def finally_do_def andthen_def ret_def os_close_def matches_def)
  have "world_ok w1" using assms(8) world_ok_idle [OF _ idle_quiet [OF rs(1)]] by (simp add: on_disk_def)
  then have "world_ok ?w2" by (simp add: world_ok_def)
  then have "on_disk sha ?r1 objs ?w2"
    using assms(8) rs(1) by (auto simp: on_disk_def holds_def quiet_iff)
  then have "tracks sha objs ?r1 ?w2" using assms(3-7) by (simp add: tracks_def)
  moreover have "kind ?w2" using k(1) by (simp add: kind_def)
  ultimately show ?thesis using f by auto
qed

lemma read_turn_tracks:
  assumes "tracks sha objs r w" "kind w" "0 < want" "r_position r < length (concat objs)"
  shows "\<exists>bs r' w'. read_turn sha want (r, w) = (Inr bs, (r', w')) \<and> tracks sha objs r' w' \<and> kind w'"
proof -
  have "\<exists>ra wa. ensure_object (r, w) = (Inr (), (ra, wa)) \<and> tracks sha objs ra wa \<and> kind wa \<and> r_fd ra \<noteq> None"
  proof (cases "r_fd r")
    case None
    then have "r_index r < length objs"
      using assms(1,4) by (cases "r_index r < length objs") (auto simp: tracks_def)
    then show ?thesis
      using tracks_open [OF assms(1) None _ assms(2)] None by (auto simp: ensure_object_def)
  next
    case (Some fd)
    then show ?thesis using assms(1,2) by (simp add: ensure_object_def)
  qed
  then obtain ra wa fd where e: "ensure_object (r, w) = (Inr (), (ra, wa))" and t: "tracks sha objs ra wa"
    and ka: "kind wa" and fd: "r_fd ra = Some fd" by auto
  let ?b = "objs ! r_index ra"
  have tr: "on_disk sha ra objs wa" "r_index ra < length objs" "r_object_offset ra < length ?b"
    "r_object_fed ra = Some (take (r_object_offset ra) ?b)"
    "r_snapshot_fed ra = concat (take (r_index ra) objs) @ take (r_object_offset ra) ?b"
    "r_position ra = length (r_snapshot_fed ra)" "\<not> r_closed ra" "\<not> r_finished ra"
    using t fd by (auto simp: tracks_def)
  obtain h where h: "file_of wa fd = Some h" "is_regular h" "content h = ?b"
    using t fd by (auto simp: tracks_def)
  have m: "matches sha ?b (r_objects ra ! r_index ra)" "r_index ra < length (r_objects ra)"
    using tr(1,2) by (auto simp: on_disk_def list_all2_conv_all_nth)
  define count where "count = min want (o_bytes (r_objects ra ! r_index ra) - r_object_offset ra)"
  have cnt: "0 < count" "r_object_offset ra + count \<le> length ?b"
    using assms(3) tr(3) m(1) by (auto simp: count_def matches_def)
  obtain p w1 where p: "stream_pread_into fd count (r_object_offset ra) wa = (p, w1)" by fastforce
  note P = pread_into_quiet [OF p h(1)]
  let ?bs = "slice (r_object_offset ra) (r_object_offset ra + count) ?b"
  have p1: "kind w1" "p = Inr ?bs" using P(3) [OF ka] cnt(2) h(3) by simp_all
  have h1: "file_of w1 fd = Some h" using quiet_file_of [OF P(1)] h(1) by simp
  obtain d w2 where d: "stream_drop_cache fd (r_object_offset ra) count w1 = (d, w2)" by fastforce
  note D = drop_cache_quiet [OF d h1]
  have d1: "kind w2" "d = Inr ()" "quiet w1 w2" using D p1(1) by auto
  have h2: "file_of w2 fd = Some h" using quiet_file_of [OF d1(3)] h1 by simp
  let ?r2 = "advanced ra (take (r_object_offset ra) ?b) ?bs count"
  have run: "read_turn sha want (r, w) =
    (if r_object_offset ra + count = o_bytes (r_objects ra ! r_index ra)
     then andthen (finish_object sha) (\<lambda>_. ret ?bs) (?r2, w2) else (Inr ?bs, (?r2, w2)))"
    using m(2) fd tr(4) p p1(2) d d1(2) cnt(1) e
    by (simp add: read_turn_def andthen_def count_def [symmetric] Let_def advanced_def)
  have j: "take (r_object_offset ra) ?b @ ?bs = take (r_object_offset ra + count) ?b"
    using slice_join [of 0 "r_object_offset ra" "r_object_offset ra + count" ?b]
    by (simp add: take_as_slice)
  have lb: "length ?bs = count" using cnt(2) by simp
  have disk2: "on_disk sha ?r2 objs w2"
    using tracks_quiet [OF tracks_quiet [OF t P(1)] d1(3)]
    by (simp add: tracks_def on_disk_def advanced_def)
  have fed2: "r_snapshot_fed ?r2 = concat (take (r_index ra) objs) @ take (r_object_offset ra + count) ?b"
    using tr(5) j by (simp add: advanced_def)
  have pos2: "r_position ?r2 = length (r_snapshot_fed ?r2)"
    using tr(6) lb by (simp add: advanced_def)
  show ?thesis
  proof (cases "r_object_offset ra + count = o_bytes (r_objects ra ! r_index ra)")
    case True
    then have full: "r_object_offset ra + count = length ?b" using m(1) by (simp add: matches_def)
    have "r_object_fed ?r2 = Some ?b" using j full by (simp add: advanced_def)
    moreover have "r_snapshot_fed ?r2 = concat (take (Suc (r_index ra)) objs)"
      using fed2 full tr(2) by (simp add: take_Suc_conv_app_nth)
    ultimately have "\<exists>r' w'. finish_object sha (?r2, w2) = (Inr (), (r', w')) \<and> tracks sha objs r' w' \<and> kind w' \<and>
        r_snapshot_fed r' = r_snapshot_fed ?r2"
      using finish_tracks [of ?r2 fd objs sha w2 h] fd tr(2,7,8) pos2 disk2 d1(1) h2 h(2,3)
      by (simp add: advanced_def)
    then show ?thesis using run True by (auto simp: andthen_def ret_def)
  next
    case False
    have lt: "r_object_offset ra + count < length ?b" using False cnt(2) m(1) by (simp add: matches_def)
    have "tracks sha objs ?r2 w2"
      using disk2 fed2 pos2 tr(2,7,8) lt h2 h(2,3) fd j by (simp add: tracks_def advanced_def)
    then show ?thesis using run False d1(1) by auto
  qed
qed

lemma tracks_fed:
  assumes "tracks sha objs r w"
  shows "fed_inv sha r"
proof -
  have l: "list_all2 (matches sha) objs (r_objects r)" using assms by (simp add: tracks_def on_disk_def)
  have "list_all2 (matches sha) (take (r_index r) objs) (take (r_index r) (r_objects r))"
    using l by (simp add: list_all2_takeI)
  moreover have "length objs = length (r_objects r)" using l by (rule list_all2_lengthD)
  ultimately show ?thesis
    using assms by (auto simp: tracks_def fed_inv_def split: option.splits)
qed

lemma read_from_tracks:
  "tracks sha objs r w \<Longrightarrow> kind w \<Longrightarrow> length got \<le> n \<Longrightarrow>
   r_position r + (n - length got) \<le> length (concat objs) \<Longrightarrow>
   \<exists>bs r' w'. read_from sha n got (r, w) = (Inr bs, (r', w')) \<and> tracks sha objs r' w' \<and> kind w'"
proof (induction sha n got "(r, w)" arbitrary: r w rule: read_from.induct)
  case (1 sha n got r w)
  show ?case
  proof (cases "length got < n")
    case False
    then have "read_from sha n got (r, w) = (Inr got, (r, w))"
      by (subst read_from.simps) simp
    then show ?thesis using "1.prems" by simp
  next
    case True
    obtain bs r1 w1 where t: "read_turn sha (n - length got) (r, w) = (Inr bs, (r1, w1))"
      "tracks sha objs r1 w1" "kind w1"
    proof -
      have "r_position r < length (concat objs)" "0 < n - length got" using True "1.prems"(4) by linarith+
      then show thesis
        using read_turn_tracks [OF "1.prems"(1,2)] that by blast
    qed
    note tf = read_turn_fed [OF t(1) tracks_fed [OF "1.prems"(1)]]
    have pos: "r_position r1 = r_position r + length bs"
      using tf "1.prems"(1) t(2) by (simp add: tracks_def)
    have "read_from sha n got (r, w) = read_from sha n (got @ bs) (r1, w1)"
      using True t(1) by (subst read_from.simps) simp
    moreover have "length (got @ bs) \<le> n" "r_position r1 + (n - length (got @ bs)) \<le> length (concat objs)"
      using tf True pos "1.prems"(4) by auto
    ultimately show ?thesis
      using "1.hyps" [OF True t(1) [symmetric] refl t(2,3)] by auto
  qed
qed

lemma read_pieces_tracks:
  "tracks sha objs r w \<Longrightarrow> kind w \<Longrightarrow> r_encoded_bytes r = length (concat objs) \<Longrightarrow>
   \<forall>n\<in>set ns. n \<le> stream_chunk \<Longrightarrow> r_position r + sum_list ns \<le> length (concat objs) \<Longrightarrow>
   \<exists>bss r' w'. read_pieces sha (map (\<lambda>n. PyInt (int n)) ns) (r, w) = (Inr bss, (r', w')) \<and>
     tracks sha objs r' w' \<and> kind w' \<and> map length bss = ns \<and>
     r_snapshot_fed r' = r_snapshot_fed r @ concat bss \<and> r_encoded_sha256 r' = r_encoded_sha256 r \<and>
     r_encoded_bytes r' = r_encoded_bytes r \<and> r_objects r' = r_objects r"
proof (induction ns arbitrary: r w)
  case Nil
  then show ?case by (simp add: ret_def)
next
  case (Cons n ns)
  have open_flags: "\<not> r_closed r" "\<not> r_finished r" using Cons.prems(1) by (simp_all add: tracks_def)
  have "r_position r + (n - length []) \<le> length (concat objs)" using Cons.prems(5) by simp
  then obtain b r1 w1 where f: "read_from sha n [] (r, w) = (Inr b, (r1, w1))" "tracks sha objs r1 w1" "kind w1"
    using read_from_tracks [OF Cons.prems(1,2), of "[]" n] by auto
  have x: "read_exact sha (PyInt (int n)) (r, w) = (Inr b, (r1, w1))"
    using f(1) open_flags Cons.prems(3-5) by (auto simp: read_exact_def)
  have g: "length b = n" "r_snapshot_fed r1 = r_snapshot_fed r @ b" "r_encoded_sha256 r1 = r_encoded_sha256 r"
    "r_encoded_bytes r1 = r_encoded_bytes r" "r_objects r1 = r_objects r"
    using read_exact_fed [OF x tracks_fed [OF Cons.prems(1)]] by auto
  have "r_position r1 = r_position r + n" using g(1,2) f(2) Cons.prems(1) by (simp add: tracks_def)
  then obtain bss r2 w2 where "read_pieces sha (map (\<lambda>n. PyInt (int n)) ns) (r1, w1) = (Inr bss, (r2, w2))"
    "tracks sha objs r2 w2" "kind w2" "map length bss = ns" "r_snapshot_fed r2 = r_snapshot_fed r1 @ concat bss"
    "r_encoded_sha256 r2 = r_encoded_sha256 r1" "r_encoded_bytes r2 = r_encoded_bytes r1" "r_objects r2 = r_objects r1"
    using Cons.IH [OF f(2,3)] g(4) Cons.prems(3-5) by auto
  then show ?case using x g by (simp add: andthen_def ret_def)
qed

lemma preflight_kind:
  "kind w \<Longrightarrow> world_ok w \<Longrightarrow> list_all2 (matches sha) objs os \<Longrightarrow>
   \<forall>b\<in>set objs. holds w (object_path base (sha b)) b \<Longrightarrow>
   \<exists>w'. preflight_files base os w = (Inr (), w') \<and> kind w' \<and> world_ok w' \<and>
     (\<forall>b\<in>set objs. holds w' (object_path base (sha b)) b)"
proof (induction os arbitrary: w objs)
  case Nil
  then show ?case by (simp add: ret_def)
next
  case (Cons o1 os)
  obtain b bs where objs: "objs = b # bs" "matches sha b o1" "list_all2 (matches sha) bs os"
    using Cons.prems(3) by (cases objs) auto
  obtain i h where ih: "w_names w (object_path base (o_sha256 o1)) = Some i" "w_files w i = Some h"
    "is_regular h" "content h = b"
    using Cons.prems(4) objs(1,2) by (auto simp: holds_def matches_def)
  obtain q w1 where q: "stream_open_readonly (object_path base (o_sha256 o1)) w = (q, w1)" by fastforce
  have k1: "kind w1" "q = Inr (w_fresh w)"
    using os_open_kind [OF Cons.prems(1) q [unfolded stream_open_readonly_def] ih(1)] by simp_all
  have w1: "quiet (w\<lparr>w_fds := (w_fds w)(w_fresh w \<mapsto> i), w_fresh := Suc (w_fresh w)\<rparr>) w1"
    using q k1(2) ih(1) by (cases rule: open_readonly_cases) auto
  have e1: "file_of w1 (w_fresh w) = Some h"
    using w1 ih(2) by (simp add: file_of_def quiet_iff)
  obtain u w2 where u: "stream_require_regular_size (w_fresh w) (o_bytes o1) w1 = (u, w2)" by fastforce
  note rs = regular_size_file [OF u e1]
  have k2: "kind w2" "u = Inr ()" using rs(3) [OF k1(1)] ih objs(2) by (simp_all add: matches_def)
  let ?w3 = "w2\<lparr>w_fds := (w_fds w2)(w_fresh w := None)\<rparr>"
  have st: "preflight_files base (o1 # os) w = preflight_files base os ?w3"
    using q k1(2) u k2(2) by (simp add: andthen_def finally_do_def os_close_def)
  have "kind ?w3" using k2(1) by (simp add: kind_def)
  moreover have "world_ok ?w3"
    using Cons.prems(2) ih(1) w1 rs(1) unfolding world_ok_def quiet_iff
    by (auto simp: less_Suc_eq split: if_splits)
  moreover have "\<forall>b\<in>set objs. holds ?w3 (object_path base (sha b)) b"
    using Cons.prems(4) w1 rs(1) by (auto simp: holds_def quiet_iff)
  moreover have "holds v p b \<Longrightarrow> unchanged v v' \<Longrightarrow> holds v' p b" for v v' p b
    by (simp add: holds_def unchanged_def)
  moreover have un: "unchanged ?w3 w'" if "preflight_files base os ?w3 = (r, w')" for r w'
    using preflight_fds [OF that] \<open>world_ok ?w3\<close> by (simp add: fds_ok_def world_ok_def)
  ultimately show ?case
    using Cons.IH [of ?w3 bs] objs st by (auto; blast)
qed

lemma chunk_offsets_less: "s \<in> set (chunk_offsets a b st) \<Longrightarrow> 0 < st \<Longrightarrow> s < b"
proof (induction "b - a" arbitrary: a rule: less_induct)
  case less
  show ?case
  proof (cases "a < b \<and> s \<noteq> a")
    case True
    have "s \<in> set (chunk_offsets (a + st) b st)"
      using less.prems(1) True by (subst (asm) chunk_offsets_rec [OF less.prems(2)]) auto
    moreover have "b - (a + st) < b - a" using True less.prems(2) by linarith
    ultimately show ?thesis using less.hyps less.prems(2) by blast
  next
    case False
    then show ?thesis
      using less.prems(1) by (subst (asm) chunk_offsets_rec [OF less.prems(2)]) (auto split: if_splits)
  qed
qed

section \<open>Properties of publication\<close>

text \<open>
  C24. Publishing one object, whatever fails on the way, changes no byte of a file that
  existed before, returns every descriptor, and touches no other name than the object's
  and the staged file's. When it returns, the descriptor names the digest and size of the
  range, the snapshot's digest was fed the range, and the object's name holds exactly it.
\<close>

theorem publish_immutable:
  assumes "stream_publish_object sha base d start stop (fed, w) = (r, (fed', w'))"
    and "world_ok w" "spool_at (d, w) f" "d_is_sealed d"
    and "start \<le> stop" "stop \<le> d_written d" "hex_hash sha"
  defines "bs \<equiv> slice start stop (content f)"
  shows "w_fds w' = w_fds w \<and> (\<forall>i < w_fresh w. w_files w' i = w_files w i) \<and>
    (\<forall>q. q \<noteq> object_path base (sha bs) \<and> q \<noteq> temp_path base w \<longrightarrow> w_names w' q = w_names w q) \<and>
    (\<forall>o1 evs. r = Inr (o1, evs) \<longrightarrow> o_sha256 o1 = sha bs \<and> o_bytes o1 = length bs \<and>
      o_start o1 = start \<and> o_end o1 = stop \<and> fed' = fed @ bs \<and> holds w' (object_path base (sha bs)) bs)"
proof -
  have s: "file_of w (d_fd d) = Some f" "spool_inv d f" using assms(3) by (simp_all add: spool_at_def)
  have "bs = slice start stop (content f)" by (simp add: bs_def)
  note P = publish_object_result [OF assms(1,2) s assms(4-7) this refl]
  have "stop \<le> length (content f)" using s(2) assms(6) by (simp add: spool_inv_def)
  then have "length bs = stop - start" using assms(5) by (simp add: bs_def)
  then show ?thesis using P(1,2) by auto
qed

text \<open>
  C8. Round trip through the disk: when no call fails, publishing a sealed spool succeeds
  and a reader of the descriptors it returned, read in any pieces of at most a chunk that
  add up to the snapshot, gives back the spool's bytes and accepts them.
\<close>

theorem publish_then_restore:
  assumes "kind w" "world_ok w" "no_temps base w" "spool_at (d, w) f" "d_is_sealed d"
    and "content f = bs" "d_written d = length bs"
    and "hex_hash (lib_sha lib)" "no_collision (lib_sha lib) bs" "0 < lib_object_bytes lib"
    and "sum_list ns = length bs" "\<forall>n\<in>set ns. n \<le> stream_chunk"
  shows "\<exists>os evs w1 r w2 bss r' w3.
    publish_objects lib base d (chunk_offsets 0 (d_total_bytes d) (lib_object_bytes lib)) ([], w) =
      (Inr (os, evs), (bs, w1)) \<and>
    make_reader base os (length bs) (lib_sha lib bs) w1 = (Inr r, w2) \<and>
    with_reader (lib_sha lib) (read_pieces (lib_sha lib) (map (\<lambda>n. PyInt (int n)) ns)) (r, w2) =
      (Inr bss, (r', w3)) \<and>
    concat bss = bs \<and> map length bss = ns"
proof -
  let ?sha = "lib_sha lib" and ?ob = "lib_object_bytes lib"
  let ?starts = "chunk_offsets 0 (length bs) ?ob"
  define objs where objs_def: "objs = map (piece_of ?ob bs) ?starts"
  obtain q fed w1 where q: "publish_objects lib base d ?starts ([], w) = (q, (fed, w1))"
    by (cases "publish_objects lib base d ?starts ([], w)") auto
  note P = publish_objects_result [OF q refl assms(10,2,4-8)]
  obtain os evs where qv: "q = Inr (os, evs)" and k1: "kind w1" using P assms(1,3) by auto
  have os: "os = map (piece_descriptor ?sha ?ob bs) ?starts" "fed = bs" "world_ok w1"
    "\<forall>s\<in>set ?starts. holds w1 (object_path base (?sha (piece_of ?ob bs s))) (piece_of ?ob bs s)"
    using P qv assms(9) by auto
  have ma: "list_all2 (matches ?sha) objs os"
    by (simp add: objs_def os(1) list_all2_conv_all_nth matches_def piece_descriptor_def)
  have hold: "\<forall>b\<in>set objs. holds w1 (object_path base (?sha b)) b" using os(4) by (auto simp: objs_def)
  have cat: "concat objs = bs" using pieces_tile [OF assms(10), of bs 0] by (simp add: objs_def)
  have ne: "\<forall>b\<in>set objs. b \<noteq> []"
  proof
    fix b assume "b \<in> set objs"
    then obtain s where s: "s \<in> set ?starts" "b = piece_of ?ob bs s" by (auto simp: objs_def)
    have "s < length bs" by (rule chunk_offsets_less [OF s(1) assms(10)])
    then have "0 < length b" using s assms(10) by (auto simp: piece_of_def)
    then show "b \<noteq> []" by auto
  qed
  obtain w2 where pf: "preflight_files base os w1 = (Inr (), w2)" "kind w2" "world_ok w2"
    "\<forall>b\<in>set objs. holds w2 (object_path base (?sha b)) b"
    using preflight_kind [OF k1 os(3) ma hold] by blast
  let ?r = "new_reader base os (length bs) (?sha bs)"
  have mk: "make_reader base os (length bs) (?sha bs) w1 = (Inr ?r, w2)"
    using pf(1) by (simp add: make_reader_def andthen_def ret_def)
  have T: "tracks ?sha objs ?r w2"
    using pf(3,4) ma ne by (simp add: tracks_def on_disk_def new_reader_def)
  have E: "r_encoded_bytes ?r = length (concat objs)" and S: "r_position ?r + sum_list ns \<le> length (concat objs)"
    unfolding cat using assms(11) by (simp_all add: new_reader_def)
  obtain bss r' w3 where rp: "read_pieces ?sha (map (\<lambda>n. PyInt (int n)) ns) (?r, w2) = (Inr bss, (r', w3)) \<and>
     tracks ?sha objs r' w3 \<and> kind w3 \<and> map length bss = ns \<and>
     r_snapshot_fed r' = r_snapshot_fed ?r @ concat bss \<and> r_encoded_sha256 r' = r_encoded_sha256 ?r \<and>
     r_encoded_bytes r' = r_encoded_bytes ?r \<and> r_objects r' = r_objects ?r"
    using read_pieces_tracks [OF T pf(2) E assms(12) S] by blast
  then have rd: "read_pieces ?sha (map (\<lambda>n. PyInt (int n)) ns) (?r, w2) = (Inr bss, (r', w3))"
    "tracks ?sha objs r' w3" "map length bss = ns" "r_snapshot_fed r' = r_snapshot_fed ?r @ concat bss"
    "r_encoded_sha256 r' = ?sha bs" "r_encoded_bytes r' = length bs" "r_objects r' = os"
    by (simp_all add: new_reader_def)
  have len: "length (concat bss) = length bs"
    using rd(3) assms(11) by (simp add: length_concat)
  have pos: "r_position r' = length bs" "r_snapshot_fed r' = concat bss"
    using rd(2,4) len by (simp_all add: tracks_def new_reader_def)
  have got: "concat bss = bs"
    using tracks_take [OF rd(2)] pos unfolding cat by simp
  have lo: "length os = length objs" using list_all2_lengthD [OF ma] by simp
  have "r_fd r' = None \<and> r_index r' = length os"
  proof (cases "r_fd r'")
    case None
    then have eq: "concat objs = concat (take (r_index r') objs)"
      using rd(2) pos got cat by (simp add: tracks_def)
    have le: "r_index r' \<le> length objs" using rd(2) by (simp add: tracks_def)
    have "concat objs = concat (take (r_index r') objs) @ concat (drop (r_index r') objs)"
      by (simp only: concat_append [symmetric] append_take_drop_id)
    from this [folded eq] have none: "concat (drop (r_index r') objs) = []"
      by (simp only: self_append_conv)
    have "drop (r_index r') objs = []"
    proof (cases "drop (r_index r') objs")
      case (Cons b bs')
      then have "b \<in> set objs" by (metis in_set_dropD list.set_intros(1))
      then have "b \<noteq> []" using ne by blast
      moreover have "b = []" using none unfolding Cons by simp
      ultimately show ?thesis by blast
    qed simp
    then show ?thesis using None le lo by simp
  next
    case (Some fd)
    then have i: "r_index r' < length objs" "r_object_offset r' < length (objs ! r_index r')"
      "r_snapshot_fed r' = concat (take (r_index r') objs) @ take (r_object_offset r') (objs ! r_index r')"
      using rd(2) by (simp_all add: tracks_def)
    have "concat objs = concat (take (r_index r') objs) @ objs ! r_index r' @ concat (drop (Suc (r_index r')) objs)"
      using i(1) by (metis append_take_drop_id concat_append Cons_nth_drop_Suc concat.simps(2))
    then have "length bs > length (r_snapshot_fed r')" using i unfolding cat by simp
    then show ?thesis using pos got by simp
  qed
  then have fin: "reader_finish ?sha (r', w3) = (Inr (), (r'\<lparr>r_finished := True\<rparr>, w3))"
    using rd(2,5-7) pos got by (simp add: reader_finish_def tracks_def)
  have "with_reader ?sha (read_pieces ?sha (map (\<lambda>n. PyInt (int n)) ns)) (?r, w2) =
      (Inr bss, (r'\<lparr>r_finished := True\<rparr>, w3))"
    using rd(1) fin by (simp add: with_reader_def reader_exit_def andthen_def ret_def)
  then show ?thesis
    using q qv os(2) mk got rd(3) assms(7) by (simp add: d_total_bytes_def)
qed

text \<open>
  C38. A commit always releases the spool, whether it succeeds, is refused or fails; it is
  refused without touching the disk unless the digest, the spool, the schemas and the span
  are valid. A receipt names the digest and span of the manifest that was published, its
  bytes are those of the manifest and of the snapshot, and the allocation bound rounds
  each file up to whole blocks of 4096 bytes.
\<close>

theorem commit_releases:
  assumes "commit_page_snapshot lib base idn ctx sp (d, w) = (r, (d', w'))"
    and "world_ok w" "spool_at (d, w) f" "content f = bs" "d_written d = length bs"
    and "hex_hash (lib_sha lib)" "0 < lib_object_bytes lib"
  shows "d_released d' \<and>
    (\<forall>e. check_commit lib idn ctx sp d = Inl e \<longrightarrow> r = Inl e \<and> w' = snd (os_close (d_fd d) w)) \<and>
    (\<forall>rc. r = Inr rc \<longrightarrow> (\<exists>n os encoded. check_commit lib idn ctx sp d = Inr n \<and>
      os = map (piece_descriptor (lib_sha lib) (lib_object_bytes lib) bs)
        (chunk_offsets 0 (length bs) (lib_object_bytes lib)) \<and>
      encoded = lib_canonical_json lib (manifest_root lib idn ctx n (length bs) os (lib_sha lib bs)) \<and>
      manifest_digest rc = lib_sha lib encoded \<and> committed_tokens rc = n \<and>
      receipt_bytes rc = length encoded + length bs \<and>
      receipt_bytes rc \<le> allocated_bytes_upper_bound rc \<and>
      allocated_bytes_upper_bound rc \<le> receipt_bytes rc + 4095 * (length os + 1)))"
proof -
  have live: "\<not> d_released d" using assms(3) by (simp add: spool_at_def)
  have rel: "spool_release (d, v) = (Inr (), (d\<lparr>d_released := True\<rparr>, snd (os_close (d_fd d) v)))" for v
    using live by (simp add: spool_release_def on_snd_def os_close_def)
  have round: "n \<le> round_4096 n \<and> round_4096 n \<le> n + 4095" for n
    unfolding round_4096_def by linarith
  have rounds: "sum_list ms \<le> sum_list (map round_4096 ms) \<and>
      sum_list (map round_4096 ms) \<le> sum_list ms + 4095 * length ms" for ms
    using round by (induction ms) (auto intro: add_mono simp: add.assoc, smt (verit) add.assoc add.commute add_mono)
  show ?thesis
  proof (cases "check_commit lib idn ctx sp d")
    case (Inl e)
    then have "r = Inl e \<and> d' = d\<lparr>d_released := True\<rparr> \<and> w' = snd (os_close (d_fd d) w)"
      using assms(1) rel by (simp add: commit_page_snapshot_def finally_do_def)
    then show ?thesis using Inl by simp
  next
    case (Inr n)
    obtain q w1 where q: "commit_body lib base idn ctx n d w = (q, w1)" by fastforce
    have run: "r = q \<and> d' = d\<lparr>d_released := True\<rparr>"
      using assms(1) rel Inr q by (simp add: commit_page_snapshot_def finally_do_def on_snd_def)
    have sealed: "d_is_sealed d" using Inr by (auto simp: check_commit_def split: if_splits)
    have "\<exists>os encoded. os = map (piece_descriptor (lib_sha lib) (lib_object_bytes lib) bs)
        (chunk_offsets 0 (length bs) (lib_object_bytes lib)) \<and>
      encoded = lib_canonical_json lib (manifest_root lib idn ctx n (length bs) os (lib_sha lib bs)) \<and>
      manifest_digest rc = lib_sha lib encoded \<and> committed_tokens rc = n \<and>
      receipt_bytes rc = length encoded + length bs \<and>
      receipt_bytes rc \<le> allocated_bytes_upper_bound rc \<and>
      allocated_bytes_upper_bound rc \<le> receipt_bytes rc + 4095 * (length os + 1)" if rc: "q = Inr rc" for rc
    proof -
      obtain p fed v where p: "publish_objects lib base d (chunk_offsets 0 (length bs) (lib_object_bytes lib)) ([], w) = (p, (fed, v))"
        by (cases "publish_objects lib base d (chunk_offsets 0 (length bs) (lib_object_bytes lib)) ([], w)") auto
      note P = publish_objects_result [OF p refl assms(7,2,3) sealed assms(4-6)]
      obtain os evs where pv: "p = Inr (os, evs)"
        using q rc p assms(5) by (cases p) (auto simp: commit_body_def Let_def d_total_bytes_def)
      have os: "os = map (piece_descriptor (lib_sha lib) (lib_object_bytes lib) bs)
          (chunk_offsets 0 (length bs) (lib_object_bytes lib))" "fed = bs"
        using P pv by auto
      let ?enc = "lib_canonical_json lib (manifest_root lib idn ctx n (length bs) os (lib_sha lib bs))"
      have rcv: "rc = \<lparr>manifest_digest = lib_sha lib ?enc, committed_tokens = n,
          receipt_bytes = length ?enc + sum_list (map o_bytes os),
          allocated_bytes_upper_bound = sum_list (map round_4096 (length ?enc # map o_bytes os))\<rparr>"
        using q rc p pv os(2) assms(5)
        by (auto simp: commit_body_def Let_def d_total_bytes_def andthen_Inr ret_def)
      have "sum_list (map o_bytes os) = length (concat (map (piece_of (lib_object_bytes lib) bs)
          (chunk_offsets 0 (length bs) (lib_object_bytes lib))))"
        by (simp add: os(1) length_concat piece_descriptor_def comp_def)
      then have tot: "sum_list (map o_bytes os) = length bs"
        using pieces_tile [OF assms(7), of bs 0] by simp
      show ?thesis
        using os(1) rcv tot rounds [of "length ?enc # map o_bytes os"] by (intro exI [of _ os] exI [of _ ?enc]) simp
    qed
    then have third: "\<forall>rc. r = Inr rc \<longrightarrow> (\<exists>m os encoded. check_commit lib idn ctx sp d = Inr m \<and>
      os = map (piece_descriptor (lib_sha lib) (lib_object_bytes lib) bs)
        (chunk_offsets 0 (length bs) (lib_object_bytes lib)) \<and>
      encoded = lib_canonical_json lib (manifest_root lib idn ctx m (length bs) os (lib_sha lib bs)) \<and>
      manifest_digest rc = lib_sha lib encoded \<and> committed_tokens rc = m \<and>
      receipt_bytes rc = length encoded + length bs \<and>
      receipt_bytes rc \<le> allocated_bytes_upper_bound rc \<and>
      allocated_bytes_upper_bound rc \<le> receipt_bytes rc + 4095 * (length os + 1))"
      using run Inr by blast
    show ?thesis
      by (intro conjI third) (use run Inr in simp_all)
  qed
qed

end
