(* ===== verification/StreamSample.thy ===== *)
theory StreamSample
  imports StreamRestore HybridSample
begin

text \<open>
  A two-byte snapshot on a small disk whose calls move one byte at a time, and the
  properties of the storage theories applied to it.
\<close>

definition tiny_digit :: "byte \<Rightarrow> char" where
  "tiny_digit b = (if b = 1 then CHR ''1'' else CHR ''2'')"

definition tiny_hash :: hash where
  "tiny_hash bs = map tiny_digit (take 64 bs) @ replicate (64 - length bs) (CHR ''0'')"

lemma tiny_hash_hex: "hex_hash tiny_hash"
  by (auto simp: hex_hash_def is_sha256_def jstr_def asc_def tiny_hash_def tiny_digit_def hex_chars_def code_def split: if_splits)

definition tiny_bytes :: "byte list" where
  "tiny_bytes = [1, 2]"

lemma tiny_slices: "slice i j tiny_bytes \<in> {[], [1], [2], [1, 2]}"
  by (auto simp: slice_def tiny_bytes_def take_Cons' drop_Cons')

lemma tiny_no_collision: "no_collision tiny_hash tiny_bytes"
proof -
  have "x = y" if "x \<in> {[], [1], [2], [1, 2]}" "y \<in> {[], [1], [2], [1, 2]}" "tiny_hash x = tiny_hash y"
    for x y :: "byte list"
    using that by (auto simp: tiny_hash_def tiny_digit_def numeral_eq_Suc)
  then show ?thesis using tiny_slices unfolding no_collision_def by blast
qed

definition tiny_world :: world where
  "tiny_world = \<lparr>w_files = (\<lambda>_. None)(0 \<mapsto> \<lparr>content = tiny_bytes, synced = 2, is_regular = True\<rparr>),
     w_names = (\<lambda>_. None), w_fds = (\<lambda>_. None)(0 \<mapsto> 0), w_fresh = 1,
     w_outcomes = replicate 9 (Moved 1), w_suffixes = (\<lambda>k. ''x''), w_fadvise = True\<rparr>"

definition tiny_spool :: disk_snapshot where
  "tiny_spool = \<lparr>d_fd = 0, expected_bytes = 2, d_written = 2, d_durable = 2, d_sealed = True, d_released = False\<rparr>"

definition open_spool :: disk_snapshot where
  "open_spool = \<lparr>d_fd = 0, expected_bytes = 5, d_written = 2, d_durable = 2, d_sealed = False, d_released = False\<rparr>"

definition tiny_file :: disk_file where
  "tiny_file = \<lparr>content = tiny_bytes, synced = 2, is_regular = True\<rparr>"

lemma tiny_facts:
  "kind tiny_world" "world_ok tiny_world" "no_temps base tiny_world" "fds_ok tiny_world"
  "spool_at (tiny_spool, tiny_world) tiny_file" "spool_at (open_spool, tiny_world) tiny_file"
  "d_is_sealed tiny_spool" "content tiny_file = tiny_bytes" "d_written tiny_spool = length tiny_bytes"
  by (simp_all add: kind_def world_ok_def no_temps_def fds_ok_def spool_at_def spool_inv_def file_of_def
      tiny_world_def tiny_spool_def open_spool_def tiny_file_def tiny_bytes_def d_is_sealed_def stream_chunk_def)

definition tiny_lib :: manifest_lib where
  "tiny_lib = \<lparr>lib_sha = tiny_hash, lib_object_bytes = 1, lib_valid_digest = (\<lambda>_. True),
     lib_canonical_json = (\<lambda>j. ascii_bytes (dumps j)), lib_manifest_path = (\<lambda>_ c. [''manifests'', c]),
     lib_publish = (\<lambda>_ _. ret ()), lib_is_snapshot_root = (\<lambda>_. True), lib_validate_root = (\<lambda>_. Inr []),
     lib_schema = jstr ''schema'', lib_format_abi = jstr ''abi''\<rparr>"

definition tiny_identity :: cache_identity where
  "tiny_identity = \<lparr>publication_schema = [], required_records = [''target_ckv'', ''logical_positions''],
     chunk_tokens = 16, identity_wire = JObj []\<rparr>"

theorem append_exact_witness:
  "\<exists>r d' w' f' k. spool_append (Some [3]) (open_spool, tiny_world) = (r, (d', w')) \<and>
     spool_at (d', w') f' \<and> content f' = tiny_bytes @ take k [3]"
proof -
  obtain r d' w' where s: "spool_append (Some [3]) (open_spool, tiny_world) = (r, (d', w'))"
    by (cases "spool_append (Some [3]) (open_spool, tiny_world)") auto
  have "length (content tiny_file) = d_written open_spool"
    "d_written open_spool - d_durable open_spool < stream_chunk"
    by (simp_all add: tiny_file_def tiny_bytes_def open_spool_def)
  from append_exact [OF tiny_facts(6) this s] show ?thesis using s by (auto simp: tiny_facts)
qed

theorem spool_roundtrip_witness:
  "\<exists>d w1 d2 w2 d3 w3. new_disk_snapshot (PyInt (int 3)) tiny_world = (Inr d, w1) \<and>
     append_all [[4], [5, 6]] (d, w1) = (Inr (), (d2, w2)) \<and> spool_seal (d2, w2) = (Inr (), (d3, w3)) \<and>
     d_is_sealed d3 \<and> (\<exists>f. file_of w3 (d_fd d3) = Some f \<and> content f = [4, 5, 6])"
proof -
  have "\<forall>p\<in>set [[4], [5, 6 :: byte]]. length p \<le> stream_chunk" by (simp add: stream_chunk_def)
  from fill_succeeds [OF tiny_facts(1) _ this] obtain d w1 d2 w2 d3 w3 where
    s: "new_disk_snapshot (PyInt (int 3)) tiny_world = (Inr d, w1)"
      "append_all [[4], [5, 6]] (d, w1) = (Inr (), (d2, w2))" "spool_seal (d2, w2) = (Inr (), (d3, w3))"
    by auto
  from spool_roundtrip [OF s] s show ?thesis by auto
qed

theorem spool_fills_witness:
  "\<exists>d w1 d2 w2 d3 w3. new_disk_snapshot (PyInt (int 3)) tiny_world = (Inr d, w1) \<and>
     append_all [[4], [5, 6]] (d, w1) = (Inr (), (d2, w2)) \<and> spool_seal (d2, w2) = (Inr (), (d3, w3)) \<and>
     (\<exists>w4. read_range d3 (PyInt (int 1)) (PyInt (int 3)) w3 = (Inr [5, 6], w4))"
proof -
  have "\<forall>p\<in>set [[4], [5, 6 :: byte]]. length p \<le> stream_chunk" by (simp add: stream_chunk_def)
  from spool_fills [OF tiny_facts(1) _ this] obtain d w1 d2 w2 d3 w3 where
    s: "new_disk_snapshot (PyInt (int 3)) tiny_world = (Inr d, w1)"
      "append_all [[4], [5, 6]] (d, w1) = (Inr (), (d2, w2))" "spool_seal (d2, w2) = (Inr (), (d3, w3))"
    and r: "\<forall>i j. i \<le> j \<and> j \<le> length [4, 5, 6 :: byte] \<and> j - i \<le> stream_chunk \<longrightarrow>
      (\<exists>w4. read_range d3 (PyInt (int i)) (PyInt (int j)) w3 = (Inr (slice i j [4, 5, 6]), w4))"
    by auto
  have "\<exists>w4. read_range d3 (PyInt (int 1)) (PyInt (int 3)) w3 = (Inr (slice 1 3 [4, 5, 6]), w4)"
    using r [rule_format, of 1 3] by (simp add: stream_chunk_def)
  then show ?thesis using s by (auto simp: slice_def)
qed

theorem publish_immutable_witness:
  "\<exists>r fed' w'. stream_publish_object tiny_hash [] tiny_spool 0 2 ([], tiny_world) = (r, (fed', w')) \<and>
     w_fds w' = w_fds tiny_world \<and> w_files w' 0 = w_files tiny_world 0"
proof -
  obtain r fed' w' where s: "stream_publish_object tiny_hash [] tiny_spool 0 2 ([], tiny_world) = (r, (fed', w'))"
    by (cases "stream_publish_object tiny_hash [] tiny_spool 0 2 ([], tiny_world)") auto
  have "(2::nat) \<le> d_written tiny_spool" "0 < w_fresh tiny_world"
    by (simp_all add: tiny_spool_def tiny_world_def)
  then show ?thesis
    using publish_immutable [OF s tiny_facts(2,5,7) _ _ tiny_hash_hex] s by auto
qed

theorem publish_then_restore_witness:
  "\<exists>os evs w1 r w2 bss r' w3.
    publish_objects tiny_lib [] tiny_spool (chunk_offsets 0 (d_total_bytes tiny_spool) 1) ([], tiny_world) =
      (Inr (os, evs), (tiny_bytes, w1)) \<and>
    make_reader [] os 2 (tiny_hash tiny_bytes) w1 = (Inr r, w2) \<and>
    with_reader tiny_hash (read_pieces tiny_hash [PyInt 1, PyInt 1]) (r, w2) = (Inr bss, (r', w3)) \<and>
    concat bss = tiny_bytes \<and> map length bss = [1, 1]"
proof -
  have lib: "lib_sha tiny_lib = tiny_hash" "lib_object_bytes tiny_lib = 1" by (simp_all add: tiny_lib_def)
  have n: "sum_list [1, 1] = length tiny_bytes" "length tiny_bytes = 2" "\<forall>n\<in>set [1, 1::nat]. n \<le> stream_chunk"
    by (simp_all add: tiny_bytes_def stream_chunk_def)
  show ?thesis
    using publish_then_restore [OF tiny_facts(1,2,3,5,7,8,9), of tiny_lib "[1, 1]" "[]"]
      tiny_hash_hex tiny_no_collision n unfolding lib by simp
qed

theorem commit_releases_witness:
  "\<exists>r d' w'. commit_page_snapshot tiny_lib [] tiny_identity ''ctx'' (PyInt 32) (tiny_spool, tiny_world) =
     (r, (d', w')) \<and> d_released d'"
proof -
  obtain r d' w' where s: "commit_page_snapshot tiny_lib [] tiny_identity ''ctx'' (PyInt 32) (tiny_spool, tiny_world) =
     (r, (d', w'))"
    by (cases "commit_page_snapshot tiny_lib [] tiny_identity ''ctx'' (PyInt 32) (tiny_spool, tiny_world)") auto
  have "hex_hash (lib_sha tiny_lib)" "0 < lib_object_bytes tiny_lib"
    using tiny_hash_hex by (simp_all add: tiny_lib_def)
  from commit_releases [OF s tiny_facts(2,5,8,9) this] s show ?thesis by auto
qed

theorem reader_closes_witness:
  "\<exists>q w1. make_reader [] [] 0 (tiny_hash []) tiny_world = (q, w1) \<and> w_fds w1 = w_fds tiny_world"
proof -
  obtain q w1 where m: "make_reader [] [] 0 (tiny_hash []) tiny_world = (q, w1)" by fastforce
  from reader_closes [OF tiny_facts(4) m] m show ?thesis by blast
qed

text \<open>A disk that holds one published object of two bytes.\<close>

definition object_world :: world where
  "object_world = tiny_world\<lparr>w_names := (\<lambda>_. None)(object_path [] (tiny_hash tiny_bytes) \<mapsto> 0),
     w_fds := (\<lambda>_. None)\<rparr>"

definition tiny_object :: object_descriptor where
  "tiny_object = \<lparr>o_sha256 = tiny_hash tiny_bytes, o_bytes = 2, o_start = 0, o_end = 2\<rparr>"

theorem restore_authentic_witness:
  "\<exists>outs r. read_calls tiny_hash [(object_world, PyInt (int 2))]
      (new_reader [] [tiny_object] 2 (tiny_hash tiny_bytes)) = (Inr outs, r) \<and>
    tiny_hash (concat outs) = tiny_hash tiny_bytes \<and> length (concat outs) = 2"
proof -
  let ?r = "new_reader [] [tiny_object] 2 (tiny_hash tiny_bytes)"
  have kd: "kind object_world" by (simp add: kind_def object_world_def tiny_world_def)
  have "tracks tiny_hash [tiny_bytes] ?r object_world"
    by (simp add: tracks_def on_disk_def new_reader_def matches_def tiny_object_def world_ok_def holds_def
        object_world_def tiny_world_def tiny_bytes_def)
  from read_pieces_tracks [OF this kd, of "[2]"]
  obtain bss r' w' where rd: "read_pieces tiny_hash [PyInt (int 2)] (?r, object_world) = (Inr bss, (r', w'))"
    "tracks tiny_hash [tiny_bytes] r' w'" "map length bss = [2]" "r_snapshot_fed r' = concat bss"
    "r_encoded_sha256 r' = tiny_hash tiny_bytes" "r_encoded_bytes r' = 2" "r_objects r' = [tiny_object]"
    by (auto simp: new_reader_def tiny_bytes_def stream_chunk_def)
  have rc: "read_calls tiny_hash [(object_world, PyInt (int 2))] ?r = (Inr bss, r')"
    using rd(1) by (auto simp: andthen_Inr ret_def)
  have pos: "r_position r' = 2" "length (concat bss) = 2"
    using rd(2-4) by (auto simp: tracks_def length_concat)
  have got: "concat bss = tiny_bytes"
    using tracks_take [OF rd(2)] pos rd(4) by (simp add: tiny_bytes_def)
  have "r_fd r' = None" "r_index r' = 1"
    using rd(2) pos got by (auto simp: tracks_def tiny_bytes_def less_Suc_eq le_Suc_eq split: option.splits)
  then have "reader_finish tiny_hash (r', w') = (Inr (), (r'\<lparr>r_finished := True\<rparr>, w'))"
    using rd(2,4-7) pos got by (simp add: reader_finish_def tracks_def)
  from restore_authentic [OF rc this] rc show ?thesis by blast
qed

end
