(* ===== verification/FreeQueue.thy ===== *)
theory FreeQueue
  imports Prelude
begin

text \<open>
  \<open>FreeKVCacheBlockQueue\<close> of \<open>scripts/node/overrides/vllm/v1/core/kv_cache_utils.py\<close>: the
  free blocks of the KV cache as a doubly linked list over the blocks' own link fields,
  between a fake head and a fake tail. Blocks are shared mutable objects, so the state is
  the two link fields of every object; an object is the head, the tail or a block. Every
  operation is the sequence of pointer assignments of the code, and the representation
  \<open>queue_of\<close> says which list of blocks the pointers stand for.
\<close>

section \<open>Objects and links\<close>

datatype node = Head | Tail | Blk nat

record block_queue =
  nxt :: "node \<Rightarrow> node option"
  prv :: "node \<Rightarrow> node option"
  num_free_blocks :: int

datatype queue_error = NoFreeBlocks | QueueRuntimeError | QueueAssertion | AttributeError

definition set_nxt :: "node \<Rightarrow> node option \<Rightarrow> block_queue \<Rightarrow> block_queue" where
  "set_nxt a v q = q\<lparr>nxt := (nxt q)(a := v)\<rparr>"

definition set_prv :: "node \<Rightarrow> node option \<Rightarrow> block_queue \<Rightarrow> block_queue" where
  "set_prv a v q = q\<lparr>prv := (prv q)(a := v)\<rparr>"

definition add_free :: "int \<Rightarrow> block_queue \<Rightarrow> block_queue" where
  "add_free n q = q\<lparr>num_free_blocks := num_free_blocks q + n\<rparr>"

lemma queue_sel [simp]:
  "nxt (set_nxt a v q) = (nxt q)(a := v)" "prv (set_nxt a v q) = prv q"
  "nxt (set_prv a v q) = nxt q" "prv (set_prv a v q) = (prv q)(a := v)"
  "nxt (add_free n q) = nxt q" "prv (add_free n q) = prv q"
  "num_free_blocks (set_nxt a v q) = num_free_blocks q"
  "num_free_blocks (set_prv a v q) = num_free_blocks q"
  "num_free_blocks (add_free n q) = num_free_blocks q + n"
  by (simp_all add: set_nxt_def set_prv_def add_free_def)

section \<open>Operations\<close>

definition detached :: block_queue where
  "detached = \<lparr>nxt = (\<lambda>_. None), prv = (\<lambda>_. None), num_free_blocks = 0\<rparr>"

definition init_links :: "nat list \<Rightarrow> nat \<Rightarrow> block_queue \<Rightarrow> block_queue" where
  "init_links bs i q =
     (let q1 = (if 0 < i then set_prv (Blk (bs ! i)) (Some (Blk (bs ! (i - 1)))) q else q) in
      if i < length bs - 1 then set_nxt (Blk (bs ! i)) (Some (Blk (bs ! (i + 1)))) q1 else q1)"

text \<open>The blocks of a new queue are new objects, whose link fields are \<open>None\<close>.\<close>

definition new_queue :: "nat list \<Rightarrow> block_queue" where
  "new_queue bs =
     (let q = fold (init_links bs) [0..<length bs] (add_free (int (length bs)) detached) in
      if bs \<noteq> []
      then set_nxt (Blk (last bs)) (Some Tail) (set_prv Tail (Some (Blk (last bs)))
           (set_prv (Blk (hd bs)) (Some Head) (set_nxt Head (Some (Blk (hd bs))) q)))
      else set_prv Tail (Some Head) (set_nxt Head (Some Tail) q))"

definition popleft :: "block_queue \<Rightarrow> (queue_error + node) \<times> block_queue" where
  "popleft q = (case nxt q Head of
     None \<Rightarrow> (Inl (if num_free_blocks q = 0 then NoFreeBlocks else QueueAssertion), q)
   | Some first \<Rightarrow>
     if first = Tail then (Inl (if num_free_blocks q = 0 then NoFreeBlocks else QueueAssertion), q)
     else (case nxt q first of
       None \<Rightarrow> (Inl QueueRuntimeError, q)
     | Some second \<Rightarrow>
       (Inr first, add_free (- 1) (set_nxt first None (set_prv first None
          (set_prv second (Some Head) (set_nxt Head (Some second) q)))))))"

text \<open>The loop of \<open>popleft_n\<close>: \<open>acc\<close> is what it has collected, the current block may be \<open>None\<close>.\<close>

fun pop_loop :: "nat \<Rightarrow> node option \<Rightarrow> node list \<Rightarrow> block_queue \<Rightarrow>
  (queue_error + (node list \<times> node option)) \<times> block_queue" where
  "pop_loop 0 cur acc q = (Inr (acc, cur), q)"
| "pop_loop (Suc n) None acc q = (Inl QueueAssertion, q)"
| "pop_loop (Suc n) (Some b) acc q =
     pop_loop n (nxt q b) (acc @ [b]) (set_nxt b None (set_prv b None q))"

definition popleft_n :: "nat \<Rightarrow> block_queue \<Rightarrow> (queue_error + node list) \<times> block_queue" where
  "popleft_n n q =
     (if n = 0 then (Inr [], q)
      else if num_free_blocks q < int n then (Inl QueueAssertion, q)
      else (case pop_loop n (nxt q Head) [] (add_free (- int n) q) of
        (Inl e, q1) \<Rightarrow> (Inl e, q1)
      | (Inr (bs, None), q1) \<Rightarrow> (Inr bs, q1)
      | (Inr (bs, Some b), q1) \<Rightarrow> (Inr bs, set_prv b (Some Head) (set_nxt Head (Some b) q1))))"

definition queue_remove :: "node \<Rightarrow> block_queue \<Rightarrow> (queue_error + unit) \<times> block_queue" where
  "queue_remove b q = (case (prv q b, nxt q b) of
     (Some p, Some n) \<Rightarrow> (Inr (), add_free (- 1) (set_nxt b None (set_prv b None
        (set_prv n (Some p) (set_nxt p (Some n) q)))))
   | _ \<Rightarrow> (Inl QueueRuntimeError, q))"

definition queue_append :: "node \<Rightarrow> block_queue \<Rightarrow> (queue_error + unit) \<times> block_queue" where
  "queue_append b q = (case prv q Tail of
     None \<Rightarrow> (Inl QueueRuntimeError, q)
   | Some l \<Rightarrow> (Inr (), add_free 1 (set_prv Tail (Some b) (set_nxt b (Some Tail)
        (set_prv b (Some l) (set_nxt l (Some b) q))))))"

text \<open>The loop that chains blocks one after another behind \<open>p\<close>; the result is the last one.\<close>

fun chain_blocks :: "node \<Rightarrow> node list \<Rightarrow> block_queue \<Rightarrow> node \<times> block_queue" where
  "chain_blocks p [] q = (p, q)"
| "chain_blocks p (b # bs) q = chain_blocks b bs (set_nxt p (Some b) (set_prv b (Some p) q))"

definition prepend_n :: "node list \<Rightarrow> block_queue \<Rightarrow> (queue_error + unit) \<times> block_queue" where
  "prepend_n bs q =
     (if bs = [] then (Inr (), q)
      else (case nxt q Head of
        None \<Rightarrow> (Inl QueueAssertion, q)
      | Some first \<Rightarrow> (case chain_blocks Head bs q of (l, q1) \<Rightarrow>
          (Inr (), add_free (int (length bs)) (set_prv first (Some l) (set_nxt l (Some first) q1))))))"

definition append_n :: "node list \<Rightarrow> block_queue \<Rightarrow> (queue_error + unit) \<times> block_queue" where
  "append_n bs q =
     (if bs = [] then (Inr (), q)
      else (case prv q Tail of
        None \<Rightarrow> (Inl QueueAssertion, q)
      | Some l0 \<Rightarrow> (case chain_blocks l0 bs q of (l, q1) \<Rightarrow>
          (Inr (), add_free (int (length bs)) (set_prv Tail (Some l) (set_nxt l (Some Tail) q1))))))"

text \<open>
  The two walks along the links, which end only if the links do: \<open>None\<close> is a walk that
  goes round in circles.
\<close>

partial_function (option) collect_free :: "block_queue \<Rightarrow> node \<Rightarrow> node list option" where
  "collect_free q cur = (case nxt q cur of
     None \<Rightarrow> Some []
   | Some b \<Rightarrow> Option.bind (collect_free q b) (\<lambda>bs. Some (cur # bs)))"

definition get_all_free_blocks :: "block_queue \<Rightarrow> queue_error + node list option" where
  "get_all_free_blocks q = (case nxt q Head of
     None \<Rightarrow> Inl QueueRuntimeError | Some first \<Rightarrow> Inr (collect_free q first))"

partial_function (option) iter_from :: "block_queue \<Rightarrow> node option \<Rightarrow> node list option" where
  "iter_from q cur = (case cur of
     None \<Rightarrow> Some []
   | Some b \<Rightarrow> if b = Tail then Some []
       else Option.bind (iter_from q (nxt q b)) (\<lambda>bs. Some (b # bs)))"

definition iter_blocks_after :: "block_queue \<Rightarrow> node option \<Rightarrow> node list option" where
  "iter_blocks_after q cursor = iter_from q (nxt q (case cursor of None \<Rightarrow> Head | Some c \<Rightarrow> c))"

section \<open>The list a queue stands for\<close>

fun linked :: "block_queue \<Rightarrow> node list \<Rightarrow> bool" where
  "linked q (a # b # ns) \<longleftrightarrow> nxt q a = Some b \<and> prv q b = Some a \<and> linked q (b # ns)"
| "linked q ns \<longleftrightarrow> True"

lemma linked_append: "linked q (as @ m # bs) \<longleftrightarrow> linked q (as @ [m]) \<and> linked q (m # bs)"
proof (induction as)
  case Nil
  then show ?case by simp
next
  case (Cons a as)
  then show ?case by (cases as) auto
qed

lemma linked_cong:
  "(\<And>a. a \<in> set (butlast ns) \<Longrightarrow> nxt q a = nxt q' a) \<Longrightarrow>
   (\<And>a. a \<in> set (tl ns) \<Longrightarrow> prv q a = prv q' a) \<Longrightarrow> linked q ns = linked q' ns"
proof (induction ns rule: induct_list012)
  case (3 a b ns)
  have "linked q (b # ns) = linked q' (b # ns)"
    using "3.prems" by (intro "3.IH"(2)) (auto split: if_splits dest: list.set_sel(2))
  then show ?case using "3.prems"(1) [of a] "3.prems"(2) [of b] by simp
qed simp_all

text \<open>
  The queue holds exactly the blocks \<open>bs\<close>, front first: the links run from the head
  through them to the tail both ways, the counter counts them, and the link fields of every
  other block are \<open>None\<close>.
\<close>

definition path :: "nat list \<Rightarrow> node list" where
  "path bs = Head # map Blk bs @ [Tail]"

definition queue_of :: "block_queue \<Rightarrow> nat list \<Rightarrow> bool" where
  "queue_of q bs \<longleftrightarrow> distinct bs \<and> linked q (path bs) \<and> nxt q Tail = None \<and>
     num_free_blocks q = int (length bs) \<and>
     (\<forall>b. b \<notin> set bs \<longrightarrow> nxt q (Blk b) = None \<and> prv q (Blk b) = None)"

lemma linked_set_nxt [simp]: "a \<notin> set (butlast ns) \<Longrightarrow> linked (set_nxt a v q) ns = linked q ns"
  by (rule linked_cong) auto

lemma linked_set_nxt_away [simp]: "a \<notin> set ns \<Longrightarrow> linked (set_nxt a v q) ns = linked q ns"
  by (rule linked_set_nxt) (auto dest: in_set_butlastD)

lemma linked_set_prv [simp]: "a \<notin> set (tl ns) \<Longrightarrow> linked (set_prv a v q) ns = linked q ns"
  by (rule linked_cong) auto

lemma linked_set_prv_away [simp]: "a \<notin> set ns \<Longrightarrow> linked (set_prv a v q) ns = linked q ns"
  by (rule linked_set_prv) (metis list.sel(2) list.set_sel(2))

lemma linked_add_free [simp]: "linked (add_free n q) ns = linked q ns"
  by (rule linked_cong) auto

lemma distinct_path: "distinct bs \<Longrightarrow> distinct (path bs)"
  by (auto simp: path_def distinct_map inj_on_def)

lemma path_simps [simp]:
  "path [] = [Head, Tail]" "path (b # bs) = Head # Blk b # tl (path bs)" "tl (path bs) = map Blk bs @ [Tail]"
  by (simp_all add: path_def)

lemma queue_ofD:
  assumes "queue_of q bs"
  shows "distinct bs" "linked q (path bs)" "nxt q Tail = None" "num_free_blocks q = int (length bs)"
    "b \<notin> set bs \<Longrightarrow> nxt q (Blk b) = None" "b \<notin> set bs \<Longrightarrow> prv q (Blk b) = None"
  using assms by (auto simp: queue_of_def)

lemma head_link: "queue_of q bs \<Longrightarrow> nxt q Head = Some (hd (map Blk bs @ [Tail]))"
  by (cases bs) (auto simp: queue_of_def)

lemma tail_link: "queue_of q bs \<Longrightarrow> prv q Tail = Some (last (Head # map Blk bs))"
proof -
  assume q: "queue_of q bs"
  show ?thesis
  proof (cases bs rule: rev_cases)
    case Nil
    then show ?thesis using queue_ofD(2) [OF q] by simp
  next
    case (snoc cs c)
    have "path bs = (Head # map Blk cs) @ Blk c # [Tail]" by (simp add: path_def snoc)
    then have "linked q (Blk c # [Tail])"
      using queue_ofD(2) [OF q] linked_append [of q "Head # map Blk cs" "Blk c" "[Tail]"] by simp
    then show ?thesis by (simp add: snoc)
  qed
qed

section \<open>The operations on the list\<close>

lemma popleft_empty: "queue_of q [] \<Longrightarrow> popleft q = (Inl NoFreeBlocks, q)"
  by (simp add: popleft_def head_link queue_ofD(4))

lemma popleft_cons:
  assumes "queue_of q (b # bs)"
  shows "\<exists>q'. popleft q = (Inr (Blk b), q') \<and> queue_of q' bs"
proof -
  let ?X = "map Blk bs @ [Tail]"
  obtain x xs where X: "?X = x # xs" by (cases ?X) auto
  have d: "distinct (b # bs)" using queue_ofD(1) [OF assms] .
  have l: "linked q (Head # Blk b # x # xs)" using queue_ofD(2) [OF assms] X by simp
  have dp: "distinct (Head # Blk b # x # xs)" using distinct_path [OF d] X by simp
  let ?q = "add_free (- 1) (set_nxt (Blk b) None (set_prv (Blk b) None
      (set_prv x (Some Head) (set_nxt Head (Some x) q))))"
  have pop: "popleft q = (Inr (Blk b), ?q)"
    using l by (simp add: popleft_def)
  have "linked ?q (Head # x # xs)"
    using l dp by (auto dest: in_set_butlastD)
  moreover have "path bs = Head # x # xs" using X by (simp add: path_def)
  moreover have "nxt ?q Tail = None" using queue_ofD(3) [OF assms] by simp
  moreover have "num_free_blocks ?q = int (length bs)" using queue_ofD(4) [OF assms] by simp
  moreover have "nxt ?q (Blk c) = None \<and> prv ?q (Blk c) = None" if "c \<notin> set bs" for c
  proof -
    have "Blk c \<notin> set ?X" using that by auto
    then have "Blk c \<noteq> x" by (simp add: X)
    then show ?thesis using that queue_ofD(5,6) [OF assms, of c] by auto
  qed
  ultimately have "queue_of ?q bs" using d by (simp add: queue_of_def)
  then show ?thesis using pop by blast
qed

lemma path_split: "path (as @ b # cs) = (Head # map Blk as) @ Blk b # (map Blk cs @ [Tail])"
  by (simp add: path_def)

lemma remove_member:
  assumes "queue_of q (as @ b # cs)"
  shows "\<exists>q'. queue_remove (Blk b) q = (Inr (), q') \<and> queue_of q' (as @ cs)"
proof -
  obtain ps p where P: "Head # map Blk as = ps @ [p]" by (cases "Head # map Blk as" rule: rev_cases) auto
  obtain x xs where X: "map Blk cs @ [Tail] = x # xs" by (cases "map Blk cs @ [Tail]") auto
  have d: "distinct (as @ b # cs)" using queue_ofD(1) [OF assms] .
  have pth: "path (as @ b # cs) = ps @ p # Blk b # x # xs" by (simp add: path_split P X del: path_simps)
  have dp: "distinct (ps @ p # Blk b # x # xs)" using distinct_path [OF d] pth by simp
  have l: "linked q (ps @ [p])" "linked q (p # Blk b # x # xs)"
    using queue_ofD(2) [OF assms] linked_append [of q ps p "Blk b # x # xs"] by (simp_all add: pth del: path_simps)
  let ?q = "add_free (- 1) (set_nxt (Blk b) None (set_prv (Blk b) None
      (set_prv x (Some p) (set_nxt p (Some x) q))))"
  have run: "queue_remove (Blk b) q = (Inr (), ?q)"
    using l(2) by (simp add: queue_remove_def)
  have "linked ?q (ps @ [p])" using l(1) dp by auto
  moreover have "linked ?q (p # x # xs)" using l(2) dp by (auto dest: in_set_butlastD)
  ultimately have "linked ?q (ps @ p # x # xs)" using linked_append [of ?q ps p "x # xs"] by blast
  moreover have pth2: "path (as @ cs) = ps @ p # x # xs"
    using P X by (simp add: path_def)
  moreover have "num_free_blocks ?q = int (length (as @ cs))" using queue_ofD(4) [OF assms] by simp
  moreover have "nxt ?q Tail = None"
  proof -
    have "p \<in> set (Head # map Blk as)" unfolding P by simp
    then have "Tail \<noteq> p" by auto
    then show ?thesis using queue_ofD(3) [OF assms] by simp
  qed
  moreover have "nxt ?q (Blk c) = None \<and> prv ?q (Blk c) = None" if c: "c \<notin> set (as @ cs)" for c
  proof (cases "c = b")
    case False
    have "Blk c \<notin> set (path (as @ b # cs))" using c False by (auto simp: path_def)
    then have "Blk c \<noteq> p \<and> Blk c \<noteq> x" unfolding pth by auto
    then show ?thesis using c False queue_ofD(5,6) [OF assms, of c] by auto
  qed simp
  ultimately have "queue_of ?q (as @ cs)" using d by (simp add: queue_of_def)
  then show ?thesis using run by blast
qed

lemma remove_other: "queue_of q bs \<Longrightarrow> b \<notin> set bs \<Longrightarrow> queue_remove (Blk b) q = (Inl QueueRuntimeError, q)"
  by (simp add: queue_remove_def queue_ofD(6))

lemma chain_blocks_linked:
  "distinct (p # ns) \<Longrightarrow> chain_blocks p ns q = (l, q1) \<Longrightarrow>
   l = last (p # ns) \<and> linked q1 (p # ns) \<and> num_free_blocks q1 = num_free_blocks q \<and>
   (\<forall>a. a \<notin> set (butlast (p # ns)) \<longrightarrow> nxt q1 a = nxt q a) \<and> (\<forall>a. a \<notin> set ns \<longrightarrow> prv q1 a = prv q a)"
proof (induction ns arbitrary: p q)
  case Nil
  then show ?case by simp
next
  case (Cons b ns)
  let ?q = "set_nxt p (Some b) (set_prv b (Some p) q)"
  have ih: "l = last (b # ns)" "linked q1 (b # ns)" "num_free_blocks q1 = num_free_blocks ?q"
    "\<And>a. a \<notin> set (butlast (b # ns)) \<Longrightarrow> nxt q1 a = nxt ?q a" "\<And>a. a \<notin> set ns \<Longrightarrow> prv q1 a = prv ?q a"
    using Cons.IH [of b ?q] Cons.prems by auto
  have "p \<notin> set (butlast (b # ns))" using Cons.prems(1) in_set_butlastD [of p "b # ns"] by auto
  then have "nxt q1 p = Some b" using ih(4) by simp
  moreover have "prv q1 b = Some p" using ih(5) [of b] Cons.prems(1) by simp
  ultimately show ?case using ih Cons.prems(1) by auto
qed

lemma append_n_blocks:
  assumes "queue_of q xs" "distinct ys" "set ys \<inter> set xs = {}"
  shows "\<exists>q'. append_n (map Blk ys) q = (Inr (), q') \<and> queue_of q' (xs @ ys)"
proof (cases "ys = []")
  case True
  then show ?thesis using assms(1) by (simp add: append_n_def)
next
  case False
  obtain P l0 where P: "Head # map Blk xs = P @ [l0]" by (cases "Head # map Blk xs" rule: rev_cases) auto
  have pth: "path xs = P @ l0 # [Tail]" using P by (simp add: path_def)
  have inP: "set (P @ [l0]) = insert Head (Blk ` set xs)" unfolding P [symmetric] by simp
  have dP: "distinct (P @ [l0])"
    using queue_ofD(1) [OF assms(1)] unfolding P [symmetric] by (auto simp: distinct_map inj_on_def)
  have l: "linked q (P @ [l0])" "prv q Tail = Some l0"
    using queue_ofD(2) [OF assms(1)] linked_append [of q P l0 "[Tail]"] by (simp_all add: pth del: path_simps)
  have dY: "distinct (map Blk ys)" "l0 \<notin> set (map Blk ys)" "Tail \<notin> set (map Blk ys)" "set (P @ [l0]) \<inter> set (map Blk ys) = {}"
    using assms(2,3) inP by (auto simp: distinct_map inj_on_def)
  obtain e q1 where c: "chain_blocks l0 (map Blk ys) q = (e, q1)" by fastforce
  have C: "e = last (l0 # map Blk ys)" "linked q1 (l0 # map Blk ys)" "num_free_blocks q1 = num_free_blocks q"
    "\<And>a. a \<notin> set (butlast (l0 # map Blk ys)) \<Longrightarrow> nxt q1 a = nxt q a"
    "\<And>a. a \<notin> set (map Blk ys) \<Longrightarrow> prv q1 a = prv q a"
    using chain_blocks_linked [OF _ c] dY by auto
  obtain B where B: "l0 # map Blk ys = B @ [e]" using C(1) by (metis append_butlast_last_id list.distinct(1))
  let ?q = "add_free (int (length ys)) (set_prv Tail (Some e) (set_nxt e (Some Tail) q1))"
  have run: "append_n (map Blk ys) q = (Inr (), ?q)"
    using False l(2) c by (simp add: append_n_def)
  have eY: "e \<in> set (map Blk ys)" using C(1) False last_in_set [of "map Blk ys"] by auto
  have tP: "Tail \<notin> set (P @ [l0])" unfolding inP by auto
  have bl: "butlast (l0 # map Blk ys) = B" unfolding B by simp
  have "linked q1 (P @ [l0])"
  proof (rule linked_cong [THEN iffD1, OF _ _ l(1)])
    fix a assume "a \<in> set (butlast (P @ [l0]))"
    then have "a \<in> set P" by simp
    then have "a \<notin> set (l0 # map Blk ys)" using dP dY(4) by auto
    then have "a \<notin> set B" unfolding B by simp
    then show "nxt q a = nxt q1 a" using C(4) bl by simp
  next
    fix a assume "a \<in> set (tl (P @ [l0]))"
    then have "a \<in> set (P @ [l0])" by (metis list.sel(2) list.set_sel(2))
    then have "a \<notin> set (map Blk ys)" using dY(4) by blast
    then show "prv q a = prv q1 a" using C(5) by simp
  qed
  moreover have "e \<notin> set (P @ [l0])" using eY dY(4) by blast
  ultimately have 1: "linked ?q (P @ [l0])" using tP by simp
  have "linked q1 (B @ [e])" using C(2) unfolding B .
  moreover have tB: "Tail \<notin> set (B @ [e])" unfolding B [symmetric] using tP dY(3) by auto
  moreover have "e \<notin> set B"
  proof -
    have "distinct (B @ [e])" unfolding B [symmetric] using dY by simp
    then show ?thesis by simp
  qed
  ultimately have 2: "linked ?q (B @ [e])" by simp
  have "linked ?q (B @ e # [Tail])"
    using 2 linked_append [of ?q B e "[Tail]"] by simp
  then have "linked ?q (l0 # map Blk ys @ [Tail])"
    using B by (metis append.assoc append_Cons append_Nil)
  then have "linked ?q (P @ l0 # map Blk ys @ [Tail])" using 1 linked_append by blast
  moreover have "path (xs @ ys) = P @ l0 # map Blk ys @ [Tail]" using P by (simp add: path_def)
  moreover have "nxt ?q Tail = None"
  proof -
    have "Tail \<notin> set B" "Tail \<noteq> e" using tB by auto
    then show ?thesis using C(4) [of Tail] bl queue_ofD(3) [OF assms(1)] by simp
  qed
  moreover have "num_free_blocks ?q = int (length (xs @ ys))"
    using queue_ofD(4) [OF assms(1)] C(3) by simp
  moreover have "nxt ?q (Blk b) = None \<and> prv ?q (Blk b) = None" if b: "b \<notin> set (xs @ ys)" for b
  proof -
    have nb: "Blk b \<notin> set (l0 # map Blk ys)" using b inP by auto
    then have "Blk b \<notin> set B" "Blk b \<noteq> e" unfolding B by auto
    then show ?thesis using C(4,5) bl nb b queue_ofD(5,6) [OF assms(1), of b] by auto
  qed
  moreover have "distinct (xs @ ys)" using queue_ofD(1) [OF assms(1)] assms(2,3) by auto
  ultimately show ?thesis using run by (auto simp: queue_of_def)
qed

lemma append_one: "queue_append (Blk b) q = append_n [Blk b] q \<or> prv q Tail = None"
  by (auto simp: queue_append_def append_n_def)

lemma append_block:
  assumes "queue_of q xs" "b \<notin> set xs"
  shows "\<exists>q'. queue_append (Blk b) q = (Inr (), q') \<and> queue_of q' (xs @ [b])"
  using append_n_blocks [OF assms(1), of "[b]"] append_one [of b q] tail_link [OF assms(1)] assms(2) by auto

lemma prepend_n_blocks:
  assumes "queue_of q xs" "distinct ys" "set ys \<inter> set xs = {}"
  shows "\<exists>q'. prepend_n (map Blk ys) q = (Inr (), q') \<and> queue_of q' (ys @ xs)"
proof (cases "ys = []")
  case True
  then show ?thesis using assms(1) by (simp add: prepend_n_def)
next
  case False
  obtain x X where X: "map Blk xs @ [Tail] = x # X" by (cases "map Blk xs @ [Tail]") auto
  have l: "linked q (Head # x # X)" using queue_ofD(2) [OF assms(1)] X by (simp add: path_def)
  have inX: "set (x # X) = insert Tail (Blk ` set xs)" unfolding X [symmetric] by simp
  have dX: "distinct (x # X)"
    using queue_ofD(1) [OF assms(1)] unfolding X [symmetric] by (auto simp: distinct_map inj_on_def)
  have dY: "distinct (Head # map Blk ys)" "set (x # X) \<inter> set (Head # map Blk ys) = {}"
    using assms(2,3) inX by (auto simp: distinct_map inj_on_def)
  obtain e q1 where c: "chain_blocks Head (map Blk ys) q = (e, q1)" by fastforce
  have C: "e = last (Head # map Blk ys)" "linked q1 (Head # map Blk ys)" "num_free_blocks q1 = num_free_blocks q"
    "\<And>a. a \<notin> set (butlast (Head # map Blk ys)) \<Longrightarrow> nxt q1 a = nxt q a"
    "\<And>a. a \<notin> set (map Blk ys) \<Longrightarrow> prv q1 a = prv q a"
    using chain_blocks_linked [OF dY(1) c] by auto
  obtain B where B: "Head # map Blk ys = B @ [e]" using C(1) by (metis append_butlast_last_id list.distinct(1))
  have bl: "butlast (Head # map Blk ys) = B" unfolding B by simp
  let ?q = "add_free (int (length ys)) (set_prv x (Some e) (set_nxt e (Some x) q1))"
  have run: "prepend_n (map Blk ys) q = (Inr (), ?q)"
    using False l c by (simp add: prepend_n_def)
  have notY: "a \<notin> set (Head # map Blk ys)" if "a \<in> set (x # X)" for a using that dY(2) by blast
  have notB: "a \<notin> set B \<and> a \<noteq> e" if "a \<in> set (x # X)" for a using notY [OF that] unfolding B by simp
  have "linked q1 (x # X) = linked q (x # X)"
  proof (rule linked_cong)
    fix a assume "a \<in> set (butlast (x # X))"
    then show "nxt q1 a = nxt q a" using C(4) notB bl in_set_butlastD [of a "x # X"] by simp
  next
    fix a assume "a \<in> set (tl (x # X))"
    then show "prv q1 a = prv q a" using C(5) notY by auto
  qed
  then have "linked q1 (x # X)" using l by simp
  moreover have "e \<notin> set (x # X)" using notB by blast
  ultimately have 1: "linked ?q (x # X)" using dX by simp
  have dB: "distinct (B @ [e])" unfolding B [symmetric] by (rule dY(1))
  have "x \<notin> set (B @ [e])" using notB [of x] by simp
  moreover have "linked q1 (B @ [e])" using C(2) unfolding B .
  ultimately have "linked ?q (B @ [e])" using dB by simp
  then have "linked ?q (B @ e # x # X)" using 1 linked_append [of ?q B e "x # X"] by simp
  moreover have "path (ys @ xs) = B @ e # x # X"
  proof -
    have "path (ys @ xs) = (Head # map Blk ys) @ (map Blk xs @ [Tail])" by (simp add: path_def)
    then show ?thesis unfolding B X by simp
  qed
  moreover have "nxt ?q Tail = None"
  proof -
    have "Tail \<in> set (x # X)" unfolding inX by simp
    then have "Tail \<notin> set B" "Tail \<noteq> e" using notB by blast+
    then show ?thesis using C(4) [of Tail] queue_ofD(3) [OF assms(1)] unfolding bl by simp
  qed
  moreover have "num_free_blocks ?q = int (length (ys @ xs))"
    using queue_ofD(4) [OF assms(1)] C(3) by simp
  moreover have "nxt ?q (Blk b) = None \<and> prv ?q (Blk b) = None" if b: "b \<notin> set (ys @ xs)" for b
  proof -
    have nb: "Blk b \<notin> set (Head # map Blk ys)" "Blk b \<notin> set (x # X)" using b inX by auto
    then have "Blk b \<notin> set B" "Blk b \<noteq> e" "Blk b \<noteq> x" unfolding B by auto
    then show ?thesis using C(4,5) bl nb b queue_ofD(5,6) [OF assms(1), of b] by auto
  qed
  moreover have "distinct (ys @ xs)" using queue_ofD(1) [OF assms(1)] assms(2,3) by auto
  ultimately show ?thesis using run by (auto simp: queue_of_def)
qed

section \<open>Taking several blocks\<close>

definition clear :: "node set \<Rightarrow> block_queue \<Rightarrow> block_queue" where
  "clear S q = q\<lparr>nxt := (\<lambda>a. if a \<in> S then None else nxt q a), prv := (\<lambda>a. if a \<in> S then None else prv q a)\<rparr>"

lemma clear_sel [simp]:
  "nxt (clear S q) a = (if a \<in> S then None else nxt q a)"
  "prv (clear S q) a = (if a \<in> S then None else prv q a)"
  "num_free_blocks (clear S q) = num_free_blocks q"
  by (simp_all add: clear_def)

lemma clear_empty [simp]: "clear {} q = q"
  by (simp add: clear_def)

lemma clear_insert: "clear S (set_nxt b None (set_prv b None q)) = clear (insert b S) q"
  by (auto simp: clear_def set_nxt_def set_prv_def fun_eq_iff)

lemma pop_loop_takes:
  "linked q (map Blk (as @ cs) @ [Tail]) \<Longrightarrow> distinct (as @ cs) \<Longrightarrow>
   pop_loop (length as) (Some (hd (map Blk (as @ cs) @ [Tail]))) acc q =
     (Inr (acc @ map Blk as, Some (hd (map Blk cs @ [Tail]))), clear (Blk ` set as) q)"
proof (induction as arbitrary: acc q)
  case Nil
  then show ?case by simp
next
  case (Cons b as)
  let ?ns = "map Blk (as @ cs) @ [Tail]" and ?q = "set_nxt (Blk b) None (set_prv (Blk b) None q)"
  obtain x xs where X: "?ns = x # xs" by (cases ?ns) auto
  have l: "nxt q (Blk b) = Some x" "linked q ?ns" using Cons.prems(1) X by auto
  have away: "Blk b \<notin> set ?ns" using Cons.prems(2) by auto
  have "linked ?q ?ns" using l(2) away by simp
  from Cons.IH [OF this, of "acc @ [Blk b]"] Cons.prems(2) X l(1) show ?case
    by (simp add: clear_insert)
qed

lemma popleft_n_blocks:
  assumes "queue_of q (as @ cs)"
  shows "\<exists>q'. popleft_n (length as) q = (Inr (map Blk as), q') \<and> queue_of q' cs"
proof (cases "as = []")
  case True
  then show ?thesis using assms by (simp add: popleft_n_def)
next
  case False
  obtain x xs where X: "map Blk cs @ [Tail] = x # xs" by (cases "map Blk cs @ [Tail]") auto
  have d: "distinct (as @ cs)" using queue_ofD(1) [OF assms] .
  have "path (as @ cs) = (Head # map Blk as) @ x # xs" by (simp add: path_def X)
  then have l: "linked q (x # xs)" using queue_ofD(2) [OF assms] linked_append by metis
  let ?r = "add_free (- int (length as)) q"
  let ?q = "set_prv x (Some Head) (set_nxt Head (Some x) (clear (Blk ` set as) ?r))"
  have "path (as @ cs) = [] @ Head # map Blk (as @ cs) @ [Tail]" by (simp add: path_def)
  then have "linked q (Head # map Blk (as @ cs) @ [Tail])" using queue_ofD(2) [OF assms] by simp
  then have lr: "linked ?r (map Blk (as @ cs) @ [Tail])" using False by (cases as) auto
  have run: "popleft_n (length as) q = (Inr (map Blk as), ?q)"
    using pop_loop_takes [OF lr d, of "[]"] head_link [OF assms] queue_ofD(4) [OF assms] X False
    by (simp add: popleft_n_def)
  have xs: "set (x # xs) = insert Tail (Blk ` set cs)" unfolding X [symmetric] by simp
  have dx: "distinct (x # xs)" unfolding X [symmetric] using d by (auto simp: distinct_map inj_on_def)
  have "linked (clear (Blk ` set as) ?r) (x # xs) = linked q (x # xs)"
  proof (rule linked_cong)
    have away: "a \<notin> Blk ` set as" if "a \<in> set (x # xs)" for a using that d unfolding xs by auto
    show "nxt (clear (Blk ` set as) ?r) a = nxt q a" if "a \<in> set (butlast (x # xs))" for a
      using away [OF in_set_butlastD [OF that]] by simp
    show "prv (clear (Blk ` set as) ?r) a = prv q a" if "a \<in> set (tl (x # xs))" for a
      using away that by simp
  qed
  moreover have "Head \<notin> set (x # xs)" unfolding xs by auto
  ultimately have "linked ?q (Head # x # xs)" using l dx by simp
  moreover have "path cs = Head # x # xs" by (simp add: path_def X)
  moreover have "nxt ?q Tail = None" using queue_ofD(3) [OF assms] by simp
  moreover have "num_free_blocks ?q = int (length cs)" using queue_ofD(4) [OF assms] by simp
  moreover have "nxt ?q (Blk c) = None \<and> prv ?q (Blk c) = None" if "c \<notin> set cs" for c
  proof -
    have "Blk c \<notin> set (x # xs)" unfolding xs using that by auto
    then show ?thesis using that queue_ofD(5,6) [OF assms, of c] by auto
  qed
  ultimately show ?thesis using run d by (simp add: queue_of_def)
qed

lemma popleft_n_short: "queue_of q bs \<Longrightarrow> length bs < n \<Longrightarrow> popleft_n n q = (Inl QueueAssertion, q)"
  by (simp add: popleft_n_def queue_ofD(4))

section \<open>Walking the queue\<close>

lemma collect_free_path:
  "linked q (map Blk bs @ [Tail]) \<Longrightarrow> nxt q Tail = None \<Longrightarrow>
   collect_free q (hd (map Blk bs @ [Tail])) = Some (map Blk bs)"
proof (induction bs)
  case Nil
  then show ?case by (subst collect_free.simps) simp
next
  case (Cons b bs)
  obtain x xs where X: "map Blk bs @ [Tail] = x # xs" by (cases "map Blk bs @ [Tail]") auto
  have "nxt q (Blk b) = Some x" "linked q (map Blk bs @ [Tail])" using Cons.prems(1) X by auto
  then have "nxt q (Blk b) = Some x" "collect_free q x = Some (map Blk bs)"
    using Cons.IH Cons.prems(2) X by simp_all
  then show ?case by (subst collect_free.simps) simp
qed

lemma iter_from_path:
  "linked q (map Blk bs @ [Tail]) \<Longrightarrow> iter_from q (Some (hd (map Blk bs @ [Tail]))) = Some (map Blk bs)"
proof (induction bs)
  case Nil
  then show ?case by (subst iter_from.simps) simp
next
  case (Cons b bs)
  obtain x xs where X: "map Blk bs @ [Tail] = x # xs" by (cases "map Blk bs @ [Tail]") auto
  have "nxt q (Blk b) = Some x" "linked q (map Blk bs @ [Tail])" using Cons.prems(1) X by auto
  then have "nxt q (Blk b) = Some x" "iter_from q (Some x) = Some (map Blk bs)"
    using Cons.IH X by simp_all
  then show ?case by (subst iter_from.simps) simp
qed

lemma path_tail_linked: "queue_of q (as @ bs) \<Longrightarrow> linked q (map Blk bs @ [Tail])"
proof -
  assume q: "queue_of q (as @ bs)"
  obtain x xs where X: "map Blk bs @ [Tail] = x # xs" by (cases "map Blk bs @ [Tail]") auto
  have "path (as @ bs) = (Head # map Blk as) @ x # xs" by (simp add: path_def X)
  then show ?thesis using queue_ofD(2) [OF q] linked_append [of q "Head # map Blk as" x xs] X by simp
qed

lemma member_link: "queue_of q (as @ b # cs) \<Longrightarrow> nxt q (Blk b) = Some (hd (map Blk cs @ [Tail]))"
  using path_tail_linked [of q as "b # cs"] by (cases cs) auto

section \<open>A new queue\<close>

lemma linked_nth:
  "linked q ns \<longleftrightarrow> (\<forall>i. Suc i < length ns \<longrightarrow> nxt q (ns ! i) = Some (ns ! Suc i) \<and> prv q (ns ! Suc i) = Some (ns ! i))"
proof (induction ns rule: induct_list012)
  case (3 a b ns)
  have "(\<forall>i. Suc i < length (a # b # ns) \<longrightarrow> nxt q ((a # b # ns) ! i) = Some ((a # b # ns) ! Suc i) \<and>
          prv q ((a # b # ns) ! Suc i) = Some ((a # b # ns) ! i)) \<longleftrightarrow>
        nxt q a = Some b \<and> prv q b = Some a \<and>
        (\<forall>i. Suc i < length (b # ns) \<longrightarrow> nxt q ((b # ns) ! i) = Some ((b # ns) ! Suc i) \<and>
          prv q ((b # ns) ! Suc i) = Some ((b # ns) ! i))" (is "?all \<longleftrightarrow> ?one")
  proof
    assume a: ?all
    show ?one using a [rule_format, of 0] a [rule_format, of "Suc _"] by simp
  next
    assume o: ?one
    show ?all
    proof (intro allI impI)
      fix i assume "Suc i < length (a # b # ns)"
      then show "nxt q ((a # b # ns) ! i) = Some ((a # b # ns) ! Suc i) \<and>
          prv q ((a # b # ns) ! Suc i) = Some ((a # b # ns) ! i)"
        using o by (cases i) auto
    qed
  qed
  then show ?case using "3.IH"(2) by simp
qed simp_all

text \<open>After the loop over the first \<open>k\<close> blocks, the inner links of these are set.\<close>

definition inner_links :: "nat list \<Rightarrow> nat \<Rightarrow> block_queue \<Rightarrow> bool" where
  "inner_links bs k q \<longleftrightarrow>
     (\<forall>i < length bs. nxt q (Blk (bs ! i)) = (if i < k \<and> i < length bs - 1 then Some (Blk (bs ! Suc i)) else None)) \<and>
     (\<forall>i < length bs. prv q (Blk (bs ! i)) = (if i < k \<and> 0 < i then Some (Blk (bs ! (i - 1))) else None)) \<and>
     (\<forall>b. b \<notin> set bs \<longrightarrow> nxt q (Blk b) = None \<and> prv q (Blk b) = None) \<and>
     nxt q Tail = None \<and> num_free_blocks q = int (length bs)"

lemma inner_links_step:
  assumes "distinct bs" "k < length bs" "inner_links bs k q"
  shows "inner_links bs (Suc k) (init_links bs k q)"
proof -
  have same: "bs ! i = bs ! k \<longleftrightarrow> i = k" if "i < length bs" for i
    using that assms(1,2) by (simp add: nth_eq_iff_index_eq)
  have mem: "bs ! k \<in> set bs" using assms(2) by simp
  show ?thesis
    using assms(3) mem by (auto simp: inner_links_def init_links_def Let_def same less_Suc_eq)
qed

lemma inner_links_all:
  assumes "distinct bs" "k \<le> length bs"
  shows "inner_links bs k (fold (init_links bs) [0..<k] (add_free (int (length bs)) detached))"
  using assms(2)
proof (induction k)
  case 0
  then show ?case by (simp add: inner_links_def detached_def)
next
  case (Suc k)
  then show ?case using inner_links_step [OF assms(1), of k] by simp
qed

lemma new_queue_holds:
  assumes "distinct bs"
  shows "queue_of (new_queue bs) bs"
proof (cases "bs = []")
  case True
  then show ?thesis by (simp add: new_queue_def queue_of_def detached_def)
next
  case False
  define q where "q = fold (init_links bs) [0..<length bs] (add_free (int (length bs)) detached)"
  have L: "inner_links bs (length bs) q" using inner_links_all [OF assms, of "length bs"] by (simp add: q_def)
  let ?n = "length bs"
  let ?r = "set_nxt (Blk (last bs)) (Some Tail) (set_prv Tail (Some (Blk (last bs)))
           (set_prv (Blk (hd bs)) (Some Head) (set_nxt Head (Some (Blk (hd bs))) q)))"
  have new: "new_queue bs = ?r" using False by (simp add: new_queue_def q_def Let_def)
  have ends: "hd bs = bs ! 0" "last bs = bs ! (?n - 1)" using False by (simp_all add: hd_conv_nth last_conv_nth)
  have same: "bs ! i = bs ! j \<longleftrightarrow> i = j" if "i < ?n" "j < ?n" for i j
    using that assms by (simp add: nth_eq_iff_index_eq)
  have "nxt ?r (path bs ! i) = Some (path bs ! Suc i) \<and> prv ?r (path bs ! Suc i) = Some (path bs ! i)"
    if i: "Suc i < length (path bs)" for i
  proof -
    have at: "path bs ! Suc j = (if j < ?n then Blk (bs ! j) else Tail)" if "j \<le> ?n" for j
      using that by (auto simp: path_def nth_append)
    have "i \<le> ?n" using i by (simp add: path_def)
    show ?thesis
    proof (cases i)
      case 0
      then show ?thesis using False at [of 0] by (auto simp: ends path_def)
    next
      case (Suc j)
      then have j: "j < ?n" using \<open>i \<le> ?n\<close> by simp
      then have pi: "path bs ! i = Blk (bs ! j)" using at [of j] Suc by simp
      show ?thesis
      proof (cases "Suc j < ?n")
        case True
        then have "path bs ! Suc i = Blk (bs ! Suc j)" using at [of "Suc j"] Suc by simp
        moreover have "bs ! j \<noteq> last bs" "bs ! Suc j \<noteq> hd bs" using same [of "Suc j" 0] same [of j "?n - 1"] True \<open>bs \<noteq> []\<close> by (auto simp: ends)
        ultimately show ?thesis using L True pi by (simp add: inner_links_def)
      next
        case F: False
        then have "path bs ! Suc i = Tail" using at [of "Suc j"] j Suc by simp
        moreover have "j = ?n - 1" using F j by simp
        ultimately show ?thesis using pi by (simp add: ends)
      qed
    qed
  qed
  then have "linked ?r (path bs)" by (simp add: linked_nth del: path_simps)
  moreover have "hd bs \<in> set bs" "last bs \<in> set bs" using False by simp_all
  ultimately show ?thesis
    unfolding new using L assms by (auto simp: queue_of_def inner_links_def)
qed

section \<open>The interface of a free list and its client\<close>

text \<open>
  What the block pool asks of a free list. A list represents a sequence of blocks; several
  may be taken from its front, any may be pulled out, and blocks that are not in it are put
  back at either end.
\<close>

locale free_list =
  fixes rep :: "'q \<Rightarrow> nat list \<Rightarrow> bool"
    and take_front :: "nat \<Rightarrow> 'q \<Rightarrow> ('e + node list) \<times> 'q"
    and pull :: "node \<Rightarrow> 'q \<Rightarrow> ('e + unit) \<times> 'q"
    and put_back :: "node list \<Rightarrow> 'q \<Rightarrow> ('e + unit) \<times> 'q"
    and put_front :: "node list \<Rightarrow> 'q \<Rightarrow> ('e + unit) \<times> 'q"
  assumes rep_distinct: "rep q bs \<Longrightarrow> distinct bs"
    and take_law: "rep q (as @ cs) \<Longrightarrow> \<exists>r. take_front (length as) q = (Inr (map Blk as), r) \<and> rep r cs"
    and take_short: "rep q bs \<Longrightarrow> length bs < n \<Longrightarrow> \<exists>e. take_front n q = (Inl e, q)"
    and pull_law: "rep q (as @ b # cs) \<Longrightarrow> \<exists>r. pull (Blk b) q = (Inr (), r) \<and> rep r (as @ cs)"
    and pull_other: "rep q bs \<Longrightarrow> b \<notin> set bs \<Longrightarrow> \<exists>e. pull (Blk b) q = (Inl e, q)"
    and back_law: "rep q xs \<Longrightarrow> distinct ys \<Longrightarrow> set ys \<inter> set xs = {} \<Longrightarrow>
       \<exists>r. put_back (map Blk ys) q = (Inr (), r) \<and> rep r (xs @ ys)"
    and front_law: "rep q xs \<Longrightarrow> distinct ys \<Longrightarrow> set ys \<inter> set xs = {} \<Longrightarrow>
       \<exists>r. put_front (map Blk ys) q = (Inr (), r) \<and> rep r (ys @ xs)"
begin

lemma take_split:
  assumes "rep q bs"
  shows "(\<exists>e. take_front n q = (Inl e, q)) \<or>
    (\<exists>r. n \<le> length bs \<and> take_front n q = (Inr (map Blk (take n bs)), r) \<and> rep r (drop n bs))"
proof (cases "n \<le> length bs")
  case True
  then show ?thesis using take_law [of q "take n bs" "drop n bs"] assms by auto
next
  case False
  then show ?thesis using take_short [OF assms, of n] by auto
qed

end

text \<open>
  The client: it takes blocks, pulls single ones out (a prefix hit), and puts back blocks
  that it holds. It keeps the list of the blocks it was handed.
\<close>

datatype pool_call = Take nat | Pull nat | PutBack "nat list" | PutFront "nat list"

fun block_no :: "node \<Rightarrow> nat" where
  "block_no (Blk b) = b"
| "block_no a = 0"

definition gives :: "nat list \<Rightarrow> nat list \<Rightarrow> bool" where
  "gives ys held \<longleftrightarrow> distinct ys \<and> set ys \<subseteq> set held"

fun pool_step where
  "pool_step grab pull back front (Take n) (q, held) = (case grab n q of
     (Inr ns, r) \<Rightarrow> (r, held @ map block_no ns) | (Inl e, r) \<Rightarrow> (r, held))"
| "pool_step grab pull back front (Pull b) (q, held) = (case pull (Blk b) q of
     (Inr _, r) \<Rightarrow> (r, held @ [b]) | (Inl e, r) \<Rightarrow> (r, held))"
| "pool_step grab pull back front (PutBack ys) (q, held) =
     (if gives ys held then (snd (back (map Blk ys) q), [b \<leftarrow> held. b \<notin> set ys]) else (q, held))"
| "pool_step grab pull back front (PutFront ys) (q, held) =
     (if gives ys held then (snd (front (map Blk ys) q), [b \<leftarrow> held. b \<notin> set ys]) else (q, held))"

text \<open>Free and held blocks together are the blocks of the pool, each exactly once.\<close>

definition partitions :: "nat list \<Rightarrow> nat list \<Rightarrow> nat list \<Rightarrow> bool" where
  "partitions blocks free held \<longleftrightarrow> distinct (free @ held) \<and> set (free @ held) = set blocks"

context free_list
begin

lemma step_partitions:
  assumes "rep q free" "partitions blocks free held"
  shows "\<exists>free'. rep (fst (pool_step take_front pull put_back put_front c (q, held))) free' \<and>
    partitions blocks free' (snd (pool_step take_front pull put_back put_front c (q, held)))"
proof (cases c)
  case (Take n)
  have "map block_no (map Blk xs) = xs" for xs by (induction xs) auto
  then have s: "(\<exists>e. take_front n q = (Inl e, q)) \<or>
    (\<exists>r. take_front n q = (Inr (map Blk (take n free)), r) \<and> rep r (drop n free) \<and>
       map block_no (map Blk (take n free)) = take n free)"
    using take_split [OF assms(1), of n] by auto
  have "set (take n free) \<inter> set (drop n free) = {}" "set free = set (take n free) \<union> set (drop n free)"
    using rep_distinct [OF assms(1)] set_take_disj_set_drop_if_distinct [of free n n]
    by (simp_all only: append_take_drop_id set_append [symmetric] order_refl)
  then have "partitions blocks (drop n free) (held @ take n free)"
    using assms(2) by (auto simp: partitions_def)
  then show ?thesis using s assms unfolding Take by (elim disjE exE conjE) auto
next
  case (Pull b)
  show ?thesis
  proof (cases "b \<in> set free")
    case True
    then obtain as cs where "free = as @ b # cs" by (meson split_list)
    then have "partitions blocks (as @ cs) (held @ [b])" using assms(2) by (auto simp: partitions_def)
    then show ?thesis using pull_law [of q as b cs] assms(1) \<open>free = as @ b # cs\<close> by (auto simp: Pull)
  next
    case False
    then show ?thesis using pull_other [OF assms(1), of b] assms by (auto simp: Pull)
  qed
next
  case (PutBack ys)
  have "partitions blocks (free @ ys) [b \<leftarrow> held. b \<notin> set ys] \<and> set ys \<inter> set free = {}" if "gives ys held"
    using that assms(2) by (auto simp: partitions_def gives_def)
  then show ?thesis using back_law [OF assms(1), of ys] assms
    by (cases "gives ys held") (auto simp: PutBack gives_def)
next
  case (PutFront ys)
  have "partitions blocks (ys @ free) [b \<leftarrow> held. b \<notin> set ys] \<and> set ys \<inter> set free = {}" if "gives ys held"
    using that assms(2) by (auto simp: partitions_def gives_def)
  then show ?thesis using front_law [OF assms(1), of ys] assms
    by (cases "gives ys held") (auto simp: PutFront gives_def)
qed

lemma run_partitions:
  "rep q free \<Longrightarrow> partitions blocks free held \<Longrightarrow>
   \<exists>free'. rep (fst (fold (pool_step take_front pull put_back put_front) cs (q, held))) free' \<and>
     partitions blocks free' (snd (fold (pool_step take_front pull put_back put_front) cs (q, held)))"
proof (induction cs arbitrary: q free held)
  case Nil
  then show ?case by auto
next
  case (Cons c cs)
  obtain r h where s: "pool_step take_front pull put_back put_front c (q, held) = (r, h)" by fastforce
  obtain f where "rep r f" "partitions blocks f h" using step_partitions [OF Cons.prems, of c] s by auto
  then show ?case using Cons.IH [of r f h] s by simp
qed

end

interpretation bq: free_list queue_of popleft_n queue_remove append_n prepend_n
  by unfold_locales
    (auto simp: queue_ofD(1) popleft_n_blocks popleft_n_short remove_member remove_other append_n_blocks prepend_n_blocks)

section \<open>Properties\<close>

text \<open>C13. The pointer operations refine operations on the list of free blocks: taking from the
  front, pulling any member out, and putting blocks that are not free at either end do to the
  list what their names say, and the misuses the code detects leave the queue alone.\<close>
theorem queue_refines:
  assumes "queue_of q xs"
  shows "(xs = [] \<longrightarrow> popleft q = (Inl NoFreeBlocks, q)) \<and>
    (xs \<noteq> [] \<longrightarrow> (\<exists>r. popleft q = (Inr (Blk (hd xs)), r) \<and> queue_of r (tl xs))) \<and>
    (n \<le> length xs \<longrightarrow> (\<exists>r. popleft_n n q = (Inr (map Blk (take n xs)), r) \<and> queue_of r (drop n xs))) \<and>
    (length xs < n \<longrightarrow> popleft_n n q = (Inl QueueAssertion, q)) \<and>
    (b \<in> set xs \<longrightarrow> (\<exists>r. queue_remove (Blk b) q = (Inr (), r) \<and> queue_of r (remove1 b xs))) \<and>
    (b \<notin> set xs \<longrightarrow> queue_remove (Blk b) q = (Inl QueueRuntimeError, q) \<and>
       (\<exists>r. queue_append (Blk b) q = (Inr (), r) \<and> queue_of r (xs @ [b]))) \<and>
    (distinct ys \<and> set ys \<inter> set xs = {} \<longrightarrow>
       (\<exists>r. append_n (map Blk ys) q = (Inr (), r) \<and> queue_of r (xs @ ys)) \<and>
       (\<exists>r. prepend_n (map Blk ys) q = (Inr (), r) \<and> queue_of r (ys @ xs)))"
proof (intro conjI impI)
  show "\<exists>r. popleft q = (Inr (Blk (hd xs)), r) \<and> queue_of r (tl xs)" if "xs \<noteq> []"
    using popleft_cons [of q "hd xs" "tl xs"] assms that by simp
  show "\<exists>r. popleft_n n q = (Inr (map Blk (take n xs)), r) \<and> queue_of r (drop n xs)" if "n \<le> length xs"
    using popleft_n_blocks [of q "take n xs" "drop n xs"] assms that by simp
  show "\<exists>r. queue_remove (Blk b) q = (Inr (), r) \<and> queue_of r (remove1 b xs)" if "b \<in> set xs"
  proof -
    obtain as cs where s: "xs = as @ b # cs" "b \<notin> set as" using split_list_first [OF \<open>b \<in> set xs\<close>] by blast
    then show ?thesis using remove_member [of q as b cs] assms by (simp add: remove1_append)
  qed
qed (use assms in \<open>auto simp: popleft_empty popleft_n_short remove_other append_block append_n_blocks prepend_n_blocks\<close>)

theorem queue_refines_witness:
  "(\<exists>r. popleft_n 2 (new_queue [4, 7, 9]) = (Inr [Blk 4, Blk 7], r) \<and> queue_of r [9]) \<and>
   (\<exists>r. queue_remove (Blk 7) (new_queue [4, 7, 9]) = (Inr (), r) \<and> queue_of r [4, 9]) \<and>
   (\<exists>r. prepend_n [Blk 1, Blk 2] (new_queue [4, 7, 9]) = (Inr (), r) \<and> queue_of r [1, 2, 4, 7, 9])"
  using queue_refines [OF new_queue_holds, of "[4, 7, 9]" 2 7 "[1, 2]"] by (simp add: numeral_2_eq_2)

text \<open>C7. No block is handed out twice and none is lost: whatever a client that only returns
  blocks it holds does with a new queue, the free blocks and the held blocks are together the
  blocks of the pool, each exactly once, and the counter is the number of blocks not held.\<close>
theorem pool_conserves:
  assumes "distinct blocks"
    and "run = fold (pool_step popleft_n queue_remove append_n prepend_n) calls (new_queue blocks, [])"
  shows "\<exists>free. queue_of (fst run) free \<and> partitions blocks free (snd run) \<and>
    num_free_blocks (fst run) = int (length blocks) - int (length (snd run))"
proof -
  have "partitions blocks blocks []" using assms(1) by (simp add: partitions_def)
  from bq.run_partitions [OF new_queue_holds [OF assms(1)] this, of calls] assms(2)
  obtain free where f: "queue_of (fst run) free" "partitions blocks free (snd run)" by auto
  then have "length (free @ snd run) = length blocks"
    using assms(1) by (metis distinct_card partitions_def)
  then show ?thesis using f queue_ofD(4) [OF f(1)] by auto
qed

theorem pool_conserves_witness:
  "\<exists>free. queue_of (fst (fold (pool_step popleft_n queue_remove append_n prepend_n)
      [Take 2, Pull 3, PutFront [1], Take 9] (new_queue [0, 1, 2, 3], []))) free \<and>
    partitions [0, 1, 2, 3] free (snd (fold (pool_step popleft_n queue_remove append_n prepend_n)
      [Take 2, Pull 3, PutFront [1], Take 9] (new_queue [0, 1, 2, 3], [])))"
proof -
  have "distinct [0, 1, 2, 3 :: nat]" by simp
  from pool_conserves [OF this refl, of "[Take 2, Pull 3, PutFront [1], Take 9]"] show ?thesis by blast
qed

text \<open>Both walks along the links end on every queue: one collects exactly the free blocks in
  order, the other yields the blocks behind the cursor, and nothing for a block that is not free.\<close>
theorem free_walks_end:
  assumes "queue_of q xs"
  shows "get_all_free_blocks q = Inr (Some (map Blk xs)) \<and> iter_blocks_after q None = Some (map Blk xs) \<and>
    (\<forall>i < length xs. iter_blocks_after q (Some (Blk (xs ! i))) = Some (map Blk (drop (Suc i) xs))) \<and>
    (\<forall>b. b \<notin> set xs \<longrightarrow> iter_blocks_after q (Some (Blk b)) = Some [])"
proof (intro conjI allI impI)
  have l: "linked q (map Blk xs @ [Tail])" using path_tail_linked [of q "[]" xs] assms by simp
  show "get_all_free_blocks q = Inr (Some (map Blk xs))"
    using collect_free_path [OF l queue_ofD(3) [OF assms]] head_link [OF assms]
    by (simp add: get_all_free_blocks_def)
  show "iter_blocks_after q None = Some (map Blk xs)"
    using iter_from_path [OF l] head_link [OF assms] by (simp add: iter_blocks_after_def)
  fix i assume "i < length xs"
  then have s: "xs = (take i xs @ [xs ! i]) @ drop (Suc i) xs" by (simp add: id_take_nth_drop [symmetric])
  then have "linked q (map Blk (drop (Suc i) xs) @ [Tail])" using path_tail_linked assms by metis
  moreover have "nxt q (Blk (xs ! i)) = Some (hd (map Blk (drop (Suc i) xs) @ [Tail]))"
    using member_link [of q "take i xs" "xs ! i" "drop (Suc i) xs"] assms s by simp
  ultimately show "iter_blocks_after q (Some (Blk (xs ! i))) = Some (map Blk (drop (Suc i) xs))"
    using iter_from_path by (simp add: iter_blocks_after_def)
next
  fix b assume "b \<notin> set xs"
  then have "nxt q (Blk b) = None" using queue_ofD(5) [OF assms] by simp
  then show "iter_blocks_after q (Some (Blk b)) = Some []"
    by (simp add: iter_blocks_after_def iter_from.simps)
qed

theorem free_walks_end_witness:
  "get_all_free_blocks (new_queue [5, 3]) = Inr (Some [Blk 5, Blk 3]) \<and>
   iter_blocks_after (new_queue [5, 3]) (Some (Blk 5)) = Some [Blk 3]"
  using free_walks_end [OF new_queue_holds, of "[5, 3]"] by (auto dest: spec [of _ 0])

end
