(* ===== verification/KVSpec.thy ===== *)
theory KVSpec
  imports Prelude Complex_Main
begin

text \<open>
  The cache specifications of \<open>scripts/node/overrides/vllm/v1/kv_cache_interface.py\<close>: one
  constructor for every class, with a record for the fields that each level of the class
  hierarchy adds. What the file takes from modules that are not in the repository is the
  record \<open>kv_lib\<close> (integer helpers, the specification registry) and the values it
  reads from the engine configuration are \<open>kv_config\<close>.
\<close>

section \<open>Errors and the surroundings\<close>

datatype kv_error = AssertionError | ValueError | NotImplementedError | KeyError | IndexError |
  ZeroDivisionError | StopIteration

text \<open>A torch dtype is known by its name and its size in bytes (\<open>get_dtype_size\<close>).\<close>

record dtype =
  dtype_name :: string
  itemsize :: int

datatype kv_class = CKVCacheSpec | CAttention | CFull | CMLA | CHidden | CRSWA | CSink | CChunked |
  CSliding | CSlidingMLA | CEncoderOnly | CCross | CMamba | CUniform

fun mro :: "kv_class \<Rightarrow> kv_class list" where
  "mro CKVCacheSpec = [CKVCacheSpec]"
| "mro CAttention = [CAttention, CKVCacheSpec]"
| "mro CFull = [CFull, CAttention, CKVCacheSpec]"
| "mro CMLA = [CMLA, CFull, CAttention, CKVCacheSpec]"
| "mro CHidden = [CHidden, CMLA, CFull, CAttention, CKVCacheSpec]"
| "mro CRSWA = [CRSWA, CFull, CAttention, CKVCacheSpec]"
| "mro CSink = [CSink, CFull, CAttention, CKVCacheSpec]"
| "mro CChunked = [CChunked, CAttention, CKVCacheSpec]"
| "mro CSliding = [CSliding, CAttention, CKVCacheSpec]"
| "mro CSlidingMLA = [CSlidingMLA, CSliding, CAttention, CKVCacheSpec]"
| "mro CEncoderOnly = [CEncoderOnly, CAttention, CKVCacheSpec]"
| "mro CCross = [CCross, CAttention, CKVCacheSpec]"
| "mro CMamba = [CMamba, CKVCacheSpec]"
| "mro CUniform = [CUniform, CKVCacheSpec]"

definition is_subclass :: "kv_class \<Rightarrow> kv_class \<Rightarrow> bool" where
  "is_subclass c d \<longleftrightarrow> d \<in> set (mro c)"

text \<open>
  \<open>cdiv\<close> and \<open>round_up\<close> of \<open>vllm.utils.math_utils\<close>, \<open>get_uniform_type_base_spec\<close> and
  \<open>check_kv_cache_spec_registry\<close> of the registry (functions of the classes of specifications) and \<open>extract_layer_index\<close>.
\<close>

record kv_lib =
  cdiv :: "int \<Rightarrow> int \<Rightarrow> kv_error + int"
  round_up :: "int \<Rightarrow> int \<Rightarrow> kv_error + int"
  base_of :: "kv_class \<Rightarrow> kv_class option"
  check_registry :: "kv_class list \<Rightarrow> kv_error + unit"
  extract_layer_index :: "string \<Rightarrow> kv_error + int"

text \<open>The documented behaviour of the integer helpers, for positive divisors.\<close>

definition ceil_div :: "int \<Rightarrow> int \<Rightarrow> int" where
  "ceil_div a b = - ((- a) div b)"

definition lib_ok :: "kv_lib \<Rightarrow> bool" where
  "lib_ok lib \<longleftrightarrow> (\<forall>a b. 0 < b \<longrightarrow> cdiv lib a b = Inr (ceil_div a b)) \<and>
     (\<forall>a b. 0 < b \<longrightarrow> round_up lib a b = Inr (ceil_div a b * b))"

record spec_config =
  spec_method :: string
  num_speculative_tokens :: int
  use_eagle :: bool
  use_multi_module_mtp :: bool

record kv_layout =
  layout_name :: string
  stride_order :: "nat list"
  is_block_compact :: bool
  is_layer_compact :: bool
  is_block_outermost :: bool

record kv_config =
  max_model_len :: int
  original_max_model_len :: int
  max_in_flight_tokens :: int
  dcp_size :: int
  pp_size :: int
  model_num_layers :: int
  cfg_block_size :: int
  cfg_mamba_mode :: string
  enable_prefix_caching :: bool
  has_kv_transfer :: bool
  prefix_match_unit :: "int option"
  blocks_override :: "int option"
  retention_interval :: "int option"
  resolved_layout :: kv_layout
  max_encoder_tokens :: int
  disable_hybrid :: bool
  speculative :: "spec_config option"
  split_target_env :: "string option"

section \<open>Quantization modes\<close>

datatype kv_quant = QNone | Fp8PerTensor | Int8PerTokenHead | Fp8PerTokenHead | Int4PerTokenHead |
  Nvfp4 | TurboK8V4 | Turbo4BitNC | TurboK3V4NC | Turbo3BitNC

definition is_per_token_head :: "kv_quant \<Rightarrow> bool" where
  "is_per_token_head q \<longleftrightarrow> q \<in> {Int8PerTokenHead, Fp8PerTokenHead, Int4PerTokenHead}"

definition is_nvfp4 :: "kv_quant \<Rightarrow> bool" where
  "is_nvfp4 q \<longleftrightarrow> q = Nvfp4"

definition is_turboquant :: "kv_quant \<Rightarrow> bool" where
  "is_turboquant q \<longleftrightarrow> q \<in> {TurboK8V4, Turbo4BitNC, TurboK3V4NC, Turbo3BitNC}"

text \<open>
  The lookup \<open>KVQuantMode[kv_cache_dtype.upper()]\<close>, over the members whose name starts with
  the prefix tested before; the only other spellings that reach them differ in case.
\<close>

definition ascii_upper_char :: "char \<Rightarrow> char" where
  "ascii_upper_char c = (let n = of_char c :: nat in if 97 \<le> n \<and> n \<le> 122 then char_of (n - 32) else c)"

definition turboquant_member :: "string \<Rightarrow> kv_quant option" where
  "turboquant_member d = map_of [(''TURBOQUANT_K8V4'', TurboK8V4), (''TURBOQUANT_4BIT_NC'', Turbo4BitNC),
     (''TURBOQUANT_K3V4_NC'', TurboK3V4NC), (''TURBOQUANT_3BIT_NC'', Turbo3BitNC)] (map ascii_upper_char d)"

definition starts_with :: "string \<Rightarrow> string \<Rightarrow> bool" where
  "starts_with p s \<longleftrightarrow> take (length p) s = p"

definition get_kv_quant_mode :: "string \<Rightarrow> kv_error + kv_quant" where
  "get_kv_quant_mode d =
     (if d = ''int4_per_token_head'' then Inr Int4PerTokenHead
      else if d = ''int8_per_token_head'' then Inr Int8PerTokenHead
      else if d = ''fp8_per_token_head'' then Inr Fp8PerTokenHead
      else if starts_with ''nvfp4'' d then Inr Nvfp4
      else if starts_with ''turboquant_'' d
        then (case turboquant_member d of None \<Rightarrow> Inl KeyError | Some q \<Rightarrow> Inr q)
      else if starts_with ''fp8'' d then Inr Fp8PerTensor
      else Inr QNone)"

definition is_quantized_kv_cache :: "string \<Rightarrow> kv_error + bool" where
  "is_quantized_kv_cache d = rbind (get_kv_quant_mode d) (\<lambda>q. Inr (q \<noteq> QNone))"

definition uses_per_token_head_scales :: "string \<Rightarrow> kv_error + bool" where
  "uses_per_token_head_scales d = rbind (get_kv_quant_mode d) (\<lambda>q. Inr (is_per_token_head q))"

section \<open>Specifications\<close>

record attn =
  a_block_size :: int
  num_kv_heads :: int
  head_size :: int
  a_dtype :: dtype
  head_size_v :: int
  kv_quant_mode :: kv_quant
  a_page_padded :: "int option"
  num_head_slots :: "int option"
  state_content_bytes :: "int option"
  a_tokens_per_state :: rat
  dcp_replicated :: bool

record full =
  f_window :: "int option"
  f_chunk :: "int option"
  non_causal :: bool

record mla =
  cache_dtype_str :: "string option"
  alignment :: "int option"
  model_version :: "string option"
  page_tail :: int
  multi_token_decode :: bool

record window =
  sliding_window :: int
  extra_retained :: int

record swmla =
  s_cache_dtype_str :: "string option"
  s_alignment :: "int option"
  s_model_version :: "string option"

record mamba =
  m_block_size :: int
  m_shapes :: "int list list"
  m_dtypes :: "dtype list"
  m_page_padded :: "int option"
  mamba_type :: string
  mamba_cache_mode :: string
  num_speculative_blocks :: int
  num_checkpoint_blocks :: int
  m_num_heads :: int
  m_tokens_per_state :: rat

text \<open>The specification of one layer, and of a group: one layer's, or one per layer.\<close>

datatype layer_spec =
    Attention attn | Full attn full | MLA attn full mla | Hidden attn full mla | RSWA attn full int
  | Sink attn full "int option" | Chunked attn int | Sliding attn window
  | SlidingMLA attn window swmla | EncoderOnly attn | Cross attn | Mamba mamba

datatype kv_spec = Layer layer_spec | Uniform int "(string \<times> layer_spec) list"

fun class_of :: "layer_spec \<Rightarrow> kv_class" where
  "class_of (Attention a) = CAttention"
| "class_of (Full a f) = CFull"
| "class_of (MLA a f m) = CMLA"
| "class_of (Hidden a f m) = CHidden"
| "class_of (RSWA a f w) = CRSWA"
| "class_of (Sink a f l) = CSink"
| "class_of (Chunked a c) = CChunked"
| "class_of (Sliding a w) = CSliding"
| "class_of (SlidingMLA a w s) = CSlidingMLA"
| "class_of (EncoderOnly a) = CEncoderOnly"
| "class_of (Cross a) = CCross"
| "class_of (Mamba m) = CMamba"

fun spec_class :: "kv_spec \<Rightarrow> kv_class" where
  "spec_class (Layer s) = class_of s"
| "spec_class (Uniform b ss) = CUniform"

abbreviation isinst :: "layer_spec \<Rightarrow> kv_class \<Rightarrow> bool" where
  "isinst s c \<equiv> is_subclass (class_of s) c"

fun attn_of :: "layer_spec \<Rightarrow> attn option" where
  "attn_of (Attention a) = Some a"
| "attn_of (Full a f) = Some a"
| "attn_of (MLA a f m) = Some a"
| "attn_of (Hidden a f m) = Some a"
| "attn_of (RSWA a f w) = Some a"
| "attn_of (Sink a f l) = Some a"
| "attn_of (Chunked a c) = Some a"
| "attn_of (Sliding a w) = Some a"
| "attn_of (SlidingMLA a w s) = Some a"
| "attn_of (EncoderOnly a) = Some a"
| "attn_of (Cross a) = Some a"
| "attn_of (Mamba m) = None"

fun map_attn :: "(attn \<Rightarrow> attn) \<Rightarrow> layer_spec \<Rightarrow> layer_spec" where
  "map_attn g (Attention a) = Attention (g a)"
| "map_attn g (Full a f) = Full (g a) f"
| "map_attn g (MLA a f m) = MLA (g a) f m"
| "map_attn g (Hidden a f m) = Hidden (g a) f m"
| "map_attn g (RSWA a f w) = RSWA (g a) f w"
| "map_attn g (Sink a f l) = Sink (g a) f l"
| "map_attn g (Chunked a c) = Chunked (g a) c"
| "map_attn g (Sliding a w) = Sliding (g a) w"
| "map_attn g (SlidingMLA a w s) = SlidingMLA (g a) w s"
| "map_attn g (EncoderOnly a) = EncoderOnly (g a)"
| "map_attn g (Cross a) = Cross (g a)"
| "map_attn g (Mamba m) = Mamba m"

fun full_of :: "layer_spec \<Rightarrow> full option" where
  "full_of (Full a f) = Some f"
| "full_of (MLA a f m) = Some f"
| "full_of (Hidden a f m) = Some f"
| "full_of (RSWA a f w) = Some f"
| "full_of (Sink a f l) = Some f"
| "full_of s = None"

fun mla_of :: "layer_spec \<Rightarrow> mla option" where
  "mla_of (MLA a f m) = Some m"
| "mla_of (Hidden a f m) = Some m"
| "mla_of s = None"

fun window_of :: "layer_spec \<Rightarrow> window option" where
  "window_of (Sliding a w) = Some w"
| "window_of (SlidingMLA a w s) = Some w"
| "window_of s = None"

lemma part_iff:
  "attn_of s \<noteq> None \<longleftrightarrow> isinst s CAttention" "full_of s \<noteq> None \<longleftrightarrow> isinst s CFull"
  "mla_of s \<noteq> None \<longleftrightarrow> isinst s CMLA" "window_of s \<noteq> None \<longleftrightarrow> isinst s CSliding"
  by (cases s; simp add: is_subclass_def)+

text \<open>\<open>block_size\<close> and \<open>getattr(spec, "dcp_replicated", False)\<close>.\<close>

definition layer_block_size :: "layer_spec \<Rightarrow> int" where
  "layer_block_size s = (case s of Mamba m \<Rightarrow> m_block_size m | _ \<Rightarrow> a_block_size (the (attn_of s)))"

definition layer_replicated :: "layer_spec \<Rightarrow> bool" where
  "layer_replicated s = (case attn_of s of Some a \<Rightarrow> dcp_replicated a | None \<Rightarrow> False)"

fun block_size :: "kv_spec \<Rightarrow> int" where
  "block_size (Layer s) = layer_block_size s"
| "block_size (Uniform b ss) = b"

fun spec_replicated :: "kv_spec \<Rightarrow> bool" where
  "spec_replicated (Layer s) = layer_replicated s"
| "spec_replicated (Uniform b ss) = (\<forall>s \<in> set (map snd ss). layer_replicated s)"

section \<open>Page sizes\<close>

definition kernel_states :: "rat \<Rightarrow> int \<Rightarrow> int" where
  "kernel_states tokens kernel_block = (if 0 < tokens then \<lfloor>of_int kernel_block / tokens\<rfloor> else 1)"

definition attn_heads :: "attn \<Rightarrow> int" where
  "attn_heads a = (case num_head_slots a of Some n \<Rightarrow> n | None \<Rightarrow> num_kv_heads a)"

definition attn_content_bytes :: "attn \<Rightarrow> int" where
  "attn_content_bytes a = (case state_content_bytes a of Some c \<Rightarrow> c
     | None \<Rightarrow> (head_size a + head_size_v a) * itemsize (a_dtype a))"

definition unpadded_page_size :: "attn \<Rightarrow> int" where
  "unpadded_page_size a = attn_heads a * kernel_states (a_tokens_per_state a) (a_block_size a) * attn_content_bytes a"

definition padded_size :: "int option \<Rightarrow> int \<Rightarrow> kv_error + int" where
  "padded_size padded sz = (case padded of None \<Rightarrow> Inr sz
     | Some p \<Rightarrow> if p < sz then Inl AssertionError else Inr p)"

definition mamba_state_bytes :: "mamba \<Rightarrow> int" where
  "mamba_state_bytes m = sum_list (map2 (\<lambda>shape d. prod_list shape * itemsize d) (m_shapes m) (m_dtypes m))"

definition attn_page_size :: "attn \<Rightarrow> kv_error + int" where
  "attn_page_size a = padded_size (a_page_padded a) (unpadded_page_size a)"

definition mamba_page_size :: "mamba \<Rightarrow> kv_error + int" where
  "mamba_page_size m = padded_size (m_page_padded m) (mamba_state_bytes m)"

definition mla_page_size :: "attn \<Rightarrow> mla \<Rightarrow> kv_error + int" where
  "mla_page_size a m = rbind (attn_page_size a) (\<lambda>p. Inr (p + a_block_size a * page_tail m))"

definition layer_page_size :: "layer_spec \<Rightarrow> kv_error + int" where
  "layer_page_size s = (case s of Mamba m \<Rightarrow> mamba_page_size m
     | _ \<Rightarrow> (case mla_of s of Some m \<Rightarrow> mla_page_size (the (attn_of s)) m
           | None \<Rightarrow> attn_page_size (the (attn_of s))))"

fun page_size_bytes :: "kv_spec \<Rightarrow> kv_error + int" where
  "page_size_bytes (Layer s) = layer_page_size s"
| "page_size_bytes (Uniform b ss) = rbind (rmap (\<lambda>(n, s). layer_page_size s) ss) (\<lambda>ps. Inr (sum_list ps))"

text \<open>\<open>num_heads\<close>, \<open>get_num_kernel_states\<close> and \<open>state_content_size_bytes\<close> of a layer.\<close>

definition layer_heads :: "layer_spec \<Rightarrow> int" where
  "layer_heads s = (case s of Mamba m \<Rightarrow> m_num_heads m | _ \<Rightarrow> attn_heads (the (attn_of s)))"

definition layer_states :: "layer_spec \<Rightarrow> int \<Rightarrow> int" where
  "layer_states s kernel_block = (case s of Mamba m \<Rightarrow> kernel_states (m_tokens_per_state m) kernel_block
     | _ \<Rightarrow> kernel_states (a_tokens_per_state (the (attn_of s))) kernel_block)"

definition layer_content_bytes :: "layer_spec \<Rightarrow> int" where
  "layer_content_bytes s = (case s of Mamba m \<Rightarrow> mamba_state_bytes m | _ \<Rightarrow> attn_content_bytes (the (attn_of s)))"

section \<open>Construction\<close>

text \<open>
  \<open>__post_init__\<close>, which runs on every construction and on \<open>dataclasses.replace\<close>.
\<close>

definition apply_alignment :: "kv_lib \<Rightarrow> int option \<Rightarrow> attn \<Rightarrow> kv_error + attn" where
  "apply_alignment lib al a = (case al of None \<Rightarrow> Inr a
     | Some n \<Rightarrow> rbind (round_up lib (unpadded_page_size a) n) (\<lambda>p.
         Inr (if p \<noteq> unpadded_page_size a then a\<lparr>a_page_padded := Some p\<rparr> else a)))"

definition sliding_mla_init :: "kv_lib \<Rightarrow> attn \<Rightarrow> window \<Rightarrow> swmla \<Rightarrow> kv_error + layer_spec" where
  "sliding_mla_init lib a w s =
     (if s_model_version s \<notin> {None, Some ''deepseek_v4''} then Inl AssertionError
      else rbind (apply_alignment lib (s_alignment s) a) (\<lambda>b. Inr (SlidingMLA b w s)))"

fun post_init :: "kv_lib \<Rightarrow> layer_spec \<Rightarrow> kv_error + layer_spec" where
  "post_init lib (MLA a f m) = (if page_tail m < 0 then Inl ValueError
     else rbind (apply_alignment lib (alignment m) a) (\<lambda>b. Inr (MLA b f m)))"
| "post_init lib (Hidden a f m) = (if page_tail m < 0 then Inl ValueError
     else rbind (apply_alignment lib (alignment m) a) (\<lambda>b. Inr (Hidden b f m)))"
| "post_init lib (SlidingMLA a w s) = sliding_mla_init lib a w s"
| "post_init lib s = Inr s"

text \<open>The constructor of an attention specification with \<open>head_size_v\<close> possibly left out.\<close>

definition with_value_head :: "int option \<Rightarrow> attn \<Rightarrow> attn" where
  "with_value_head v a = a\<lparr>head_size_v := (case v of None \<Rightarrow> head_size a | Some n \<Rightarrow> n)\<rparr>"

fun set_block_size :: "int \<Rightarrow> layer_spec \<Rightarrow> layer_spec" where
  "set_block_size n (Mamba m) = Mamba (m\<lparr>m_block_size := n\<rparr>)"
| "set_block_size n s = map_attn (\<lambda>a. a\<lparr>a_block_size := n\<rparr>) s"

fun set_page_padded :: "int \<Rightarrow> layer_spec \<Rightarrow> layer_spec" where
  "set_page_padded n (Mamba m) = Mamba (m\<lparr>m_page_padded := Some n\<rparr>)"
| "set_page_padded n s = map_attn (\<lambda>a. a\<lparr>a_page_padded := Some n\<rparr>) s"

definition copy_with_new_block_size :: "kv_lib \<Rightarrow> int \<Rightarrow> layer_spec \<Rightarrow> kv_error + layer_spec" where
  "copy_with_new_block_size lib n s = post_init lib (set_block_size n s)"

section \<open>Memory of a request\<close>

definition blocks_for :: "kv_lib \<Rightarrow> int \<Rightarrow> int \<Rightarrow> kv_error + int \<Rightarrow> kv_error + int" where
  "blocks_for lib tokens bs page = rbind (cdiv lib tokens bs) (\<lambda>n. rbind page (\<lambda>p. Inr (n * p)))"

definition full_max_memory :: "kv_lib \<Rightarrow> kv_config \<Rightarrow> attn \<Rightarrow> kv_error + int \<Rightarrow> kv_error + int" where
  "full_max_memory lib cfg a page =
     rbind (if 1 < dcp_size cfg \<and> \<not> dcp_replicated a then cdiv lib (max_model_len cfg) (dcp_size cfg)
            else Inr (max_model_len cfg)) (\<lambda>len. blocks_for lib len (a_block_size a) page)"

definition chunked_max_blocks :: "kv_lib \<Rightarrow> attn \<Rightarrow> int \<Rightarrow> int \<Rightarrow> int \<Rightarrow> kv_error + int" where
  "chunked_max_blocks lib a chunk in_flight max_len = cdiv lib (min (chunk + in_flight) max_len) (a_block_size a)"

definition sliding_max_blocks :: "kv_lib \<Rightarrow> attn \<Rightarrow> window \<Rightarrow> int \<Rightarrow> int \<Rightarrow> kv_error + int" where
  "sliding_max_blocks lib a w in_flight max_len =
     rbind (cdiv lib (min (sliding_window w - 1 + extra_retained w + in_flight) max_len) (a_block_size a))
       (\<lambda>n. Inr (n + 1))"

definition chunked_max_memory :: "kv_lib \<Rightarrow> kv_config \<Rightarrow> attn \<Rightarrow> int \<Rightarrow> kv_error + int" where
  "chunked_max_memory lib cfg a chunk =
     rbind (chunked_max_blocks lib a chunk (max_in_flight_tokens cfg) (max_model_len cfg)) (\<lambda>n.
       rbind (attn_page_size a) (\<lambda>p. Inr (n * p)))"

definition sliding_max_memory :: "kv_lib \<Rightarrow> kv_config \<Rightarrow> attn \<Rightarrow> window \<Rightarrow> kv_error + int" where
  "sliding_max_memory lib cfg a w =
     (if dcp_size cfg \<noteq> 1 \<and> \<not> dcp_replicated a then Inl AssertionError
      else rbind (sliding_max_blocks lib a w (max_in_flight_tokens cfg) (max_model_len cfg)) (\<lambda>n.
        rbind (attn_page_size a) (\<lambda>p. Inr (n * p))))"

definition mamba_max_memory :: "kv_lib \<Rightarrow> kv_config \<Rightarrow> mamba \<Rightarrow> kv_error + int" where
  "mamba_max_memory lib cfg m =
     (if cfg_mamba_mode cfg = ''all'' then
        rbind (cdiv lib (max_model_len cfg) (m_block_size m)) (\<lambda>n.
          rbind (mamba_page_size m) (\<lambda>p. Inr ((n + num_speculative_blocks m) * p)))
      else if cfg_mamba_mode cfg = ''align'' then
        rbind (mamba_page_size m) (\<lambda>p. Inr (p * (2 + num_speculative_blocks m + num_checkpoint_blocks m)))
      else rbind (mamba_page_size m) (\<lambda>p. Inr (p * (1 + num_speculative_blocks m))))"

definition cross_max_memory :: "kv_lib \<Rightarrow> kv_config \<Rightarrow> attn \<Rightarrow> kv_error + int" where
  "cross_max_memory lib cfg a = blocks_for lib (max_encoder_tokens cfg) (a_block_size a) (attn_page_size a)"

fun layer_max_memory :: "kv_lib \<Rightarrow> kv_config \<Rightarrow> layer_spec \<Rightarrow> kv_error + int" where
  "layer_max_memory lib cfg (Attention a) = Inl NotImplementedError"
| "layer_max_memory lib cfg (Chunked a c) = chunked_max_memory lib cfg a c"
| "layer_max_memory lib cfg (Sliding a w) = sliding_max_memory lib cfg a w"
| "layer_max_memory lib cfg (SlidingMLA a w s) = sliding_max_memory lib cfg a w"
| "layer_max_memory lib cfg (EncoderOnly a) = Inr 0"
| "layer_max_memory lib cfg (Cross a) = cross_max_memory lib cfg a"
| "layer_max_memory lib cfg (Mamba m) = mamba_max_memory lib cfg m"
| "layer_max_memory lib cfg s = full_max_memory lib cfg (the (attn_of s)) (layer_page_size s)"

text \<open>\<open>max\<close> of a non-empty collection, which raises on an empty one.\<close>

definition py_max :: "int list \<Rightarrow> kv_error + int" where
  "py_max xs = (if xs = [] then Inl ValueError else Inr (Max (set xs)))"

definition layer_max_pages :: "kv_lib \<Rightarrow> kv_config \<Rightarrow> layer_spec \<Rightarrow> kv_error + int" where
  "layer_max_pages lib cfg s =
     rbind (layer_max_memory lib cfg s) (\<lambda>b. rbind (layer_page_size s) (\<lambda>p. cdiv lib b p))"

definition uniform_max_pages :: "kv_lib \<Rightarrow> kv_config \<Rightarrow> (string \<times> layer_spec) list \<Rightarrow> kv_error + int" where
  "uniform_max_pages lib cfg ss = rbind (rmap (\<lambda>(n, s). layer_max_pages lib cfg s) ss) py_max"

fun max_memory_usage :: "kv_lib \<Rightarrow> kv_config \<Rightarrow> kv_spec \<Rightarrow> kv_error + int" where
  "max_memory_usage lib cfg (Layer s) = layer_max_memory lib cfg s"
| "max_memory_usage lib cfg (Uniform b ss) =
     rbind (uniform_max_pages lib cfg ss) (\<lambda>n. rbind (page_size_bytes (Uniform b ss)) (\<lambda>p. Inr (n * p)))"

text \<open>The rows of a block table.\<close>

definition attn_max_blocks :: "kv_lib \<Rightarrow> kv_config \<Rightarrow> attn \<Rightarrow> int \<Rightarrow> kv_error + int" where
  "attn_max_blocks lib cfg a max_len =
     cdiv lib max_len (a_block_size a * (if dcp_replicated a then 1 else dcp_size cfg))"

definition mamba_max_blocks :: "kv_lib \<Rightarrow> kv_config \<Rightarrow> mamba \<Rightarrow> int \<Rightarrow> kv_error + int" where
  "mamba_max_blocks lib cfg m max_len =
     (if cfg_mamba_mode cfg = ''align''
      then rbind (cdiv lib max_len (m_block_size m)) (\<lambda>n. Inr (n + num_speculative_blocks m))
      else rbind (mamba_max_memory lib cfg m) (\<lambda>b. rbind (mamba_page_size m) (\<lambda>p. cdiv lib b p)))"

definition layer_max_blocks :: "kv_lib \<Rightarrow> kv_config \<Rightarrow> layer_spec \<Rightarrow> int \<Rightarrow> kv_error + int" where
  "layer_max_blocks lib cfg s max_len = (case s of Mamba m \<Rightarrow> mamba_max_blocks lib cfg m max_len
     | _ \<Rightarrow> attn_max_blocks lib cfg (the (attn_of s)) max_len)"

fun max_num_blocks_per_req :: "kv_lib \<Rightarrow> kv_config \<Rightarrow> kv_spec \<Rightarrow> int \<Rightarrow> kv_error + int" where
  "max_num_blocks_per_req lib cfg (Layer s) max_len = layer_max_blocks lib cfg s max_len"
| "max_num_blocks_per_req lib cfg (Uniform b ss) max_len =
     rbind (rmap (\<lambda>(n, s). layer_max_blocks lib cfg s max_len) ss) (\<lambda>ws.
       (case remdups ws of [w] \<Rightarrow> Inr w | _ \<Rightarrow> Inl AssertionError))"

section \<open>Uniformity\<close>

definition default_uniform :: "kv_lib \<Rightarrow> layer_spec \<Rightarrow> layer_spec list \<Rightarrow> kv_error + bool" where
  "default_uniform lib s ss = (case base_of lib (class_of s) of None \<Rightarrow> Inl AssertionError
     | Some c \<Rightarrow> Inr (\<forall>x \<in> set ss. isinst x c \<and> layer_replicated x = layer_replicated s))"

definition chunked_uniform :: "int \<Rightarrow> layer_spec list \<Rightarrow> bool" where
  "chunked_uniform c ss \<longleftrightarrow> (\<forall>x \<in> set ss. case x of Chunked b d \<Rightarrow> d = c | _ \<Rightarrow> False)"

definition sliding_uniform :: "attn \<Rightarrow> window \<Rightarrow> layer_spec list \<Rightarrow> bool" where
  "sliding_uniform a w ss \<longleftrightarrow> (\<forall>x \<in> set ss. case window_of x of
     Some v \<Rightarrow> sliding_window v = sliding_window w \<and> layer_replicated x = dcp_replicated a | None \<Rightarrow> False)"

definition sliding_mla_uniform :: "attn \<Rightarrow> window \<Rightarrow> layer_spec list \<Rightarrow> bool" where
  "sliding_mla_uniform a w ss \<longleftrightarrow> (\<forall>x \<in> set ss. case x of
     SlidingMLA b v r \<Rightarrow> sliding_window v = sliding_window w \<and> dcp_replicated b = dcp_replicated a | _ \<Rightarrow> False)"

definition mamba_uniform :: "mamba \<Rightarrow> layer_spec list \<Rightarrow> bool" where
  "mamba_uniform m ss \<longleftrightarrow> (\<forall>x \<in> set ss. case x of
     Mamba k \<Rightarrow> num_speculative_blocks k = num_speculative_blocks m \<and>
       num_checkpoint_blocks k = num_checkpoint_blocks m | _ \<Rightarrow> False)"

definition is_uniform_with :: "kv_lib \<Rightarrow> layer_spec \<Rightarrow> layer_spec list \<Rightarrow> kv_error + bool" where
  "is_uniform_with lib s ss = (case s of
     Chunked a c \<Rightarrow> Inr (chunked_uniform c ss)
   | Sliding a w \<Rightarrow> Inr (sliding_uniform a w ss)
   | SlidingMLA a w m \<Rightarrow> Inr (sliding_mla_uniform a w ss)
   | Mamba m \<Rightarrow> Inr (mamba_uniform m ss)
   | _ \<Rightarrow> default_uniform lib s ss)"

definition is_uniform_type :: "kv_lib \<Rightarrow> (string \<times> layer_spec) list \<Rightarrow> kv_error + bool" where
  "is_uniform_type lib ss =
     (if 1 < length (remdups (map (layer_block_size \<circ> snd) ss)) then Inr False
      else (case map snd ss of [] \<Rightarrow> Inl StopIteration | s # _ \<Rightarrow> is_uniform_with lib s (map snd ss)))"

definition from_specs :: "kv_lib \<Rightarrow> (string \<times> layer_spec) list \<Rightarrow> kv_error + kv_spec option" where
  "from_specs lib ss = rbind (is_uniform_type lib ss) (\<lambda>u.
     Inr (if u then Some (Uniform (layer_block_size (snd (hd ss))) ss) else None))"

text \<open>The largest number of layers that share one page size.\<close>

definition num_layer_tuples :: "(string \<times> layer_spec) list \<Rightarrow> kv_error + int" where
  "num_layer_tuples ss = rbind (rmap (\<lambda>(n, s). layer_page_size s) ss) (\<lambda>ps.
     if ps = [] then Inl IndexError else Inr (int (Max (set (map (count_list ps) ps)))))"

section \<open>Merging\<close>

definition the_one :: "'a list \<Rightarrow> kv_error + 'a" where
  "the_one xs = (case remdups xs of [x] \<Rightarrow> Inr x | _ \<Rightarrow> Inl AssertionError)"

definition merge_window_sizes :: "int option list \<Rightarrow> kv_error + int option" where
  "merge_window_sizes ws = (case remdups (List.map_filter id ws) of
     [] \<Rightarrow> Inr None | [w] \<Rightarrow> Inr (Some w) | _ \<Rightarrow> Inl ValueError)"

text \<open>Every field of \<open>AttentionSpec\<close> agrees with the merged specification.\<close>

definition same_attn :: "layer_spec list \<Rightarrow> attn \<Rightarrow> bool" where
  "same_attn ss a \<longleftrightarrow> (\<forall>s \<in> set ss. attn_of s = Some a)"

definition merge_equal :: "layer_spec list \<Rightarrow> kv_error + layer_spec" where
  "merge_equal ss = (if \<forall>s \<in> set (tl ss). s = hd ss then Inr (hd ss) else Inl AssertionError)"

text \<open>
  The fields that \<open>FullAttentionSpec.merge\<close> gives the merged specification, where \<open>g\<close> stands
  for the attention fields its constructor call leaves at their defaults.
\<close>

definition merge_full_parts :: "(attn \<Rightarrow> attn) \<Rightarrow> layer_spec list \<Rightarrow> kv_error + (attn \<times> full)" where
  "merge_full_parts g ss =
     (if \<exists>s \<in> set ss. \<not> isinst s CFull then Inl AssertionError
      else if \<exists>s \<in> set ss. isinst s CMLA then Inl AssertionError
      else rbind (the_one (map layer_replicated ss)) (\<lambda>rep.
        rbind (merge_window_sizes (map (f_window \<circ> the \<circ> full_of) ss)) (\<lambda>w.
          rbind (merge_window_sizes (map (f_chunk \<circ> the \<circ> full_of) ss)) (\<lambda>c.
            let a = (g (the (attn_of (hd ss))))\<lparr>dcp_replicated := rep\<rparr>;
                f = \<lparr>f_window = w, f_chunk = c, non_causal = (\<exists>s \<in> set ss. non_causal (the (full_of s)))\<rparr>
            in if \<not> same_attn ss a then Inl AssertionError
               else if w \<noteq> None \<and> c \<noteq> None then Inl AssertionError
               else Inr (a, f)))))"

definition merge_full :: "layer_spec list \<Rightarrow> kv_error + layer_spec" where
  "merge_full ss = rbind (merge_full_parts id ss) (\<lambda>(a, f). Inr (Full a f))"

definition merge_sink :: "int option \<Rightarrow> layer_spec list \<Rightarrow> kv_error + layer_spec" where
  "merge_sink len ss = rbind (merge_full_parts (\<lambda>a. a\<lparr>a_tokens_per_state := 1\<rparr>) ss) (\<lambda>(a, f). Inr (Sink a f len))"

definition merge_rswa :: "layer_spec list \<Rightarrow> kv_error + layer_spec" where
  "merge_rswa ss =
     (if \<exists>s \<in> set ss. class_of s \<noteq> CRSWA then Inl AssertionError
      else rbind (the_one (map (\<lambda>s. case s of RSWA a f w \<Rightarrow> w | _ \<Rightarrow> 0) ss)) (\<lambda>w.
        rbind (merge_full_parts id ss) (\<lambda>(a, f). Inr (RSWA a f w))))"

definition merge_mla :: "kv_lib \<Rightarrow> (attn \<Rightarrow> full \<Rightarrow> mla \<Rightarrow> layer_spec) \<Rightarrow> layer_spec list \<Rightarrow> kv_error + layer_spec" where
  "merge_mla lib cls ss =
     (if \<exists>s \<in> set ss. \<not> isinst s CMLA then Inl AssertionError
      else rbind (the_one (map (cache_dtype_str \<circ> the \<circ> mla_of) ss)) (\<lambda>dt.
        rbind (the_one (map (a_tokens_per_state \<circ> the \<circ> attn_of) ss)) (\<lambda>tps.
        rbind (the_one (map (model_version \<circ> the \<circ> mla_of) ss)) (\<lambda>mv.
        rbind (the_one (map (page_tail \<circ> the \<circ> mla_of) ss)) (\<lambda>pt.
        rbind (the_one (map layer_replicated ss)) (\<lambda>rep.
          let a = (the (attn_of (hd ss)))\<lparr>head_size_v := 0, a_tokens_per_state := tps, dcp_replicated := rep\<rparr>;
              m = \<lparr>cache_dtype_str = dt, alignment = None, model_version = mv, page_tail = pt,
                   multi_token_decode = (\<exists>s \<in> set ss. multi_token_decode (the (mla_of s)))\<rparr>
          in rbind (post_init lib (cls a \<lparr>f_window = None, f_chunk = None, non_causal = False\<rparr> m)) (\<lambda>merged.
               if same_attn ss (the (attn_of merged)) then Inr merged else Inl AssertionError)))))))"

definition merge_sliding_mla :: "kv_lib \<Rightarrow> layer_spec list \<Rightarrow> kv_error + layer_spec" where
  "merge_sliding_mla lib ss =
     (if \<exists>s \<in> set ss. class_of s \<noteq> CSlidingMLA then Inl AssertionError
      else let parts = map (\<lambda>s. case s of SlidingMLA a w m \<Rightarrow> (a, w, m)
             | _ \<Rightarrow> (the (attn_of s), the (window_of s), \<lparr>s_cache_dtype_str = None, s_alignment = None, s_model_version = None\<rparr>)) ss
      in rbind (the_one (map (\<lambda>(a, w, m). s_cache_dtype_str m) parts)) (\<lambda>dt.
         rbind (the_one (map (\<lambda>(a, w, m). a_tokens_per_state a) parts)) (\<lambda>tps.
         rbind (the_one (map (\<lambda>(a, w, m). s_model_version m) parts)) (\<lambda>mv.
         rbind (the_one (map (\<lambda>(a, w, m). sliding_window w) parts)) (\<lambda>win.
         rbind (the_one (map (\<lambda>(a, w, m). extra_retained w) parts)) (\<lambda>ex.
         rbind (the_one (map (\<lambda>(a, w, m). dcp_replicated a) parts)) (\<lambda>rep.
           post_init lib (SlidingMLA
             ((fst (hd parts))\<lparr>head_size_v := 0, kv_quant_mode := QNone, a_tokens_per_state := tps, dcp_replicated := rep\<rparr>)
             \<lparr>sliding_window = win, extra_retained = ex\<rparr>
             \<lparr>s_cache_dtype_str = dt, s_alignment = None, s_model_version = mv\<rparr>))))))))"

text \<open>\<open>specs[0].merge(specs)\<close>: the class method of the first specification's class.\<close>

definition merge_specs :: "kv_lib \<Rightarrow> layer_spec list \<Rightarrow> kv_error + layer_spec" where
  "merge_specs lib ss = (case ss of
     [] \<Rightarrow> Inl IndexError
   | Full a f # _ \<Rightarrow> merge_full ss
   | MLA a f m # _ \<Rightarrow> merge_mla lib MLA ss
   | Hidden a f m # _ \<Rightarrow> merge_mla lib Hidden ss
   | RSWA a f w # _ \<Rightarrow> merge_rswa ss
   | Sink a f l # _ \<Rightarrow> merge_sink l ss
   | SlidingMLA a w m # _ \<Rightarrow> merge_sliding_mla lib ss
   | _ \<Rightarrow> merge_equal ss)"

section \<open>Kinds\<close>

datatype kv_kind = FullAttention | MlaAttention | SlidingWindow | SlidingWindowMla | MambaKind |
  ChunkedLocal | SinkFull | EncoderOnlyKind | CrossKind | UnknownKind

definition layer_kind :: "layer_spec \<Rightarrow> kv_kind" where
  "layer_kind s =
     (if isinst s CSlidingMLA then SlidingWindowMla
      else if isinst s CMLA then MlaAttention
      else if isinst s CSink then SinkFull
      else if isinst s CFull then FullAttention
      else if isinst s CChunked then ChunkedLocal
      else if isinst s CSliding then SlidingWindow
      else if isinst s CMamba then MambaKind
      else if isinst s CEncoderOnly then EncoderOnlyKind
      else if isinst s CCross then CrossKind
      else UnknownKind)"

fun spec_kind :: "kv_lib \<Rightarrow> kv_spec \<Rightarrow> kv_kind" where
  "spec_kind lib (Layer s) = layer_kind s"
| "spec_kind lib (Uniform b ss) = (case remdups (map (layer_kind \<circ> snd) ss) of
     [k] \<Rightarrow> k
   | _ \<Rightarrow> if remdups (map (\<lambda>(n, s). base_of lib (class_of s)) ss) = [Some CFull] then FullAttention
          else UnknownKind)"

fun iter_layer_specs :: "kv_spec \<Rightarrow> layer_spec list" where
  "iter_layer_specs (Uniform b ss) = map snd ss"
| "iter_layer_specs (Layer s) = [s]"

definition is_full_attention_spec :: "kv_spec \<Rightarrow> bool" where
  "is_full_attention_spec k \<longleftrightarrow> iter_layer_specs k \<noteq> [] \<and> (\<forall>s \<in> set (iter_layer_specs k). isinst s CFull)"

definition layer_window :: "layer_spec \<Rightarrow> int option" where
  "layer_window s = (case window_of s of Some w \<Rightarrow> Some (sliding_window w) | None \<Rightarrow> None)"

fun spec_window :: "kv_spec \<Rightarrow> int option" where
  "spec_window (Layer s) = layer_window s"
| "spec_window (Uniform b ss) = (case remdups (map (layer_window \<circ> snd) ss) of [w] \<Rightarrow> w | _ \<Rightarrow> None)"

section \<open>Groups and configurations\<close>

record kv_tensor =
  t_bytes :: int
  t_layers :: "string list"
  layer_stride :: int
  block_stride :: int
  t_offset :: int
  allocation_id :: int

record kv_group =
  layer_names :: "string list"
  group_spec :: kv_spec
  is_eagle_group :: bool
  is_dflash_group :: bool

definition plain_group :: "string list \<Rightarrow> kv_spec \<Rightarrow> kv_group" where
  "plain_group ns k = \<lparr>layer_names = ns, group_spec = k, is_eagle_group = False, is_dflash_group = False\<rparr>"

record kv_cache_config =
  num_blocks :: int
  kv_cache_tensors :: "kv_tensor list"
  kv_cache_groups :: "kv_group list"
  c_retention :: "int option"

definition has_mamba_layers :: "kv_cache_config \<Rightarrow> bool" where
  "has_mamba_layers c \<longleftrightarrow> (\<exists>g \<in> set (kv_cache_groups c). \<exists>s \<in> set (iter_layer_specs (group_spec g)). isinst s CMamba)"

definition has_mixed_precision :: "kv_cache_config \<Rightarrow> bool" where
  "has_mixed_precision c \<longleftrightarrow> 1 < length (remdups
     (List.map_filter (\<lambda>s. map_option (\<lambda>a. (a_dtype a, kv_quant_mode a)) (attn_of s))
       (concat (map (iter_layer_specs \<circ> group_spec) (kv_cache_groups c)))))"

definition needs_zeroing :: "kv_cache_config \<Rightarrow> bool" where
  "needs_zeroing c \<longleftrightarrow> has_mamba_layers c \<or> has_mixed_precision c"

end
