(* ===== verification/BlockHash.thy ===== *)
theory BlockHash
  imports KVSpec
begin

text \<open>
  Block hashes of \<open>scripts/node/overrides/vllm/v1/core/kv_cache_utils.py\<close>: keys with a group
  id, the seed of the first block, the extra keys of a block, the hash chain of a request,
  and the view of the chain at a coarser block size. The hash function and SHA-256 are
  parameters, and so is \<open>tensor_data\<close>, which turns rows of embeddings into bytes.
\<close>

section \<open>Keys\<close>

type_synonym bytes = "byte list"

datatype hash_error = HashAssertion | HashOverflow | HashIndexError | HashTypeError | Loops | HashValueError | HashZeroDivision

definition be_bytes :: "nat \<Rightarrow> int \<Rightarrow> bytes" where
  "be_bytes n k = map (\<lambda>i. word_of_int (k div 256 ^ (n - 1 - i))) [0..<n]"

definition be_int :: "bytes \<Rightarrow> int" where
  "be_int bs = foldl (\<lambda>k b. k * 256 + uint b) 0 bs"

definition make_block_hash_with_group_id :: "bytes \<Rightarrow> int \<Rightarrow> hash_error + bytes" where
  "make_block_hash_with_group_id h g =
     (if g < 0 \<or> 2 ^ 32 \<le> g then Inl HashOverflow else Inr (h @ be_bytes 4 g))"

definition get_block_hash :: "bytes \<Rightarrow> bytes" where
  "get_block_hash key = take (length key - 4) key"

definition get_group_id :: "bytes \<Rightarrow> int" where
  "get_group_id key = be_int (drop (length key - 4) key)"

datatype external_hash = HashBytes bytes | HashInt int

definition maybe_convert_block_hash :: "bool \<Rightarrow> bytes \<Rightarrow> external_hash" where
  "maybe_convert_block_hash use_int h = (if \<not> use_int then HashBytes h else HashInt (be_int h mod 2 ^ 64))"

section \<open>The seed of the first block\<close>

definition default_none_hash_seed :: string where
  "default_none_hash_seed = ''vllm-none-hash''"

text \<open>
  A hash function, the environment's \<open>PYTHONHASHSEED\<close> and fresh random text are arguments;
  whether the function is one of the two that are not collision resistant is a flag of it.
\<close>

definition resolve_none_hash_seed :: "bool \<Rightarrow> string option \<Rightarrow> string \<Rightarrow> string" where
  "resolve_none_hash_seed non_crypto env random_hex = (case env of Some s \<Rightarrow> s
     | None \<Rightarrow> if non_crypto then random_hex else default_none_hash_seed)"

definition get_none_hash_seed :: "string option \<Rightarrow> string" where
  "get_none_hash_seed seed = (case seed of None \<Rightarrow> default_none_hash_seed | Some s \<Rightarrow> s)"

definition init_none_hash :: "(string \<Rightarrow> bytes) \<Rightarrow> bool \<Rightarrow> string option \<Rightarrow> string \<Rightarrow> string option \<times> bytes" where
  "init_none_hash hash_seed non_crypto env random_hex =
     (let seed = resolve_none_hash_seed non_crypto env random_hex in (Some seed, hash_seed seed))"

section \<open>The hash of a block object\<close>

record cache_block =
  block_id :: int
  ref_cnt :: int
  block_hash :: "bytes option"
  hash_num_tokens :: "int option"
  is_null :: bool

definition new_block :: "int \<Rightarrow> cache_block" where
  "new_block i = \<lparr>block_id = i, ref_cnt = 0, block_hash = None, hash_num_tokens = None, is_null = False\<rparr>"

definition set_block_hash :: "bytes \<Rightarrow> int option \<Rightarrow> cache_block \<Rightarrow> hash_error + cache_block" where
  "set_block_hash h n b = (if block_hash b \<noteq> None \<or> hash_num_tokens b \<noteq> None then Inl HashAssertion
     else Inr (b\<lparr>block_hash := Some h, hash_num_tokens := n\<rparr>))"

definition reset_hash :: "cache_block \<Rightarrow> cache_block" where
  "reset_hash b = b\<lparr>block_hash := None, hash_num_tokens := None\<rparr>"

section \<open>Extra keys\<close>

text \<open>The keys are Python values, in which a LoRA name and a salt are both strings.\<close>

datatype extra_key = KeyPair string int | KeyText string | KeyBytes bytes

record mm_feature =
  mm_identifier :: "string option"
  mm_offset :: int
  mm_length :: int

record hash_request =
  mm_features :: "mm_feature list"
  lora_name :: "string option"
  cache_salt :: "string option"
  prompt_embeds :: "bytes list option"
  embed_hashes :: "((nat \<times> nat) \<times> bytes) list"
  all_token_ids :: "int list"
  num_tokens :: nat
  block_hashes :: "bytes list"

function mm_loop :: "mm_feature list \<Rightarrow> int \<Rightarrow> int \<Rightarrow> nat \<Rightarrow> extra_key list \<Rightarrow> hash_error + (extra_key list \<times> int)" where
  "mm_loop fs start stop i keys =
     (if length fs \<le> i then Inr (keys, int i)
      else (case mm_identifier (fs ! i) of None \<Rightarrow> Inl HashAssertion
      | Some name \<Rightarrow>
        let offset = mm_offset (fs ! i); len = mm_length (fs ! i) in
        if offset < stop then
          (if offset + len \<le> start then mm_loop fs start stop (Suc i) keys
           else let keys1 = keys @ [KeyPair name (offset - start)] in
             if offset + len \<le> stop then mm_loop fs start stop (Suc i) keys1 else Inr (keys1, int i))
        else Inr (keys, int i)))"
  by pat_completeness auto
termination by (relation "measure (\<lambda>(fs, start, stop, i, keys). length fs - i)") auto

definition gen_mm_extra_hash_keys :: "hash_request \<Rightarrow> int \<Rightarrow> int \<Rightarrow> int \<Rightarrow> hash_error + (extra_key list \<times> int)" where
  "gen_mm_extra_hash_keys r start stop start_mm =
     (let fs = mm_features r in
      if fs = [] then Inr ([], start_mm)
      else if mm_offset (last fs) + mm_length (last fs) \<le> start then Inr ([], start_mm)
      else if start_mm < 0 then
        (if - start_mm \<le> int (length fs) then mm_loop fs start stop (nat (int (length fs) + start_mm)) []
         else Inl HashAssertion)
      else mm_loop fs start stop (nat start_mm) [])"

definition gen_lora_extra_hash_keys :: "hash_request \<Rightarrow> extra_key list" where
  "gen_lora_extra_hash_keys r = (case lora_name r of None \<Rightarrow> [] | Some n \<Rightarrow> [KeyText n])"

definition gen_prompt_embeds_extra_hash_keys ::
  "(bytes list \<Rightarrow> bytes) \<Rightarrow> (bytes \<Rightarrow> bytes) \<Rightarrow> hash_request \<Rightarrow> nat \<Rightarrow> nat \<Rightarrow> extra_key list \<times> hash_request" where
  "gen_prompt_embeds_extra_hash_keys tensor_data sha r start stop = (case prompt_embeds r of
     None \<Rightarrow> ([], r)
   | Some rows \<Rightarrow> (case map_of (embed_hashes r) (start, stop) of
       Some h \<Rightarrow> ([KeyBytes h], r)
     | None \<Rightarrow> let h = sha (tensor_data (slice start stop rows)) in
         ([KeyBytes h], r\<lparr>embed_hashes := AList.update (start, stop) h (embed_hashes r)\<rparr>)))"

definition salt_keys :: "hash_request \<Rightarrow> nat \<Rightarrow> extra_key list" where
  "salt_keys r start = (case cache_salt r of None \<Rightarrow> []
     | Some s \<Rightarrow> if start = 0 \<and> s \<noteq> [] then [KeyText s] else [])"

definition generate_block_hash_extra_keys ::
  "(bytes list \<Rightarrow> bytes) \<Rightarrow> (bytes \<Rightarrow> bytes) \<Rightarrow> hash_request \<Rightarrow> nat \<Rightarrow> nat \<Rightarrow> int \<Rightarrow>
   hash_error + (extra_key list option \<times> int \<times> hash_request)" where
  "generate_block_hash_extra_keys tensor_data sha r start stop start_mm =
     rbind (gen_mm_extra_hash_keys r (int start) (int stop) start_mm) (\<lambda>(mm, next_mm).
       let (embeds, r1) = gen_prompt_embeds_extra_hash_keys tensor_data sha r start stop;
           keys = gen_lora_extra_hash_keys r @ mm @ salt_keys r start @ embeds
       in Inr (if keys = [] then None else Some keys, next_mm, r1))"

section \<open>The chain\<close>

type_synonym block_hasher = "bytes \<times> int list \<times> extra_key list option \<Rightarrow> bytes"

definition hash_block_tokens ::
  "bytes \<Rightarrow> block_hasher \<Rightarrow> bytes option \<Rightarrow> int list \<Rightarrow> extra_key list option \<Rightarrow> bytes" where
  "hash_block_tokens none_hash h parent tokens keys =
     (let p = (case parent of None \<Rightarrow> none_hash | Some b \<Rightarrow> if b = [] then none_hash else b)
      in h (p, tokens, keys))"

text \<open>
  What the hasher takes from its surroundings. The loop adds the block size until a block
  is not full, so that it does not end for the block size 0 (\<open>Loops\<close>).
\<close>

record hash_env =
  none_hash :: bytes
  hash_fn :: block_hasher
  tensor_bytes :: "bytes list \<Rightarrow> bytes"
  embed_sha :: "bytes \<Rightarrow> bytes"

function hash_loop ::
  "hash_env \<Rightarrow> nat \<Rightarrow> nat \<Rightarrow> hash_request \<Rightarrow> nat \<Rightarrow> int \<Rightarrow> bytes option \<Rightarrow> bytes list \<Rightarrow>
   hash_error + (bytes list \<times> hash_request)" where
  "hash_loop e bs n r start mm prev acc =
     (if n < start + bs then Inr (acc, r)
      else if bs = 0 then Inl Loops
      else (case generate_block_hash_extra_keys (tensor_bytes e) (embed_sha e) r start (start + bs) mm of
        Inl err \<Rightarrow> Inl err
      | Inr (keys, mm1, r1) \<Rightarrow>
        let b = hash_block_tokens (none_hash e) (hash_fn e) prev (slice start (start + bs) (all_token_ids r)) keys
        in hash_loop e bs n r1 (start + bs) mm1 (Some b) (acc @ [b])))"
  by pat_completeness auto
termination by (relation "measure (\<lambda>(e, bs, n, r, start, mm, prev, acc). Suc n - start)") auto

definition request_block_hasher :: "hash_env \<Rightarrow> nat \<Rightarrow> hash_request \<Rightarrow> hash_error + (bytes list \<times> hash_request)" where
  "request_block_hasher e bs r =
     (let start = length (block_hashes r) * bs in
      if num_tokens r < start + bs then Inr ([], r)
      else hash_loop e bs (num_tokens r) r start (if 0 < start then - 1 else 0)
        (if block_hashes r = [] then None else Some (last (block_hashes r))) [])"

declare mm_loop.simps [simp del] hash_loop.simps [simp del]

section \<open>Views at a coarser block size\<close>

text \<open>Python's \<open>xs[i]\<close>, which counts from the end for a negative index.\<close>

definition py_index :: "'a list \<Rightarrow> int \<Rightarrow> hash_error + 'a" where
  "py_index xs i = (let k = (if i < 0 then i + int (length xs) else i) in
     if 0 \<le> k \<and> k < int (length xs) then Inr (xs ! nat k) else Inl HashIndexError)"

record hash_view =
  v_hashes :: "bytes list"
  scale_factor :: int

datatype hash_list = Raw "bytes list" | View hash_view

definition new_view :: "bytes list \<Rightarrow> int \<Rightarrow> int \<Rightarrow> hash_error + hash_view" where
  "new_view hs hash_size wanted_size =
     (if hash_size = 0 then Inl HashZeroDivision
      else if wanted_size mod hash_size \<noteq> 0 then Inl HashAssertion
      else Inr \<lparr>v_hashes = hs, scale_factor = wanted_size div hash_size\<rparr>)"

definition view_len :: "hash_view \<Rightarrow> hash_error + int" where
  "view_len v = (if scale_factor v = 0 then Inl HashZeroDivision
     else Inr (int (length (v_hashes v)) div scale_factor v))"

definition view_value_at :: "hash_view \<Rightarrow> int \<Rightarrow> hash_error + bytes" where
  "view_value_at v i = py_index (v_hashes v) ((i + 1) * scale_factor v - 1)"

text \<open>\<open>slice.indices\<close> and \<open>range\<close>.\<close>

definition clamp_index :: "int \<Rightarrow> int \<Rightarrow> int \<Rightarrow> int \<Rightarrow> int" where
  "clamp_index n lo hi i = (let k = (if i < 0 then i + n else i) in max lo (min hi k))"

definition slice_indices :: "int option \<Rightarrow> int option \<Rightarrow> int option \<Rightarrow> int \<Rightarrow> hash_error + (int \<times> int \<times> int)" where
  "slice_indices start stop step n =
     (let k = (case step of None \<Rightarrow> 1 | Some s \<Rightarrow> s) in
      if k = 0 then Inl HashValueError
      else let lo = (if k < 0 then - 1 else 0); hi = (if k < 0 then n - 1 else n);
               b = (case start of None \<Rightarrow> if k < 0 then hi else lo | Some i \<Rightarrow> clamp_index n lo hi i);
               e = (case stop of None \<Rightarrow> if k < 0 then lo else hi | Some i \<Rightarrow> clamp_index n lo hi i)
           in Inr (b, e, k))"

definition py_range :: "int \<Rightarrow> int \<Rightarrow> int \<Rightarrow> int list" where
  "py_range b e k =
     (if 0 < k then map (\<lambda>i. b + int i * k) [0..<nat ((e - b + k - 1) div k)]
      else map (\<lambda>i. b + int i * k) [0..<nat ((b - e - k - 1) div (- k))])"

datatype py_subscript = At int | Slice "int option" "int option" "int option" | OtherIndex

datatype hash_item = OneHash bytes | ManyHashes "bytes list"

definition view_getitem :: "hash_view \<Rightarrow> py_subscript \<Rightarrow> hash_error + hash_item" where
  "view_getitem v i = (case i of
     At k \<Rightarrow> rbind (view_value_at v k) (\<lambda>h. Inr (OneHash h))
   | Slice b e k \<Rightarrow> rbind (view_len v) (\<lambda>n.
       rbind (slice_indices b e k n) (\<lambda>(b, e, k).
       rbind (rmap (view_value_at v) (py_range b e k)) (\<lambda>hs. Inr (ManyHashes hs))))
   | OtherIndex \<Rightarrow> Inl HashTypeError)"

definition view_iter :: "hash_view \<Rightarrow> hash_error + bytes list" where
  "view_iter v = rbind (view_len v) (\<lambda>n. rmap (view_value_at v) (py_range 0 n 1))"

definition resolve_block_hashes ::
  "hash_list \<Rightarrow> int \<Rightarrow> int \<Rightarrow> bool \<Rightarrow> int option \<Rightarrow> hash_error + hash_list" where
  "resolve_block_hashes hs hash_size size_of_block fine align =
     (if size_of_block = hash_size then Inr hs
      else (case hs of
        View v \<Rightarrow> (if hash_size = 0 then Inl HashZeroDivision
          else if scale_factor v \<noteq> size_of_block div hash_size then Inl HashAssertion else Inr hs)
      | Raw raw \<Rightarrow>
        rbind (case align of None \<Rightarrow> Inr False
          | Some n \<Rightarrow> if fine \<and> n < size_of_block
              then (if n = 0 then Inl HashZeroDivision else Inr (size_of_block mod n = 0)) else Inr False) (\<lambda>keep.
          if keep then Inr hs
          else rbind (new_view raw hash_size size_of_block) (\<lambda>v. Inr (View v)))))"

section \<open>Block sizes of the scheduler and of the hashes\<close>

definition group_block_size :: "kv_config \<Rightarrow> kv_group \<Rightarrow> int" where
  "group_block_size cfg g = (let k = group_spec g in
     if is_subclass (spec_class k) CAttention \<and> \<not> spec_replicated k then block_size k * dcp_size cfg
     else block_size k)"

definition mamba_unaligned :: "kv_group \<Rightarrow> bool" where
  "mamba_unaligned g = (case group_spec g of Layer (Mamba m) \<Rightarrow> mamba_cache_mode m \<noteq> ''align'' | _ \<Rightarrow> False)"

definition resolve_kv_cache_block_sizes :: "kv_group list \<Rightarrow> kv_config \<Rightarrow> hash_error + (int \<times> int)" where
  "resolve_kv_cache_block_sizes gs cfg =
     (if length gs \<le> 1 then
        let rep = (case gs of [g] \<Rightarrow> spec_replicated (group_spec g) | _ \<Rightarrow> False);
            bs = cfg_block_size cfg * (if rep then 1 else dcp_size cfg)
        in Inr (bs, bs)
      else
        let sizes = map (group_block_size cfg) gs; sched = Lcm (set sizes) in
        if \<not> (enable_prefix_caching cfg \<or> has_kv_transfer cfg) then Inr (sched, sched)
        else if \<exists>g \<in> set gs. mamba_unaligned g then Inr (sched, sched)
        else let h = (case prefix_match_unit cfg of Some n \<Rightarrow> n | None \<Rightarrow> Gcd (set sizes)) in
          if h = 0 then Inl HashZeroDivision
          else if \<exists>b \<in> set sizes. b mod h \<noteq> 0 then Inl HashValueError
          else Inr (sched, h))"

end
