(* ===== verification/KVGroups.thy ===== *)
theory KVGroups
  imports KVSpec
begin

text \<open>
  How the layers of a model are put into KV-cache groups:
  \<open>scripts/node/overrides/vllm/v1/core/kv_cache_utils.py\<close>, from
  \<open>create_kv_cache_group_specs\<close> to \<open>get_kv_cache_groups\<close>. A dictionary of specifications is a list
  of pairs in insertion order.
\<close>

type_synonym specs = "(string \<times> layer_spec) list"

section \<open>Groups of given layers\<close>

definition spec_at :: "specs \<Rightarrow> string \<Rightarrow> kv_error + layer_spec" where
  "spec_at ss n = (case map_of ss n of Some s \<Rightarrow> Inr s | None \<Rightarrow> Inl KeyError)"

definition create_group :: "kv_lib \<Rightarrow> specs \<Rightarrow> string list \<Rightarrow> kv_error + kv_group" where
  "create_group lib ss ns = rbind (rmap (spec_at ss) ns) (\<lambda>ls. rbind (merge_specs lib ls) (\<lambda>s.
     Inr (plain_group ns (Layer s))))"

definition create_kv_cache_group_specs :: "kv_lib \<Rightarrow> specs \<Rightarrow> string list list \<Rightarrow> kv_error + kv_group list" where
  "create_kv_cache_group_specs lib ss grouped = rmap (create_group lib ss) grouped"

definition is_kv_cache_spec_uniform :: "kv_lib \<Rightarrow> specs \<Rightarrow> kv_error + bool" where
  "is_kv_cache_spec_uniform lib ss =
     (if ss = [] then Inr True
      else (case merge_specs lib (map snd ss) of
        Inr _ \<Rightarrow> Inr True | Inl AssertionError \<Rightarrow> Inr False | Inl e \<Rightarrow> Inl e))"

definition get_uniform_page_size :: "kv_spec list \<Rightarrow> kv_error + int" where
  "get_uniform_page_size ks = rbind (rmap page_size_bytes ks) the_one"

definition groups_uniform_spec :: "kv_lib \<Rightarrow> specs \<Rightarrow> kv_error + kv_group list" where
  "groups_uniform_spec lib ss = create_kv_cache_group_specs lib ss [map fst ss]"

definition groups_uniform_type :: "kv_spec \<Rightarrow> kv_group list" where
  "groups_uniform_type k = (case k of Uniform b ss \<Rightarrow> [plain_group (map fst ss) k] | Layer s \<Rightarrow> [])"

section \<open>One page size for all layers\<close>

definition check_page :: "int \<Rightarrow> layer_spec \<Rightarrow> kv_error + layer_spec" where
  "check_page want s = rbind (layer_page_size s) (\<lambda>p. if p = want then Inr s else Inl AssertionError)"

definition unify_layer :: "kv_lib \<Rightarrow> int \<Rightarrow> layer_spec \<Rightarrow> kv_error + layer_spec" where
  "unify_layer lib widest s = rbind (layer_page_size s) (\<lambda>p.
     if p = widest then Inr s
     else if isinst s CMamba then check_page widest (set_page_padded widest s)
     else if p = 0 then Inl ZeroDivisionError
     else rbind (if widest mod p = 0 then copy_with_new_block_size lib (layer_block_size s * (widest div p)) s
         else if isinst s CAttention \<and> \<not> isinst s CMLA then post_init lib (set_page_padded widest s)
         else Inl NotImplementedError) (check_page widest))"

definition unify_kv_cache_spec_page_size :: "kv_lib \<Rightarrow> specs \<Rightarrow> kv_error + specs" where
  "unify_kv_cache_spec_page_size lib ss = rbind (rmap (\<lambda>(n, s). layer_page_size s) ss) (\<lambda>ps.
     if length (remdups ps) \<le> 1 then Inr ss
     else rmap (\<lambda>(n, s). rbind (unify_layer lib (Max (set ps)) s) (\<lambda>t. Inr (n, t))) ss)"

section \<open>Groups of equal size\<close>

text \<open>The loop over the buckets: the layers join the first bucket they can be merged with.\<close>

fun join_bucket :: "kv_lib \<Rightarrow> layer_spec \<Rightarrow> string list \<Rightarrow> (string list \<times> layer_spec list) list \<Rightarrow>
  kv_error + (string list \<times> layer_spec list) list" where
  "join_bucket lib s ns [] = Inr [(ns, [s])]"
| "join_bucket lib s ns ((ms, ls) # bs) = (case merge_specs lib (ls @ [s]) of
     Inr _ \<Rightarrow> Inr ((ms @ ns, ls @ [s]) # bs)
   | Inl e \<Rightarrow> if e \<in> {AssertionError, ValueError}
       then rbind (join_bucket lib s ns bs) (\<lambda>cs. Inr ((ms, ls) # cs)) else Inl e)"

definition layer_buckets :: "kv_lib \<Rightarrow> specs \<Rightarrow> kv_error + string list list" where
  "layer_buckets lib ss =
     rbind (rfold (\<lambda>(s, ns). join_bucket lib s ns) (bucket ss) []) (\<lambda>bs. Inr (map fst bs))"

text \<open>Python's \<open>xs[i::k]\<close>.\<close>

definition every :: "nat \<Rightarrow> nat \<Rightarrow> 'a list \<Rightarrow> 'a list" where
  "every k i xs = map (\<lambda>j. xs ! j) (filter (\<lambda>j. (j - i) mod k = 0) [i..<length xs])"

definition pick_group_size :: "nat list \<Rightarrow> nat" where
  "pick_group_size lens = (let lo = Min (set lens); hi = Max (set lens) in
     if 2 * hi < 3 * lo then hi else lo)"

definition split_bucket :: "kv_lib \<Rightarrow> nat \<Rightarrow> string list \<Rightarrow> kv_error + string list list" where
  "split_bucket lib k ns = (if k = 0 then Inl ZeroDivisionError
     else rbind (cdiv lib (int (length ns)) (int k)) (\<lambda>g. Inr (map (\<lambda>i. every (nat g) i ns) [0..<nat g])))"

definition groups_uniform_page_size :: "kv_lib \<Rightarrow> specs \<Rightarrow> kv_error + kv_group list" where
  "groups_uniform_page_size lib ss = rbind (layer_buckets lib ss) (\<lambda>bs.
     if bs = [] then Inl ValueError
     else rbind (rmap (split_bucket lib (pick_group_size (map length bs))) bs) (\<lambda>grouped.
       create_kv_cache_group_specs lib ss (concat grouped)))"

section \<open>Promotion of local attention\<close>

definition promoted_padding :: "attn \<Rightarrow> int \<Rightarrow> kv_error + int option" where
  "promoted_padding a bs = (case a_page_padded a of None \<Rightarrow> Inr None
     | Some p \<Rightarrow> if a_block_size a = 0 then Inl ZeroDivisionError
         else Inr (Some (max p (unpadded_page_size a * bs div a_block_size a))))"

text \<open>
  \<open>replace_as\<close> for the three promotions: every field of the local specification that the
  target class has is kept, the retained-token extension is dropped.
\<close>

definition rebuild_as :: "kv_lib \<Rightarrow> attn \<Rightarrow> layer_spec \<Rightarrow> kv_error + layer_spec" where
  "rebuild_as lib a s = (case s of
     SlidingMLA b w m \<Rightarrow> post_init lib (MLA a \<lparr>f_window = Some (sliding_window w), f_chunk = None, non_causal = False\<rparr>
         \<lparr>cache_dtype_str = s_cache_dtype_str m, alignment = s_alignment m, model_version = s_model_version m,
          page_tail = 0, multi_token_decode = False\<rparr>)
   | Sliding b w \<Rightarrow> Inr (Full a \<lparr>f_window = Some (sliding_window w), f_chunk = None, non_causal = False\<rparr>)
   | Chunked b c \<Rightarrow> Inr (Full a \<lparr>f_window = None, f_chunk = Some c, non_causal = False\<rparr>)
   | _ \<Rightarrow> Inr s)"

definition is_local :: "layer_spec \<Rightarrow> bool" where
  "is_local s \<longleftrightarrow> isinst s CSliding \<or> isinst s CChunked"

definition promote_layer :: "kv_lib \<Rightarrow> int option \<Rightarrow> layer_spec \<Rightarrow> kv_error + layer_spec" where
  "promote_layer lib full_bs s =
     (if \<not> is_local s then Inr s
      else let a = the (attn_of s);
               bs = (case full_bs of Some b \<Rightarrow> if b = 0 then a_block_size a else b | None \<Rightarrow> a_block_size a)
           in rbind (promoted_padding a bs) (\<lambda>p. rebuild_as lib (a\<lparr>a_block_size := bs, a_page_padded := p\<rparr>) s))"

definition one_type :: "kv_lib \<Rightarrow> specs \<Rightarrow> kv_error + bool" where
  "one_type lib ss = rbind (is_kv_cache_spec_uniform lib ss) (\<lambda>u. if u then Inr True else is_uniform_type lib ss)"

definition promote_local_kv_cache_specs :: "kv_lib \<Rightarrow> specs \<Rightarrow> kv_error + specs" where
  "promote_local_kv_cache_specs lib ss = rbind (one_type lib ss) (\<lambda>u.
     if u then Inr ss
     else let has_full = (\<exists>s \<in> snd ` set ss. isinst s CFull);
              has_local = (\<exists>s \<in> snd ` set ss. is_local s);
              sizes = remdups (map layer_block_size (filter (\<lambda>s. isinst s CFull) (map snd ss)));
              full_bs = (case sizes of [b] \<Rightarrow> Some b | _ \<Rightarrow> None)
          in rbind (if has_full \<and> has_local
              then rmap (\<lambda>(n, s). rbind (promote_layer lib full_bs s) (\<lambda>t. Inr (n, t))) ss else Inr ss) (\<lambda>ts.
             rbind (one_type lib ts) (\<lambda>v. if v then Inr ts else Inl ValueError)))"

definition full_allocation_fallback :: "kv_lib \<Rightarrow> specs \<Rightarrow> kv_error + kv_group list option" where
  "full_allocation_fallback lib ss = (let ls = map snd ss in
     if \<exists>s \<in> set ls. isinst s CHidden then Inr None
     else if \<exists>s \<in> set ls. isinst s CSlidingMLA \<or> isinst s CChunked then Inr None
     else if \<not> ((\<exists>s \<in> set ls. isinst s CMLA) \<and> (\<exists>s \<in> set ls. isinst s CSliding)) then Inr None
     else (case promote_local_kv_cache_specs lib ss of
       Inl e \<Rightarrow> if e = ValueError then Inr None else Inl e
     | Inr ts \<Rightarrow> rbind (from_specs lib ts) (\<lambda>u. case u of None \<Rightarrow> Inr None
         | Some k \<Rightarrow> Inr (Some (groups_uniform_type k)))))"

definition unify_hybrid_kv_cache_specs :: "kv_lib \<Rightarrow> specs \<Rightarrow> kv_error + specs" where
  "unify_hybrid_kv_cache_specs lib ss =
     (if 1 < length (remdups (map dcp_replicated (List.map_filter attn_of (map snd ss)))) then Inl ValueError
      else rbind (one_type lib ss) (\<lambda>u. if u then Inr ss else promote_local_kv_cache_specs lib ss))"

section \<open>Packed groups\<close>

definition require_some :: "'a option \<Rightarrow> kv_error + 'a" where
  "require_some x = (case x of Some y \<Rightarrow> Inr y | None \<Rightarrow> Inl AssertionError)"

definition window_key :: "layer_spec \<Rightarrow> int \<times> int" where
  "window_key s = (layer_block_size s, sliding_window (the (window_of s)))"

definition group_and_unify :: "kv_lib \<Rightarrow> specs \<Rightarrow> kv_error + kv_spec list option" where
  "group_and_unify lib ss =
     (if \<not> (\<exists>s \<in> snd ` set ss. isinst s CSlidingMLA) then Inr None
      else rbind (rmap (\<lambda>(n, s). layer_page_size s) ss) (\<lambda>ps.
        if length (remdups ps) \<le> 1 then Inr None
        else let swa = filter (\<lambda>(n, s). isinst s CSlidingMLA) ss;
                 mlas = filter (\<lambda>(n, s). isinst s CMLA) ss;
                 parts = map snd (bucket (map (\<lambda>(n, s). ((n, s), window_key s)) swa))
             in if mlas = [] then Inl AssertionError
                else rbind (from_specs lib mlas) (\<lambda>m. rbind (require_some m) (\<lambda>mu.
                  rbind (rmap (\<lambda>p. rbind (from_specs lib p) require_some) parts) (\<lambda>us.
                    Inr (Some (mu # us)))))))"

definition approximate_gcd :: "int list \<Rightarrow> int option \<Rightarrow> kv_error + int" where
  "approximate_gcd xs lower =
     (if xs = [] then Inl ValueError
      else if \<exists>x \<in> set xs. x \<le> 0 then Inl ValueError
      else let lo = max 1 (case lower of Some n \<Rightarrow> n | None \<Rightarrow> 1); hi = Max (set xs) in
        if hi < lo then Inr lo
        else Inr (fst (foldl (\<lambda>(best, best_pad) d.
            let pad = sum_list (map (\<lambda>x. (d - x mod d) mod d) xs) in
            (case best_pad of None \<Rightarrow> (d, Some pad)
             | Some b \<Rightarrow> if pad < b \<or> (pad = b \<and> best < d) then (d, Some pad) else (best, best_pad)))
          (lo, None) [lo..hi])))"

fun uniform_specs :: "kv_spec \<Rightarrow> specs" where
  "uniform_specs (Uniform b ss) = ss"
| "uniform_specs (Layer s) = []"

text \<open>The tuples \<open>zip(*lists)\<close>.\<close>

definition zip_lists :: "'a list list \<Rightarrow> 'a list list" where
  "zip_lists xss = (if xss = [] then [] else map (\<lambda>i. map (\<lambda>xs. xs ! i) xss) [0..<Min (set (map length xss))])"

definition split_swa :: "kv_lib \<Rightarrow> int \<Rightarrow> specs \<Rightarrow> kv_error + kv_group list" where
  "split_swa lib num_tuples ss =
     rbind (rmap (\<lambda>(n, s). rbind (layer_page_size s) (\<lambda>p. Inr (n, p))) ss) (\<lambda>sized.
     let per_size = map snd (bucket sized) in
     rbind (the_one (map length per_size)) (\<lambda>len.
     rbind (cdiv lib (int len) num_tuples) (\<lambda>g.
       rmap (\<lambda>i. let names = concat (every (nat g) i (zip_lists per_size)) in
           rbind (rmap (\<lambda>n. rbind (spec_at ss n) (\<lambda>s. Inr (n, s))) names) (\<lambda>sub.
           rbind (from_specs lib sub) (\<lambda>u. rbind (require_some u) (\<lambda>k. Inr (plain_group names k)))))
         [0..<nat g])))"

definition groups_uniform_groups :: "kv_lib \<Rightarrow> kv_spec list \<Rightarrow> kv_error + kv_group list" where
  "groups_uniform_groups lib ks = (case ks of [] \<Rightarrow> Inl AssertionError
   | full # swa \<Rightarrow>
     if \<exists>k \<in> set ks. spec_class k \<noteq> CUniform then Inl AssertionError
     else if \<exists>s \<in> snd ` set (uniform_specs full). \<not> isinst s CMLA then Inl AssertionError
     else rbind (rmap (num_layer_tuples \<circ> uniform_specs) ks) (\<lambda>tuples.
       rbind (approximate_gcd tuples (Some (hd tuples))) (\<lambda>num.
       rbind (rmap (\<lambda>x. round_up lib x num) tuples) (\<lambda>_.
         if \<exists>k \<in> set swa. \<exists>s \<in> snd ` set (uniform_specs k). \<not> isinst s CSlidingMLA then Inl AssertionError
         else rbind (rmap (split_swa lib num \<circ> uniform_specs) swa) (\<lambda>gs.
           Inr (plain_group (map fst (uniform_specs full)) full # concat gs))))))"

text \<open>The first group that has the layer is marked.\<close>

fun mark_eagle :: "string \<Rightarrow> kv_group list \<Rightarrow> kv_group list" where
  "mark_eagle n [] = []"
| "mark_eagle n (g # gs) = (if n \<in> set (layer_names g) then g\<lparr>is_eagle_group := True\<rparr> # gs else g # mark_eagle n gs)"

definition layer_model_version :: "layer_spec \<Rightarrow> string option" where
  "layer_model_version s = (case s of SlidingMLA a w m \<Rightarrow> s_model_version m
     | _ \<Rightarrow> (case mla_of s of Some m \<Rightarrow> model_version m | None \<Rightarrow> None))"

definition annotate_eagle_groups :: "kv_config \<Rightarrow> specs \<Rightarrow> kv_group list \<Rightarrow> kv_group list" where
  "annotate_eagle_groups cfg ss gs = (case speculative cfg of None \<Rightarrow> gs
   | Some sc \<Rightarrow>
     if \<not> use_eagle sc then gs
     else if \<not> (\<exists>s \<in> snd ` set ss. layer_model_version s = Some ''deepseek_v4'') then gs
     else mark_eagle (fst (last ss)) gs)"

definition largest_divisor_at_most :: "int \<Rightarrow> int \<Rightarrow> int" where
  "largest_divisor_at_most v limit =
     (case List.find (\<lambda>c. v mod c = 0) (rev [1..min v limit]) of Some c \<Rightarrow> c | None \<Rightarrow> 1)"

section \<open>The groups of a model\<close>

definition per_layer_spec :: "kv_group \<Rightarrow> string \<Rightarrow> kv_error + layer_spec" where
  "per_layer_spec g n = (case group_spec g of
     Layer s \<Rightarrow> Inr s
   | Uniform b ss \<Rightarrow> (case map_of ss n of Some s \<Rightarrow> Inr s | None \<Rightarrow> Inl KeyError))"

definition contains_glm5_next_mla :: "layer_spec list \<Rightarrow> bool" where
  "contains_glm5_next_mla ss \<longleftrightarrow>
     (\<exists>s \<in> set ss. case mla_of s of Some m \<Rightarrow> model_version m = Some ''glm5_next'' | None \<Rightarrow> False)"

definition group_bytes :: "kv_group \<Rightarrow> kv_error + int" where
  "group_bytes g = rbind (rmap (\<lambda>n. rbind (per_layer_spec g n) layer_page_size) (layer_names g)) (\<lambda>ps. Inr (sum_list ps))"

text \<open>Hidden-state layers are put back in groups of their own, on pages of the common size.\<close>

definition hidden_group :: "kv_lib \<Rightarrow> int \<Rightarrow> int \<Rightarrow> string \<times> layer_spec \<Rightarrow> kv_error + kv_group" where
  "hidden_group lib common gcd_size = (\<lambda>(n, s).
     let a = the (attn_of s); per_token = num_kv_heads a * head_size a * itemsize (a_dtype a) in
     if per_token = 0 \<or> common = 0 then Inl ZeroDivisionError
     else let bs = largest_divisor_at_most gcd_size (max (common div per_token) 1)
       in rbind (post_init lib (set_page_padded common (set_block_size bs s))) (\<lambda>t. Inr (plain_group [n] (Layer t))))"

definition split_target_groups :: "kv_lib \<Rightarrow> specs \<Rightarrow> specs \<Rightarrow> kv_error + kv_group list" where
  "split_target_groups lib hidden ss =
     (if hidden \<noteq> [] then Inl ValueError
      else if \<not> (\<exists>s \<in> snd ` set ss. isinst s CMamba) then Inl ValueError
      else rbind (groups_uniform_page_size lib ss) (\<lambda>gs. rbind (rmap group_bytes gs) (\<lambda>_. Inr gs)))"

definition unified_groups :: "kv_lib \<Rightarrow> specs \<Rightarrow> specs \<Rightarrow> specs \<Rightarrow> kv_error + kv_group list" where
  "unified_groups lib whole hidden ss = (case unify_kv_cache_spec_page_size lib ss of
     Inl e \<Rightarrow> if e = NotImplementedError
       then (case full_allocation_fallback lib whole of Inl e2 \<Rightarrow> Inl e2
         | Inr None \<Rightarrow> Inl e | Inr (Some gs) \<Rightarrow> Inr gs)
       else Inl e
   | Inr us \<Rightarrow> rbind (groups_uniform_page_size lib us) (\<lambda>gs.
       if hidden = [] then Inr gs
       else rbind (get_uniform_page_size (map group_spec gs)) (\<lambda>common.
         rbind (rmap (hidden_group lib common (Gcd (set (map (block_size \<circ> group_spec) gs)))) hidden) (\<lambda>hs.
           Inr (gs @ hs)))))"

definition mixed_groups :: "kv_lib \<Rightarrow> kv_config \<Rightarrow> specs \<Rightarrow> kv_error + kv_group list" where
  "mixed_groups lib cfg ss = rbind (group_and_unify lib ss) (\<lambda>packed. case packed of
     Some ks \<Rightarrow> rbind (groups_uniform_groups lib ks) (\<lambda>gs. Inr (annotate_eagle_groups cfg ss gs))
   | None \<Rightarrow>
     let hidden = filter (\<lambda>(n, s). isinst s CHidden) ss; rest = filter (\<lambda>(n, s). \<not> isinst s CHidden) ss in
     if split_target_env cfg \<noteq> None \<and> contains_glm5_next_mla (map snd rest)
     then split_target_groups lib hidden rest
     else unified_groups lib ss hidden rest)"

definition draft_layer :: "kv_lib \<Rightarrow> kv_config \<Rightarrow> string \<Rightarrow> kv_error + bool" where
  "draft_layer lib cfg n = (case extract_layer_index lib n of
     Inr i \<Rightarrow> Inr (model_num_layers cfg \<le> i)
   | Inl e \<Rightarrow> if e \<in> {AssertionError, IndexError, ValueError} then Inr False else Inl e)"

definition partition_dflash :: "kv_lib \<Rightarrow> kv_config \<Rightarrow> specs \<Rightarrow> kv_error + (specs \<times> specs)" where
  "partition_dflash lib cfg ss =
     (if (case speculative cfg of None \<Rightarrow> True | Some sc \<Rightarrow> spec_method sc \<noteq> ''dflash'') \<or>
         1 < pp_size cfg \<or> disable_hybrid cfg then Inr (ss, [])
      else rbind (rmap (\<lambda>(n, s). rbind (draft_layer lib cfg n) (\<lambda>d. Inr (d, n, s))) ss) (\<lambda>marked.
        Inr (map snd (filter (\<lambda>(d, _). \<not> d) marked), map snd (filter fst marked))))"

definition sharded_split :: "kv_lib \<Rightarrow> specs \<Rightarrow> kv_error + (specs \<times> specs) option" where
  "sharded_split lib ss =
     (let rep = filter (\<lambda>(n, s). layer_replicated s) ss; sh = filter (\<lambda>(n, s). \<not> layer_replicated s) ss in
      if rep = [] \<or> sh = [] then Inr None
      else rbind (is_kv_cache_spec_uniform lib rep) (\<lambda>u. Inr (if u then Some (sh, rep) else None)))"

definition effective_specs :: "kv_lib \<Rightarrow> kv_config \<Rightarrow> specs \<Rightarrow> kv_error + specs" where
  "effective_specs lib cfg ss = (if disable_hybrid cfg then unify_hybrid_kv_cache_specs lib ss else Inr ss)"

text \<open>Grouping calls itself on the parts of a model that are grouped apart, which are smaller.\<close>

lemma rmap_length: "rmap f xs = Inr ys \<Longrightarrow> length ys = length xs"
  by (simp add: rmap_Inr_iff list_all2_lengthD)

lemma promote_length: "promote_local_kv_cache_specs lib ss = Inr ts \<Longrightarrow> length ts = length ss"
  by (auto simp: promote_local_kv_cache_specs_def Let_def split: if_splits dest!: rmap_length)

lemma effective_length: "effective_specs lib cfg ss = Inr ts \<Longrightarrow> length ts = length ss"
  by (auto simp: effective_specs_def unify_hybrid_kv_cache_specs_def split: if_splits dest: promote_length)

lemma filter_parts: "length (filter (\<lambda>(d, _). \<not> d) xs) + length (filter fst xs) = length xs"
  using sum_length_filter_compl [of fst xs] by (simp add: case_prod_beta')

lemma partition_length: "partition_dflash lib cfg ss = Inr (ts, ds) \<Longrightarrow> length ts + length ds = length ss"
  by (auto simp: partition_dflash_def filter_parts split: if_splits dest!: rmap_length)

lemma partition_less:
  assumes "effective_specs lib cfg given = Inr ss" "partition_dflash lib cfg ss = Inr (ts, ds)" "ts \<noteq> []" "ds \<noteq> []"
  shows "length ts < length given" "length ds < length given"
proof -
  have "length ts + length ds = length given"
    using partition_length [OF assms(2)] effective_length [OF assms(1)] by simp
  moreover have "0 < length ts" "0 < length ds" using assms(3,4) by simp_all
  ultimately show "length ts < length given" "length ds < length given" by linarith+
qed

lemma sharded_length: "sharded_split lib ss = Inr (Some (sh, rep)) \<Longrightarrow> length sh < length ss"
  by (auto simp: sharded_split_def Let_def filter_empty_conv case_prod_beta' split: if_splits
      intro!: length_filter_less)

function get_kv_cache_groups :: "kv_lib \<Rightarrow> kv_config \<Rightarrow> specs \<Rightarrow> kv_error + kv_group list" where
  "get_kv_cache_groups lib cfg given = (case effective_specs lib cfg given of
     Inl e \<Rightarrow> Inl e
   | Inr ss \<Rightarrow>
     if ss = [] then Inr []
     else (case partition_dflash lib cfg ss of
       Inl e \<Rightarrow> Inl e
     | Inr (targets, drafts) \<Rightarrow>
       if targets \<noteq> [] \<and> drafts \<noteq> []
       then (case get_kv_cache_groups lib cfg targets of
           Inl e \<Rightarrow> Inl e
         | Inr tg \<Rightarrow> (case get_kv_cache_groups lib cfg drafts of
             Inl e \<Rightarrow> Inl e
           | Inr dg \<Rightarrow> Inr (tg @ map (\<lambda>g. g\<lparr>is_dflash_group := True\<rparr>) dg)))
       else (case is_kv_cache_spec_uniform lib ss of
         Inl e \<Rightarrow> Inl e
       | Inr u \<Rightarrow> if u then groups_uniform_spec lib ss
         else (case from_specs lib ss of
           Inl e \<Rightarrow> Inl e
         | Inr (Some k) \<Rightarrow> Inr (groups_uniform_type k)
         | Inr None \<Rightarrow> (case sharded_split lib ss of
             Inl e \<Rightarrow> Inl e
           | Inr None \<Rightarrow> mixed_groups lib cfg ss
           | Inr (Some (sharded, replicated)) \<Rightarrow> (case get_kv_cache_groups lib cfg sharded of
               Inl e \<Rightarrow> Inl e
             | Inr sg \<Rightarrow> rbind (groups_uniform_spec lib replicated) (\<lambda>rg. Inr (sg @ rg))))))))"
  by pat_completeness auto
termination
  by (relation "measure (\<lambda>(lib, cfg, ss). length ss)")
    (auto dest: partition_less, (fastforce dest: sharded_length effective_length)+)

declare get_kv_cache_groups.simps [simp del]

end
