(* ===== verification/KVLayout.thy ===== *)
theory KVLayout
  imports KVGroups
begin

text \<open>
  Where the pages of the KV cache lie: the shapes and byte strides of
  \<open>kv_cache_interface.py\<close> and the placement of groups in the backing allocations by
  \<open>get_kv_cache_config_from_groups\<close> of \<open>core/kv_cache_utils.py\<close>. The logical axes are
  \<open>[L, B, H, N, C]\<close>: layer, block, head, state, content. A layout (which comes from another
  module) lists the logical axis at every physical position, outermost first.
\<close>

section \<open>Shapes and strides\<close>

definition dim_L :: nat where "dim_L = 0"

definition dim_B :: nat where "dim_B = 1"

definition group_kernel_blocks :: "int list \<Rightarrow> int \<Rightarrow> kv_error + int list" where
  "group_kernel_blocks shape n = (case shape of [] \<Rightarrow> Inl IndexError
     | d # rest \<Rightarrow> if d = n then Inr shape
         else if n = 0 then Inl ZeroDivisionError
         else if d mod n \<noteq> 0 then Inl AssertionError else Inr (n # d div n # rest))"

definition layer_shape_bytes :: "layer_spec \<Rightarrow> int \<Rightarrow> int option \<Rightarrow> kv_error + int list" where
  "layer_shape_bytes s n kbs =
     (let bs = (case kbs of Some k \<Rightarrow> k | None \<Rightarrow> layer_block_size s) in
      if bs = 0 then Inl ZeroDivisionError
      else if layer_block_size s mod bs \<noteq> 0 then Inl AssertionError
      else Inr [n * (layer_block_size s div bs), layer_heads s, layer_states s bs, layer_content_bytes s])"

definition position :: "nat \<Rightarrow> nat list \<Rightarrow> kv_error + nat" where
  "position d order = (case List.find (\<lambda>i. order ! i = d) [0..<length order] of
     Some i \<Rightarrow> Inr i | None \<Rightarrow> Inl ValueError)"

text \<open>The padded page of a layer, if its pages are padded or have a tail.\<close>

definition padded_page :: "layer_spec \<Rightarrow> kv_error + int option" where
  "padded_page s =
     (if (case mla_of s of Some m \<Rightarrow> page_tail m \<noteq> 0 | None \<Rightarrow> False)
      then rbind (layer_page_size s) (\<lambda>p. Inr (Some p))
      else Inr (case s of Mamba m \<Rightarrow> m_page_padded m | _ \<Rightarrow> a_page_padded (the (attn_of s))))"

text \<open>The end of the page grid, when pages are padded: the positions of \<open>L\<close> and \<open>B\<close>.\<close>

definition page_grid_end ::
  "layer_spec \<Rightarrow> int option \<Rightarrow> nat list \<Rightarrow> int list \<Rightarrow> int option \<Rightarrow> int \<Rightarrow> int \<Rightarrow> kv_error + nat" where
  "page_grid_end s kbs order shape padded layers blocks = (case padded of None \<Rightarrow> Inr 0
     | Some p \<Rightarrow>
       if kbs \<noteq> None \<and> kbs \<noteq> Some (layer_block_size s) then Inl AssertionError
       else rbind (position dim_L order) (\<lambda>l. rbind (position dim_B order) (\<lambda>b.
         let e = max l b + 1 in
         if prod_list (map (\<lambda>d. shape ! d) (take e order)) \<noteq> layers * blocks then Inl AssertionError
         else Inr e)))"

definition stride_step ::
  "int option \<Rightarrow> nat \<Rightarrow> int option list \<Rightarrow> int list \<Rightarrow> nat \<times> nat \<Rightarrow> int list \<times> int \<Rightarrow> kv_error + (int list \<times> int)" where
  "stride_step padded e fixed shape = (\<lambda>(i, d) (strides, cur).
     rbind (case padded of Some p \<Rightarrow>
         (if i = e - 1 then
            let c = max cur p in
            if p = 0 then Inl ZeroDivisionError else if c mod p \<noteq> 0 then Inl AssertionError else Inr c
          else Inr cur)
       | None \<Rightarrow> Inr cur) (\<lambda>c.
       let st = (case fixed ! d of Some f \<Rightarrow> f | None \<Rightarrow> c) in
       Inr (strides[d := st], st * shape ! d)))"

definition layout_strides ::
  "layer_spec \<Rightarrow> int \<Rightarrow> int \<Rightarrow> nat list \<Rightarrow> int option \<Rightarrow> int option list \<Rightarrow> kv_error + int list" where
  "layout_strides s blocks layers order kbs fixed =
     (if length fixed \<noteq> 5 then Inl AssertionError
      else if \<exists>f \<in> set fixed. (case f of Some n \<Rightarrow> n \<le> 0 | None \<Rightarrow> False) then Inl AssertionError
      else rbind (layer_shape_bytes s blocks kbs) (\<lambda>sh.
        let shape = layers # sh in
        rbind (padded_page s) (\<lambda>padded.
        rbind (page_grid_end s kbs order shape padded layers blocks) (\<lambda>e.
        rbind (rfold (stride_step padded e fixed shape) (rev (zip [0..<length order] order)) (replicate 5 0, 1))
          (\<lambda>(strides, cur). Inr strides)))))"

section \<open>Views of one tensor\<close>

text \<open>
  A view of a layer: the first byte, the shape \<open>[B, H, N, C]\<close> in bytes, the strides, and the
  dtype the bytes are read as (\<open>None\<close> for a specification without one).
\<close>

record layer_view =
  view_offset :: int
  view_shape :: "int list"
  view_strides :: "int list"
  view_dtype :: "dtype option"

definition view_block_stride :: "layer_spec \<Rightarrow> int \<Rightarrow> int list \<Rightarrow> int \<Rightarrow> kv_error + int" where
  "view_block_stride s blocks sh stride =
     (if blocks = 0 then Inl ZeroDivisionError
      else let ratio = sh ! 0 div blocks in
      if ratio \<le> 1 then Inr stride
      else rbind (layer_shape_bytes s 1 None) (\<lambda>dense.
        if stride \<noteq> prod_list (tl dense) then Inl ValueError
        else if stride mod ratio \<noteq> 0 then Inl AssertionError else Inr (stride div ratio)))"

definition create_kv_cache_views ::
  "int \<Rightarrow> layer_spec \<Rightarrow> int \<Rightarrow> kv_layout \<Rightarrow> kv_tensor \<Rightarrow> int option \<Rightarrow> kv_error + layer_view list" where
  "create_kv_cache_views storage_offset s blocks layout t kbs =
     rbind (layer_shape_bytes s blocks kbs) (\<lambda>sh.
     rbind (view_block_stride s blocks sh (block_stride t)) (\<lambda>bstride.
     rbind (layout_strides s blocks (int (length (t_layers t))) (stride_order layout) kbs
         [Some (layer_stride t), Some bstride, None, None, None]) (\<lambda>strides.
       Inr (map (\<lambda>l. \<lparr>view_offset = storage_offset + t_offset t + int l * strides ! 0, view_shape = sh,
           view_strides = tl strides, view_dtype = map_option a_dtype (attn_of s)\<rparr>)
         [0..<length (t_layers t)]))))"

section \<open>Bytes of a block\<close>

definition group_layer_specs :: "kv_group \<Rightarrow> kv_error + layer_spec list" where
  "group_layer_specs g = rmap (per_layer_spec g) (layer_names g)"

definition shared_block_bytes :: "kv_lib \<Rightarrow> kv_config \<Rightarrow> kv_group list \<Rightarrow> kv_error + int" where
  "shared_block_bytes lib cfg gs =
     rbind (if gs = [] then Inr 0 else rbind (rmap group_bytes gs) py_max) (\<lambda>n.
     rbind (rmap group_layer_specs gs) (\<lambda>ss.
       if split_target_env cfg \<noteq> None \<and> contains_glm5_next_mla (concat ss)
       then round_up lib n (64 * 132) else Inr n))"

definition bytes_per_block :: "kv_lib \<Rightarrow> kv_config \<Rightarrow> kv_group list \<Rightarrow> kv_error + int" where
  "bytes_per_block lib cfg gs =
     rbind (shared_block_bytes lib cfg (filter (\<lambda>g. \<not> is_dflash_group g) gs)) (\<lambda>shared.
     rbind (rmap group_bytes (filter is_dflash_group gs)) (\<lambda>dense.
       let n = shared + sum_list dense in if n \<le> 0 then Inl AssertionError else Inr n))"

definition shared_bytes_per_block :: "kv_lib \<Rightarrow> kv_config \<Rightarrow> kv_group list \<Rightarrow> kv_error + int" where
  "shared_bytes_per_block lib cfg gs = (let shared = filter (\<lambda>g. \<not> is_dflash_group g) gs in
     if shared = [] then Inr 0 else bytes_per_block lib cfg shared)"

definition validate_kv_cache_layout :: "kv_layout \<Rightarrow> kv_group list \<Rightarrow> kv_error + unit" where
  "validate_kv_cache_layout layout gs =
     rbind (rmap group_layer_specs gs) (\<lambda>ss.
     rbind (rmap layer_page_size (concat ss)) (\<lambda>ps.
       if length (remdups ps) = 1 then Inr ()
       else rcheck (\<not> is_block_compact layout \<or> (1 < length gs \<and> is_layer_compact layout)) ValueError))"

section \<open>Placement\<close>

definition may_override_num_blocks :: "kv_config \<Rightarrow> int \<Rightarrow> int" where
  "may_override_num_blocks cfg n = (case blocks_override cfg of Some k \<Rightarrow> k | None \<Rightarrow> n)"

definition layers_by_spec :: "kv_group \<Rightarrow> (layer_spec \<times> string list) list" where
  "layers_by_spec g = (case group_spec g of
     Uniform b ss \<Rightarrow> bucket ss
   | Layer s \<Rightarrow> if layer_names g \<noteq> [] then [(s, layer_names g)] else [])"

definition place_dense ::
  "kv_group \<Rightarrow> int \<Rightarrow> nat list \<Rightarrow> string \<Rightarrow> kv_tensor list \<times> int \<Rightarrow> kv_error + (kv_tensor list \<times> int)" where
  "place_dense g blocks order n = (\<lambda>(ts, next_id).
     rbind (per_layer_spec g n) (\<lambda>s.
     rbind (layer_page_size s) (\<lambda>p.
     rbind (layout_strides s blocks 1 order None [None, Some p, None, None, None]) (\<lambda>st.
       Inr (ts @ [\<lparr>t_bytes = p * blocks, t_layers = [n], layer_stride = st ! 0, block_stride = st ! 1,
                   t_offset = 0, allocation_id = next_id\<rparr>], next_id + 1)))))"

definition place_spec ::
  "int \<Rightarrow> nat list \<Rightarrow> int option \<Rightarrow> int \<Rightarrow> layer_spec \<times> string list \<Rightarrow> kv_tensor list \<times> int \<Rightarrow>
   kv_error + (kv_tensor list \<times> int)" where
  "place_spec blocks order stride shared_size = (\<lambda>(s, ns) (ts, byte_offset).
     rbind (layout_strides s blocks (int (length ns)) order None [None, stride, None, None, None]) (\<lambda>st.
     rbind (layer_page_size s) (\<lambda>p.
       if p = 0 then Inl ZeroDivisionError
       else Inr (ts @ [\<lparr>t_bytes = shared_size, t_layers = ns, layer_stride = st ! 0, block_stride = st ! 1,
             t_offset = byte_offset * max (st ! 0) p div p, allocation_id = 0\<rparr>],
           byte_offset + int (length ns) * p))))"

definition place_group ::
  "int \<Rightarrow> nat list \<Rightarrow> int option \<Rightarrow> int \<Rightarrow> kv_group \<Rightarrow> kv_tensor list \<times> int \<Rightarrow> kv_error + (kv_tensor list \<times> int)" where
  "place_group blocks order stride shared_size g = (\<lambda>(ts, next_id).
     if is_dflash_group g
     then rbind (rfold (place_dense g blocks order) (layer_names g) ([], next_id)) (\<lambda>(us, k). Inr (ts @ us, k))
     else rbind (rfold (place_spec blocks order stride shared_size) (layers_by_spec g) ([], 0)) (\<lambda>(us, k).
       Inr (ts @ us, next_id)))"

definition get_kv_cache_config_from_groups ::
  "kv_lib \<Rightarrow> kv_config \<Rightarrow> kv_group list \<Rightarrow> int \<Rightarrow> kv_error + kv_cache_config" where
  "get_kv_cache_config_from_groups lib cfg gs available =
     (if gs = [] then Inr \<lparr>num_blocks = 1, kv_cache_tensors = [], kv_cache_groups = gs,
         c_retention = retention_interval cfg\<rparr>
      else let layout = resolved_layout cfg in
        rbind (validate_kv_cache_layout layout gs) (\<lambda>_.
        rbind (bytes_per_block lib cfg gs) (\<lambda>per_block.
        rbind (shared_bytes_per_block lib cfg gs) (\<lambda>shared.
          let blocks = may_override_num_blocks cfg (available div per_block);
              stride = (if is_block_outermost layout then Some shared else None)
          in rbind (rfold (place_group blocks (stride_order layout) stride (shared * blocks)) gs ([], 1)) (\<lambda>(ts, k).
            Inr \<lparr>num_blocks = blocks, kv_cache_tensors = ts, kv_cache_groups = gs,
                 c_retention = retention_interval cfg\<rparr>)))))"

end
