(* ===== verification/KVWell.thy ===== *)
theory KVWell
  imports KVGroups
begin

text \<open>
  The layers and groups of layers that the statements about the layout and the memory of the
  cache are made for.
\<close>

text \<open>
  A layer whose page has a positive size, which holds the states of a block. A recurrent
  state is one content per block.
\<close>

definition good_layer :: "layer_spec \<Rightarrow> bool" where
  "good_layer s \<longleftrightarrow> 0 < layer_block_size s \<and> (\<exists>p > 0. layer_page_size s = Inr p) \<and>
     (case s of Mamba m \<Rightarrow> m_num_heads m = 1 \<and> m_tokens_per_state m \<le> 0 | _ \<Rightarrow> True) \<and>
     (case mla_of s of Some m \<Rightarrow> 0 \<le> page_tail m | None \<Rightarrow> True)"

definition page_of :: "layer_spec \<Rightarrow> int" where
  "page_of s = (case layer_page_size s of Inr p \<Rightarrow> p | Inl e \<Rightarrow> 0)"

lemma good_page: "good_layer s \<Longrightarrow> layer_page_size s = Inr (page_of s) \<and> 0 < page_of s"
  by (auto simp: good_layer_def page_of_def)

definition good_group :: "kv_group \<Rightarrow> bool" where
  "good_group g \<longleftrightarrow> (case group_spec g of
     Layer s \<Rightarrow> good_layer s
   | Uniform b ss \<Rightarrow> layer_names g = map fst ss \<and> distinct (map fst ss) \<and> (\<forall>s \<in> snd ` set ss. good_layer s))"

lemma group_spec_at:
  assumes "good_group g" "n \<in> set (layer_names g)"
  shows "\<exists>s. per_layer_spec g n = Inr s \<and> good_layer s"
proof (cases "group_spec g")
  case (Layer s)
  then show ?thesis using assms by (simp add: good_group_def per_layer_spec_def)
next
  case (Uniform b ss)
  then obtain s where s: "(n, s) \<in> set ss" using assms by (auto simp: good_group_def)
  then have "map_of ss n = Some s" "good_layer s" using assms(1) Uniform by (force simp: good_group_def)+
  then show ?thesis by (simp add: per_layer_spec_def Uniform)
qed

end
