(* ===== verification/KVPlan.thy ===== *)
theory KVPlan
  imports KVLayout
begin

text \<open>
  Memory planning of \<open>scripts/node/overrides/vllm/v1/core/kv_cache_utils.py\<close>: the memory one
  request may need, the search for the longest model length that fits, the checks at
  start-up, and \<open>get_kv_cache_configs\<close>, which plans the cache of every worker. The functions that
  write \<open>max_model_len\<close> of the shared configuration and restore it take the changed
  configuration as an argument; auto-fit, which keeps the change, returns it.
\<close>

section \<open>Memory of one request\<close>

definition max_memory_usage_bytes :: "kv_lib \<Rightarrow> kv_config \<Rightarrow> layer_spec list \<Rightarrow> kv_error + int" where
  "max_memory_usage_bytes lib cfg ss = rbind (rmap (layer_max_memory lib cfg) ss) (\<lambda>ms. Inr (sum_list ms))"

definition group_max_blocks :: "kv_lib \<Rightarrow> kv_config \<Rightarrow> kv_group \<Rightarrow> kv_error + int" where
  "group_max_blocks lib cfg g = (case group_spec g of
     Uniform b ss \<Rightarrow> uniform_max_pages lib cfg ss
   | Layer s \<Rightarrow> rbind (layer_max_memory lib cfg s) (\<lambda>m. rbind (layer_page_size s) (\<lambda>p. cdiv lib m p)))"

definition max_memory_from_groups :: "kv_lib \<Rightarrow> kv_config \<Rightarrow> kv_group list \<Rightarrow> kv_error + int" where
  "max_memory_from_groups lib cfg gs =
     (if gs = [] then Inr 0
      else rbind (bytes_per_block lib cfg gs) (\<lambda>n.
        rbind (rmap (group_max_blocks lib cfg) gs) (\<lambda>bs. Inr (n * sum_list bs))))"

section \<open>The longest model length\<close>

function search :: "(int \<Rightarrow> kv_error + bool) \<Rightarrow> int \<Rightarrow> int \<Rightarrow> int \<Rightarrow> kv_error + int" where
  "search fits left right best =
     (if right < left then Inr best
      else (case fits ((left + right) div 2) of
        Inl e \<Rightarrow> Inl e
      | Inr f \<Rightarrow> if f then search fits ((left + right) div 2 + 1) right ((left + right) div 2)
          else search fits left ((left + right) div 2 - 1) best))"
  by pat_completeness auto
termination by (relation "measure (\<lambda>(fits, left, right, best). nat (right - left + 1))") auto

declare search.simps [simp del]

definition longest :: "(int \<Rightarrow> kv_error + bool) \<Rightarrow> int \<Rightarrow> kv_error + int" where
  "longest fits limit = rbind (fits 1) (\<lambda>f. if \<not> f then Inr 0 else search fits 1 limit 1)"

definition fits_within :: "(kv_config \<Rightarrow> kv_error + int) \<Rightarrow> kv_config \<Rightarrow> int \<Rightarrow> int \<Rightarrow> kv_error + bool" where
  "fits_within need cfg available len = rbind (need (cfg\<lparr>max_model_len := len\<rparr>)) (\<lambda>m. Inr (m \<le> available))"

definition estimate_max_model_len :: "kv_lib \<Rightarrow> kv_config \<Rightarrow> layer_spec list \<Rightarrow> int \<Rightarrow> kv_error + int" where
  "estimate_max_model_len lib cfg ss available =
     longest (fits_within (\<lambda>c. max_memory_usage_bytes lib c ss) cfg available) (max_model_len cfg)"

definition estimate_from_groups :: "kv_lib \<Rightarrow> kv_config \<Rightarrow> kv_group list \<Rightarrow> int \<Rightarrow> kv_error + int" where
  "estimate_from_groups lib cfg gs available =
     longest (fits_within (\<lambda>c. max_memory_from_groups lib c gs) cfg available) (max_model_len cfg)"

section \<open>Checks\<close>

definition check_enough :: "int \<Rightarrow> kv_error + int \<Rightarrow> (int \<Rightarrow> kv_error + int) \<Rightarrow> kv_error + unit" where
  "check_enough available needed estimate =
     (if available \<le> 0 then Inl ValueError
      else rbind needed (\<lambda>n. if available < n then rbind (estimate available) (\<lambda>_. Inl ValueError) else Inr ()))"

definition check_enough_kv_cache_memory :: "kv_lib \<Rightarrow> kv_config \<Rightarrow> specs \<Rightarrow> int \<Rightarrow> kv_error + unit" where
  "check_enough_kv_cache_memory lib cfg ss available =
     (if ss = [] then Inr ()
      else rbind (get_kv_cache_groups lib cfg ss) (\<lambda>gs.
        rbind (if gs \<noteq> [] then rbind (bytes_per_block lib cfg gs) (\<lambda>n. Inr (available - n)) else Inr available) (\<lambda>m.
          check_enough m (max_memory_usage_bytes lib cfg (map snd ss))
            (estimate_max_model_len lib cfg (map snd ss)))))"

section \<open>Capacity\<close>

definition blocks_per_request :: "kv_lib \<Rightarrow> kv_config \<Rightarrow> kv_group list \<Rightarrow> kv_error + int" where
  "blocks_per_request lib cfg gs = rbind (rmap (\<lambda>g. rbind (max_memory_usage lib cfg (group_spec g)) (\<lambda>m.
     rbind (page_size_bytes (group_spec g)) (\<lambda>p. cdiv lib m p))) gs) (\<lambda>ns. Inr (sum_list ns))"

definition max_concurrency :: "kv_lib \<Rightarrow> kv_config \<Rightarrow> kv_cache_config \<Rightarrow> kv_error + rat" where
  "max_concurrency lib cfg c = rbind (blocks_per_request lib cfg (kv_cache_groups c)) (\<lambda>n.
     if n = 0 then Inl ZeroDivisionError else Inr (of_int (num_blocks c) / of_int n))"

definition py_int :: "rat \<Rightarrow> int" where
  "py_int x = (if 0 \<le> x then \<lfloor>x\<rfloor> else - \<lfloor>- x\<rfloor>)"

definition kv_cache_capacity :: "kv_lib \<Rightarrow> kv_config \<Rightarrow> kv_cache_config \<Rightarrow> kv_error + (int \<times> rat)" where
  "kv_cache_capacity lib cfg c = rbind (max_concurrency lib cfg c) (\<lambda>x.
     Inr (py_int (x * of_int (max_model_len cfg)), x))"

definition scheduler_group :: "kv_group \<Rightarrow> kv_error + kv_group" where
  "scheduler_group g = (case group_spec g of
     Uniform b ss \<Rightarrow> (case ss of [] \<Rightarrow> Inl StopIteration | (n, s) # _ \<Rightarrow> Inr (g\<lparr>group_spec := Layer s\<rparr>))
   | Layer s \<Rightarrow> Inr g)"

definition generate_scheduler_kv_cache_config :: "kv_cache_config list \<Rightarrow> kv_error + kv_cache_config" where
  "generate_scheduler_kv_cache_config cs = (case cs of [] \<Rightarrow> Inl IndexError
     | c # _ \<Rightarrow> if \<exists>d \<in> set cs. num_blocks d \<noteq> num_blocks c then Inl AssertionError
         else rbind (rmap scheduler_group (kv_cache_groups c)) (\<lambda>gs. Inr (c\<lparr>kv_cache_groups := gs\<rparr>)))"

section \<open>Auto-fit\<close>

definition fit_worker :: "kv_lib \<Rightarrow> kv_config \<Rightarrow> kv_group list \<times> int \<Rightarrow> int \<Rightarrow> kv_error + int" where
  "fit_worker lib cfg = (\<lambda>(gs, available) best.
     if gs = [] then Inr best
     else rbind (estimate_from_groups lib cfg gs available) (\<lambda>n. Inr (if n < best then n else best)))"

definition auto_fit_max_model_len :: "kv_lib \<Rightarrow> kv_config \<Rightarrow> kv_group list list \<Rightarrow> int list \<Rightarrow> kv_error + kv_config" where
  "auto_fit_max_model_len lib cfg per_worker available =
     (if \<forall>gs \<in> set per_worker. gs = [] then Inr cfg
      else if available = [] then Inl IndexError
      else rbind (rfold (fit_worker lib cfg) (zip per_worker available) (max_model_len cfg)) (\<lambda>n.
        if n \<le> 0 then Inl ValueError
        else if max_model_len cfg \<le> n then Inr cfg else Inr (cfg\<lparr>max_model_len := n\<rparr>)))"

section \<open>The plan of every worker\<close>

definition project_group :: "specs \<Rightarrow> kv_group \<Rightarrow> kv_error + kv_group" where
  "project_group worker g =
     (let names = filter (\<lambda>n. n \<in> fst ` set worker) (layer_names g) in
      rbind (case group_spec g of
          Uniform b ss \<Rightarrow> if names = [] then Inr (group_spec g)
            else rbind (rmap (\<lambda>n. rbind (spec_at ss n) (\<lambda>s. Inr (n, s))) names) (\<lambda>sub. Inr (Uniform b (dict_of sub)))
        | Layer s \<Rightarrow> Inr (group_spec g)) (\<lambda>k.
      Inr \<lparr>layer_names = names, group_spec = k, is_eagle_group = is_eagle_group g \<and> names \<noteq> [],
           is_dflash_group = is_dflash_group g \<and> names \<noteq> []\<rparr>))"

definition project_groups :: "kv_group list \<Rightarrow> specs \<Rightarrow> kv_error + kv_group list" where
  "project_groups gs worker = rmap (project_group worker) gs"

definition merge_item :: "string \<times> layer_spec \<Rightarrow> specs \<Rightarrow> kv_error + specs" where
  "merge_item = (\<lambda>(n, s) merged. case map_of merged n of
     None \<Rightarrow> Inr (merged @ [(n, s)])
   | Some t \<Rightarrow> if t = s then Inr merged else Inl AssertionError)"

definition merge_workers :: "specs list \<Rightarrow> kv_error + specs" where
  "merge_workers workers = rfold merge_item (concat workers) []"

definition retain_tokens :: "int \<Rightarrow> layer_spec \<Rightarrow> layer_spec" where
  "retain_tokens k s = (case s of
     Sliding a w \<Rightarrow> Sliding a (w\<lparr>extra_retained := max (extra_retained w) k\<rparr>)
   | SlidingMLA a w m \<Rightarrow> SlidingMLA a (w\<lparr>extra_retained := max (extra_retained w) k\<rparr>) m
   | _ \<Rightarrow> s)"

definition mtp_extra :: "kv_config \<Rightarrow> int" where
  "mtp_extra cfg = (case speculative cfg of
     Some sc \<Rightarrow> if use_multi_module_mtp sc then num_speculative_tokens sc - 1 else 0 | None \<Rightarrow> 0)"

definition tag_windows :: "kv_lib \<Rightarrow> kv_config \<Rightarrow> specs \<Rightarrow> kv_error + specs" where
  "tag_windows lib cfg ss = rmap (\<lambda>(n, s).
     if isinst s CSliding then rbind (post_init lib (retain_tokens (mtp_extra cfg) s)) (\<lambda>t. Inr (n, t))
     else Inr (n, s)) ss"

definition adjust_memory :: "kv_lib \<Rightarrow> kv_config \<Rightarrow> kv_group list list \<Rightarrow> int list \<Rightarrow> kv_error + int list" where
  "adjust_memory lib cfg per_worker available = (case blocks_override cfg of
     None \<Rightarrow> Inr available
   | Some k \<Rightarrow> rmap (\<lambda>(gs, m). if gs = [] then Inr m
       else rbind (bytes_per_block lib cfg gs) (\<lambda>n. Inr (k * n))) (zip per_worker available))"

definition usable_memory :: "kv_lib \<Rightarrow> kv_config \<Rightarrow> kv_group list list \<Rightarrow> int list \<Rightarrow> kv_error + int list" where
  "usable_memory lib cfg per_worker available = rmap (\<lambda>(gs, m).
     if gs = [] then Inr m else rbind (bytes_per_block lib cfg gs) (\<lambda>n. Inr (m - n))) (zip per_worker available)"

definition check_worker :: "kv_lib \<Rightarrow> kv_config \<Rightarrow> kv_group list \<times> int \<Rightarrow> kv_error + unit" where
  "check_worker lib cfg = (\<lambda>(gs, m). if gs = [] then Inr ()
     else check_enough m (max_memory_from_groups lib cfg gs) (estimate_from_groups lib cfg gs))"

definition plan_worker :: "kv_lib \<Rightarrow> kv_config \<Rightarrow> kv_group list \<times> specs \<times> int \<Rightarrow> kv_error + kv_cache_config" where
  "plan_worker lib cfg = (\<lambda>(gs, ss, m).
     if sum_list (map (\<lambda>g. length (layer_names g)) gs) \<noteq> length ss then Inl AssertionError
     else get_kv_cache_config_from_groups lib cfg gs m)"

definition shrink_config :: "kv_lib \<Rightarrow> kv_config \<Rightarrow> int \<Rightarrow> kv_cache_config \<Rightarrow> kv_error + kv_cache_config" where
  "shrink_config lib cfg least c =
     (if num_blocks c = least then Inr c
      else rbind (bytes_per_block lib cfg (kv_cache_groups c)) (\<lambda>n.
        get_kv_cache_config_from_groups lib cfg (kv_cache_groups c) (least * n)))"

definition plan_workers :: "kv_lib \<Rightarrow> kv_config \<Rightarrow> kv_group list list \<Rightarrow> specs list \<Rightarrow> int list \<Rightarrow>
  kv_error + kv_cache_config list" where
  "plan_workers lib cfg per_worker workers available =
     rbind (rmap (plan_worker lib cfg) (zip per_worker (zip workers available))) (\<lambda>cs.
       if cs = [] then Inl ValueError
       else rmap (shrink_config lib cfg (Min (set (map num_blocks cs)))) cs)"

definition get_kv_cache_configs :: "kv_lib \<Rightarrow> kv_config \<Rightarrow> specs list \<Rightarrow> int list \<Rightarrow>
  kv_error + (kv_config \<times> kv_cache_config list)" where
  "get_kv_cache_configs lib cfg workers available =
     rbind (merge_workers workers) (\<lambda>merged.
     rbind (check_registry lib (map (class_of \<circ> snd) merged)) (\<lambda>_.
     rbind (tag_windows lib cfg merged) (\<lambda>tagged.
     rbind (get_kv_cache_groups lib cfg tagged) (\<lambda>gs.
     rbind (rmap (project_groups gs) workers) (\<lambda>per_worker.
     rbind (adjust_memory lib cfg per_worker available) (\<lambda>memory.
     rbind (usable_memory lib cfg per_worker memory) (\<lambda>usable.
     rbind (if original_max_model_len cfg = - 1 then auto_fit_max_model_len lib cfg per_worker usable else Inr cfg) (\<lambda>cfg1.
     rbind (rmap (check_worker lib cfg1) (zip per_worker usable)) (\<lambda>_.
     rbind (plan_workers lib cfg1 per_worker workers memory) (\<lambda>cs. Inr (cfg1, cs)))))))))))"

end
