(* ===== verification/KVSample.thy ===== *)
theory KVSample
  imports KVPlan KVWell
begin

text \<open>
  A small model for the witnesses: two attention layers, a recurrent layer and a draft layer
  of its own group, on the layouts with the layer or the block axis outermost, and the integer
  helpers as they are documented.
\<close>

definition sample_lib :: kv_lib where
  "sample_lib = \<lparr>cdiv = (\<lambda>a b. if b = 0 then Inl ZeroDivisionError else Inr (ceil_div a b)),
     round_up = (\<lambda>a b. if b = 0 then Inl ZeroDivisionError else Inr (ceil_div a b * b)),
     base_of = Some, check_registry = (\<lambda>_. Inr ()),
     extract_layer_index = (\<lambda>n. Inr (int (length n) - 2))\<rparr>"

lemma sample_lib_ok: "lib_ok sample_lib"
  by (simp add: lib_ok_def sample_lib_def)

definition sample_attn :: attn where
  "sample_attn = \<lparr>a_block_size = 16, num_kv_heads = 1, head_size = 2, a_dtype = \<lparr>dtype_name = ''bfloat16'', itemsize = 2\<rparr>,
     head_size_v = 2, kv_quant_mode = QNone, a_page_padded = None, num_head_slots = None, state_content_bytes = None,
     a_tokens_per_state = 1, dcp_replicated = False\<rparr>"

definition sample_full :: layer_spec where
  "sample_full = Full sample_attn \<lparr>f_window = None, f_chunk = None, non_causal = False\<rparr>"

definition sample_mamba :: layer_spec where
  "sample_mamba = Mamba \<lparr>m_block_size = 16, m_shapes = [[4, 7]], m_dtypes = [\<lparr>dtype_name = ''float32'', itemsize = 4\<rparr>],
     m_page_padded = None, mamba_type = ''mamba2'', mamba_cache_mode = ''align'', num_speculative_blocks = 0,
     num_checkpoint_blocks = 0, m_num_heads = 1, m_tokens_per_state = 0\<rparr>"

definition sample_layout :: "bool \<Rightarrow> kv_layout" where
  "sample_layout outermost = \<lparr>layout_name = (if outermost then ''BLHNC'' else ''LBHNC''),
     stride_order = (if outermost then [1, 0, 2, 3, 4] else [0, 1, 2, 3, 4]), is_block_compact = True,
     is_layer_compact = \<not> outermost, is_block_outermost = outermost\<rparr>"

definition sample_config :: "bool \<Rightarrow> kv_config" where
  "sample_config outermost = \<lparr>max_model_len = 64, original_max_model_len = - 1, max_in_flight_tokens = 16, dcp_size = 1,
     pp_size = 1, model_num_layers = 3, cfg_block_size = 16, cfg_mamba_mode = ''align'', enable_prefix_caching = True,
     has_kv_transfer = False, prefix_match_unit = None, blocks_override = None, retention_interval = None,
     resolved_layout = sample_layout outermost, max_encoder_tokens = 0, disable_hybrid = False,
     speculative = Some \<lparr>spec_method = ''dflash'', num_speculative_tokens = 2, use_eagle = False, use_multi_module_mtp = False\<rparr>,
     split_target_env = None\<rparr>"

definition sample_specs :: specs where
  "sample_specs = [(''l0'', sample_full), (''l1'', sample_full), (''m0'', sample_mamba), (''draft'', sample_full)]"

definition sample_groups :: "kv_group list" where
  "sample_groups = [plain_group [''l0'', ''l1''] (Layer sample_full), plain_group [''m0''] (Layer sample_mamba),
     (plain_group [''draft''] (Layer sample_full))\<lparr>is_dflash_group := True\<rparr>]"

lemma sample_groups_good: "\<forall>g \<in> set sample_groups. good_group g"
proof -
  have "layer_page_size sample_full = Inr 128" "layer_page_size sample_mamba = Inr 112" by code_simp+
  then have "good_layer sample_full" "good_layer sample_mamba"
    by (simp_all add: good_layer_def) (simp_all add: sample_full_def sample_mamba_def sample_attn_def layer_block_size_def)
  then show ?thesis by (simp add: sample_groups_def plain_group_def good_group_def)
qed

end
