(* ===== verification/KVMemory.thy ===== *)
theory KVMemory
  imports KVSample
begin

text \<open>
  The search for the longest model length finds the greatest one that fits: the memory of a
  request does not shrink when the length grows, so the lengths that fit are an initial
  segment, and the binary search of \<open>_estimate_max_model_len_from_groups\<close> finds its end.
\<close>

section \<open>The search\<close>

text \<open>
  The predicate answers for every length up to \<open>bound\<close>, and what fits for a length fits for
  the shorter ones.
\<close>

definition initial_fits :: "(int \<Rightarrow> kv_error + bool) \<Rightarrow> int \<Rightarrow> bool" where
  "initial_fits fits bound \<longleftrightarrow> (\<forall>len. 1 \<le> len \<and> len \<le> bound \<longrightarrow> \<not> isl (fits len)) \<and>
     (\<forall>a b. 1 \<le> a \<and> a \<le> b \<and> b \<le> bound \<and> fits b = Inr True \<longrightarrow> fits a = Inr True)"

lemma initial_fitsD:
  assumes "initial_fits fits bound" "1 \<le> len" "len \<le> bound"
  shows "fits len = Inr True \<or> fits len = Inr False"
  using assms by (cases "fits len") (auto simp: initial_fits_def)

lemma initial_fits_above:
  assumes "initial_fits fits bound" "1 \<le> a" "a \<le> b" "b \<le> bound" "fits a = Inr False"
  shows "fits b = Inr False"
proof -
  have "fits b \<noteq> Inr True" using assms unfolding initial_fits_def by (metis sum.inject(2))
  then show ?thesis using initial_fitsD [OF assms(1), of b] assms(2-4) by auto
qed

text \<open>
  The loop keeps that \<open>best\<close> fits and is not left of the window, and that nothing to the right of
  the window fits; an empty window leaves no length above \<open>best\<close>.
\<close>

lemma search_greatest:
  assumes "initial_fits fits bound"
  shows "1 \<le> left \<Longrightarrow> right \<le> bound \<Longrightarrow> 1 \<le> best \<Longrightarrow> best \<le> bound \<Longrightarrow> left - 1 \<le> best \<Longrightarrow> fits best = Inr True \<Longrightarrow>
    (\<forall>len. right < len \<and> len \<le> bound \<longrightarrow> fits len = Inr False) \<Longrightarrow>
    \<exists>n. search fits left right best = Inr n \<and> 1 \<le> n \<and> n \<le> bound \<and> fits n = Inr True \<and>
      (\<forall>len. n < len \<and> len \<le> bound \<longrightarrow> fits len = Inr False)"
proof (induction "nat (right - left + 1)" arbitrary: left right best rule: less_induct)
  case less
  show ?case
  proof (cases "right < left")
    case True
    have "best \<le> right" using less.prems(4,6,7) by (metis not_le sum.inject(2))
    then have "best = right" using less.prems(5) True by linarith
    then show ?thesis using True less.prems by (subst search.simps) auto
  next
    case False
    define mid where "mid = (left + right) div 2"
    have mid: "left \<le> mid" "mid \<le> right" using False by (auto simp: mid_def)
    then have range: "1 \<le> mid" "mid \<le> bound" using less.prems(1,2) by linarith+
    consider "fits mid = Inr True" | "fits mid = Inr False" using initial_fitsD [OF assms range] by blast
    then show ?thesis
    proof cases
      case 1
      have "\<exists>n. search fits (mid + 1) right mid = Inr n \<and> 1 \<le> n \<and> n \<le> bound \<and> fits n = Inr True \<and>
          (\<forall>len. n < len \<and> len \<le> bound \<longrightarrow> fits len = Inr False)"
        by (rule less.hyps) (use mid range False 1 less.prems in auto)
      then show ?thesis using False 1 by (subst search.simps) (simp add: mid_def)
    next
      case 2
      have "\<forall>len. mid - 1 < len \<and> len \<le> bound \<longrightarrow> fits len = Inr False"
        using initial_fits_above [OF assms range(1) _ _ 2] by simp
      then have "\<exists>n. search fits left (mid - 1) best = Inr n \<and> 1 \<le> n \<and> n \<le> bound \<and> fits n = Inr True \<and>
          (\<forall>len. n < len \<and> len \<le> bound \<longrightarrow> fits len = Inr False)"
        by (intro less.hyps) (use mid range False less.prems in auto)
      then show ?thesis using False 2 by (subst search.simps) (simp add: mid_def)
    qed
  qed
qed

lemma longest_greatest:
  assumes "initial_fits fits bound" "1 \<le> bound"
  shows "\<exists>n. longest fits bound = Inr n \<and> 0 \<le> n \<and> n \<le> bound \<and>
    (\<forall>len. 1 \<le> len \<and> len \<le> bound \<longrightarrow> (fits len = Inr True \<longleftrightarrow> len \<le> n))"
proof -
  consider "fits 1 = Inr True" | "fits 1 = Inr False" using initial_fitsD [OF assms(1), of 1] assms(2) by auto
  then show ?thesis
  proof cases
    case 1
    have "\<forall>len. bound < len \<and> len \<le> bound \<longrightarrow> fits len = Inr False" by auto
    then obtain n where n: "search fits 1 bound 1 = Inr n" "1 \<le> n" "n \<le> bound" "fits n = Inr True"
      "\<forall>len. n < len \<and> len \<le> bound \<longrightarrow> fits len = Inr False"
      using search_greatest [OF assms(1) _ order_refl _ assms(2) _ 1, of 1] by auto
    have "fits len = Inr True \<longleftrightarrow> len \<le> n" if h: "1 \<le> len" "len \<le> bound" for len
    proof (cases "len \<le> n")
      case True
      then show ?thesis using assms(1) h n(3,4) unfolding initial_fits_def by blast
    qed (use n(5) h in simp)
    moreover have "longest fits bound = Inr n" unfolding longest_def 1 using n(1) by simp
    ultimately show ?thesis using n(2,3) by (intro exI [of _ n]) simp
  next
    case 2
    have "fits len = Inr False" if "1 \<le> len" "len \<le> bound" for len
      using initial_fits_above [OF assms(1) order_refl that 2] .
    moreover have "longest fits bound = Inr 0" unfolding longest_def 2 by simp
    ultimately show ?thesis using assms(2) by (intro exI [of _ 0]) simp
  qed
qed

section \<open>The memory of a request grows with its length\<close>

text \<open>
  A need answers for every length when it answers for one, and is not smaller for a greater
  length; a step keeps this.
\<close>

definition growing :: "(kv_config \<Rightarrow> kv_error + int) \<Rightarrow> kv_config \<Rightarrow> bool" where
  "growing need cfg \<longleftrightarrow> (\<forall>a b x. need (cfg\<lparr>max_model_len := b\<rparr>) = Inr x \<longrightarrow>
     (\<exists>y. need (cfg\<lparr>max_model_len := a\<rparr>) = Inr y \<and> (a \<le> b \<longrightarrow> y \<le> x)))"

definition growing_step :: "(int \<Rightarrow> kv_error + int) \<Rightarrow> bool" where
  "growing_step f \<longleftrightarrow> (\<forall>a b x. f b = Inr x \<longrightarrow> (\<exists>y. f a = Inr y \<and> (a \<le> b \<longrightarrow> y \<le> x)))"

named_theorems growing_intros

lemma growing_const [growing_intros]: "(\<And>n. need (cfg\<lparr>max_model_len := n\<rparr>) = r) \<Longrightarrow> growing need cfg"
  by (simp add: growing_def)

lemma growing_len [growing_intros]: "growing (\<lambda>c. Inr (max_model_len c)) cfg"
  by (simp add: growing_def)

lemma growing_min [growing_intros]: "growing (\<lambda>c. Inr (min k (max_model_len c))) cfg"
  by (auto simp: growing_def)

lemma growing_bind [growing_intros]: "growing need cfg \<Longrightarrow> growing_step f \<Longrightarrow> growing (\<lambda>c. rbind (need c) f) cfg"
  unfolding growing_def growing_step_def by (auto, metis)

lemma step_bind [growing_intros]: "growing_step f \<Longrightarrow> growing_step g \<Longrightarrow> growing_step (\<lambda>n. rbind (f n) g)"
  unfolding growing_step_def by (auto, metis)

lemma ceil_div_mono: "0 < k \<Longrightarrow> a \<le> b \<Longrightarrow> ceil_div a k \<le> ceil_div b k"
  by (simp add: ceil_div_def zdiv_mono1)

lemma step_cdiv [growing_intros]: "lib_ok lib \<Longrightarrow> 0 < k \<Longrightarrow> growing_step (\<lambda>n. cdiv lib n k)"
  by (auto simp: growing_step_def lib_ok_def ceil_div_mono)

lemma step_times [growing_intros]:
  "(\<And>p. m = Inr p \<Longrightarrow> 0 \<le> p) \<Longrightarrow> growing_step (\<lambda>n. rbind m (\<lambda>p. Inr (n * p)))"
  by (cases m) (auto simp: growing_step_def mult_right_mono)

lemma step_plus_times [growing_intros]:
  "(\<And>p. m = Inr p \<Longrightarrow> 0 \<le> p) \<Longrightarrow> growing_step (\<lambda>n. rbind m (\<lambda>p. Inr ((n + k) * p)))"
  by (cases m) (auto simp: growing_step_def mult_right_mono)

lemma step_plus [growing_intros]: "growing_step (\<lambda>n. Inr (n + k))"
  by (simp add: growing_step_def)

lemma rbind_assoc: "rbind (rbind m f) g = rbind m (\<lambda>x. rbind (f x) g)"
  by (cases m) simp_all

lemma good_attn_page: "good_layer s \<Longrightarrow> attn_of s = Some a \<Longrightarrow> attn_page_size a = Inr p \<Longrightarrow>
    mla_of s = None \<Longrightarrow> 0 \<le> p"
  using good_page [of s] by (cases s) (auto simp: layer_page_size_def)

lemma full_growing:
  assumes "lib_ok lib" "0 < a_block_size a" "\<And>p. page = Inr p \<Longrightarrow> 0 \<le> p"
  shows "growing (\<lambda>c. full_max_memory lib c a page) cfg"
proof -
  have "growing (\<lambda>c. blocks_for lib (max_model_len c) (a_block_size a) page) cfg"
    unfolding blocks_for_def
    using growing_bind [OF growing_bind [OF growing_len step_cdiv [OF assms(1,2)]] step_times [OF assms(3)]]
    by simp
  moreover have "growing (\<lambda>c. rbind (cdiv lib (max_model_len c) k) (\<lambda>len. blocks_for lib len (a_block_size a) page)) cfg"
    if "0 < k" for k
    unfolding blocks_for_def
    using growing_bind [OF growing_bind [OF growing_len step_cdiv [OF assms(1) that]]
        step_bind [OF step_cdiv [OF assms(1,2)] step_times [OF assms(3)]]] by simp
  ultimately show ?thesis
    by (cases "1 < dcp_size cfg \<and> \<not> dcp_replicated a") (auto simp: full_max_memory_def growing_def)
qed

lemma sliding_growing:
  assumes "lib_ok lib" "0 < a_block_size a" "\<And>p. attn_page_size a = Inr p \<Longrightarrow> 0 \<le> p"
  shows "growing (\<lambda>c. sliding_max_memory lib c a w) cfg"
proof -
  have "growing (\<lambda>c. rbind (rbind (cdiv lib (min i (max_model_len c)) (a_block_size a)) (\<lambda>n. Inr (n + 1))) (\<lambda>n.
      rbind (attn_page_size a) (\<lambda>p. Inr (n * p)))) cfg" for i
    using growing_bind [OF growing_bind [OF growing_bind [OF growing_min step_cdiv [OF assms(1,2)]] step_plus]
        step_times [OF assms(3)]] by simp
  then show ?thesis by (auto simp: sliding_max_memory_def sliding_max_blocks_def growing_def)
qed

lemma layer_growing:
  assumes "lib_ok lib" "good_layer s"
  shows "growing (\<lambda>c. layer_max_memory lib c s) cfg"
proof -
  have page: "0 \<le> p" if "layer_page_size s = Inr p" for p using good_page [OF assms(2)] that by simp
  have block: "0 < layer_block_size s" using assms(2) by (simp add: good_layer_def)
  show ?thesis
  proof (cases s)
    case (Mamba m)
    then have m: "\<And>p. mamba_page_size m = Inr p \<Longrightarrow> 0 \<le> p" "0 < m_block_size m"
      using page block by (simp_all add: layer_page_size_def layer_block_size_def)
    have "growing (\<lambda>c. rbind (cdiv lib (max_model_len c) (m_block_size m)) (\<lambda>n.
        rbind (mamba_page_size m) (\<lambda>p. Inr ((n + num_speculative_blocks m) * p)))) cfg"
      using growing_bind [OF growing_bind [OF growing_len step_cdiv [OF assms(1) m(2)]] step_plus_times [OF m(1)]] by simp
    then show ?thesis using Mamba by (auto simp: mamba_max_memory_def growing_def)
  next
    case (Chunked a k)
    then have a: "\<And>p. attn_page_size a = Inr p \<Longrightarrow> 0 \<le> p" "0 < a_block_size a"
      using page block by (simp_all add: layer_page_size_def layer_block_size_def)
    have "growing (\<lambda>c. rbind (cdiv lib (min i (max_model_len c)) (a_block_size a)) (\<lambda>n.
        rbind (attn_page_size a) (\<lambda>p. Inr (n * p)))) cfg" for i
      using growing_bind [OF growing_bind [OF growing_min step_cdiv [OF assms(1) a(2)]] step_times [OF a(1)]] by simp
    then show ?thesis using Chunked by (auto simp: chunked_max_memory_def chunked_max_blocks_def growing_def)
  next
    case (Cross a)
    then show ?thesis by (simp add: cross_max_memory_def growing_def)
  next
    case (EncoderOnly a)
    then show ?thesis by (simp add: growing_def)
  next
    case (Attention a)
    then show ?thesis by (simp add: growing_def)
  next
    case (Sliding a w)
    then have a: "\<And>p. attn_page_size a = Inr p \<Longrightarrow> 0 \<le> p" "0 < a_block_size a"
      using page block by (simp_all add: layer_page_size_def layer_block_size_def)
    then show ?thesis using Sliding sliding_growing [OF assms(1) a(2,1)] by simp
  next
    case (SlidingMLA a w m)
    then have a: "\<And>p. attn_page_size a = Inr p \<Longrightarrow> 0 \<le> p" "0 < a_block_size a"
      using page block by (simp_all add: layer_page_size_def layer_block_size_def)
    then show ?thesis using SlidingMLA sliding_growing [OF assms(1) a(2,1)] by simp
  qed (use full_growing [OF assms(1) _ page] block in \<open>simp_all add: layer_block_size_def\<close>)
qed

section \<open>Groups\<close>

lemma pages_growing:
  assumes "lib_ok lib" "good_layer s"
  shows "growing (\<lambda>c. layer_max_pages lib c s) cfg"
proof -
  have p: "layer_page_size s = Inr (page_of s)" "0 < page_of s" using good_page [OF assms(2)] by simp_all
  show ?thesis
    using growing_bind [OF layer_growing [OF assms] step_cdiv [OF assms(1) p(2)]] by (simp add: layer_max_pages_def p(1))
qed

lemma growing_all:
  assumes "\<forall>x \<in> set xs. growing (\<lambda>c. f c x) cfg" "rmap (f (cfg\<lparr>max_model_len := b\<rparr>)) xs = Inr ys"
  shows "\<exists>zs. rmap (f (cfg\<lparr>max_model_len := a\<rparr>)) xs = Inr zs \<and> (a \<le> b \<longrightarrow> list_all2 (\<le>) zs ys)"
  using assms
proof (induction xs arbitrary: ys)
  case (Cons x xs)
  obtain y us where y: "f (cfg\<lparr>max_model_len := b\<rparr>) x = Inr y" "rmap (f (cfg\<lparr>max_model_len := b\<rparr>)) xs = Inr us" "ys = y # us"
    using Cons.prems(2) by auto
  obtain z where z: "f (cfg\<lparr>max_model_len := a\<rparr>) x = Inr z" "a \<le> b \<longrightarrow> z \<le> y"
    using Cons.prems(1) y(1) unfolding growing_def by (metis list.set_intros(1))
  obtain zs where "rmap (f (cfg\<lparr>max_model_len := a\<rparr>)) xs = Inr zs" "a \<le> b \<longrightarrow> list_all2 (\<le>) zs us"
    using Cons.IH [OF _ y(2)] Cons.prems(1) by auto
  then show ?case using y z by (intro exI [of _ "z # zs"]) simp
qed simp

lemma sum_list_le: "list_all2 (\<le>) xs ys \<Longrightarrow> sum_list xs \<le> (sum_list ys :: int)"
  by (induction xs ys rule: list_all2_induct) auto

lemma growing_sum: "\<forall>x \<in> set xs. growing (\<lambda>c. f c x) cfg \<Longrightarrow> growing (\<lambda>c. rbind (rmap (f c) xs) (\<lambda>ys. Inr (sum_list ys))) cfg"
  unfolding growing_def [of "\<lambda>c. rbind (rmap (f c) xs) (\<lambda>ys. Inr (sum_list ys))"]
proof (intro allI impI)
  fix a b x
  assume h: "\<forall>x \<in> set xs. growing (\<lambda>c. f c x) cfg"
    "rbind (rmap (f (cfg\<lparr>max_model_len := b\<rparr>)) xs) (\<lambda>ys. Inr (sum_list ys)) = Inr x"
  then obtain ys where ys: "rmap (f (cfg\<lparr>max_model_len := b\<rparr>)) xs = Inr ys" "x = sum_list ys" by auto
  from growing_all [OF h(1) ys(1)] obtain zs where
    "rmap (f (cfg\<lparr>max_model_len := a\<rparr>)) xs = Inr zs" "a \<le> b \<longrightarrow> list_all2 (\<le>) zs ys" by blast
  then show "\<exists>y. rbind (rmap (f (cfg\<lparr>max_model_len := a\<rparr>)) xs) (\<lambda>ys. Inr (sum_list ys)) = Inr y \<and> (a \<le> b \<longrightarrow> y \<le> x)"
    using ys(2) sum_list_le by auto
qed

lemma py_max_le: "list_all2 (\<le>) xs ys \<Longrightarrow> py_max ys = Inr m \<Longrightarrow> \<exists>n. py_max xs = Inr n \<and> n \<le> m"
proof -
  assume le: "list_all2 (\<le>) xs ys" and m: "py_max ys = Inr m"
  have ne: "ys \<noteq> []" "xs \<noteq> []" and mm: "m = Max (set ys)" using le m by (auto simp: py_max_def split: if_splits)
  have "x \<le> m" if x: "x \<in> set xs" for x
  proof -
    obtain i where i: "i < length xs" "x = xs ! i" using x by (metis in_set_conv_nth)
    then have "x \<le> ys ! i" "ys ! i \<in> set ys" using le by (auto simp: list_all2_conv_all_nth)
    then show ?thesis unfolding mm by (meson List.finite_set Max_ge order_trans)
  qed
  then have "Max (set xs) \<le> m" using ne(2) by simp
  then show ?thesis using ne(2) by (simp add: py_max_def)
qed

lemma py_max_total: "xs \<noteq> [] \<Longrightarrow> \<exists>n. py_max xs = Inr n"
  by (simp add: py_max_def)

lemma group_growing:
  assumes "lib_ok lib" "good_group g"
  shows "growing (\<lambda>c. group_max_blocks lib c g) cfg"
proof (cases "group_spec g")
  case (Layer s)
  then have "good_layer s" using assms(2) by (simp add: good_group_def)
  then show ?thesis using pages_growing [OF assms(1)] Layer by (simp add: group_max_blocks_def layer_max_pages_def)
next
  case (Uniform k ss)
  have all: "\<forall>q \<in> set ss. growing (\<lambda>c. (case q of (n, s) \<Rightarrow> layer_max_pages lib c s)) cfg"
    using assms(2) Uniform pages_growing [OF assms(1)] by (fastforce simp: good_group_def)
  show ?thesis unfolding growing_def
  proof (intro allI impI)
    fix a b x
    assume "group_max_blocks lib (cfg\<lparr>max_model_len := b\<rparr>) g = Inr x"
    then obtain ys where ys: "rmap (\<lambda>(n, s). layer_max_pages lib (cfg\<lparr>max_model_len := b\<rparr>) s) ss = Inr ys" "py_max ys = Inr x"
      by (auto simp: group_max_blocks_def Uniform uniform_max_pages_def)
    obtain zs where zs: "rmap (\<lambda>(n, s). layer_max_pages lib (cfg\<lparr>max_model_len := a\<rparr>) s) ss = Inr zs"
      "a \<le> b \<longrightarrow> list_all2 (\<le>) zs ys" using growing_all [OF all ys(1)] by blast
    have "zs \<noteq> []" using ys zs(1) by (auto simp: rmap_Inr_iff py_max_def split: if_splits)
    then show "\<exists>y. group_max_blocks lib (cfg\<lparr>max_model_len := a\<rparr>) g = Inr y \<and> (a \<le> b \<longrightarrow> y \<le> x)"
      using zs py_max_le [OF _ ys(2)] py_max_total by (simp add: group_max_blocks_def Uniform uniform_max_pages_def) blast
  qed
qed

lemma bytes_per_block_len: "bytes_per_block lib (cfg\<lparr>max_model_len := n\<rparr>) gs = bytes_per_block lib cfg gs"
  by (simp add: bytes_per_block_def shared_block_bytes_def)

lemma bytes_per_block_pos: "bytes_per_block lib cfg gs = Inr n \<Longrightarrow> 0 < n"
  by (auto simp: bytes_per_block_def Let_def split: if_splits)

lemma growing_cong: "(\<And>n. f (cfg\<lparr>max_model_len := n\<rparr>) = g (cfg\<lparr>max_model_len := n\<rparr>)) \<Longrightarrow> growing f cfg = growing g cfg"
  by (simp add: growing_def)

lemma groups_growing:
  assumes "lib_ok lib" "\<forall>g \<in> set gs. good_group g"
  shows "growing (\<lambda>c. max_memory_from_groups lib c gs) cfg"
proof (cases "gs = [] \<or> isl (bytes_per_block lib cfg gs)")
  case True
  then show ?thesis
    by (cases "bytes_per_block lib cfg gs") (auto simp: max_memory_from_groups_def growing_def bytes_per_block_len)
next
  case False
  then obtain n where n: "bytes_per_block lib cfg gs = Inr n" "gs \<noteq> []" by (cases "bytes_per_block lib cfg gs") auto
  have "growing (\<lambda>c. rbind (rmap (group_max_blocks lib c) gs) (\<lambda>bs. Inr (sum_list bs))) cfg"
    using group_growing [OF assms(1)] assms(2) by (intro growing_sum) auto
  moreover have "growing_step (\<lambda>k. rbind (Inr n :: kv_error + int) (\<lambda>n. Inr (k * n)))"
    by (rule step_times) (use bytes_per_block_pos [OF n(1)] in auto)
  ultimately have "growing (\<lambda>c. rbind (rbind (rmap (group_max_blocks lib c) gs) (\<lambda>bs. Inr (sum_list bs)))
      (\<lambda>k. rbind (Inr n) (\<lambda>n. Inr (k * n)))) cfg"
    by (rule growing_bind)
  then show ?thesis
    by (rule growing_cong [THEN iffD1, rotated]) (simp add: max_memory_from_groups_def bytes_per_block_len n mult.commute rbind_assoc)
qed

lemma growing_fits:
  assumes "growing need cfg" "need cfg = Inr m"
  shows "initial_fits (fits_within need cfg available) bound"
proof -
  have m: "need (cfg\<lparr>max_model_len := max_model_len cfg\<rparr>) = Inr m" using assms(2) by simp
  have "\<exists>y. need (cfg\<lparr>max_model_len := len\<rparr>) = Inr y" for len using assms(1) m unfolding growing_def by blast
  moreover have "y \<le> x" if "need (cfg\<lparr>max_model_len := a\<rparr>) = Inr y" "need (cfg\<lparr>max_model_len := b\<rparr>) = Inr x" "a \<le> b" for a b x y
    using assms(1) that unfolding growing_def by (metis sum.inject(2))
  ultimately show ?thesis unfolding initial_fits_def fits_within_def
    by (auto, metis rbind.simps(2) sum.disc(2), meson order_trans)
qed

section \<open>The contract of a memory need\<close>

text \<open>
  The search relies on its need for one law: what a request needs of something valid grows with
  the length. Layers, lists of layers and groups provide it.
\<close>

locale length_need =
  fixes need :: "'a \<Rightarrow> kv_lib \<Rightarrow> kv_config \<Rightarrow> kv_error + int"
    and valid :: "'a \<Rightarrow> bool"
  assumes need_growing: "lib_ok lib \<Longrightarrow> valid x \<Longrightarrow> growing (need x lib) cfg"
begin

lemma need_total:
  assumes "lib_ok lib" "valid x" "need x lib cfg = Inr m"
  shows "\<exists>k. need x lib (cfg\<lparr>max_model_len := len\<rparr>) = Inr k"
proof -
  have "need x lib (cfg\<lparr>max_model_len := max_model_len cfg\<rparr>) = Inr m" using assms(3) by simp
  then show ?thesis using need_growing [OF assms(1,2), of cfg] unfolding growing_def by blast
qed

lemma greatest_length:
  assumes "lib_ok lib" "valid x" "need x lib cfg = Inr m" "1 \<le> max_model_len cfg"
  shows "\<exists>n. longest (fits_within (need x lib) cfg available) (max_model_len cfg) = Inr n \<and> 0 \<le> n \<and> n \<le> max_model_len cfg \<and>
    (\<forall>len. 1 \<le> len \<and> len \<le> max_model_len cfg \<longrightarrow>
      (\<exists>k. need x lib (cfg\<lparr>max_model_len := len\<rparr>) = Inr k \<and> (k \<le> available \<longleftrightarrow> len \<le> n)))"
proof -
  obtain n where n: "longest (fits_within (need x lib) cfg available) (max_model_len cfg) = Inr n" "0 \<le> n" "n \<le> max_model_len cfg"
    "\<forall>len. 1 \<le> len \<and> len \<le> max_model_len cfg \<longrightarrow> (fits_within (need x lib) cfg available len = Inr True \<longleftrightarrow> len \<le> n)"
    using longest_greatest [OF growing_fits [OF need_growing [OF assms(1,2)] assms(3)] assms(4)] by blast
  have "\<exists>k. need x lib (cfg\<lparr>max_model_len := len\<rparr>) = Inr k \<and> (k \<le> available \<longleftrightarrow> len \<le> n)"
    if "1 \<le> len" "len \<le> max_model_len cfg" for len
    using n(4) need_total [OF assms(1-3)] that by (fastforce simp: fits_within_def)
  then show ?thesis using n(1-3) by blast
qed

end

interpretation layer_need: length_need "\<lambda>s lib c. layer_max_memory lib c s" good_layer
  by unfold_locales (rule layer_growing)

interpretation layers_need: length_need "\<lambda>ss lib c. max_memory_usage_bytes lib c ss" "\<lambda>ss. \<forall>s \<in> set ss. good_layer s"
  unfolding max_memory_usage_bytes_def by unfold_locales (intro growing_sum ballI layer_need.need_growing; blast)

interpretation groups_need: length_need "\<lambda>gs lib c. max_memory_from_groups lib c gs" "\<lambda>gs. \<forall>g \<in> set gs. good_group g"
  by unfold_locales (rule groups_growing)

text \<open>The same holds of \<open>estimate_max_model_len\<close>, which adds up the layers one by one.\<close>

lemma layers_estimate_is_greatest:
  assumes "lib_ok lib" "\<forall>s \<in> set ss. good_layer s" "max_memory_usage_bytes lib cfg ss = Inr m" "1 \<le> max_model_len cfg"
  shows "\<exists>n. estimate_max_model_len lib cfg ss available = Inr n \<and> 0 \<le> n \<and> n \<le> max_model_len cfg \<and>
    (\<forall>len. 1 \<le> len \<and> len \<le> max_model_len cfg \<longrightarrow>
      (\<exists>k. max_memory_usage_bytes lib (cfg\<lparr>max_model_len := len\<rparr>) ss = Inr k \<and> (k \<le> available \<longleftrightarrow> len \<le> n)))"
  unfolding estimate_max_model_len_def by (rule layers_need.greatest_length [OF assms])

text \<open>
  C9. \<open>_estimate_max_model_len_from_groups\<close> returns, and what it returns is the greatest
  length that fits: for well-formed groups whose memory at the full length is computable, every
  length up to \<open>max_model_len\<close> has a memory need, and it is at most the available memory exactly
  for the lengths up to the estimate (none, when the estimate is 0).
\<close>

theorem estimate_is_greatest:
  assumes "lib_ok lib" "\<forall>g \<in> set gs. good_group g" "max_memory_from_groups lib cfg gs = Inr m" "1 \<le> max_model_len cfg"
  shows "\<exists>n. estimate_from_groups lib cfg gs available = Inr n \<and> 0 \<le> n \<and> n \<le> max_model_len cfg \<and>
    (\<forall>len. 1 \<le> len \<and> len \<le> max_model_len cfg \<longrightarrow>
      (\<exists>k. max_memory_from_groups lib (cfg\<lparr>max_model_len := len\<rparr>) gs = Inr k \<and> (k \<le> available \<longleftrightarrow> len \<le> n)))"
  unfolding estimate_from_groups_def by (rule groups_need.greatest_length [OF assms])

theorem estimate_is_greatest_witness:
  "\<exists>n. estimate_from_groups sample_lib (sample_config True) sample_groups 2000 = Inr n \<and> n = 16 \<and>
    (\<exists>k. max_memory_from_groups sample_lib ((sample_config True)\<lparr>max_model_len := 17\<rparr>) sample_groups = Inr k \<and> 2000 < k)"
proof -
  have e: "estimate_from_groups sample_lib (sample_config True) sample_groups 2000 = Inr 16" by code_simp
  have l: "max_model_len (sample_config True) = 64" by code_simp
  have "\<exists>m. max_memory_from_groups sample_lib (sample_config True) sample_groups = Inr m"
    by (rule exI [of _ 3840]) code_simp
  then obtain m where "max_memory_from_groups sample_lib (sample_config True) sample_groups = Inr m" by blast
  from estimate_is_greatest [OF sample_lib_ok sample_groups_good this, of 2000] e l show ?thesis
    by (auto dest!: spec [of _ "17 :: int"])
qed

end
