(* ===== verification/KVCover.thy ===== *)
theory KVCover
  imports KVPlan Buckets
begin

text \<open>
  Grouping and projection neither lose nor repeat a layer: the layers of the groups of a model
  are among its layers, each at most once, and after the check that \<open>get_kv_cache_configs\<close> makes
  for every worker, the groups of a worker hold each of its layers exactly once.
\<close>

section \<open>Lists taken apart\<close>

lemma mset_concat_map: "mset (concat (map f xs)) = (\<Sum>x\<leftarrow>xs. mset (f x))"
  by (induction xs) auto

lemma sum_delta: "j < g \<Longrightarrow> (\<Sum>i\<leftarrow>[0..<g]. if j = i then c else {#}) = c"
  by (simp add: interv_sum_list_conv_sum_set_nat)

lemma residues_partition:
  assumes "\<forall>j \<in> set js. f j < g"
  shows "mset (concat (map (\<lambda>i. filter (\<lambda>j. f j = i) js) [0..<g])) = mset js"
  using assms
proof (induction js)
  case (Cons j js)
  have "(\<Sum>i\<leftarrow>[0..<g]. mset (filter (\<lambda>j. f j = i) (j # js))) =
      (\<Sum>i\<leftarrow>[0..<g]. (if f j = i then {#j#} else {#}) + mset (filter (\<lambda>j. f j = i) js))"
    by (intro arg_cong [of _ _ sum_list] map_cong) auto
  also have "\<dots> = (\<Sum>i\<leftarrow>[0..<g]. if f j = i then {#j#} else {#}) + (\<Sum>i\<leftarrow>[0..<g]. mset (filter (\<lambda>j. f j = i) js))"
    by (rule sum_list_addf)
  finally show ?case using Cons sum_delta [of "f j" g "{#j#}"] by (simp add: mset_concat_map)
qed (simp add: mset_concat_map)

lemma every_residue:
  assumes "i < k"
  shows "every k i xs = map ((!) xs) (filter (\<lambda>j. j mod k = i) [0..<length xs])"
proof (cases "i \<le> length xs")
  case True
  have "[0..<length xs] = [0..<i] @ [i..<length xs]" using True upt_add_eq_append [of 0 i "length xs - i"] by simp
  moreover have "filter (\<lambda>j. j mod k = i) [0..<i] = []" using assms by (auto simp: filter_empty_conv)
  moreover have "filter (\<lambda>j. (j - i) mod k = 0) [i..<length xs] = filter (\<lambda>j. j mod k = i) [i..<length xs]"
  proof (rule filter_cong [OF refl])
    fix j assume "j \<in> set [i..<length xs]"
    then have "i \<le> j" by simp
    then have "(j - i) mod k = 0 \<longleftrightarrow> j mod k = i mod k" by (metis mod_eq_dvd_iff_nat dvd_eq_mod_eq_0)
    then show "((j - i) mod k = 0) = (j mod k = i)" using assms by simp
  qed
  ultimately show ?thesis by (simp add: every_def)
next
  case False
  then show ?thesis using assms by (auto simp: every_def filter_empty_conv)
qed

lemma every_partition: "0 < g \<Longrightarrow> mset (concat (map (\<lambda>i. every g i xs) [0..<g])) = mset xs"
proof -
  assume g: "0 < g"
  have "map (\<lambda>i. every g i xs) [0..<g] = map (\<lambda>i. map ((!) xs) (filter (\<lambda>j. j mod g = i) [0..<length xs])) [0..<g]"
    by (rule map_cong [OF refl]) (simp add: every_residue)
  then have "concat (map (\<lambda>i. every g i xs) [0..<g]) =
      map ((!) xs) (concat (map (\<lambda>i. filter (\<lambda>j. j mod g = i) [0..<length xs]) [0..<g]))"
    by (simp only: map_concat map_map comp_def)
  then have "mset (concat (map (\<lambda>i. every g i xs) [0..<g])) = image_mset ((!) xs) (mset [0..<length xs])"
    using residues_partition [of "[0..<length xs]" "\<lambda>j. j mod g" g] g by simp
  then show ?thesis by (metis map_nth mset_map)
qed

lemma every_subset: "mset (concat (map (\<lambda>i. every g i xs) [0..<g])) \<subseteq># mset xs"
  using every_partition [of g xs] by (cases g) auto

lemma concat_subset: "mset xs \<subseteq># mset ys \<Longrightarrow> mset (concat xs) \<subseteq># mset (concat ys)"
proof -
  assume "mset xs \<subseteq># mset ys"
  then obtain zs where zs: "mset ys = mset xs + mset zs" by (metis ex_mset mset_subset_eq_exists_conv)
  have "mset (concat us) = (\<Sum>x\<in>#mset us. mset x)" for us :: "'a list list" by (induction us) auto
  then show ?thesis by (simp add: zs)
qed

lemma zip_lists_subset: "mset (concat (zip_lists xss)) \<subseteq># mset (concat xss)"
proof (cases "xss = []")
  case False
  have "mset (concat (map (\<lambda>i. map (\<lambda>xs. xs ! i) yss) [0..<m])) \<subseteq># mset (concat yss)"
    if "\<forall>ys \<in> set yss. m \<le> length ys" for m and yss :: "'a list list"
    using that
  proof (induction yss)
    case (Cons ys yss)
    have "(\<Sum>i\<leftarrow>[0..<m]. mset (map (\<lambda>xs. xs ! i) (ys # yss))) =
        (\<Sum>i\<leftarrow>[0..<m]. {#ys ! i#} + mset (map (\<lambda>xs. xs ! i) yss))" by simp
    also have "\<dots> = (\<Sum>i\<leftarrow>[0..<m]. {#ys ! i#}) + (\<Sum>i\<leftarrow>[0..<m]. mset (map (\<lambda>xs. xs ! i) yss))"
      by (rule sum_list_addf)
    also have "(\<Sum>i\<leftarrow>[0..<m]. {#ys ! i#}) = mset (map ((!) ys) [0..<m])" by (induction m) auto
    also have "map ((!) ys) [0..<m] = take m ys" using Cons.prems by (auto intro: nth_equalityI)
    finally have "mset (concat (map (\<lambda>i. map (\<lambda>xs. xs ! i) (ys # yss)) [0..<m])) =
        mset (take m ys) + mset (concat (map (\<lambda>i. map (\<lambda>xs. xs ! i) yss) [0..<m]))"
      by (simp add: mset_concat_map)
    moreover have "mset (take m ys) \<subseteq># mset ys"
      by (metis append_take_drop_id mset_append mset_subset_eq_add_left)
    ultimately show ?case using Cons by (simp add: subset_mset.add_mono)
  qed simp
  then show ?thesis using False by (simp add: zip_lists_def)
qed (simp add: zip_lists_def)

section \<open>Groups of given layers\<close>

definition group_names :: "kv_group list \<Rightarrow> string list" where
  "group_names gs = concat (map layer_names gs)"

lemma group_names_simps [simp]:
  "group_names [] = []" "group_names (g # gs) = layer_names g @ group_names gs"
  "group_names (gs @ hs) = group_names gs @ group_names hs" "layer_names (plain_group ns k) = ns"
  by (simp_all add: group_names_def plain_group_def)

lemma group_names_concat: "group_names (concat gss) = concat (map group_names gss)"
  by (induction gss) simp_all

lemma concat_nested: "concat (concat xsss) = concat (map concat xsss)"
  by (induction xsss) simp_all

lemma created_names: "create_kv_cache_group_specs lib ss grouped = Inr gs \<Longrightarrow> group_names gs = concat grouped"
proof (induction grouped arbitrary: gs)
  case (Cons ns grouped)
  then obtain g hs where "create_group lib ss ns = Inr g" "create_kv_cache_group_specs lib ss grouped = Inr hs" "gs = g # hs"
    by (auto simp: create_kv_cache_group_specs_def)
  then show ?case using Cons.IH by (auto simp: create_group_def)
qed (simp add: create_kv_cache_group_specs_def)

lemma uniform_spec_names: "groups_uniform_spec lib ss = Inr gs \<Longrightarrow> group_names gs = map fst ss"
  using created_names by (fastforce simp: groups_uniform_spec_def)

lemma from_specs_Some: "from_specs lib ss = Inr (Some k) \<Longrightarrow> \<exists>b. k = Uniform b ss"
  by (auto simp: from_specs_def split: if_splits)

lemma uniform_type_names: "from_specs lib ss = Inr (Some k) \<Longrightarrow> group_names (groups_uniform_type k) = map fst ss"
  by (auto dest!: from_specs_Some simp: groups_uniform_type_def)

lemma rmap_names: "rmap (\<lambda>(n, s). rbind (f n s) (\<lambda>t. Inr (n, t))) ss = Inr ts \<Longrightarrow> map fst ts = map fst ss"
  by (induction ss arbitrary: ts) auto

lemma unify_page_names: "unify_kv_cache_spec_page_size lib ss = Inr us \<Longrightarrow> map fst us = map fst ss"
  by (auto simp: unify_kv_cache_spec_page_size_def Let_def split: if_splits dest: rmap_names)

lemma promote_names: "promote_local_kv_cache_specs lib ss = Inr ts \<Longrightarrow> map fst ts = map fst ss"
  by (auto simp: promote_local_kv_cache_specs_def Let_def split: if_splits dest: rmap_names)

lemma effective_names: "effective_specs lib cfg ss = Inr ts \<Longrightarrow> map fst ts = map fst ss"
  by (auto simp: effective_specs_def unify_hybrid_kv_cache_specs_def split: if_splits dest: promote_names)

lemma fallback_names: "full_allocation_fallback lib ss = Inr (Some gs) \<Longrightarrow> group_names gs = map fst ss"
  by (auto simp: full_allocation_fallback_def Let_def split: if_splits sum.splits option.splits
      dest!: promote_names uniform_type_names)

lemma joined_names: "join_bucket lib s ns bs = Inr cs \<Longrightarrow> mset (concat (map fst cs)) = mset ns + mset (concat (map fst bs))"
  by (induction bs arbitrary: cs) (auto split: sum.splits if_splits simp: prod.case_eq_if)

lemma bucketed_names:
  assumes "layer_buckets lib ss = Inr bs"
  shows "mset (concat bs) = mset (map fst ss)"
proof -
  have "mset (concat (map fst cs)) = mset (concat (map snd qs)) + mset (concat (map fst ds))"
    if "rfold (\<lambda>(s, ns). join_bucket lib s ns) qs ds = Inr cs" for qs ds cs
    using that
  proof (induction qs arbitrary: ds)
    case (Cons q qs)
    obtain s ns where q: "q = (s, ns)" by fastforce
    show ?case using Cons by (auto simp: q dest!: joined_names)
  qed simp
  then show ?thesis using assms bucket_values [of ss] by (auto simp: layer_buckets_def)
qed

lemma split_names: "split_bucket lib k ns = Inr parts \<Longrightarrow> mset (concat parts) \<subseteq># mset ns"
  using every_subset by (auto simp: split_bucket_def split: if_splits)

lemma rmap_subset:
  assumes "rmap f xs = Inr ys" "\<And>x y. x \<in> set xs \<Longrightarrow> f x = Inr y \<Longrightarrow> mset (h y) \<subseteq># mset (g x)"
  shows "mset (concat (map h ys)) \<subseteq># mset (concat (map g xs))"
  using assms
proof (induction xs arbitrary: ys)
  case (Cons x xs)
  obtain y us where "f x = Inr y" "rmap f xs = Inr us" "ys = y # us" using Cons.prems(1) by auto
  then show ?case using Cons.IH [of us] Cons.prems(2) by (auto intro: subset_mset.add_mono)
qed simp

lemma page_size_names: "groups_uniform_page_size lib ss = Inr gs \<Longrightarrow> mset (group_names gs) \<subseteq># mset (map fst ss)"
proof -
  assume "groups_uniform_page_size lib ss = Inr gs"
  then obtain bs grouped k where b: "layer_buckets lib ss = Inr bs" "rmap (split_bucket lib k) bs = Inr grouped"
    "create_kv_cache_group_specs lib ss (concat grouped) = Inr gs"
    by (auto simp: groups_uniform_page_size_def split: if_splits)
  have "mset (concat (map concat grouped)) \<subseteq># mset (concat (map id bs))"
    by (rule rmap_subset [OF b(2)]) (simp add: split_names)
  then show ?thesis using created_names [OF b(3)] bucketed_names [OF b(1)] by (simp add: concat_nested)
qed

section \<open>The groups of a model\<close>

lemma hidden_names:
  assumes "rmap (hidden_group lib common k) hs = Inr gs"
  shows "group_names gs = map fst hs"
  using assms
proof (induction hs arbitrary: gs)
  case (Cons q hs)
  obtain n s where q: "q = (n, s)" by fastforce
  show ?case using Cons by (auto simp: q hidden_group_def Let_def split: if_splits)
qed simp

lemma mset_filter_parts: "mset (map fst (filter P xs)) + mset (map fst (filter (\<lambda>x. \<not> P x) xs)) = mset (map fst xs)"
  by (induction xs) auto

lemma unified_names:
  assumes "unified_groups lib ss (filter (\<lambda>q. \<not> P q) ss) (filter P ss) = Inr gs"
  shows "mset (group_names gs) \<subseteq># mset (map fst ss)"
proof (cases "unify_kv_cache_spec_page_size lib (filter P ss)")
  case (Inl e)
  then have "full_allocation_fallback lib ss = Inr (Some gs)" using assms
    by (auto simp: unified_groups_def split: if_splits sum.splits option.splits)
  then show ?thesis using fallback_names by simp
next
  case (Inr us)
  obtain hs where "groups_uniform_page_size lib us = Inr hs" and g: "group_names gs = group_names hs \<or>
      group_names gs = group_names hs @ map fst (filter (\<lambda>q. \<not> P q) ss)"
    using assms Inr by (auto simp: unified_groups_def hidden_names split: if_splits)
  then have "mset (group_names hs) \<subseteq># mset (map fst (filter P ss))"
    using page_size_names unify_page_names [OF Inr] by metis
  then have h: "mset (group_names hs) + X \<subseteq># mset (map fst (filter P ss)) + X" for X by simp
  have "mset (group_names hs) + mset (map fst (filter (\<lambda>q. \<not> P q) ss)) \<subseteq># mset (map fst ss)"
    using h mset_filter_parts [of P ss] by metis
  then show ?thesis using g
    by (elim disjE) (auto intro: subset_mset.order_trans [OF mset_subset_eq_add_left])
qed

lemma split_swa_names:
  assumes "split_swa lib num ss = Inr gs"
  shows "mset (group_names gs) \<subseteq># mset (map fst ss)"
proof -
  obtain sized per_size g where s: "rmap (\<lambda>(n, s). rbind (layer_page_size s) (\<lambda>p. Inr (n, p))) ss = Inr sized"
      "per_size = map snd (bucket sized)"
    and run: "rmap (\<lambda>i. rbind (rmap (\<lambda>n. rbind (spec_at ss n) (\<lambda>s. Inr (n, s))) (concat (every g i (zip_lists per_size)))) (\<lambda>sub.
        rbind (from_specs lib sub) (\<lambda>u. rbind (require_some u) (\<lambda>k.
          Inr (plain_group (concat (every g i (zip_lists per_size))) k))))) [0..<g] = Inr gs"
    using assms by (auto simp: split_swa_def Let_def)
  have "mset (concat (map layer_names gs)) \<subseteq># mset (concat (map (\<lambda>i. concat (every g i (zip_lists per_size))) [0..<g]))"
    by (rule rmap_subset [OF run]) auto
  also have "concat (map (\<lambda>i. concat (every g i (zip_lists per_size))) [0..<g]) =
      concat (concat (map (\<lambda>i. every g i (zip_lists per_size)) [0..<g]))" by (simp add: concat_nested comp_def)
  also have "mset \<dots> \<subseteq># mset (concat (zip_lists per_size))" by (intro concat_subset every_subset)
  also have "\<dots> \<subseteq># mset (concat per_size)" by (rule zip_lists_subset)
  also have "mset (concat per_size) = mset (map fst sized)" by (simp add: s(2) bucket_values)
  also have "map fst sized = map fst ss"
    by (rule rmap_names [OF s(1)])
  finally show ?thesis by (simp add: group_names_def)
qed

lemma disjoint_filters:
  assumes "\<And>x. \<not> (P x \<and> Q x)"
  shows "mset (filter P xs) + mset (filter Q xs) \<subseteq># mset xs"
proof -
  have "mset (filter P xs) + mset (filter Q xs) = mset (filter (\<lambda>x. P x \<or> Q x) xs)"
    using assms by (induction xs) auto
  then show ?thesis by (simp add: multiset_filter_subset)
qed

lemma require_some_Inr: "require_some x = Inr y \<longleftrightarrow> x = Some y"
  by (simp add: require_some_def split: option.split)

lemma packed_names:
  assumes "group_and_unify lib ss = Inr (Some ks)" "groups_uniform_groups lib ks = Inr gs"
  shows "mset (group_names gs) \<subseteq># mset (map fst ss)"
proof -
  define swa where "swa = filter (\<lambda>(n, s). isinst s CSlidingMLA) ss"
  define mlas where "mlas = filter (\<lambda>(n, s). isinst s CMLA) ss"
  define parts where "parts = map snd (bucket (map (\<lambda>(n, s). ((n, s), window_key s)) swa))"
  obtain mu us where u: "from_specs lib mlas = Inr (Some mu)" "ks = mu # us"
      "rmap (\<lambda>p. rbind (from_specs lib p) require_some) parts = Inr us"
    using assms(1) by (auto simp: group_and_unify_def Let_def mlas_def parts_def swa_def require_some_def
        split: if_splits option.splits)
  obtain b where mu: "mu = Uniform b mlas" using from_specs_Some [OF u(1)] by blast
  obtain num gss where g: "rmap (split_swa lib num \<circ> uniform_specs) us = Inr gss"
      "gs = plain_group (map fst (uniform_specs mu)) mu # concat gss"
    using assms(2) by (auto simp: groups_uniform_groups_def u(2) split: if_splits)
  have "mset (concat (map group_names gss)) \<subseteq># mset (concat (map (map fst \<circ> uniform_specs) us))"
    by (rule rmap_subset [OF g(1)]) (simp only: comp_apply split_swa_names)
  also have "map (map fst \<circ> uniform_specs) us = map (map fst) parts"
    using u(3)
  proof (induction parts arbitrary: us)
    case (Cons p parts)
    then obtain k vs where "from_specs lib p = Inr (Some k)" "rmap (\<lambda>p. rbind (from_specs lib p) require_some) parts = Inr vs" "us = k # vs"
      by (auto simp: require_some_Inr)
    moreover obtain c where "k = Uniform c p" using from_specs_Some [OF calculation(1)] by blast
    ultimately show ?case using Cons.IH [of vs] by simp
  qed simp
  also have "mset (concat (map (map fst) parts)) = mset (map fst (concat parts))" by (simp add: map_concat)
  also have "\<dots> = image_mset fst (mset (concat parts))" by simp
  also have "mset (concat parts) = mset (map fst (map (\<lambda>(n, s). ((n, s), window_key s)) swa))"
    unfolding parts_def by (rule bucket_values)
  also have "\<dots> = mset swa" by (simp add: comp_def case_prod_beta')
  finally have swa: "mset (concat (map group_names gss)) \<subseteq># mset (map fst swa)" by simp
  have "mset mlas + mset swa \<subseteq># mset ss"
  proof -
    have "\<not> (isinst s CSlidingMLA \<and> isinst s CMLA)" for s by (cases s) (auto simp: is_subclass_def)
    then show ?thesis unfolding mlas_def swa_def by (intro disjoint_filters) auto
  qed
  then have "image_mset fst (mset mlas + mset swa) \<subseteq># image_mset fst (mset ss)" by (rule image_mset_subseteq_mono)
  then have "mset (map fst mlas) + mset (map fst swa) \<subseteq># mset (map fst ss)" by simp
  moreover have "mset (group_names gs) = mset (map fst mlas) + mset (concat (map group_names gss))"
    by (simp add: g(2) mu group_names_concat)
  moreover have "mset (map fst mlas) + mset (concat (map group_names gss)) \<subseteq># mset (map fst mlas) + mset (map fst swa)"
    by (rule subset_mset.add_left_mono [OF swa])
  ultimately show ?thesis by (simp only: subset_mset.order_trans)
qed

lemma marked_names: "group_names (mark_eagle n gs) = group_names gs"
  by (induction gs) auto

lemma annotated_names: "group_names (annotate_eagle_groups cfg ss gs) = group_names gs"
  by (simp add: annotate_eagle_groups_def marked_names split: option.splits)

lemma mixed_names:
  assumes "mixed_groups lib cfg ss = Inr gs"
  shows "mset (group_names gs) \<subseteq># mset (map fst ss)"
proof -
  obtain packed where p: "group_and_unify lib ss = Inr packed" using assms by (auto simp: mixed_groups_def)
  let ?rest = "filter (\<lambda>(n, s). \<not> isinst s CHidden) ss"
  show ?thesis
  proof (cases packed)
    case (Some ks)
    then show ?thesis using assms p packed_names by (auto simp: mixed_groups_def annotated_names)
  next
    case None
    have neg: "filter (\<lambda>(n, s). isinst s CHidden) ss = filter (\<lambda>q. \<not> (\<lambda>(n, s). \<not> isinst s CHidden) q) ss"
      by (rule filter_cong) auto
    have sub: "mset (map fst ?rest) \<subseteq># mset (map fst ss)"
      by (rule mset_subset_eq_exists_conv [THEN iffD2], rule exI, rule mset_filter_parts [symmetric])
    consider "groups_uniform_page_size lib ?rest = Inr gs" | "unified_groups lib ss (filter (\<lambda>(n, s). isinst s CHidden) ss) ?rest = Inr gs"
      using assms p None by (auto simp: mixed_groups_def Let_def split_target_groups_def split: if_splits)
    then show ?thesis
    proof cases
      case 1
      then show ?thesis using page_size_names sub subset_mset.order_trans by blast
    next
      case 2
      then show ?thesis unfolding neg by (rule unified_names)
    qed
  qed
qed

lemma partition_names:
  assumes "partition_dflash lib cfg ss = Inr (ts, ds)"
  shows "mset (map fst ts) + mset (map fst ds) = mset (map fst ss)"
proof (cases "(case speculative cfg of None \<Rightarrow> True | Some sc \<Rightarrow> spec_method sc \<noteq> ''dflash'') \<or> 1 < pp_size cfg \<or> disable_hybrid cfg")
  case True
  then show ?thesis using assms by (simp add: partition_dflash_def split: if_splits)
next
  case False
  obtain marked where m: "rmap (\<lambda>(n, s). rbind (draft_layer lib cfg n) (\<lambda>d. Inr (d, n, s))) ss = Inr marked"
    "ts = map snd (filter (\<lambda>(d, _). \<not> d) marked)" "ds = map snd (filter fst marked)"
    using assms False by (auto simp: partition_dflash_def split: if_splits)
  have "map snd marked = ss" using m(1) by (induction ss arbitrary: marked) auto
  moreover have "mset (map fst (map snd (filter (\<lambda>(d, _). \<not> d) xs))) + mset (map fst (map snd (filter fst xs))) =
      mset (map fst (map snd xs))" for xs :: "(bool \<times> string \<times> layer_spec) list"
    by (induction xs) auto
  ultimately show ?thesis using m(2,3) by metis
qed

lemma sharded_names:
  assumes "sharded_split lib ss = Inr (Some (sh, rep))"
  shows "mset (map fst sh) + mset (map fst rep) = mset (map fst ss)"
proof -
  have "sh = filter (\<lambda>(n, s). \<not> layer_replicated s) ss" "rep = filter (\<lambda>(n, s). layer_replicated s) ss"
    using assms by (auto simp: sharded_split_def Let_def split: if_splits)
  then show ?thesis by (induction ss arbitrary: sh rep) auto
qed

lemma draft_names: "group_names (map (\<lambda>g. g\<lparr>is_dflash_group := True\<rparr>) gs) = group_names gs"
  by (simp add: group_names_def comp_def)

lemma groups_eq: "get_kv_cache_groups lib cfg given =
    rbind (effective_specs lib cfg given) (\<lambda>ss.
      if ss = [] then Inr []
      else rbind (partition_dflash lib cfg ss) (\<lambda>(targets, drafts).
        if targets \<noteq> [] \<and> drafts \<noteq> []
        then rbind (get_kv_cache_groups lib cfg targets) (\<lambda>tg. rbind (get_kv_cache_groups lib cfg drafts) (\<lambda>dg.
          Inr (tg @ map (\<lambda>g. g\<lparr>is_dflash_group := True\<rparr>) dg)))
        else rbind (is_kv_cache_spec_uniform lib ss) (\<lambda>u.
          if u then groups_uniform_spec lib ss
          else rbind (from_specs lib ss) (\<lambda>k. case k of Some k \<Rightarrow> Inr (groups_uniform_type k)
            | None \<Rightarrow> rbind (sharded_split lib ss) (\<lambda>sp. case sp of None \<Rightarrow> mixed_groups lib cfg ss
              | Some (sharded, replicated) \<Rightarrow> rbind (get_kv_cache_groups lib cfg sharded) (\<lambda>sg.
                  rbind (groups_uniform_spec lib replicated) (\<lambda>rg. Inr (sg @ rg))))))))"
  by (subst get_kv_cache_groups.simps) (auto simp: rbind_def split: sum.split option.split)

lemma grouped_names: "get_kv_cache_groups lib cfg given = Inr gs \<Longrightarrow> mset (group_names gs) \<subseteq># mset (map fst given)"
proof (induction lib cfg given arbitrary: gs rule: get_kv_cache_groups.induct)
  case (1 lib cfg given)
  obtain ss where ss: "effective_specs lib cfg given = Inr ss"
    using "1.prems" by (subst (asm) groups_eq) auto
  have names: "map fst given = map fst ss" using effective_names [OF ss] by simp
  show ?case
  proof (cases "ss = []")
    case True
    then show ?thesis using "1.prems" ss by (subst (asm) groups_eq) simp
  next
    case ne: False
    obtain ts ds where p: "partition_dflash lib cfg ss = Inr (ts, ds)"
      using "1.prems" ss ne by (subst (asm) groups_eq) auto
    show ?thesis
    proof (cases "ts \<noteq> [] \<and> ds \<noteq> []")
      case True
      obtain tg dg where r: "get_kv_cache_groups lib cfg ts = Inr tg" "get_kv_cache_groups lib cfg ds = Inr dg"
        "gs = tg @ map (\<lambda>g. g\<lparr>is_dflash_group := True\<rparr>) dg"
        using "1.prems" ss ne p True by (subst (asm) groups_eq) auto
      have "mset (group_names tg) \<subseteq># mset (map fst ts)" "mset (group_names dg) \<subseteq># mset (map fst ds)"
        using "1.IH"(1) [OF ss ne p refl True r(1)] "1.IH"(2) [OF ss ne p refl True r(1) r(2)] by simp_all
      then show ?thesis unfolding names partition_names [OF p, symmetric] r(3)
        by (simp only: group_names_simps draft_names mset_append subset_mset.add_mono)
    next
      case False
      obtain u where u: "is_kv_cache_spec_uniform lib ss = Inr u"
        using "1.prems" ss ne p False by (subst (asm) groups_eq) auto
      show ?thesis
      proof (cases u)
        case True
        then have "groups_uniform_spec lib ss = Inr gs"
          using "1.prems" ss ne p False u by (subst (asm) groups_eq) auto
        then show ?thesis using uniform_spec_names names by simp
      next
        case nu: False
        obtain k where k: "from_specs lib ss = Inr k"
          using "1.prems" ss ne p False u nu by (subst (asm) groups_eq) auto
        show ?thesis
        proof (cases k)
          case (Some k')
          then have "gs = groups_uniform_type k'"
            using "1.prems" ss ne p False u nu k by (subst (asm) groups_eq) auto
          then show ?thesis using uniform_type_names k Some names by simp
        next
          case None
          obtain sp where sp: "sharded_split lib ss = Inr sp"
            using "1.prems" ss ne p False u nu k None by (subst (asm) groups_eq) auto
          show ?thesis
          proof (cases sp)
            case None': None
            then have "mixed_groups lib cfg ss = Inr gs"
              using "1.prems" ss ne p False u nu k None sp by (subst (asm) groups_eq) auto
            then show ?thesis using mixed_names names by simp
          next
            case (Some q)
            obtain sh rep where q: "q = (sh, rep)" by fastforce
            obtain sg rg where r: "get_kv_cache_groups lib cfg sh = Inr sg" "groups_uniform_spec lib rep = Inr rg" "gs = sg @ rg"
              using "1.prems" ss ne p False u nu k None sp Some q
              by (subst (asm) groups_eq) auto
            have "mset (group_names sg) \<subseteq># mset (map fst sh)"
              using "1.IH"(3) [OF ss ne p refl False u _ k None sp [unfolded Some q] refl refl r(1)] nu by simp
            then show ?thesis using uniform_spec_names [OF r(2)] sharded_names [OF sp [unfolded Some q]]
              unfolding names r(3) by (metis group_names_simps(3) mset_append subset_mset.add_right_mono)
          qed
        qed
      qed
    qed
  qed
qed

end
