(* ===== verification/HashProps.thy ===== *)
theory HashProps
  imports BlockHash "HOL-Library.Countable"
begin

text \<open>
  What block hashes stand for: with a hash function free of collisions a hash identifies
  the tokens of the whole prefix, hashing a growing request step by step gives the chain
  of hashing it at once, keys and group ids can be taken apart again, coarser views are
  subsequences of the chain, and the resolved block sizes divide one another.
\<close>

section \<open>The chain of a request\<close>

lemma embeds_keep:
  "gen_prompt_embeds_extra_hash_keys td sha r a b = (ks, r1) \<Longrightarrow> \<exists>eh. r1 = r\<lparr>embed_hashes := eh\<rparr>"
  by (auto simp: gen_prompt_embeds_extra_hash_keys_def Let_def split: option.splits
      intro: exI [of _ "embed_hashes r"])

lemma extra_keys_keep:
  "generate_block_hash_extra_keys td sha r a b mm = Inr (ks, mm1, r1) \<Longrightarrow> \<exists>eh. r1 = r\<lparr>embed_hashes := eh\<rparr>"
  by (cases "gen_prompt_embeds_extra_hash_keys td sha r a b")
    (auto simp: generate_block_hash_extra_keys_def Let_def dest: embeds_keep)

lemma hash_in_range: "hash_block_tokens nh h p t k \<in> range h"
  by (simp add: hash_block_tokens_def Let_def)

definition link :: "hash_env \<Rightarrow> nat \<Rightarrow> int list \<Rightarrow> nat \<Rightarrow> bytes option \<Rightarrow> bytes list \<Rightarrow> extra_key list option list \<Rightarrow> bool" where
  "link e bs toks start prev new ks \<longleftrightarrow> length ks = length new \<and> (\<forall>k < length new.
     new ! k = hash_block_tokens (none_hash e) (hash_fn e) (if k = 0 then prev else Some (new ! (k - 1)))
       (slice (start + k * bs) (start + Suc k * bs) toks) (ks ! k))"

lemma link_Cons:
  assumes "link e bs toks (start + bs) (Some b) new ks"
    and "b = hash_block_tokens (none_hash e) (hash_fn e) prev (slice start (start + bs) toks) key"
  shows "link e bs toks start prev (b # new) (key # ks)"
  unfolding link_def
proof (intro conjI allI impI)
  show "length (key # ks) = length (b # new)" using assms(1) by (simp add: link_def)
  fix k assume k: "k < length (b # new)"
  show "(b # new) ! k = hash_block_tokens (none_hash e) (hash_fn e)
      (if k = 0 then prev else Some ((b # new) ! (k - 1)))
      (slice (start + k * bs) (start + Suc k * bs) toks) ((key # ks) ! k)"
  proof (cases k)
    case 0
    then show ?thesis using assms(2) by simp
  next
    case (Suc j)
    then have "new ! j = hash_block_tokens (none_hash e) (hash_fn e) (if j = 0 then Some b else Some (new ! (j - 1)))
       (slice (start + bs + j * bs) (start + bs + Suc j * bs) toks) (ks ! j)"
      using assms(1) k by (auto simp: link_def)
    then show ?thesis using Suc by (cases j) (simp_all add: algebra_simps)
  qed
qed

text \<open>The extra keys that the loop generates for its blocks, one entry per block.\<close>

function block_keys :: "hash_env \<Rightarrow> nat \<Rightarrow> nat \<Rightarrow> hash_request \<Rightarrow> nat \<Rightarrow> int \<Rightarrow> extra_key list option list" where
  "block_keys e bs n r start mm =
     (if n < start + bs \<or> bs = 0 then []
      else (case generate_block_hash_extra_keys (tensor_bytes e) (embed_sha e) r start (start + bs) mm of
        Inl err \<Rightarrow> []
      | Inr (keys, mm1, r1) \<Rightarrow> keys # block_keys e bs n r1 (start + bs) mm1))"
  by pat_completeness auto
termination by (relation "measure (\<lambda>(e, bs, n, r, start, mm). Suc n - start)") auto

declare block_keys.simps [simp del]

lemma hash_loop_links:
  "hash_loop e bs n r start mm prev acc = Inr (hs, r1) \<Longrightarrow> 0 < bs \<Longrightarrow>
   \<exists>new. hs = acc @ new \<and> length new = (n - start) div bs \<and>
     link e bs (all_token_ids r) start prev new (block_keys e bs n r start mm)"
proof (induction e bs n r start mm prev acc rule: hash_loop.induct)
  case (1 e bs n r start mm prev acc)
  show ?case
  proof (cases "n < start + bs")
    case True
    then have "n - start < bs" using "1.prems"(2) by simp
    then have "(n - start) div bs = 0" by simp
    then show ?thesis using True "1.prems" by (auto simp: hash_loop.simps block_keys.simps link_def)
  next
    case False
    obtain keys mm1 r2 where g:
      "generate_block_hash_extra_keys (tensor_bytes e) (embed_sha e) r start (start + bs) mm = Inr (keys, mm1, r2)"
      using "1.prems" False
      by (subst (asm) hash_loop.simps) (auto split: sum.splits prod.splits)
    obtain eh where r2: "r2 = r\<lparr>embed_hashes := eh\<rparr>" using extra_keys_keep [OF g] by blast
    define b where "b = hash_block_tokens (none_hash e) (hash_fn e) prev (slice start (start + bs) (all_token_ids r)) keys"
    have step: "hash_loop e bs n r start mm prev acc = hash_loop e bs n r2 (start + bs) mm1 (Some b) (acc @ [b])"
      using False "1.prems"(2) g by (subst hash_loop.simps) (simp add: b_def Let_def)
    let ?ks = "block_keys e bs n r2 (start + bs) mm1"
    have keys: "block_keys e bs n r start mm = keys # ?ks"
      using False "1.prems"(2) g by (subst block_keys.simps) simp
    have "\<exists>new. hs = (acc @ [b]) @ new \<and> length new = (n - (start + bs)) div bs \<and>
        link e bs (all_token_ids r2) (start + bs) (Some b) new ?ks"
      using "1.IH" [OF False _ g refl refl b_def] "1.prems" step by simp
    then obtain new where n: "hs = acc @ b # new" "length new = (n - (start + bs)) div bs"
      "link e bs (all_token_ids r) (start + bs) (Some b) new ?ks"
      using r2 by auto
    have "length (b # new) = (n - start) div bs"
    proof -
      have "n - start = bs + (n - (start + bs))" using False by simp
      moreover have "(bs + m) div bs = Suc (m div bs)" for m using "1.prems"(2) by simp
      ultimately show ?thesis using n(2) by (metis length_Cons)
    qed
    then show ?thesis using n(1) link_Cons [OF n(3) b_def] unfolding keys by blast
  qed
qed

lemma hasher_links:
  assumes "request_block_hasher e bs r = Inr (hs, r1)" "0 < bs" "block_hashes r = []"
  shows "length hs = num_tokens r div bs" "link e bs (all_token_ids r) 0 None hs (block_keys e bs (num_tokens r) r 0 0)"
proof -
  have "length hs = num_tokens r div bs \<and> link e bs (all_token_ids r) 0 None hs (block_keys e bs (num_tokens r) r 0 0)"
  proof (cases "num_tokens r < bs")
    case True
    then show ?thesis using assms by (auto simp: request_block_hasher_def block_keys.simps link_def)
  next
    case False
    then have "hash_loop e bs (num_tokens r) r 0 0 None [] = Inr (hs, r1)"
      using assms(1,3) by (simp add: request_block_hasher_def)
    from hash_loop_links [OF this assms(2)] show ?thesis by simp
  qed
  then show "length hs = num_tokens r div bs" "link e bs (all_token_ids r) 0 None hs (block_keys e bs (num_tokens r) r 0 0)" by blast+
qed

section \<open>A hash identifies its prefix\<close>

text \<open>No two inputs have the same hash, and no hash is the seed or empty.\<close>

definition good_hash :: "hash_env \<Rightarrow> bool" where
  "good_hash e \<longleftrightarrow> inj (hash_fn e) \<and> none_hash e \<notin> range (hash_fn e) \<and> [] \<notin> range (hash_fn e)"

lemma link_eq_prefix:
  assumes "good_hash e" "link e bs toks 0 None hs ks" "link e bs toks2 0 None hs2 ks2"
  shows "i < length hs \<Longrightarrow> j < length hs2 \<Longrightarrow> hs ! i = hs2 ! j \<Longrightarrow>
    i = j \<and> take (Suc i) hs = take (Suc i) hs2 \<and> take (Suc i) ks = take (Suc i) ks2 \<and>
    slice 0 (Suc i * bs) toks = slice 0 (Suc i * bs) toks2"
proof (induction i arbitrary: j)
  have in_range: "hs ! k \<in> range (hash_fn e)" if "k < length hs" for k
    using assms(2) that hash_in_range unfolding link_def by metis
  have in_range2: "hs2 ! k \<in> range (hash_fn e)" if "k < length hs2" for k
    using assms(3) that hash_in_range unfolding link_def by metis
  have no: "[] \<notin> range (hash_fn e)" "none_hash e \<notin> range (hash_fn e)" using assms(1) by (simp_all add: good_hash_def)
  have cell: "hs ! k \<noteq> []" "hs ! k \<noteq> none_hash e" if "k < length hs" for k
    using in_range [OF that] no by metis+
  have cell2: "hs2 ! k \<noteq> []" "hs2 ! k \<noteq> none_hash e" if "k < length hs2" for k
    using in_range2 [OF that] no by metis+
  have at: "hs ! k = hash_fn e (if k = 0 then none_hash e else hs ! (k - 1), slice (k * bs) (Suc k * bs) toks, ks ! k)"
    if "k < length hs" for k
    using assms(2) that cell(1) [of "k - 1"] by (cases k) (auto simp: link_def hash_block_tokens_def)
  have at2: "hs2 ! k = hash_fn e (if k = 0 then none_hash e else hs2 ! (k - 1), slice (k * bs) (Suc k * bs) toks2, ks2 ! k)"
    if "k < length hs2" for k
    using assms(3) that cell2(1) [of "k - 1"] by (cases k) (auto simp: link_def hash_block_tokens_def)
  have inj: "(if i = 0 then none_hash e else hs ! (i - 1)) = (if j = 0 then none_hash e else hs2 ! (j - 1)) \<and>
      slice (i * bs) (Suc i * bs) toks = slice (j * bs) (Suc j * bs) toks2 \<and> ks ! i = ks2 ! j"
    if "i < length hs" "j < length hs2" "hs ! i = hs2 ! j" for i j
    using at [OF that(1)] at2 [OF that(2)] that(3) assms(1) by (auto simp: good_hash_def dest: injD)
  have lens: "length ks = length hs" "length ks2 = length hs2" using assms by (auto simp: link_def)
  {
    case 0
    have "j = 0" using inj [OF 0] cell2(2) [of "j - 1"] 0 by (cases j) auto
    then show ?case using inj [OF 0] 0 lens by (simp add: take_Suc_conv_app_nth)
  next
    case (Suc i)
    have "j \<noteq> 0" using inj [OF Suc.prems] cell(2) [of i] Suc.prems by (cases j) auto
    then obtain l where j: "j = Suc l" by (cases j) auto
    have ih: "i = l \<and> take (Suc i) hs = take (Suc i) hs2 \<and> take (Suc i) ks = take (Suc i) ks2 \<and>
        slice 0 (Suc i * bs) toks = slice 0 (Suc i * bs) toks2"
    proof (rule Suc.IH)
      show "i < length hs" "l < length hs2" using Suc.prems j by simp_all
      show "hs ! i = hs2 ! l" using inj [OF Suc.prems] j by simp
    qed
    have "slice 0 (Suc (Suc i) * bs) t = slice 0 (Suc i * bs) t @ slice (Suc i * bs) (Suc (Suc i) * bs) t" for t :: "int list"
      by (rule slice_join [symmetric]) simp_all
    moreover have "slice (Suc i * bs) (Suc (Suc i) * bs) toks = slice (Suc i * bs) (Suc (Suc i) * bs) toks2"
      using inj [OF Suc.prems] conjunct1 [OF ih] unfolding j by blast
    ultimately have "slice 0 (Suc (Suc i) * bs) toks = slice 0 (Suc (Suc i) * bs) toks2"
      using ih by metis
    moreover have "take (Suc (Suc i)) hs = take (Suc i) hs @ [hs ! Suc i]" "take (Suc (Suc i)) ks = take (Suc i) ks @ [ks ! Suc i]"
      "take (Suc (Suc i)) hs2 = take (Suc i) hs2 @ [hs2 ! j]" "take (Suc (Suc i)) ks2 = take (Suc i) ks2 @ [ks2 ! j]"
      using Suc.prems(1,2) lens j ih by (simp_all add: take_Suc_conv_app_nth)
    moreover have "hs ! Suc i = hs2 ! j" "ks ! Suc i = ks2 ! j" using inj [OF Suc.prems] Suc.prems by simp_all
    ultimately show ?case using ih unfolding j by metis
  }
qed

text \<open>
  C6. With a hash function free of collisions a block hash identifies the whole prefix: if two
  requests hashed from their beginning have a hash in common, it is at the same position, all hashes
  before it agree, the tokens up to the end of the block are the same, and so are the extra keys
  (inputs, adapter, salt, embeddings) of every block up to it.
\<close>
theorem hash_identifies_prefix:
  assumes "good_hash e" "0 < bs" "block_hashes r = []" "block_hashes s = []"
    and "request_block_hasher e bs r = Inr (hs, r1)" "request_block_hasher e bs s = Inr (gs, s1)"
    and "i < length hs" "j < length gs" "hs ! i = gs ! j"
  shows "i = j \<and> take (Suc i) hs = take (Suc i) gs \<and>
    take (Suc i * bs) (all_token_ids r) = take (Suc i * bs) (all_token_ids s) \<and>
    take (Suc i) (block_keys e bs (num_tokens r) r 0 0) = take (Suc i) (block_keys e bs (num_tokens s) s 0 0)"
  using link_eq_prefix [OF assms(1) hasher_links(2) [OF assms(5,2,3)] hasher_links(2) [OF assms(6,2,4)] assms(7,8,9)]
  unfolding take_as_slice [of "Suc i * bs"] by blast

instance extra_key :: countable
  by countable_datatype

text \<open>An encoding of all inputs as bytes, which is injective.\<close>

definition code_hash :: block_hasher where
  "code_hash x = replicate (Suc (to_nat x)) 1"

definition code_env :: hash_env where
  "code_env = \<lparr>none_hash = [0], hash_fn = code_hash, tensor_bytes = concat, embed_sha = id\<rparr>"

definition text_request :: "int list \<Rightarrow> hash_request" where
  "text_request ts = \<lparr>mm_features = [], lora_name = None, cache_salt = None, prompt_embeds = None,
     embed_hashes = [], all_token_ids = ts, num_tokens = length ts, block_hashes = []\<rparr>"

lemma code_env_good: "good_hash code_env"
  by (auto simp: good_hash_def code_env_def code_hash_def inj_def replicate_eq_replicate Cons_replicate_eq)

lemma text_request_sel [simp]:
  "mm_features (text_request ts) = []" "lora_name (text_request ts) = None" "cache_salt (text_request ts) = None"
  "prompt_embeds (text_request ts) = None" "all_token_ids (text_request ts) = ts"
  "num_tokens (text_request ts) = length ts" "block_hashes (text_request ts) = []"
  by (simp_all add: text_request_def)

lemma text_keys:
  "mm_features r = [] \<Longrightarrow> lora_name r = None \<Longrightarrow> cache_salt r = None \<Longrightarrow> prompt_embeds r = None \<Longrightarrow>
   generate_block_hash_extra_keys td sha r a b mm = Inr (None, mm, r)"
  by (simp add: generate_block_hash_extra_keys_def gen_mm_extra_hash_keys_def gen_lora_extra_hash_keys_def
      salt_keys_def gen_prompt_embeds_extra_hash_keys_def)

theorem hash_identifies_prefix_witness:
  "\<exists>hs gs q. request_block_hasher code_env 2 (text_request [1, 2, 3, 4]) = Inr (hs, text_request [1, 2, 3, 4]) \<and>
     request_block_hasher code_env 2 (text_request [1, 2, 9]) = Inr (gs, q) \<and> hs ! 0 = gs ! 0 \<and>
     take (Suc 0 * 2) (all_token_ids (text_request [1, 2, 3, 4])) = take (Suc 0 * 2) (all_token_ids (text_request [1, 2, 9]))"
proof -
  define a where "a = hash_block_tokens (none_hash code_env) (hash_fn code_env) None [1, 2] None"
  have r: "request_block_hasher code_env 2 (text_request [1, 2, 3, 4]) =
      Inr ([a, hash_block_tokens (none_hash code_env) (hash_fn code_env) (Some a) [3, 4] None], text_request [1, 2, 3, 4])"
    by (simp add: request_block_hasher_def hash_loop.simps text_keys slice_def a_def Let_def)
  have s: "request_block_hasher code_env 2 (text_request [1, 2, 9]) = Inr ([a], text_request [1, 2, 9])"
    by (simp add: request_block_hasher_def hash_loop.simps text_keys slice_def a_def Let_def)
  show ?thesis
    using hash_identifies_prefix [OF code_env_good _ _ _ r s, of 0 0] r s by auto
qed

section \<open>A growing request\<close>

text \<open>The same request with other tokens and other hashes known.\<close>

definition grow :: "int list \<Rightarrow> nat \<Rightarrow> bytes list \<Rightarrow> hash_request \<Rightarrow> hash_request" where
  "grow T N B r = r\<lparr>all_token_ids := T, num_tokens := N, block_hashes := B\<rparr>"

lemma grow_sel [simp]:
  "mm_features (grow T N B r) = mm_features r" "lora_name (grow T N B r) = lora_name r"
  "cache_salt (grow T N B r) = cache_salt r" "prompt_embeds (grow T N B r) = prompt_embeds r"
  "embed_hashes (grow T N B r) = embed_hashes r" "all_token_ids (grow T N B r) = T"
  "num_tokens (grow T N B r) = N" "block_hashes (grow T N B r) = B"
  "grow T N B r\<lparr>embed_hashes := eh\<rparr> = grow T N B (r\<lparr>embed_hashes := eh\<rparr>)"
  "grow T N B (grow T' N' B' r) = grow T N B r"
  by (simp_all add: grow_def)

lemma extra_keys_grow:
  "generate_block_hash_extra_keys td sha (grow T N B r) a b mm =
    rbind (generate_block_hash_extra_keys td sha r a b mm) (\<lambda>(ks, mm1, r1). Inr (ks, mm1, grow T N B r1))"
  by (cases "gen_mm_extra_hash_keys r (int a) (int b) mm")
    (auto simp: generate_block_hash_extra_keys_def gen_mm_extra_hash_keys_def gen_lora_extra_hash_keys_def
      salt_keys_def gen_prompt_embeds_extra_hash_keys_def Let_def split: option.splits if_splits)

text \<open>
  An index into the inputs is usable at a position when the last input has ended there, or
  the index is one of a remaining input or stands for the last one.
\<close>

definition usable_index :: "mm_feature list \<Rightarrow> nat \<Rightarrow> int \<Rightarrow> bool" where
  "usable_index fs start m \<longleftrightarrow> fs = [] \<or> mm_offset (last fs) + mm_length (last fs) \<le> int start \<or>
     m = - 1 \<or> (0 \<le> m \<and> m < int (length fs))"

lemma mm_loop_index:
  "mm_loop fs a b i ks = Inr (ls, j) \<Longrightarrow> i \<le> length fs \<Longrightarrow> a \<le> b \<Longrightarrow>
   0 \<le> j \<and> j \<le> int (length fs) \<and> (i < length fs \<and> j = int (length fs) \<longrightarrow>
     mm_offset (last fs) + mm_length (last fs) \<le> b)"
proof (induction fs a b i ks rule: mm_loop.induct)
  case (1 fs a b i ks)
  show ?case
  proof (cases "i < length fs")
    case False
    then show ?thesis using "1.prems" by (auto simp: mm_loop.simps)
  next
    case True
    then obtain nm where nm: "mm_identifier (fs ! i) = Some nm"
      using "1.prems"(1) by (auto simp: mm_loop.simps [of fs] split: option.splits)
    let ?o = "mm_offset (fs ! i)" and ?l = "mm_length (fs ! i)"
    have last: "fs ! i = last fs" if "Suc i = length fs"
      using that by (metis Zero_not_Suc diff_Suc_1 last_conv_nth list.size(3))
    consider (pass) "?o < b" "?o + ?l \<le> a" | (through) "?o < b" "\<not> ?o + ?l \<le> a" "?o + ?l \<le> b"
      | (stop) "\<not> (?o < b \<and> ?o + ?l \<le> b)" "\<not> (?o < b \<and> ?o + ?l \<le> a)"
      using "1.prems"(3) by linarith
    then show ?thesis
    proof cases
      case pass
      have "mm_loop fs a b (Suc i) ks = Inr (ls, j)" using "1.prems"(1) True nm pass by (simp add: mm_loop.simps [of fs a b i])
      then have ih: "0 \<le> j \<and> j \<le> int (length fs) \<and> (Suc i < length fs \<and> j = int (length fs) \<longrightarrow>
          mm_offset (last fs) + mm_length (last fs) \<le> b)"
        using "1.IH"(1) [OF _ nm refl refl] True pass "1.prems"(3) by simp
      then show ?thesis using last pass(2) "1.prems"(3) True by (cases "Suc i = length fs") auto
    next
      case through
      have "mm_loop fs a b (Suc i) (ks @ [KeyPair nm (?o - a)]) = Inr (ls, j)"
        using "1.prems"(1) True nm through by (simp add: mm_loop.simps [of fs a b i])
      then have ih: "0 \<le> j \<and> j \<le> int (length fs) \<and> (Suc i < length fs \<and> j = int (length fs) \<longrightarrow>
          mm_offset (last fs) + mm_length (last fs) \<le> b)"
        using "1.IH"(2) [OF _ nm refl refl] True through "1.prems"(3) by simp
      then show ?thesis using last through(3) True by (cases "Suc i = length fs") auto
    next
      case stop
      then have "j = int i" using "1.prems"(1) True nm by (auto simp: mm_loop.simps [of fs a b i] Let_def split: if_splits)
      then show ?thesis using True by simp
    qed
  qed
qed

lemma usable_next:
  assumes "gen_mm_extra_hash_keys r (int a) (int b) m = Inr (ks, m1)" "usable_index (mm_features r) a m" "a \<le> b"
  shows "usable_index (mm_features r) b m1"
proof -
  let ?fs = "mm_features r"
  consider (none) "?fs = []" | (over) "?fs \<noteq> []" "mm_offset (last ?fs) + mm_length (last ?fs) \<le> int a"
    | (live) "?fs \<noteq> []" "\<not> mm_offset (last ?fs) + mm_length (last ?fs) \<le> int a" by blast
  then show ?thesis
  proof cases
    case none
    then show ?thesis by (simp add: usable_index_def)
  next
    case over
    then show ?thesis using assms(3) by (simp add: usable_index_def)
  next
    case live
    define i where "i = nat (if m < 0 then int (length ?fs) + m else m)"
    have "i < length ?fs" "mm_loop ?fs (int a) (int b) i [] = Inr (ks, m1)"
      using assms(1,2) live by (auto simp: gen_mm_extra_hash_keys_def usable_index_def i_def Let_def split: if_splits)
    then show ?thesis using mm_loop_index [of ?fs "int a" "int b" i "[]" ks m1] assms(3)
      by (auto simp: usable_index_def)
  qed
qed

text \<open>All inputs but the last have ended, and are known.\<close>

definition one_open :: "mm_feature list \<Rightarrow> nat \<Rightarrow> bool" where
  "one_open fs start \<longleftrightarrow> (\<forall>f \<in> set fs. mm_identifier f \<noteq> None \<and> 0 \<le> mm_length f) \<and>
     (\<forall>f \<in> set (butlast fs). mm_offset f + mm_length f \<le> int start)"

lemma mm_loop_last:
  assumes "one_open fs s" "s \<le> a" "a < b" "\<not> mm_offset (last fs) + mm_length (last fs) \<le> int a"
  shows "i < length fs \<Longrightarrow> mm_loop fs (int a) (int b) i [] = mm_loop fs (int a) (int b) (length fs - 1) []"
proof (induction "length fs - 1 - i" arbitrary: i)
  case 0
  then have "i = length fs - 1" by simp
  then show ?case by simp
next
  case (Suc k)
  then have i: "Suc i < length fs" by simp
  then have "butlast fs ! i = fs ! i" "i < length (butlast fs)" by (simp_all add: nth_butlast)
  then have f: "fs ! i \<in> set (butlast fs)" by (metis nth_mem)
  then have "fs ! i \<in> set fs" by (rule in_set_butlastD)
  then obtain nm where nm: "mm_identifier (fs ! i) = Some nm" "0 \<le> mm_length (fs ! i)"
    using assms(1) by (auto simp: one_open_def)
  have "mm_offset (fs ! i) + mm_length (fs ! i) \<le> int a" using assms(1,2) f by (fastforce simp: one_open_def)
  then have "mm_loop fs (int a) (int b) i [] = mm_loop fs (int a) (int b) (Suc i) []"
    using nm i assms(3) by (simp add: mm_loop.simps [of fs "int a" "int b" i])
  then show ?case using Suc.hyps(1) [of "Suc i"] Suc.hyps(2) i by simp
qed

lemma gen_mm_same:
  assumes "one_open (mm_features r) s" "s \<le> a" "a < b"
    and "usable_index (mm_features r) a m" "usable_index (mm_features r) a k"
  shows "map_sum id fst (gen_mm_extra_hash_keys r (int a) (int b) m) = map_sum id fst (gen_mm_extra_hash_keys r (int a) (int b) k)"
proof -
  let ?fs = "mm_features r"
  have live: "gen_mm_extra_hash_keys r (int a) (int b) m = mm_loop ?fs (int a) (int b) (length ?fs - 1) []"
    if "?fs \<noteq> []" "\<not> mm_offset (last ?fs) + mm_length (last ?fs) \<le> int a" "usable_index ?fs a m" for m
  proof -
    have ne: "Suc 0 \<le> length ?fs" using that(1) by (simp add: Suc_le_eq)
    have "gen_mm_extra_hash_keys r (int a) (int b) m = mm_loop ?fs (int a) (int b) (nat (if m < 0 then int (length ?fs) + m else m)) []"
      using that ne by (auto simp: gen_mm_extra_hash_keys_def usable_index_def Let_def)
    moreover have "nat (if m < 0 then int (length ?fs) + m else m) < length ?fs"
    proof (cases "m < 0")
      case True
      then have "m = - 1" using that by (simp add: usable_index_def)
      then show ?thesis using that(1) by (cases ?fs) auto
    next
      case False
      then show ?thesis using that by (simp add: usable_index_def)
    qed
    ultimately show ?thesis using mm_loop_last [OF assms(1,2,3) that(2)] by metis
  qed
  show ?thesis
  proof (cases "?fs \<noteq> [] \<and> \<not> mm_offset (last ?fs) + mm_length (last ?fs) \<le> int a")
    case True
    then show ?thesis using live [of m] live [of k] assms(4,5) by metis
  next
    case False
    then have "gen_mm_extra_hash_keys r (int a) (int b) i = Inr ([], i)" for i
      by (auto simp: gen_mm_extra_hash_keys_def Let_def)
    then show ?thesis by simp
  qed
qed

lemma extra_keys_mm:
  "generate_block_hash_extra_keys td sha r a b mm = Inr (ks, mm1, r1) \<Longrightarrow>
   \<exists>ms. gen_mm_extra_hash_keys r (int a) (int b) mm = Inr (ms, mm1)"
  by (cases "gen_prompt_embeds_extra_hash_keys td sha r a b") (auto simp: generate_block_hash_extra_keys_def Let_def)

lemma extra_keys_same:
  assumes "map_sum id fst (gen_mm_extra_hash_keys r (int a) (int b) m) = map_sum id fst (gen_mm_extra_hash_keys r (int a) (int b) k)"
    and "generate_block_hash_extra_keys td sha r a b m = Inr (ks, m1, r1)"
  shows "\<exists>k1. generate_block_hash_extra_keys td sha r a b k = Inr (ks, k1, r1)"
  using assms by (cases "gen_prompt_embeds_extra_hash_keys td sha r a b";
      cases "gen_mm_extra_hash_keys r (int a) (int b) k") (auto simp: generate_block_hash_extra_keys_def Let_def)

lemma hash_loop_step:
  assumes "start + bs \<le> n" "0 < bs"
    and "generate_block_hash_extra_keys (tensor_bytes e) (embed_sha e) r start (start + bs) mm = Inr (ks, mm1, r1)"
  shows "hash_loop e bs n r start mm prev acc = hash_loop e bs n r1 (start + bs) mm1
    (Some (hash_block_tokens (none_hash e) (hash_fn e) prev (slice start (start + bs) (all_token_ids r)) ks))
    (acc @ [hash_block_tokens (none_hash e) (hash_fn e) prev (slice start (start + bs) (all_token_ids r)) ks])"
  using assms by (subst hash_loop.simps) (simp add: Let_def)

lemma hash_loop_done: "n < start + bs \<Longrightarrow> hash_loop e bs n r start mm prev acc = Inr (acc, r)"
  by (subst hash_loop.simps) simp

lemma hash_loop_keys:
  assumes "hash_loop e bs n r start mm prev acc = Inr (hs, q)" "start + bs \<le> n" "0 < bs"
  obtains ks mm1 r1 where "generate_block_hash_extra_keys (tensor_bytes e) (embed_sha e) r start (start + bs) mm = Inr (ks, mm1, r1)"
    "mm_features r1 = mm_features r" "all_token_ids r1 = all_token_ids r"
proof -
  obtain ks mm1 r1 where g:
    "generate_block_hash_extra_keys (tensor_bytes e) (embed_sha e) r start (start + bs) mm = Inr (ks, mm1, r1)"
    using assms by (subst (asm) hash_loop.simps) (auto split: sum.splits prod.splits)
  then obtain eh where "r1 = r\<lparr>embed_hashes := eh\<rparr>" using extra_keys_keep by blast
  then show ?thesis using g that by simp
qed

text \<open>The result does not depend on which usable index the loop starts with, nor on what it collected.\<close>

lemma hash_loop_restart:
  "hash_loop e bs n r start m prev acc = Inr (hs, q) \<Longrightarrow> 0 < bs \<Longrightarrow> one_open (mm_features r) s \<Longrightarrow> s \<le> start \<Longrightarrow>
   usable_index (mm_features r) start m \<Longrightarrow> usable_index (mm_features r) start k \<Longrightarrow>
   \<exists>new. hs = acc @ new \<and> hash_loop e bs n r start k prev acc2 = Inr (acc2 @ new, q)"
proof (induction e bs n r start m prev acc arbitrary: k acc2 rule: hash_loop.induct)
  case (1 e bs n r start m prev acc)
  show ?case
  proof (cases "n < start + bs")
    case True
    then show ?thesis using "1.prems"(1) by (simp add: hash_loop_done)
  next
    case False
    then have le: "start + bs \<le> n" by simp
    obtain ks m1 r1 where g:
      "generate_block_hash_extra_keys (tensor_bytes e) (embed_sha e) r start (start + bs) m = Inr (ks, m1, r1)"
      "mm_features r1 = mm_features r" "all_token_ids r1 = all_token_ids r"
      using hash_loop_keys [OF "1.prems"(1) le "1.prems"(2)] by blast
    have lt: "start < start + bs" using "1.prems"(2) by simp
    obtain k1 where g2:
      "generate_block_hash_extra_keys (tensor_bytes e) (embed_sha e) r start (start + bs) k = Inr (ks, k1, r1)"
      using extra_keys_same [OF gen_mm_same [OF "1.prems"(3,4) lt "1.prems"(5,6)] g(1)] by blast
    define b where "b = hash_block_tokens (none_hash e) (hash_fn e) prev (slice start (start + bs) (all_token_ids r)) ks"
    have s1: "hash_loop e bs n r1 (start + bs) m1 (Some b) (acc @ [b]) = Inr (hs, q)"
      using hash_loop_step [OF le "1.prems"(2) g(1)] "1.prems"(1) by (simp add: b_def)
    have u: "usable_index (mm_features r) (start + bs) m1" "usable_index (mm_features r) (start + bs) k1"
      using extra_keys_mm [OF g(1)] extra_keys_mm [OF g2] usable_next "1.prems"(5,6) lt by (meson less_imp_le)+
    have "\<exists>new. hs = (acc @ [b]) @ new \<and> hash_loop e bs n r1 (start + bs) k1 (Some b) (acc2 @ [b]) = Inr ((acc2 @ [b]) @ new, q)"
      using "1.IH" [OF False _ g(1) refl refl b_def s1, where k = k1 and ?acc2.0 = "acc2 @ [b]"] "1.prems"(2,3,4) u g(2) by simp
    then show ?thesis using hash_loop_step [OF le "1.prems"(2) g2, of prev acc2] by (auto simp: b_def)
  qed
qed

text \<open>A longer request goes through the same blocks first.\<close>

lemma hash_loop_longer:
  "hash_loop e bs n r start m prev acc = Inr (hs, q) \<Longrightarrow> 0 < bs \<Longrightarrow> n \<le> N \<Longrightarrow>
   (\<And>a b. b \<le> n \<Longrightarrow> slice a b T = slice a b (all_token_ids r)) \<Longrightarrow> usable_index (mm_features r) start m \<Longrightarrow>
   \<exists>s k p. hash_loop e bs N (grow T M B r) start m prev acc = hash_loop e bs N (grow T M B q) s k p hs \<and>
     s = start + (length hs - length acc) * bs \<and> length acc \<le> length hs \<and> n < s + bs \<and>
     p = (if length hs = length acc then prev else Some (last hs)) \<and> usable_index (mm_features r) s k \<and>
     mm_features q = mm_features r"
proof (induction e bs n r start m prev acc rule: hash_loop.induct)
  case (1 e bs n r start m prev acc)
  show ?case
  proof (cases "n < start + bs")
    case True
    then show ?thesis using "1.prems" by (auto simp: hash_loop_done)
  next
    case False
    then have le: "start + bs \<le> n" by simp
    obtain ks m1 r1 where g:
      "generate_block_hash_extra_keys (tensor_bytes e) (embed_sha e) r start (start + bs) m = Inr (ks, m1, r1)"
      "mm_features r1 = mm_features r" "all_token_ids r1 = all_token_ids r"
      using hash_loop_keys [OF "1.prems"(1) le "1.prems"(2)] by blast
    define b where "b = hash_block_tokens (none_hash e) (hash_fn e) prev (slice start (start + bs) (all_token_ids r)) ks"
    have s1: "hash_loop e bs n r1 (start + bs) m1 (Some b) (acc @ [b]) = Inr (hs, q)"
      using hash_loop_step [OF le "1.prems"(2) g(1)] "1.prems"(1) by (simp add: b_def)
    have u: "usable_index (mm_features r) (start + bs) m1"
      using extra_keys_mm [OF g(1)] usable_next "1.prems"(5) by (meson le_add1)
    have g2: "generate_block_hash_extra_keys (tensor_bytes e) (embed_sha e) (grow T M B r) start (start + bs) m =
        Inr (ks, m1, grow T M B r1)" using g(1) by (simp add: extra_keys_grow)
    have leN: "start + bs \<le> N" using le "1.prems"(3) by simp
    have sl: "slice start (start + bs) T = slice start (start + bs) (all_token_ids r)" using "1.prems"(4) le by simp
    have run: "hash_loop e bs N (grow T M B r) start m prev acc =
        hash_loop e bs N (grow T M B r1) (start + bs) m1 (Some b) (acc @ [b])"
      using hash_loop_step [OF leN "1.prems"(2) g2, of prev acc] sl by (simp add: b_def)
    from "1.IH" [OF False _ g(1) refl refl b_def s1] "1.prems"(2,3,4) u g(2,3)
    obtain s k p where ih: "hash_loop e bs N (grow T M B r1) (start + bs) m1 (Some b) (acc @ [b]) =
          hash_loop e bs N (grow T M B q) s k p hs"
        "s = start + bs + (length hs - length (acc @ [b])) * bs" "length (acc @ [b]) \<le> length hs" "n < s + bs"
        "p = (if length hs = length (acc @ [b]) then Some b else Some (last hs))"
        "usable_index (mm_features r) s k" "mm_features q = mm_features r" by auto
    have "hs \<noteq> []" using ih(3) by auto
    have "\<exists>new. hs = (acc @ [b]) @ new" using hash_loop_links [OF s1 "1.prems"(2)] by blast
    then have "length hs = length (acc @ [b]) \<Longrightarrow> last hs = b" by auto
    moreover have "s = start + (length hs - length acc) * bs"
    proof -
      have "length hs - length acc = Suc (length hs - length (acc @ [b]))" using ih(3) by simp
      then show ?thesis using ih(2) by simp
    qed
    ultimately show ?thesis using run ih by (intro exI [of _ s] exI [of _ k] exI [of _ p]) auto
  qed
qed

lemma hash_loop_block_hashes:
  "hash_loop e bs n (grow T N B r) start m prev acc = Inr (hs, q) \<Longrightarrow>
   \<exists>q2. hash_loop e bs n (grow T N C r) start m prev acc = Inr (hs, q2)"
proof (induction e bs n "grow T N B r" start m prev acc arbitrary: r rule: hash_loop.induct)
  case (1 e bs n start m prev acc r)
  show ?case
  proof (cases "n < start + bs \<or> bs = 0")
    case True
    then show ?thesis using "1.prems" by (auto simp: hash_loop.simps [of e bs n _ start] split: if_splits)
  next
    case False
    then obtain ks m1 r1 where g:
      "generate_block_hash_extra_keys (tensor_bytes e) (embed_sha e) r start (start + bs) m = Inr (ks, m1, r1)"
      using "1.prems" by (subst (asm) hash_loop.simps) (auto simp: extra_keys_grow split: sum.splits prod.splits)
    have gB: "generate_block_hash_extra_keys (tensor_bytes e) (embed_sha e) (grow T N D r) start (start + bs) m =
        Inr (ks, m1, grow T N D r1)" for D using g by (simp add: extra_keys_grow)
    have le: "start + bs \<le> n" "0 < bs" using False by auto
    define b where "b = hash_block_tokens (none_hash e) (hash_fn e) prev (slice start (start + bs) T) ks"
    have run: "hash_loop e bs n (grow T N D r) start m prev acc = hash_loop e bs n (grow T N D r1) (start + bs) m1 (Some b) (acc @ [b])"
      for D using hash_loop_step [OF le gB [of D], of prev acc] by (simp add: b_def)
    have bT: "b = hash_block_tokens (none_hash e) (hash_fn e) prev (slice start (start + bs) (all_token_ids (grow T N B r))) ks"
      by (simp add: b_def)
    have "hash_loop e bs n (grow T N B r1) (start + bs) m1 (Some b) (acc @ [b]) = Inr (hs, q)"
      using run "1.prems" by simp
    with "1.hyps" [OF _ _ gB refl refl bT] False run show ?thesis by auto
  qed
qed

text \<open>C14. Hashing a request step by step gives the hashes of hashing it at once: the hashes of its first
  tokens, followed by those computed after tokens were appended, are the hashes of the whole, provided
  that all multimodal inputs but the last end within the blocks hashed first, and every input has an
  identifier and a nonnegative length (\<open>one_open\<close>). Without the proviso it fails: \<open>HashLimits\<close>.\<close>
theorem hashing_is_incremental:
  assumes "0 < bs" "block_hashes r = []" "num_tokens r = length (all_token_ids r)"
    and "request_block_hasher e bs r = Inr (hs, q)"
    and "one_open (mm_features r) (length hs * bs)"
    and "request_block_hasher e bs (grow (all_token_ids r @ ts) (num_tokens r + length ts) hs q) = Inr (gs, q2)"
  shows "\<exists>q3. request_block_hasher e bs (grow (all_token_ids r @ ts) (num_tokens r + length ts) [] r) = Inr (hs @ gs, q3)"
proof -
  let ?T = "all_token_ids r @ ts" and ?N = "num_tokens r + length ts" and ?n = "num_tokens r"
  have loop: "request_block_hasher e bs x = hash_loop e bs (num_tokens x) x 0 0 None []" if "block_hashes x = []" for x
    using that by (auto simp: request_block_hasher_def hash_loop_done)
  have first: "hash_loop e bs ?n r 0 0 None [] = Inr (hs, q)" using assms(2,4) loop by simp
  have sl: "slice a b ?T = slice a b (all_token_ids r)" if "b \<le> ?n" for a b
    using that assms(3) by (simp add: slice_append_left)
  have "usable_index (mm_features r) 0 0" by (auto simp: usable_index_def)
  from hash_loop_longer [OF first assms(1) le_add1 sl this, where M = ?N and B = "[]"]
  obtain k where k: "hash_loop e bs ?N (grow ?T ?N [] r) 0 0 None [] =
      hash_loop e bs ?N (grow ?T ?N [] q) (length hs * bs) k (if hs = [] then None else Some (last hs)) hs"
    "usable_index (mm_features r) (length hs * bs) k" "mm_features q = mm_features r" by auto
  let ?s = "length hs * bs"
  let ?m = "if 0 < ?s then - 1 else 0 :: int" and ?p = "if hs = [] then None else Some (last hs)"
  have second: "hash_loop e bs ?N (grow ?T ?N hs q) ?s ?m ?p [] = Inr (gs, q2)"
    using assms(6) by (auto simp: request_block_hasher_def hash_loop_done Let_def split: if_splits)
  from hash_loop_block_hashes [OF second, of "[]"]
  obtain q4 where "hash_loop e bs ?N (grow ?T ?N [] q) ?s ?m ?p [] = Inr (gs, q4)" by blast
  moreover have "usable_index (mm_features r) ?s ?m" by (auto simp: usable_index_def)
  ultimately have "hash_loop e bs ?N (grow ?T ?N [] q) ?s k ?p hs = Inr (hs @ gs, q4)"
    using hash_loop_restart [of e bs ?N "grow ?T ?N [] q" ?s ?m ?p "[]" gs q4 ?s k hs] assms(1,5) k(2,3) by simp
  then show ?thesis using loop [of "grow ?T ?N [] r"] k(1) by auto
qed

theorem hashing_is_incremental_witness:
  "\<exists>a b c q. request_block_hasher code_env 2 (text_request [1, 2, 3]) = Inr ([a], text_request [1, 2, 3]) \<and>
     request_block_hasher code_env 2 (grow ([1, 2, 3] @ [4, 5, 6]) 6 [a] (text_request [1, 2, 3])) = Inr ([b, c], q) \<and>
     (\<exists>q3. request_block_hasher code_env 2 (grow ([1, 2, 3] @ [4, 5, 6]) 6 [] (text_request [1, 2, 3])) = Inr ([a] @ [b, c], q3))"
proof -
  define h where "h p t = hash_block_tokens (none_hash code_env) (hash_fn code_env) p t None" for p t
  define a where "a = h None [1, 2]"
  define b where "b = h (Some a) [3, 4]"
  define c where "c = h (Some b) [5, 6]"
  have r: "request_block_hasher code_env 2 (text_request [1, 2, 3]) = Inr ([a], text_request [1, 2, 3])"
    by (simp add: request_block_hasher_def hash_loop.simps text_keys slice_def a_def h_def Let_def)
  let ?g = "grow ([1, 2, 3] @ [4, 5, 6]) 6 [a] (text_request [1, 2, 3])"
  have s: "request_block_hasher code_env 2 ?g = Inr ([b, c], ?g)"
    by (simp add: request_block_hasher_def hash_loop.simps text_keys slice_def b_def c_def h_def Let_def numeral_eq_Suc)
  have "one_open [] (length [a] * 2)" by (simp add: one_open_def)
  with hashing_is_incremental [of 2 "text_request [1, 2, 3]" code_env "[a]" "text_request [1, 2, 3]" "[4, 5, 6]" "[b, c]" ?g]
  show ?thesis using r s by (auto simp: numeral_eq_Suc)
qed

section \<open>Keys with a group id\<close>

lemma be_int_snoc: "be_int (bs @ [b]) = be_int bs * 256 + uint b"
  by (simp add: be_int_def)

lemma be_bytes_four: "be_bytes 4 k = map word_of_int [k div 256 ^ 3, k div 256 ^ 2, k div 256, k]"
  by (simp add: be_bytes_def numeral_eq_Suc upt_conv_Cons)

lemma be_int_be_bytes:
  assumes "0 \<le> k" "k < 2 ^ 32"
  shows "be_int (be_bytes 4 k) = k"
proof -
  have u: "uint (word_of_int x :: byte) = x mod 256" for x by (simp add: uint_word_of_int)
  define a where "a = k div 256"
  define b where "b = a div 256"
  define c where "c = b div 256"
  have p: "k div 256 ^ 2 = b" "k div 256 ^ 3 = c"
    by (simp_all add: a_def b_def c_def flip: zdiv_zmult2_eq)
  have "c mod 256 = c" using assms by (simp add: a_def b_def c_def flip: zdiv_zmult2_eq)
  moreover have "be_int (be_bytes 4 k) = ((c mod 256 * 256 + b mod 256) * 256 + a mod 256) * 256 + k mod 256"
    unfolding be_bytes_four p by (simp add: be_int_def u a_def)
  moreover have "c * 256 + b mod 256 = b" "b * 256 + a mod 256 = a" "a * 256 + k mod 256 = k"
    by (simp_all add: a_def b_def c_def)
  ultimately show ?thesis by metis
qed

lemma group_key_roundtrip:
  assumes "make_block_hash_with_group_id h g = Inr key"
  shows "get_block_hash key = h \<and> get_group_id key = g"
proof -
  have g: "0 \<le> g" "g < 2 ^ 32" "key = h @ be_bytes 4 g"
    using assms by (auto simp: make_block_hash_with_group_id_def split: if_splits)
  have "length (be_bytes 4 g) = 4" by (simp add: be_bytes_def)
  then show ?thesis using be_int_be_bytes [OF g(1,2)] by (simp add: get_block_hash_def get_group_id_def g(3))
qed

section \<open>Coarser views\<close>

lemma div_of_multiple: "0 < h \<Longrightarrow> h dvd g \<Longrightarrow> n div h div (g div h) = n div (g :: nat)"
  by (metis div_mult2_eq dvd_mult_div_cancel)

lemma view_value:
  assumes "0 < k" "i < length hs div k"
  shows "view_value_at \<lparr>v_hashes = hs, scale_factor = int k\<rparr> (int i) = Inr (hs ! (Suc i * k - 1))"
proof -
  define m where "m = Suc i * k"
  define x where "x = hs ! (m - 1)"
  have "m \<le> length hs" using assms unfolding m_def by (metis Suc_leI less_eq_div_iff_mult_less_eq)
  moreover have "0 < m" using assms(1) by (simp add: m_def)
  ultimately have m: "int m - 1 = int (m - 1)" "m - 1 < length hs" by simp_all
  have k: "(int i + 1) * int k = int m" by (simp add: m_def algebra_simps)
  have "view_value_at \<lparr>v_hashes = hs, scale_factor = int k\<rparr> (int i) = py_index hs ((int i + 1) * int k - 1)"
    by (simp add: view_value_at_def)
  then have "view_value_at \<lparr>v_hashes = hs, scale_factor = int k\<rparr> (int i) = py_index hs (int (m - 1))"
    by (simp only: k m(1))
  moreover have "py_index hs (int (m - 1)) = Inr x" using m(2) unfolding py_index_def Let_def x_def by simp
  ultimately show ?thesis unfolding x_def m_def by simp
qed

lemma view_iter_values:
  assumes "0 < k"
  shows "view_iter \<lparr>v_hashes = hs, scale_factor = int k\<rparr> = Inr (map (\<lambda>i. hs ! (Suc i * k - 1)) [0..<length hs div k])"
proof -
  have r: "py_range 0 (int (length hs) div int k) 1 = map int [0..<length hs div k]"
    by (simp add: py_range_def flip: zdiv_int)
  have "rmap (view_value_at \<lparr>v_hashes = hs, scale_factor = int k\<rparr>) (map int [0..<length hs div k]) =
      Inr (map (\<lambda>j. hs ! (Suc (nat j) * k - 1)) (map int [0..<length hs div k]))"
    by (rule rmap_total) (use view_value [OF assms] in auto)
  then show ?thesis using assms by (simp add: view_iter_def view_len_def r comp_def)
qed

text \<open>
  A hash list as its users see it, be it a plain list or a view: \<open>len\<close>, iteration and
  subscripts. A plain list is sliced as Python slices lists.
\<close>

definition list_len :: "hash_list \<Rightarrow> hash_error + int" where
  "list_len l = (case l of Raw hs \<Rightarrow> Inr (int (length hs)) | View v \<Rightarrow> view_len v)"

definition list_iter :: "hash_list \<Rightarrow> hash_error + bytes list" where
  "list_iter l = (case l of Raw hs \<Rightarrow> Inr hs | View v \<Rightarrow> view_iter v)"

definition py_slice :: "'a list \<Rightarrow> int option \<Rightarrow> int option \<Rightarrow> int option \<Rightarrow> hash_error + 'a list" where
  "py_slice xs b e k = rbind (slice_indices b e k (int (length xs)))
     (\<lambda>(b, e, k). rmap (py_index xs) (py_range b e k))"

definition list_getitem :: "hash_list \<Rightarrow> py_subscript \<Rightarrow> hash_error + hash_item" where
  "list_getitem l i = (case l of
     View v \<Rightarrow> view_getitem v i
   | Raw hs \<Rightarrow> (case i of
       At k \<Rightarrow> rbind (py_index hs k) (\<lambda>h. Inr (OneHash h))
     | Slice b e k \<Rightarrow> rbind (py_slice hs b e k) (\<lambda>xs. Inr (ManyHashes xs))
     | OtherIndex \<Rightarrow> Inl HashTypeError))"

lemma py_index_nth: "i < length xs \<Longrightarrow> py_index xs (int i) = Inr (xs ! i)"
  by (simp add: py_index_def)

text \<open>The positions of a slice are positions of the list.\<close>

lemma slice_in_range:
  assumes "slice_indices b e k (int n) = Inr (b1, e1, k1)" "i \<in> set (py_range b1 e1 k1)"
  shows "0 \<le> i \<and> i < int n"
proof (cases "0 < k1")
  case True
  have bounds: "0 \<le> b1" "e1 \<le> int n"
    using assms(1) True
    by (auto simp: slice_indices_def clamp_index_def Let_def split: option.splits if_splits)
  obtain j where j: "i = b1 + int j * k1" "int j < (e1 - b1 + k1 - 1) div k1"
    using assms(2) True by (auto simp: py_range_def)
  have "(int j + 1) * k1 \<le> (e1 - b1 + k1 - 1) div k1 * k1"
    using j(2) True by (intro mult_right_mono) simp_all
  also have "\<dots> \<le> e1 - b1 + k1 - 1"
    using pos_mod_sign [OF True, of "e1 - b1 + k1 - 1"] div_mult_mod_eq [of "e1 - b1 + k1 - 1" k1] by linarith
  finally have "i < e1" using j(1) by (simp add: algebra_simps)
  moreover have "0 \<le> int j * k1" using True by simp
  ultimately show ?thesis using bounds j(1) by linarith
next
  case False
  have bounds: "b1 \<le> int n - 1" "- 1 \<le> e1" "k1 < 0"
    using assms(1) False
    by (auto simp: slice_indices_def clamp_index_def Let_def split: option.splits if_splits)
  have "i \<in> (\<lambda>j. b1 + int j * k1) ` {0..<nat ((b1 - e1 - k1 - 1) div (- k1))}"
    using assms(2) False by (simp add: py_range_def)
  then obtain j where "i = b1 + int j * k1" "j \<in> {0..<nat ((b1 - e1 - k1 - 1) div (- k1))}" by (rule imageE)
  then have j: "i = b1 + int j * k1" "int j < (b1 - e1 - k1 - 1) div (- k1)" by (simp_all only: atLeastLessThan_iff) linarith+
  have pos: "0 < - k1" using bounds(3) by simp
  have "(int j + 1) * (- k1) \<le> (b1 - e1 - k1 - 1) div (- k1) * (- k1)"
    using j(2) pos by (intro mult_right_mono) simp_all
  also have "\<dots> \<le> b1 - e1 - k1 - 1"
    using pos_mod_sign [OF pos, of "b1 - e1 - k1 - 1"] div_mult_mod_eq [of "b1 - e1 - k1 - 1" "- k1"] by linarith
  finally have "e1 < i" using j(1) by (simp add: algebra_simps)
  moreover have "int j * k1 \<le> 0" using bounds(3) by (simp add: mult_nonneg_nonpos)
  ultimately show ?thesis using bounds j(1) by linarith
qed

lemma view_slice:
  assumes "0 < k"
  shows "view_getitem \<lparr>v_hashes = hs, scale_factor = int k\<rparr> (Slice b e step) =
    rbind (py_slice (map (\<lambda>i. hs ! (Suc i * k - 1)) [0..<length hs div k]) b e step) (\<lambda>xs. Inr (ManyHashes xs))"
proof -
  let ?v = "\<lparr>v_hashes = hs, scale_factor = int k\<rparr>" and ?xs = "map (\<lambda>i. hs ! (Suc i * k - 1)) [0..<length hs div k]"
  have len: "view_len ?v = Inr (int (length ?xs))" using assms by (simp add: view_len_def zdiv_int)
  show ?thesis
  proof (cases "slice_indices b e step (int (length ?xs))")
    case (Inl err)
    then show ?thesis using len by (simp add: view_getitem_def py_slice_def)
  next
    case (Inr p)
    obtain b1 e1 k1 where p: "p = (b1, e1, k1)" by (cases p)
    have "view_value_at ?v i = py_index ?xs i" if h: "i \<in> set (py_range b1 e1 k1)" for i
    proof -
      have in_range: "0 \<le> i \<and> i < int (length ?xs)" by (rule slice_in_range [OF Inr [unfolded p] h])
      then obtain m where "i = int m" by (elim conjE) (rule nonneg_int_cases)
      with in_range have "i = int m" "m < length hs div k" by simp_all
      then show ?thesis using view_value [OF assms] py_index_nth [of m ?xs] by simp
    qed
    then have "rmap (view_value_at ?v) (py_range b1 e1 k1) = rmap (py_index ?xs) (py_range b1 e1 k1)"
      by (intro rmap_cong) simp_all
    then show ?thesis using len Inr p by (simp add: view_getitem_def py_slice_def)
  qed
qed

text \<open>
  C27. The hashes of a request, viewed at a block size that is a multiple of the size they were
  computed at, are a list with one hash for every full block of that size, and the hash of a block
  is the one of the chain that covers the tokens up to the end of the block: the view has the
  length of that list, iterates over it, gives its item at every position from the front, and is
  sliced as that list is, with whatever bounds and step. Negative positions are left out: there
  the view counts hashes instead of blocks (\<open>HashLimits\<close>).
\<close>
theorem view_covers_blocks:
  assumes "0 < h" "0 < g" "h dvd g" "block_hashes r = []" "request_block_hasher e h r = Inr (hs, q)"
    and "bs = map (\<lambda>i. hs ! (Suc i * (g div h) - 1)) [0..<num_tokens r div g]"
  shows "\<exists>l. resolve_block_hashes (Raw hs) (int h) (int g) False None = Inr l \<and>
    list_len l = Inr (int (num_tokens r div g)) \<and> list_iter l = Inr bs \<and>
    (\<forall>i < num_tokens r div g. list_getitem l (At (int i)) = Inr (OneHash (bs ! i))) \<and>
    (\<forall>b e k. list_getitem l (Slice b e k) = rbind (py_slice bs b e k) (\<lambda>xs. Inr (ManyHashes xs))) \<and>
    link e h (all_token_ids r) 0 None hs (block_keys e h (num_tokens r) r 0 0)"
proof -
  have len: "length hs = num_tokens r div h"
    and ks: "link e h (all_token_ids r) 0 None hs (block_keys e h (num_tokens r) r 0 0)"
    using hasher_links [OF assms(5,1,4)] by blast+
  have n: "length hs div (g div h) = num_tokens r div g" using len div_of_multiple [OF assms(1,3)] by simp
  show ?thesis
  proof (cases "g = h")
    case True
    then have "bs = hs" using assms(1,6) len map_nth [of hs] by simp
    then show ?thesis using True ks len
      by (simp add: resolve_block_hashes_def list_iter_def list_len_def list_getitem_def py_index_nth)
  next
    case False
    let ?k = "g div h"
    have k: "0 < ?k" using assms(1,2,3) by (simp add: div_greater_zero_iff dvd_imp_le)
    have view: "resolve_block_hashes (Raw hs) (int h) (int g) False None =
        Inr (View \<lparr>v_hashes = hs, scale_factor = int ?k\<rparr>)"
      using False assms(1,3) by (simp add: resolve_block_hashes_def new_view_def zdiv_int flip: of_nat_mod)
    have bs: "bs = map (\<lambda>i. hs ! (Suc i * ?k - 1)) [0..<length hs div ?k]" using assms(6) n by simp
    have "view_len \<lparr>v_hashes = hs, scale_factor = int ?k\<rparr> = Inr (int (num_tokens r div g))"
      using k n by (simp add: view_len_def flip: zdiv_int)
    moreover have "view_getitem \<lparr>v_hashes = hs, scale_factor = int ?k\<rparr> (At (int i)) = Inr (OneHash (bs ! i))"
      if hi: "i < num_tokens r div g" for i
      using view_value [OF k, of i hs] hi n bs by (simp add: view_getitem_def)
    ultimately show ?thesis
      using view view_iter_values [OF k, of hs, folded bs] view_slice [OF k, of hs, folded bs] ks
      by (simp add: list_iter_def list_len_def list_getitem_def)
  qed
qed

theorem view_covers_blocks_witness:
  "\<exists>hs l. request_block_hasher code_env 2 (text_request [1, 2, 3, 4, 5, 6]) = Inr (hs, text_request [1, 2, 3, 4, 5, 6]) \<and>
     resolve_block_hashes (Raw hs) (int 2) (int 4) False None = Inr l \<and>
     list_len l = Inr 1 \<and> list_iter l = Inr [hs ! 1] \<and> list_getitem l (At 0) = Inr (OneHash (hs ! 1))"
proof -
  define h where "h p t = hash_block_tokens (none_hash code_env) (hash_fn code_env) p t None" for p t
  have r: "request_block_hasher code_env 2 (text_request [1, 2, 3, 4, 5, 6]) =
      Inr ([h None [1, 2], h (Some (h None [1, 2])) [3, 4], h (Some (h (Some (h None [1, 2])) [3, 4])) [5, 6]],
        text_request [1, 2, 3, 4, 5, 6])"
    by (simp add: request_block_hasher_def hash_loop.simps text_keys slice_def h_def Let_def numeral_eq_Suc)
  have "(2 :: nat) dvd 4" by simp
  from view_covers_blocks [OF _ _ this _ r refl] r show ?thesis by auto
qed

section \<open>Block sizes\<close>

lemma block_sizes_divide:
  assumes "resolve_kv_cache_block_sizes gs cfg = Inr (sched, h)" "1 < length gs"
  shows "(\<forall>g \<in> set gs. group_block_size cfg g dvd sched) \<and>
    (\<forall>m. (\<forall>g \<in> set gs. group_block_size cfg g dvd m) \<longrightarrow> sched dvd m) \<and>
    (h = sched \<or> (\<forall>g \<in> set gs. h dvd group_block_size cfg g))"
proof -
  have s: "sched = Lcm (set (map (group_block_size cfg) gs))"
    using assms by (auto simp: resolve_kv_cache_block_sizes_def Let_def split: if_splits)
  have "h = sched \<or> (\<forall>b \<in> set (map (group_block_size cfg) gs). b mod h = 0)"
    using assms by (auto simp: resolve_kv_cache_block_sizes_def Let_def split: if_splits)
  then show ?thesis unfolding s by (auto simp: mod_eq_0_iff_dvd intro: Lcm_least)
qed

end
