(* ===== verification/HashLimits.thy ===== *)
theory HashLimits
  imports HashProps
begin

text \<open>
  Three limits of the block hashes that the model makes visible: an input of the last
  partial block of a prompt can be left out of the keys, a LoRA name and a cache salt are
  the same key, and a view's negative index counts hashes instead of blocks.
\<close>

section \<open>Several inputs in the last partial block\<close>

text \<open>A prompt of 7 tokens with two inputs behind its only full block of 4 tokens.\<close>

definition image_request :: "string \<Rightarrow> nat \<Rightarrow> bytes list \<Rightarrow> hash_request" where
  "image_request x n hs = \<lparr>mm_features = [\<lparr>mm_identifier = Some x, mm_offset = 4, mm_length = 1\<rparr>,
       \<lparr>mm_identifier = Some ''B'', mm_offset = 6, mm_length = 1\<rparr>], lora_name = None, cache_salt = None,
     prompt_embeds = None, embed_hashes = [], all_token_ids = replicate n 0, num_tokens = n, block_hashes = hs\<rparr>"

lemma image_keys:
  "generate_block_hash_extra_keys td sha (image_request x n hs) 0 4 0 = Inr (None, 0, image_request x n hs)"
  "generate_block_hash_extra_keys td sha (image_request x n hs) 4 8 0 =
     Inr (Some [KeyPair x 0, KeyPair ''B'' 2], 2, image_request x n hs)"
  "generate_block_hash_extra_keys td sha (image_request x n hs) 4 8 (- 1) =
     Inr (Some [KeyPair ''B'' 2], 2, image_request x n hs)"
  by (simp_all add: generate_block_hash_extra_keys_def gen_mm_extra_hash_keys_def gen_lora_extra_hash_keys_def
      salt_keys_def gen_prompt_embeds_extra_hash_keys_def image_request_def mm_loop.simps)

text \<open>
  Hashed at once, the second block of the 8 tokens depends on the first input; hashed after
  the prompt, it does not, whatever the input is.
\<close>

lemma tail_block_misses_input:
  defines "h \<equiv> \<lambda>e p ks. hash_block_tokens (none_hash e) (hash_fn e) p [0, 0, 0, 0] ks"
  shows "request_block_hasher e 4 (image_request x 7 []) = Inr ([h e None None], image_request x 7 []) \<and>
    request_block_hasher e 4 (image_request x 8 [h e None None]) =
      Inr ([h e (Some (h e None None)) (Some [KeyPair ''B'' 2])], image_request x 8 [h e None None]) \<and>
    request_block_hasher e 4 (image_request x 8 []) =
      Inr ([h e None None, h e (Some (h e None None)) (Some [KeyPair x 0, KeyPair ''B'' 2])], image_request x 8 [])"
proof -
  have sel: "num_tokens (image_request x n hs) = n" "block_hashes (image_request x n hs) = hs"
    "all_token_ids (image_request x n hs) = replicate n 0" for n hs by (simp_all add: image_request_def)
  have sl: "slice 0 4 (replicate 7 0) = [0, 0, 0, 0 :: int]" "slice 0 4 (replicate 8 0) = [0, 0, 0, 0 :: int]"
    "slice 4 8 (replicate 8 0) = [0, 0, 0, 0 :: int]" by (simp_all add: slice_def numeral_eq_Suc)
  show ?thesis
    by (simp add: request_block_hasher_def hash_loop.simps sel sl image_keys h_def Let_def)
qed

section \<open>A LoRA name and a salt\<close>

definition keyed_request :: "string option \<Rightarrow> string option \<Rightarrow> int list \<Rightarrow> hash_request" where
  "keyed_request lora salt ts = (text_request ts)\<lparr>lora_name := lora, cache_salt := salt\<rparr>"

text \<open>The first block of a request for the adapter \<open>x\<close> has the hash of a base request with the salt \<open>x\<close>.\<close>

lemma lora_name_equals_salt:
  assumes "x \<noteq> []" "0 < length ts"
  shows "\<exists>b q q2. request_block_hasher e (length ts) (keyed_request (Some x) None ts) = Inr ([b], q) \<and>
    request_block_hasher e (length ts) (keyed_request None (Some x) ts) = Inr ([b], q2)"
proof -
  have sel: "num_tokens (keyed_request l s ts) = length ts" "block_hashes (keyed_request l s ts) = []"
    "all_token_ids (keyed_request l s ts) = ts" for l s by (simp_all add: keyed_request_def)
  have k: "generate_block_hash_extra_keys td sha (keyed_request (Some x) None ts) 0 n 0 =
      Inr (Some [KeyText x], 0, keyed_request (Some x) None ts)"
    "generate_block_hash_extra_keys td sha (keyed_request None (Some x) ts) 0 n 0 =
      Inr (Some [KeyText x], 0, keyed_request None (Some x) ts)" for td sha n
    using assms(1) by (simp_all add: generate_block_hash_extra_keys_def gen_mm_extra_hash_keys_def
        gen_lora_extra_hash_keys_def salt_keys_def gen_prompt_embeds_extra_hash_keys_def keyed_request_def)
  show ?thesis using assms(2)
    by (simp add: request_block_hasher_def hash_loop.simps [of e "length ts" "length ts" _ 0]
        hash_loop.simps [of e "length ts" "length ts" _ "length ts"] sel k Let_def)
qed

section \<open>The last block of a view\<close>

text \<open>
  With three hashes and two hashes to a block, iteration yields one block, and the index
  \<open>-1\<close> gives the third hash, which belongs to no full block.
\<close>

lemma last_of_view:
  "view_iter \<lparr>v_hashes = [a, b, c], scale_factor = 2\<rparr> = Inr [b] \<and>
   view_getitem \<lparr>v_hashes = [a, b, c], scale_factor = 2\<rparr> (At (- 1)) = Inr (OneHash c)"
  by (simp add: view_iter_def view_len_def py_range_def view_value_at_def py_index_def view_getitem_def)

end
