(* ===== verification/KVPlacement.thy ===== *)
theory KVPlacement
  imports KVLayout KVWell Buckets
begin

text \<open>
  The pages of the cache do not overlap: for the layouts that put the layer and the block
  axis outside the page, every page of every layer of a group lies inside its allocation
  and apart from every other page of the group.
\<close>

section \<open>Layers and layouts the statement is about\<close>

definition inner_bytes :: "layer_spec \<Rightarrow> int" where
  "inner_bytes s = layer_heads s * layer_states s (layer_block_size s) * layer_content_bytes s"

lemma padded_sizeD: "padded_size pd n = Inr p \<Longrightarrow> n \<le> p \<and> (pd = None \<longrightarrow> p = n) \<and> (\<forall>q. pd = Some q \<longrightarrow> p = q)"
  by (auto simp: padded_size_def split: option.splits if_splits)

lemma good_padding:
  assumes "good_layer s"
  shows "\<exists>pd. padded_page s = Inr pd \<and> inner_bytes s \<le> page_of s \<and> (pd = None \<longrightarrow> page_of s = inner_bytes s) \<and>
    (\<forall>q. pd = Some q \<longrightarrow> q = page_of s)"
proof (cases "\<exists>m. s = Mamba m")
  case True
  then obtain m where m: "s = Mamba m" by blast
  have "mamba_page_size m = Inr (page_of s)" using good_page [OF assms] by (simp add: m layer_page_size_def)
  moreover have "inner_bytes s = mamba_state_bytes m" using assms
    by (simp add: m inner_bytes_def good_layer_def layer_heads_def layer_states_def layer_content_bytes_def kernel_states_def)
  ultimately show ?thesis using padded_sizeD by (fastforce simp: m padded_page_def mamba_page_size_def)
next
  case False
  then obtain a where a: "attn_of s = Some a" by (cases s) auto
  have ib: "inner_bytes s = unpadded_page_size a" using False a
    by (cases s) (auto simp: inner_bytes_def layer_heads_def layer_states_def layer_content_bytes_def
        unpadded_page_size_def layer_block_size_def)
  have pp: "padded_page s = (if (case mla_of s of Some m \<Rightarrow> page_tail m \<noteq> 0 | None \<Rightarrow> False)
      then Inr (Some (page_of s)) else Inr (a_page_padded a))"
    using good_page [OF assms] False a by (cases s) (auto simp: padded_page_def)
  show ?thesis
  proof (cases "mla_of s")
    case None
    then have "attn_page_size a = Inr (page_of s)" using good_page [OF assms] a False
      by (cases s) (auto simp: layer_page_size_def)
    then show ?thesis using padded_sizeD None by (fastforce simp: pp ib attn_page_size_def)
  next
    case (Some m)
    then have "mla_page_size a m = Inr (page_of s)" using good_page [OF assms] a
      by (cases s) (auto simp: layer_page_size_def)
    then obtain p where p: "attn_page_size a = Inr p" "p + a_block_size a * page_tail m = page_of s"
      by (auto simp: mla_page_size_def)
    have "0 \<le> page_tail m" "0 < a_block_size a" using assms Some a
      by (cases s; auto simp: good_layer_def layer_block_size_def)+
    then have "p \<le> page_of s" using p(2) mult_nonneg_nonneg [of "a_block_size a" "page_tail m"] by linarith
    then show ?thesis using p padded_sizeD [of "a_page_padded a" "unpadded_page_size a" p] Some
      by (auto simp: pp ib attn_page_size_def)
  qed
qed

text \<open>Layer and block axes first, in either order.\<close>

definition page_order :: "nat list \<Rightarrow> bool" where
  "page_order order \<longleftrightarrow> distinct order \<and> set order = {0, 1, 2, 3, 4} \<and> (take 2 order = [0, 1] \<or> take 2 order = [1, 0])"

lemma page_order_cases:
  assumes "page_order order"
  obtains x y z where "order = [0, 1, x, y, z] \<or> order = [1, 0, x, y, z]" "{x, y, z} = {2, 3, 4}" "distinct [x, y, z]"
proof -
  have "card (set order) = 5" using assms by (simp add: page_order_def)
  then have "length order = 5" using assms distinct_card [of order] by (simp add: page_order_def)
  then obtain a b x y z where o: "order = [a, b, x, y, z]"
    by (auto simp: numeral_eq_Suc length_Suc_conv)
  then have ab: "(a = 0 \<and> b = 1) \<or> (a = 1 \<and> b = 0)" using assms by (auto simp: page_order_def)
  have d: "distinct order" "set order = {0, 1, 2, 3, 4}" using assms by (auto simp: page_order_def)
  have "{x, y, z} = set order - {a, b}" using d(1) by (auto simp: o)
  also have "{a, b} = {0, 1}" using ab by auto
  also have "set order - {0, 1} = {2, 3, 4}" unfolding d(2) by auto
  finally have "{x, y, z} = {2, 3, 4}" .
  moreover have "distinct [x, y, z]" using d(1) by (simp add: o)
  moreover have "order = [0, 1, x, y, z] \<or> order = [1, 0, x, y, z]" using ab by (auto simp only: o)
  ultimately show ?thesis using that by blast
qed

section \<open>Strides\<close>

lemma stride_free:
  "pd = None \<or> i \<noteq> e - 1 \<Longrightarrow> fixed ! d = None \<Longrightarrow>
   stride_step pd e fixed shape (i, d) (st, cur) = Inr (st[d := cur], cur * shape ! d)"
  by (auto simp: stride_step_def split: option.splits)

lemma prod_three:
  fixes f :: "nat \<Rightarrow> int"
  assumes "{x, y, z} = {2, 3, 4 :: nat}" "distinct [x, y, z]"
  shows "f z * f y * f x = f 2 * f 3 * f 4"
proof -
  have "prod f {x, y, z} = f x * (f y * f z)" using assms(2) by simp
  moreover have "prod f {2, 3, 4} = f 2 * (f 3 * f 4)" by simp
  ultimately show ?thesis using assms(1) by (simp add: mult.assoc mult.commute mult.left_commute)
qed

text \<open>The strides of the two outer axes, with the block stride fixed or not.\<close>

lemma outer_strides:
  assumes "good_layer s" "page_order order"
    and "layout_strides s nb nl order None [None, bst, None, None, None] = Inr st"
  shows "st ! 0 = (if hd order = 0 then (case bst of Some f \<Rightarrow> f | None \<Rightarrow> page_of s) * nb else page_of s)"
    and "st ! 1 = (case bst of Some f \<Rightarrow> f | None \<Rightarrow> if hd order = 0 then page_of s else page_of s * nl)"
proof -
  obtain x y z where o: "order = [0, 1, x, y, z] \<or> order = [1, 0, x, y, z]" and xyz: "{x, y, z} = {2, 3, 4}" "distinct [x, y, z]"
    using page_order_cases [OF assms(2)] .
  have mem: "x \<in> {2, 3, 4}" "y \<in> {2, 3, 4}" "z \<in> {2, 3, 4}" using xyz(1) by blast+
  obtain pd where pd: "padded_page s = Inr pd" "inner_bytes s \<le> page_of s" "pd = None \<longrightarrow> page_of s = inner_bytes s"
    "\<forall>q. pd = Some q \<longrightarrow> q = page_of s"
    using good_padding [OF assms(1)] by blast
  let ?fixed = "[None, bst, None, None, None]"
  define sh where "sh = [nb, layer_heads s, layer_states s (layer_block_size s), layer_content_bytes s]"
  define shape where "shape = nl # sh"
  have bs: "0 < layer_block_size s" using assms(1) by (simp add: good_layer_def)
  have shp: "layer_shape_bytes s nb None = Inr sh" using bs by (simp add: layer_shape_bytes_def sh_def Let_def)
  have at: "shape ! 0 = nl" "shape ! 1 = nb" by (simp_all add: shape_def sh_def)
  have inner: "shape ! z * shape ! y * shape ! x = inner_bytes s"
    using prod_three [OF xyz, of "(!) shape"] by (simp add: shape_def sh_def inner_bytes_def)
  have len: "length order = 5" using o by auto
  have pos: "position 0 order = Inr (if hd order = 0 then 0 else 1)" "position (Suc 0) order = Inr (if hd order = 0 then 1 else 0)"
    using o by (auto simp: position_def upt_conv_Cons numeral_eq_Suc)
  have e: "page_grid_end s None order shape pd nl nb = Inr (if pd = None then 0 else 2)"
  proof (cases pd)
    case (Some q)
    have "take 2 order = [0, 1] \<or> take 2 order = [1, 0]" using assms(2) by (simp add: page_order_def)
    then have "prod_list (map (\<lambda>d. shape ! d) (take 2 order)) = nl * nb" using at by auto
    moreover have "max (if hd order = 0 then 0 else 1) (if hd order = 0 then 1 else 0 :: nat) + 1 = 2" by auto
    ultimately show ?thesis using Some pos by (simp add: page_grid_end_def dim_L_def dim_B_def numeral_eq_Suc)
  qed (simp add: page_grid_end_def)
  define pe where "pe = (if pd = None then 0 else 2 :: nat)"
  have free: "?fixed ! x = None" "?fixed ! y = None" "?fixed ! z = None" using mem by auto
  define w where "w = ((replicate 5 0)[z := 1])[y := shape ! z, x := shape ! z * shape ! y]"
  have lenw: "length w = 5" by (simp add: w_def)
  have three: "rfold (stride_step pd pe ?fixed shape) [(4, z), (3, y), (2, x)] (replicate 5 0, 1) = Inr (w, inner_bytes s)"
    using free inner by (simp add: stride_free pe_def w_def)
  have enum: "rev (zip [0..<length order] order) = [(4, z), (3, y), (2, x)] @ [(Suc 0, order ! Suc 0), (0, order ! 0)]"
    using o by (auto simp: upt_conv_Cons numeral_eq_Suc)
  have page: "stride_step pd pe ?fixed shape (Suc 0, d) (w, inner_bytes s) =
      Inr (w[d := (case ?fixed ! d of Some f \<Rightarrow> f | None \<Rightarrow> page_of s)],
        (case ?fixed ! d of Some f \<Rightarrow> f | None \<Rightarrow> page_of s) * shape ! d)" for d
    using pd good_page [OF assms(1)]
    by (cases pd; cases "?fixed ! d") (auto simp: stride_step_def pe_def Let_def)
  have last: "stride_step pd pe ?fixed shape (0, d) (v, cur) =
      Inr (v[d := (case ?fixed ! d of Some f \<Rightarrow> f | None \<Rightarrow> cur)], (case ?fixed ! d of Some f \<Rightarrow> f | None \<Rightarrow> cur) * shape ! d)"
    for d v cur by (auto simp: stride_step_def pe_def Let_def split: option.splits)
  have run: "rbind (rfold (stride_step pd pe ?fixed shape) (rev (zip [0..<length order] order)) (replicate 5 0, 1))
      (\<lambda>(strides, cur). Inr strides) = Inr st"
    using assms(3) shp pd(1) e by (simp add: layout_strides_def shape_def pe_def split: if_splits)
  have "rbind (stride_step pd pe ?fixed shape (Suc 0, order ! Suc 0) (w, inner_bytes s))
      (\<lambda>s1. rbind (stride_step pd pe ?fixed shape (0, order ! 0) s1) (\<lambda>(strides, cur). Inr strides)) = Inr st"
    using run unfolding enum rfold_append three by (auto simp: case_prod_beta')
  then have st: "st = (w[order ! Suc 0 := (case ?fixed ! (order ! Suc 0) of Some f \<Rightarrow> f | None \<Rightarrow> page_of s)])
      [order ! 0 := (case ?fixed ! (order ! 0) of Some f \<Rightarrow> f
        | None \<Rightarrow> (case ?fixed ! (order ! Suc 0) of Some f \<Rightarrow> f | None \<Rightarrow> page_of s) * shape ! (order ! Suc 0))]"
    unfolding page rbind.simps last by simp
  have "order ! 0 = (if hd order = 0 then 0 else 1)" "order ! Suc 0 = (if hd order = 0 then 1 else 0)" using o by auto
  then have "st ! 0 = (if hd order = 0 then (case bst of Some f \<Rightarrow> f | None \<Rightarrow> page_of s) * nb else page_of s) \<and>
    st ! 1 = (case bst of Some f \<Rightarrow> f | None \<Rightarrow> if hd order = 0 then page_of s else page_of s * nl)"
    using lenw at by (cases bst; cases "hd order = 0") (simp_all add: st)
  then show "st ! 0 = (if hd order = 0 then (case bst of Some f \<Rightarrow> f | None \<Rightarrow> page_of s) * nb else page_of s)"
    "st ! 1 = (case bst of Some f \<Rightarrow> f | None \<Rightarrow> if hd order = 0 then page_of s else page_of s * nl)" by blast+
qed

section \<open>One group\<close>

text \<open>The pages of the parts of a group one after the other, and where the \<open>i\<close>-th part begins.\<close>

definition part_bytes :: "layer_spec \<times> string list \<Rightarrow> int" where
  "part_bytes q = int (length (snd q)) * page_of (fst q)"

definition base :: "(layer_spec \<times> string list) list \<Rightarrow> nat \<Rightarrow> int" where
  "base parts i = sum_list (map part_bytes (take i parts))"

definition part_tensor ::
  "bool \<Rightarrow> int \<Rightarrow> int \<Rightarrow> int \<Rightarrow> int \<Rightarrow> layer_spec \<times> string list \<Rightarrow> kv_tensor" where
  "part_tensor interleaved nb S total_size b0 q = (let p = page_of (fst q) in
     \<lparr>t_bytes = total_size, t_layers = snd q, layer_stride = (if interleaved then p else p * nb),
      block_stride = (if interleaved then S else p), t_offset = (if interleaved then b0 else b0 * nb), allocation_id = 0\<rparr>)"

lemma base_Suc: "i < length parts \<Longrightarrow> base parts (Suc i) = base parts i + part_bytes (parts ! i)"
  by (simp add: base_def take_Suc_conv_app_nth)

lemma place_spec_tensor:
  assumes "good_layer s" "page_order order" "0 < nb" "il = (hd order = 1)"
    and "place_spec nb order (if il then Some S else None) tot (s, ns) (ts, b0) = Inr (us, b1)"
  shows "us = ts @ [part_tensor il nb S tot b0 (s, ns)] \<and> b1 = b0 + part_bytes (s, ns)"
proof -
  have p: "layer_page_size s = Inr (page_of s)" "0 < page_of s" using good_page [OF assms(1)] by auto
  have hd: "hd order = 0 \<longleftrightarrow> \<not> il" using page_order_cases [OF assms(2)] assms(4) by (metis list.sel(1) zero_neq_one)
  obtain st where st: "layout_strides s nb (int (length ns)) order None [None, if il then Some S else None, None, None, None] = Inr st"
    using assms(5) by (auto simp: place_spec_def)
  have s0: "st ! 0 = (if il then page_of s else page_of s * nb)" and s1: "st ! 1 = (if il then S else page_of s)"
    using outer_strides [OF assms(1,2) st] hd by auto
  have "max (page_of s * nb) (page_of s) = page_of s * nb" using assms(3) p(2) by simp
  then show ?thesis using assms(5) st p s0 s1
    by (auto simp: place_spec_def part_tensor_def part_bytes_def Let_def)
qed

lemma place_parts:
  assumes "page_order order" "0 < nb" "il = (hd order = 1)"
  shows "rfold (place_spec nb order (if il then Some S else None) tot) parts (ts, b0) = Inr (us, b1) \<Longrightarrow>
    (\<And>q. q \<in> set parts \<Longrightarrow> good_layer (fst q)) \<Longrightarrow>
    us = ts @ map (\<lambda>i. part_tensor il nb S tot (b0 + base parts i) (parts ! i)) [0..<length parts] \<and>
    b1 = b0 + base parts (length parts)"
proof (induction parts arbitrary: ts b0)
  case Nil
  then show ?case by (simp add: base_def)
next
  case (Cons q parts)
  obtain s ns where q: "q = (s, ns)" by fastforce
  obtain vs b2 where one: "place_spec nb order (if il then Some S else None) tot q (ts, b0) = Inr (vs, b2)"
    and rest: "rfold (place_spec nb order (if il then Some S else None) tot) parts (vs, b2) = Inr (us, b1)"
    using Cons.prems(1) by auto
  have v: "vs = ts @ [part_tensor il nb S tot b0 q]" "b2 = b0 + part_bytes q"
    using place_spec_tensor [OF _ assms, of s S tot ns ts b0 vs b2] one Cons.prems(2) [of q] by (auto simp: q)
  have shift: "base (q # parts) (Suc i) = part_bytes q + base parts i" for i by (simp add: base_def)
  have "map (\<lambda>i. part_tensor il nb S tot (b0 + base (q # parts) i) ((q # parts) ! i)) [0..<length (q # parts)] =
      part_tensor il nb S tot b0 q # map (\<lambda>i. part_tensor il nb S tot (b2 + base parts i) (parts ! i)) [0..<length parts]"
    by (simp add: upt_conv_Cons map_Suc_upt [symmetric] shift v(2) add.assoc comp_def base_def del: upt_Suc)
  then show ?case using Cons.IH [OF rest] Cons.prems(2) v by (auto simp: base_def)
qed

text \<open>Where a page begins, and that the pages of several tensors are in place and apart.\<close>

definition page_start :: "kv_tensor \<Rightarrow> nat \<Rightarrow> nat \<Rightarrow> int" where
  "page_start t l b = t_offset t + int l * layer_stride t + int b * block_stride t"

definition pages_ok :: "nat \<Rightarrow> kv_tensor list \<Rightarrow> int list \<Rightarrow> bool" where
  "pages_ok nb ts ps \<longleftrightarrow> length ps = length ts \<and>
     (\<forall>i < length ts. \<forall>l < length (t_layers (ts ! i)). \<forall>b < nb.
        0 \<le> page_start (ts ! i) l b \<and> page_start (ts ! i) l b + ps ! i \<le> t_bytes (ts ! i)) \<and>
     (\<forall>i < length ts. \<forall>l < length (t_layers (ts ! i)). \<forall>b < nb.
      \<forall>j < length ts. \<forall>m < length (t_layers (ts ! j)). \<forall>c < nb.
        (i, l, b) = (j, m, c) \<or> allocation_id (ts ! i) \<noteq> allocation_id (ts ! j) \<or>
        page_start (ts ! i) l b + ps ! i \<le> page_start (ts ! j) m c \<or>
        page_start (ts ! j) m c + ps ! j \<le> page_start (ts ! i) l b)"

lemma base_mono: "(\<And>q. q \<in> set parts \<Longrightarrow> 0 \<le> part_bytes q) \<Longrightarrow> i \<le> j \<Longrightarrow> base parts i \<le> base parts j"
proof -
  assume nn: "\<And>q. q \<in> set parts \<Longrightarrow> 0 \<le> part_bytes q" and le: "i \<le> j"
  have "take j parts = take i parts @ take (j - i) (drop i parts)" using le by (metis le_add_diff_inverse take_add)
  moreover have "0 \<le> sum_list (map part_bytes (take (j - i) (drop i parts)))"
    using nn by (intro sum_list_nonneg_int) (auto dest!: in_set_takeD in_set_dropD)
  ultimately show ?thesis by (simp add: base_def)
qed

text \<open>The cell of a layer: the bytes its pages have in one block of the group.\<close>

lemma cells:
  assumes "\<And>q. q \<in> set parts \<Longrightarrow> 0 < page_of (fst q)" "i < length parts" "l < length (snd (parts ! i))"
  defines "cell \<equiv> \<lambda>i l. base parts i + int l * page_of (fst (parts ! i))"
  shows "0 \<le> cell i l" "cell i l + page_of (fst (parts ! i)) \<le> base parts (length parts)"
    and "j < length parts \<Longrightarrow> m < length (snd (parts ! j)) \<Longrightarrow> (i, l) \<noteq> (j, m) \<Longrightarrow>
      cell i l + page_of (fst (parts ! i)) \<le> cell j m \<or> cell j m + page_of (fst (parts ! j)) \<le> cell i l"
proof -
  have nn: "0 \<le> part_bytes q" if "q \<in> set parts" for q using assms(1) [OF that] by (simp add: part_bytes_def)
  have pos: "0 < page_of (fst (parts ! k))" if "k < length parts" for k using assms(1) that by simp
  have b0: "0 \<le> base parts k" for k using base_mono [of parts 0 k, OF nn] by (simp add: base_def)
  have inside: "base parts k \<le> cell k n \<and> cell k n + page_of (fst (parts ! k)) \<le> base parts (Suc k)"
    if "k < length parts" "n < length (snd (parts ! k))" for k n
  proof -
    have "int (Suc n) * page_of (fst (parts ! k)) \<le> int (length (snd (parts ! k))) * page_of (fst (parts ! k))"
      using that(2) pos [OF that(1)] by (intro mult_right_mono) auto
    then show ?thesis using pos [OF that(1)] that(1) by (simp add: cell_def base_Suc part_bytes_def algebra_simps)
  qed
  have step: "cell k n + page_of (fst (parts ! k)) \<le> cell k' n'"
    if "k < length parts" "n < length (snd (parts ! k))" "k' < length parts" "n' < length (snd (parts ! k'))"
      "k < k' \<or> (k = k' \<and> n < n')" for k n k' n'
  proof (cases "k < k'")
    case True
    then show ?thesis using inside [OF that(1,2)] inside [OF that(3,4)] base_mono [of parts "Suc k" k', OF nn] by linarith
  next
    case False
    then have n: "n < n'" "k = k'" using that(5) by auto
    then have "int (Suc n) * page_of (fst (parts ! k)) \<le> int n' * page_of (fst (parts ! k))"
      using pos [OF that(1)] by (intro mult_right_mono) auto
    then show ?thesis using n(2) by (simp add: cell_def algebra_simps)
  qed
  show "0 \<le> cell i l" using inside [OF assms(2,3)] b0 [of i] by linarith
  show "cell i l + page_of (fst (parts ! i)) \<le> base parts (length parts)"
    using inside [OF assms(2,3)] base_mono [of parts "Suc i" "length parts", OF nn] assms(2) by simp
  show "cell i l + page_of (fst (parts ! i)) \<le> cell j m \<or> cell j m + page_of (fst (parts ! j)) \<le> cell i l"
    if o: "j < length parts" "m < length (snd (parts ! j))" "(i, l) \<noteq> (j, m)"
  proof -
    have "i < j \<or> (i = j \<and> l < m) \<or> j < i \<or> (j = i \<and> m < l)" using o(3) by (metis linorder_neqE_nat)
    then show ?thesis using step [OF assms(2,3) o(1,2)] step [OF o(1,2) assms(2,3)] by blast
  qed
qed

lemma part_pages_ok:
  assumes "\<And>q. q \<in> set parts \<Longrightarrow> 0 < page_of (fst q)" "base parts (length parts) \<le> S" "0 < nb"
  shows "pages_ok nb (map (\<lambda>i. part_tensor il (int nb) S (S * int nb) (base parts i) (parts ! i)) [0..<length parts])
    (map (page_of \<circ> fst) parts)"
proof -
  define ts where "ts = map (\<lambda>i. part_tensor il (int nb) S (S * int nb) (base parts i) (parts ! i)) [0..<length parts]"
  define cell where "cell i l = base parts i + int l * page_of (fst (parts ! i))" for i l
  define pg where "pg i = page_of (fst (parts ! i))" for i
  have start: "page_start (ts ! i) l b = (if il then cell i l + int b * S else cell i l * int nb + int b * pg i)"
    if "i < length parts" for i l b
    using that by (simp add: ts_def page_start_def part_tensor_def cell_def pg_def Let_def algebra_simps)
  have lay: "t_layers (ts ! i) = snd (parts ! i)" "t_bytes (ts ! i) = S * int nb" if "i < length parts" for i
    using that by (simp_all add: ts_def part_tensor_def Let_def)
  have len: "length ts = length parts" by (simp add: ts_def)
  have ps: "map (page_of \<circ> fst) parts ! i = pg i" if "i < length parts" for i using that by (simp add: pg_def)
  have pos: "0 < pg i" if "i < length parts" for i using assms(1) that by (simp add: pg_def)
  have c: "0 \<le> cell i l" "cell i l + pg i \<le> S" if "i < length parts" "l < length (snd (parts ! i))" for i l
    using cells(1,2) [OF assms(1) that] assms(2) by (auto simp: cell_def pg_def)
  have apart: "cell i l + pg i \<le> cell j m \<or> cell j m + pg j \<le> cell i l"
    if "i < length parts" "l < length (snd (parts ! i))" "j < length parts" "m < length (snd (parts ! j))" "(i, l) \<noteq> (j, m)"
    for i l j m using cells(3) [OF assms(1) that] by (simp add: cell_def pg_def)
  have blk: "int (Suc b) * x \<le> int nb * x" if "b < nb" "0 \<le> x" for b x
    using that by (intro mult_right_mono) auto
  have ord: "int (Suc b) * x \<le> int b2 * x" if "b < b2" "0 \<le> x" for b b2 x
    using that by (intro mult_right_mono) auto
  have inB: "0 \<le> page_start (ts ! i) l b \<and> page_start (ts ! i) l b + pg i \<le> S * int nb"
    if "i < length parts" "l < length (snd (parts ! i))" "b < nb" for i l b
  proof -
    have S: "0 \<le> S" using c [OF that(1,2)] pos [OF that(1)] by linarith
    show ?thesis
    proof (cases il)
      case True
      have "0 \<le> int b * S" using S by simp
      then show ?thesis using True start [OF that(1)] c [OF that(1,2)] blk [OF that(3) S] by (simp add: algebra_simps)
    next
      case False
      have "(cell i l + pg i) * int nb \<le> S * int nb" using c(2) [OF that(1,2)] by (intro mult_right_mono) auto
      moreover have "0 \<le> int b * pg i" "0 \<le> cell i l * int nb" using pos [OF that(1)] c(1) [OF that(1,2)] by simp_all
      moreover have "int (Suc b) * pg i \<le> int nb * pg i" using blk [OF that(3)] pos [OF that(1)] by simp
      ultimately show ?thesis using False start [OF that(1)] by (simp add: algebra_simps)
    qed
  qed
  have far: "page_start (ts ! i) l b + pg i \<le> page_start (ts ! j) m b2 \<or> page_start (ts ! j) m b2 + pg j \<le> page_start (ts ! i) l b"
    if h: "i < length parts" "l < length (snd (parts ! i))" "b < nb" "j < length parts" "m < length (snd (parts ! j))" "b2 < nb"
      "(i, l, b) \<noteq> (j, m, b2)" for i l b j m b2
  proof (cases il)
    case True
    have S: "0 \<le> S" using c [OF h(1,2)] pos [OF h(1)] by linarith
    consider "b = b2" | "b < b2" | "b2 < b" by linarith
    then show ?thesis
    proof cases
      case 1
      then show ?thesis using apart [OF h(1,2,4,5)] h(7) True start [OF h(1)] start [OF h(4)] by auto
    next
      case 2
      then show ?thesis using ord [OF 2 S] c [OF h(1,2)] c [OF h(4,5)] True start [OF h(1)] start [OF h(4)]
        by (simp add: algebra_simps)
    next
      case 3
      then show ?thesis using ord [OF 3 S] c [OF h(1,2)] c [OF h(4,5)] True start [OF h(1)] start [OF h(4)]
        by (simp add: algebra_simps)
    qed
  next
    case False
    show ?thesis
    proof (cases "(i, l) = (j, m)")
      case True
      then have "b \<noteq> b2" "i = j" "l = m" using h(7) by auto
      then show ?thesis using ord [of b b2 "pg i"] ord [of b2 b "pg i"] pos [OF h(1)] False start [OF h(1)] start [OF h(4)]
        by (cases "b < b2") (auto simp: algebra_simps)
    next
      case ne: False
      have up: "int (Suc b) * pg i \<le> int nb * pg i" "int (Suc b2) * pg j \<le> int nb * pg j"
        using blk h pos [OF h(1)] pos [OF h(4)] by simp_all
      have nn: "0 \<le> int b * pg i" "0 \<le> int b2 * pg j" using pos [OF h(1)] pos [OF h(4)] by simp_all
      have "(cell i l + pg i) * int nb \<le> cell j m * int nb \<or> (cell j m + pg j) * int nb \<le> cell i l * int nb"
        using apart [OF h(1,2,4,5) ne] by (meson mult_right_mono of_nat_0_le_iff)
      then show ?thesis using up nn False start [OF h(1)] start [OF h(4)] by (auto simp: algebra_simps)
    qed
  qed
  have "pages_ok nb ts (map (page_of \<circ> fst) parts)"
    unfolding pages_ok_def len
  proof (intro conjI allI impI)
    fix i l b assume a: "i < length parts" "l < length (t_layers (ts ! i))" "b < nb"
    then have "0 \<le> page_start (ts ! i) l b \<and> page_start (ts ! i) l b + pg i \<le> S * int nb"
      using inB lay(1) [OF a(1)] by simp
    then show "0 \<le> page_start (ts ! i) l b" "page_start (ts ! i) l b + map (page_of \<circ> fst) parts ! i \<le> t_bytes (ts ! i)"
      unfolding ps [OF a(1)] lay(2) [OF a(1)] by blast+
  next
    fix i l b j m c
    assume a: "i < length parts" "l < length (t_layers (ts ! i))" "b < nb"
      "j < length parts" "m < length (t_layers (ts ! j))" "c < nb"
    show "(i, l, b) = (j, m, c) \<or> allocation_id (ts ! i) \<noteq> allocation_id (ts ! j) \<or>
        page_start (ts ! i) l b + map (page_of \<circ> fst) parts ! i \<le> page_start (ts ! j) m c \<or>
        page_start (ts ! j) m c + map (page_of \<circ> fst) parts ! j \<le> page_start (ts ! i) l b"
      unfolding ps [OF a(1)] ps [OF a(4)] using far [OF a(1) _ a(3,4) _ a(6), of l m] a(2,5) lay(1) a(1,4) by auto
  qed simp
  then show ?thesis by (simp add: ts_def)
qed

section \<open>All groups\<close>

lemma parts_of_group:
  assumes "good_group g" "(s, ns) \<in> set (layers_by_spec g)"
  shows "good_layer s" "n \<in> set ns \<Longrightarrow> per_layer_spec g n = Inr s"
proof -
  have "good_layer s \<and> (n \<in> set ns \<longrightarrow> per_layer_spec g n = Inr s)" for n
  proof (cases "group_spec g")
    case (Layer t)
    then show ?thesis using assms by (auto simp: good_group_def layers_by_spec_def per_layer_spec_def split: if_splits)
  next
    case (Uniform b ss)
    then have m: "(s, ns) \<in> set (bucket ss)" using assms(2) by (simp add: layers_by_spec_def)
    then have "s \<in> snd ` set ss" using bucket_keys [of ss] by force
    then have "good_layer s" using assms(1) Uniform by (auto simp: good_group_def)
    moreover have "per_layer_spec g n = Inr s" if "n \<in> set ns" for n
    proof -
      have "(n, s) \<in> set ss" using bucket_member [OF m] that by auto
      then have "map_of ss n = Some s" using assms(1) Uniform by (simp add: good_group_def)
      then show ?thesis using Uniform by (simp add: per_layer_spec_def)
    qed
    ultimately show ?thesis by blast
  qed
  then show "good_layer s" "n \<in> set ns \<Longrightarrow> per_layer_spec g n = Inr s" by blast+
qed

lemma group_total:
  assumes "good_group g"
  shows "group_bytes g = Inr (base (layers_by_spec g) (length (layers_by_spec g)))"
    and "mset (concat (map snd (layers_by_spec g))) = mset (layer_names g)"
proof -
  have "group_bytes g = Inr (base (layers_by_spec g) (length (layers_by_spec g))) \<and>
    mset (concat (map snd (layers_by_spec g))) = mset (layer_names g)"
  proof (cases "group_spec g")
    case (Layer s)
    then have s: "layer_page_size s = Inr (page_of s)" using assms good_page by (simp add: good_group_def)
    have "rmap (\<lambda>n. rbind (per_layer_spec g n) layer_page_size) (layer_names g) = Inr (map (\<lambda>n. page_of s) (layer_names g))"
      by (rule rmap_total) (simp add: per_layer_spec_def Layer s)
    then show ?thesis by (simp add: group_bytes_def layers_by_spec_def Layer base_def part_bytes_def sum_list_triv)
  next
    case (Uniform b ss)
    have "rmap (\<lambda>n. rbind (per_layer_spec g n) layer_page_size) (map fst ss) = Inr (map (page_of \<circ> snd) ss)"
    proof -
      have "rmap (\<lambda>n. rbind (per_layer_spec g n) layer_page_size) (map fst xs) = Inr (map (page_of \<circ> snd) xs)"
        if "set xs \<subseteq> set ss" for xs
        using that
      proof (induction xs)
        case (Cons x xs)
        obtain n s where x: "x = (n, s)" by fastforce
        have "(n, s) \<in> set ss" using Cons.prems x by simp
        then have "map_of ss n = Some s" "good_layer s" using assms Uniform by (force simp: good_group_def)+
        then show ?case using Cons good_page by (simp add: x per_layer_spec_def Uniform)
      qed simp
      then show ?thesis by simp
    qed
    then have "group_bytes g = Inr (sum_list (map (page_of \<circ> snd) ss))"
      using assms Uniform by (simp add: group_bytes_def good_group_def)
    moreover have "base (bucket ss) (length (bucket ss)) = sum_list (map (page_of \<circ> snd) ss)"
      using bucket_total [of page_of ss] by (simp add: base_def part_bytes_def [abs_def] comp_def)
    ultimately show ?thesis using assms Uniform bucket_values [of ss] by (simp add: layers_by_spec_def good_group_def)
  qed
  then show "group_bytes g = Inr (base (layers_by_spec g) (length (layers_by_spec g)))"
    "mset (concat (map snd (layers_by_spec g))) = mset (layer_names g)" by blast+
qed

lemma ceil_div_ge: "0 < b \<Longrightarrow> a \<le> ceil_div a b * b"
proof -
  assume b: "0 < b"
  have "(- a) div b * b \<le> - a" using b by (simp add: minus_mod_eq_div_mult [symmetric])
  then show ?thesis by (simp add: ceil_div_def)
qed

lemma py_max_ge: "py_max xs = Inr m \<Longrightarrow> x \<in> set xs \<Longrightarrow> x \<le> m"
  by (auto simp: py_max_def split: if_splits)

lemma shared_covers:
  assumes "lib_ok lib" "shared_bytes_per_block lib cfg gs = Inr S" "g \<in> set gs" "\<not> is_dflash_group g" "group_bytes g = Inr n"
  shows "n \<le> S"
proof -
  let ?gs = "filter (\<lambda>g. \<not> is_dflash_group g) gs"
  have g: "g \<in> set ?gs" using assms(3,4) by simp
  then have ne: "?gs \<noteq> []" by (metis empty_iff list.set(1))
  have idem: "filter (\<lambda>g. \<not> is_dflash_group g) ?gs = ?gs" "filter is_dflash_group ?gs = []" by (simp_all add: filter_empty_conv)
  have "shared_block_bytes lib cfg ?gs = Inr S"
    using assms(2) by (auto simp: shared_bytes_per_block_def bytes_per_block_def idem ne Let_def split: if_splits)
  then obtain m where m: "rbind (rmap group_bytes ?gs) py_max = Inr m" "S = m \<or> round_up lib m (64 * 132) = Inr S"
    by (auto simp: shared_block_bytes_def ne split: if_splits)
  obtain ns where ns: "list_all2 (\<lambda>g n. group_bytes g = Inr n) ?gs ns" "py_max ns = Inr m"
    using m(1) by (auto simp: rmap_Inr_iff)
  obtain i where i: "i < length ?gs" "?gs ! i = g" using g by (meson in_set_conv_nth)
  have "group_bytes (?gs ! i) = Inr (ns ! i)" by (rule list_all2_nthD [OF ns(1) i(1)])
  then have "n = ns ! i" using assms(5) unfolding i(2) by simp
  moreover have "i < length ns" using i(1) list_all2_lengthD [OF ns(1)] by simp
  ultimately have "n \<in> set ns" by simp
  then have "n \<le> m" using py_max_ge [OF ns(2)] by blast
  moreover have "m \<le> S" using m(2) assms(1) ceil_div_ge [of "64 * 132" m] by (auto simp: lib_ok_def)
  ultimately show ?thesis by simp
qed

text \<open>
  What is promised of the tensors of one group: they hold every layer of the group, and the
  pages of its layers, of the size of each layer, are in their allocation and apart.
\<close>

definition group_placed :: "nat \<Rightarrow> kv_group \<Rightarrow> kv_tensor list \<Rightarrow> bool" where
  "group_placed nb g ts \<longleftrightarrow> mset (concat (map t_layers ts)) = mset (layer_names g) \<and>
     (\<exists>ps. pages_ok nb ts ps \<and>
       (\<forall>i < length ts. \<forall>n \<in> set (t_layers (ts ! i)). rbind (per_layer_spec g n) layer_page_size = Inr (ps ! i)))"

lemma shared_group_placed:
  assumes "good_group g" "\<not> is_dflash_group g" "page_order order" "0 < nb" "il = (hd order = 1)"
    and n: "group_bytes g = Inr n" "n \<le> S"
    and run: "place_group (int nb) order (if il then Some S else None) (S * int nb) g ([], k) = Inr (ts, k')"
  shows "group_placed nb g ts \<and> k' = k \<and> (\<forall>t \<in> set ts. allocation_id t = 0 \<and> t_bytes t = S * int nb)"
proof -
  let ?parts = "layers_by_spec g"
  obtain b1 where r: "rfold (place_spec (int nb) order (if il then Some S else None) (S * int nb)) ?parts ([], 0) = Inr (ts, b1)"
    and k: "k' = k" using run assms(2) by (auto simp: place_group_def)
  have good: "good_layer (fst q)" if "q \<in> set ?parts" for q
    using parts_of_group(1) [OF assms(1)] that by (cases q) auto
  have ts: "ts = map (\<lambda>i. part_tensor il (int nb) S (S * int nb) (base ?parts i) (?parts ! i)) [0..<length ?parts]"
    using place_parts [OF assms(3) _ assms(5) r good] assms(4) by simp
  have fit: "base ?parts (length ?parts) \<le> S" using group_total(1) [OF assms(1)] n by simp
  have ok: "pages_ok nb ts (map (page_of \<circ> fst) ?parts)"
    unfolding ts by (rule part_pages_ok [OF conjunct2 [OF good_page [OF good]] fit assms(4)])
  have lay: "map t_layers ts = map snd ?parts"
    by (rule nth_equalityI) (simp_all add: ts part_tensor_def Let_def)
  have "rbind (per_layer_spec g m) layer_page_size = Inr (map (page_of \<circ> fst) ?parts ! i)"
    if "i < length ts" "m \<in> set (t_layers (ts ! i))" for i m
  proof -
    have i: "i < length ?parts" using that(1) by (simp add: ts)
    have m: "m \<in> set (snd (?parts ! i))" using that(2) i by (simp add: ts part_tensor_def Let_def)
    have mem: "(fst (?parts ! i), snd (?parts ! i)) \<in> set ?parts" using i by simp
    have "per_layer_spec g m = Inr (fst (?parts ! i))" by (rule parts_of_group(2) [OF assms(1) mem m])
    then show ?thesis using good_page [OF parts_of_group(1) [OF assms(1) mem]] i by simp
  qed
  then have "group_placed nb g ts"
    using ok group_total(2) [OF assms(1)] lay by (auto simp: group_placed_def)
  moreover have "\<forall>t \<in> set ts. allocation_id t = 0 \<and> t_bytes t = S * int nb"
    by (auto simp: ts part_tensor_def Let_def)
  ultimately show ?thesis using k by blast
qed

text \<open>The layers of a draft group have an allocation each.\<close>

definition layer_at :: "kv_group \<Rightarrow> string \<Rightarrow> layer_spec" where
  "layer_at g n = projr (per_layer_spec g n)"

definition dense_tensor :: "bool \<Rightarrow> int \<Rightarrow> kv_group \<Rightarrow> string \<Rightarrow> int \<Rightarrow> kv_tensor" where
  "dense_tensor il nb g n k = (let p = page_of (layer_at g n) in
     \<lparr>t_bytes = p * nb, t_layers = [n], layer_stride = (if il then p else p * nb), block_stride = p,
      t_offset = 0, allocation_id = k\<rparr>)"

lemma place_dense_tensor:
  assumes "good_group g" "n \<in> set (layer_names g)" "page_order order" "il = (hd order = 1)"
    and "place_dense g nb order n (ts, k) = Inr r"
  shows "r = (ts @ [dense_tensor il nb g n k], k + 1)"
proof -
  obtain s where s: "per_layer_spec g n = Inr s" "good_layer s" using group_spec_at [OF assms(1,2)] by blast
  have p: "layer_page_size s = Inr (page_of s)" using good_page [OF s(2)] by simp
  have hd: "hd order = 0 \<longleftrightarrow> \<not> il" using page_order_cases [OF assms(3)] assms(4) by (metis list.sel(1) zero_neq_one)
  obtain st where st: "layout_strides s nb 1 order None [None, Some (page_of s), None, None, None] = Inr st"
    and r: "r = (ts @ [\<lparr>t_bytes = page_of s * nb, t_layers = [n], layer_stride = st ! 0, block_stride = st ! 1,
      t_offset = 0, allocation_id = k\<rparr>], k + 1)"
    using assms(5) by (auto simp: place_dense_def s p)
  show ?thesis using outer_strides [OF s(2) assms(3) st] hd
    by (simp add: r dense_tensor_def layer_at_def s(1) Let_def)
qed

lemma place_dense_run:
  assumes "good_group g" "page_order order" "il = (hd order = 1)"
  shows "set ns \<subseteq> set (layer_names g) \<Longrightarrow> rfold (place_dense g nb order) ns (ts, k) = Inr (us, k') \<Longrightarrow>
    us = ts @ map (\<lambda>i. dense_tensor il nb g (ns ! i) (k + int i)) [0..<length ns] \<and> k' = k + int (length ns)"
proof (induction ns arbitrary: ts k)
  case (Cons n ns)
  obtain r where r: "place_dense g nb order n (ts, k) = Inr r" "rfold (place_dense g nb order) ns r = Inr (us, k')"
    using Cons.prems(2) by auto
  have "n \<in> set (layer_names g)" using Cons.prems(1) by simp
  note one = place_dense_tensor [OF assms(1) this assms(2,3) r(1)]
  have "map (\<lambda>i. dense_tensor il nb g ((n # ns) ! i) (k + int i)) [0..<length (n # ns)] =
      dense_tensor il nb g n k # map (\<lambda>i. dense_tensor il nb g (ns ! i) (k + 1 + int i)) [0..<length ns]"
    by (simp add: upt_conv_Cons map_Suc_upt [symmetric] comp_def algebra_simps del: upt_Suc)
  then show ?case using Cons.IH [of "ts @ [dense_tensor il nb g n k]" "k + 1"] Cons.prems(1) r(2) one by simp
qed simp

lemma draft_group_placed:
  assumes "good_group g" "is_dflash_group g" "page_order order" "0 < nb" "il = (hd order = 1)"
    and run: "place_group (int nb) order stride tot g ([], k) = Inr (ts, k')"
  shows "group_placed nb g ts \<and> map allocation_id ts = [k..k' - 1] \<and> k \<le> k' \<and>
    rmap (\<lambda>n. rbind (per_layer_spec g n) layer_page_size) (layer_names g) = Inr (map (\<lambda>t. t_bytes t div int nb) ts) \<and>
    (\<forall>t \<in> set ts. 0 < t_bytes t \<and> int nb dvd t_bytes t)"
proof -
  let ?ns = "layer_names g"
  have r: "rfold (place_dense g (int nb) order) ?ns ([], k) = Inr (ts, k')"
    using run assms(2) by (auto simp: place_group_def split: prod.splits)
  have ts: "ts = map (\<lambda>i. dense_tensor il (int nb) g (?ns ! i) (k + int i)) [0..<length ?ns]" and k': "k' = k + int (length ?ns)"
    using place_dense_run [OF assms(1,3,5) subset_refl r] by simp_all
  have pg: "rbind (per_layer_spec g n) layer_page_size = Inr (page_of (layer_at g n))" "0 < page_of (layer_at g n)"
    if n: "n \<in> set ?ns" for n
  proof -
    obtain s where s: "per_layer_spec g n = Inr s" "good_layer s" using group_spec_at [OF assms(1) n] by blast
    then show "rbind (per_layer_spec g n) layer_page_size = Inr (page_of (layer_at g n))" "0 < page_of (layer_at g n)"
      using good_page [OF s(2)] by (simp_all add: layer_at_def)
  qed
  have pgi: "rbind (per_layer_spec g (?ns ! i)) layer_page_size = Inr (page_of (layer_at g (?ns ! i)))"
    "0 < page_of (layer_at g (?ns ! i))" if "i < length ?ns" for i using pg that by simp_all
  have len: "length ts = length ?ns" by (simp add: ts)
  have at: "t_layers (ts ! i) = [?ns ! i]" "t_bytes (ts ! i) = page_of (layer_at g (?ns ! i)) * int nb"
    "allocation_id (ts ! i) = k + int i" "page_start (ts ! i) 0 b = int b * page_of (layer_at g (?ns ! i))"
    if "i < length ?ns" for i b using that by (simp_all add: ts dense_tensor_def page_start_def Let_def)
  define ps where "ps = map (\<lambda>n. page_of (layer_at g n)) ?ns"
  have ps: "ps ! i = page_of (layer_at g (?ns ! i))" if "i < length ?ns" for i using that by (simp add: ps_def)
  have step: "int b * p + p \<le> int c * p" if "b < c" "0 < p" for b c :: nat and p :: int
  proof -
    have "int (Suc b) * p \<le> int c * p" using that by (intro mult_right_mono) auto
    then show ?thesis by (simp add: algebra_simps)
  qed
  have "pages_ok nb ts ps"
    unfolding pages_ok_def len
  proof (intro conjI allI impI)
    show "length ps = length ?ns" by (simp add: ps_def)
  next
    fix i l b assume a: "i < length ?ns" "l < length (t_layers (ts ! i))" "b < nb"
    then have "l = 0" using at(1) by simp
    then show "0 \<le> page_start (ts ! i) l b" "page_start (ts ! i) l b + ps ! i \<le> t_bytes (ts ! i)"
      using at [OF a(1)] pgi(2) [OF a(1)] ps [OF a(1)] step [OF a(3) pgi(2) [OF a(1)]] by (simp_all add: mult.commute)
  next
    fix i l b j m c
    assume a: "i < length ?ns" "l < length (t_layers (ts ! i))" "b < nb"
      "j < length ?ns" "m < length (t_layers (ts ! j))" "c < nb"
    then have lm: "l = 0" "m = 0" using at(1) by simp_all
    show "(i, l, b) = (j, m, c) \<or> allocation_id (ts ! i) \<noteq> allocation_id (ts ! j) \<or>
        page_start (ts ! i) l b + ps ! i \<le> page_start (ts ! j) m c \<or>
        page_start (ts ! j) m c + ps ! j \<le> page_start (ts ! i) l b"
    proof (cases "i = j")
      case True
      consider "b = c" | "b < c" | "c < b" by linarith
      then show ?thesis using True lm at [OF a(1)] ps [OF a(1)] step [OF _ pgi(2) [OF a(1)]] by cases auto
    qed (use at [OF a(1)] at [OF a(4)] in simp)
  qed
  moreover have "map t_layers ts = map (\<lambda>n. [n]) ?ns" by (rule nth_equalityI) (simp_all add: len at)
  then have "concat (map t_layers ts) = ?ns" by simp
  moreover have "\<forall>i < length ts. \<forall>n \<in> set (t_layers (ts ! i)). rbind (per_layer_spec g n) layer_page_size = Inr (ps ! i)"
    using pgi(1) by (simp add: len at ps)
  ultimately have "group_placed nb g ts" unfolding group_placed_def by metis
  moreover have "map allocation_id ts = [k..k' - 1]"
    by (rule nth_equalityI) (simp_all add: len at k')
  moreover have "rmap (\<lambda>n. rbind (per_layer_spec g n) layer_page_size) ?ns = Inr (map (\<lambda>t. t_bytes t div int nb) ts)"
  proof -
    have "map (\<lambda>t. t_bytes t div int nb) ts = map (\<lambda>n. page_of (layer_at g n)) ?ns"
      using assms(4) by (intro nth_equalityI) (simp_all add: len at)
    then show ?thesis using rmap_total [of ?ns "\<lambda>n. rbind (per_layer_spec g n) layer_page_size"] pg(1) by simp
  qed
  moreover have "\<forall>t \<in> set ts. 0 < t_bytes t \<and> int nb dvd t_bytes t"
    using pgi(2) assms(4) by (auto simp: ts dense_tensor_def Let_def)
  ultimately show ?thesis using k' by simp
qed

end
