(* ===== verification/KVAllocation.thy ===== *)
theory KVAllocation
  imports KVPlacement KVSample
begin

text \<open>
  The tensors that \<open>get_kv_cache_config_from_groups\<close> plans: for every group the pages of its
  layers are in place and apart, and the allocations of all groups together are the memory of
  the planned number of blocks.
\<close>

section \<open>The run over the groups\<close>

lemma place_group_append:
  "place_group nb order stride tot g (ts, k) = rbind (place_group nb order stride tot g ([], k)) (\<lambda>(us, j). Inr (ts @ us, j))"
  by (auto simp: place_group_def rbind_def split: sum.splits)

text \<open>The tensors of the draft groups, with a list of tensors per group.\<close>

definition draft_tensors :: "kv_group list \<Rightarrow> kv_tensor list list \<Rightarrow> kv_tensor list" where
  "draft_tensors gs tss = concat (map snd (filter (is_dflash_group \<circ> fst) (zip gs tss)))"

lemma draft_tensors_Cons:
  "draft_tensors (g # gs) (ts # tss) = (if is_dflash_group g then ts else []) @ draft_tensors gs tss"
  by (simp add: draft_tensors_def)

lemma place_groups_run:
  "rfold (place_group nb order stride tot) gs (ts, k) = Inr (us, k') \<Longrightarrow>
   \<exists>tss ks. us = ts @ concat tss \<and> length tss = length gs \<and> length ks = Suc (length gs) \<and> ks ! 0 = k \<and>
     ks ! length gs = k' \<and>
     (\<forall>i < length gs. place_group nb order stride tot (gs ! i) ([], ks ! i) = Inr (tss ! i, ks ! Suc i))"
proof (induction gs arbitrary: ts k)
  case Nil
  then show ?case by (intro exI [of _ "[]"] exI [of _ "[k]"]) simp
next
  case (Cons g gs)
  obtain vs j where one: "place_group nb order stride tot g (ts, k) = Inr (vs, j)"
    and rest: "rfold (place_group nb order stride tot) gs (vs, j) = Inr (us, k')" using Cons.prems by auto
  obtain t where t: "place_group nb order stride tot g ([], k) = Inr (t, j)" "vs = ts @ t"
    using one by (subst (asm) place_group_append) auto
  obtain tss ks where ih: "us = vs @ concat tss" "length tss = length gs" "length ks = Suc (length gs)" "ks ! 0 = j"
    "ks ! length gs = k'"
    "\<forall>i < length gs. place_group nb order stride tot (gs ! i) ([], ks ! i) = Inr (tss ! i, ks ! Suc i)"
    using Cons.IH [OF rest] by blast
  have "\<forall>i < length (g # gs). place_group nb order stride tot ((g # gs) ! i) ([], (k # ks) ! i) =
      Inr ((t # tss) ! i, (k # ks) ! Suc i)"
  proof (intro allI impI)
    fix i assume "i < length (g # gs)"
    then show "place_group nb order stride tot ((g # gs) ! i) ([], (k # ks) ! i) = Inr ((t # tss) ! i, (k # ks) ! Suc i)"
      using t(1) ih(4,6) by (cases i) simp_all
  qed
  then show ?case using ih t by (intro exI [of _ "t # tss"] exI [of _ "k # ks"]) simp
qed

section \<open>The groups of a plan\<close>

text \<open>The layouts of a page order whose flag says which of the two axes is outermost.\<close>

definition page_layout :: "kv_layout \<Rightarrow> bool" where
  "page_layout layout \<longleftrightarrow> page_order (stride_order layout) \<and>
     (is_block_outermost layout \<longleftrightarrow> hd (stride_order layout) = dim_B)"

lemma config_run:
  assumes "gs \<noteq> []" "get_kv_cache_config_from_groups lib cfg gs available = Inr c"
  shows "\<exists>per_block S k. bytes_per_block lib cfg gs = Inr per_block \<and> shared_bytes_per_block lib cfg gs = Inr S \<and>
    num_blocks c = may_override_num_blocks cfg (available div per_block) \<and> kv_cache_groups c = gs \<and>
    rfold (place_group (num_blocks c) (stride_order (resolved_layout cfg))
      (if is_block_outermost (resolved_layout cfg) then Some S else None) (S * num_blocks c)) gs ([], 1) =
      Inr (kv_cache_tensors c, k)"
  using assms by (auto simp: get_kv_cache_config_from_groups_def Let_def split del: if_split)

text \<open>
  What the run over the groups leaves, given the two facts about one group: the tensors of
  every group, in order, are placed.
\<close>

definition group_run :: "nat \<Rightarrow> int \<Rightarrow> int \<Rightarrow> int \<Rightarrow> kv_group \<Rightarrow> kv_tensor list \<Rightarrow> bool" where
  "group_run nb S k k' g ts \<longleftrightarrow> group_placed nb g ts \<and>
     (if is_dflash_group g
      then map allocation_id ts = [k..k' - 1] \<and> k \<le> k' \<and>
        group_bytes g = Inr (\<Sum>t\<leftarrow>ts. t_bytes t div int nb) \<and> (\<forall>t \<in> set ts. 0 < t_bytes t \<and> int nb dvd t_bytes t)
      else k' = k \<and> (\<forall>t \<in> set ts. allocation_id t = 0 \<and> t_bytes t = S * int nb))"

lemma config_tensors:
  assumes lib: "lib_ok lib" and gs: "gs \<noteq> []" "\<forall>g \<in> set gs. good_group g"
    and layout: "page_layout (resolved_layout cfg)"
    and c: "get_kv_cache_config_from_groups lib cfg gs available = Inr c" "0 < num_blocks c"
  shows "\<exists>tss ks S. kv_cache_tensors c = concat tss \<and> length tss = length gs \<and> length ks = Suc (length gs) \<and> ks ! 0 = 1 \<and>
    shared_bytes_per_block lib cfg gs = Inr S \<and>
    (\<forall>i < length gs. group_run (nat (num_blocks c)) S (ks ! i) (ks ! Suc i) (gs ! i) (tss ! i))"
proof -
  define nb where "nb = nat (num_blocks c)"
  let ?order = "stride_order (resolved_layout cfg)" and ?il = "hd (stride_order (resolved_layout cfg)) = 1"
  have nb: "int nb = num_blocks c" "0 < nb" using c(2) by (simp_all add: nb_def)
  have order: "page_order ?order" and flag: "is_block_outermost (resolved_layout cfg) = ?il"
    using layout by (auto simp: page_layout_def dim_B_def)
  obtain S k where S: "shared_bytes_per_block lib cfg gs = Inr S"
    and run: "rfold (place_group (int nb) ?order (if ?il then Some S else None) (S * int nb)) gs ([], 1) =
      Inr (kv_cache_tensors c, k)"
    using config_run [OF gs(1) c(1)] by (auto simp: nb(1) flag)
  obtain tss ks where p: "kv_cache_tensors c = concat tss" "length tss = length gs" "length ks = Suc (length gs)" "ks ! 0 = 1"
    and each: "\<forall>i < length gs. place_group (int nb) ?order (if ?il then Some S else None) (S * int nb) (gs ! i) ([], ks ! i) =
      Inr (tss ! i, ks ! Suc i)"
    using place_groups_run [OF run] by auto
  have "group_run nb S (ks ! i) (ks ! Suc i) (gs ! i) (tss ! i)" if i: "i < length gs" for i
  proof (cases "is_dflash_group (gs ! i)")
    case True
    have "good_group (gs ! i)" using gs(2) i by simp
    from draft_group_placed [OF this True order nb(2) refl each [rule_format, OF i]] True
    show ?thesis by (simp add: group_run_def group_bytes_def)
  next
    case False
    have g: "good_group (gs ! i)" using gs(2) i by simp
    note n = group_total(1) [OF g]
    have "base (layers_by_spec (gs ! i)) (length (layers_by_spec (gs ! i))) \<le> S"
      by (rule shared_covers [OF lib S _ False n]) (simp add: i)
    from shared_group_placed [OF g False order nb(2) refl n this each [rule_format, OF i]] False
    show ?thesis by (simp add: group_run_def)
  qed
  then show ?thesis using p S by (auto simp: nb_def)
qed

section \<open>The memory of a plan\<close>

text \<open>The bytes of the allocations: tensors with one allocation id share one allocation.\<close>

definition allocated :: "kv_tensor list \<Rightarrow> int" where
  "allocated ts = (\<Sum>q \<in> set (map (\<lambda>t. (allocation_id t, t_bytes t)) ts). snd q)"

lemma sum_set_le:
  fixes f :: "'a \<Rightarrow> int"
  shows "(\<And>x. x \<in> set xs \<Longrightarrow> 0 \<le> f x) \<Longrightarrow> (\<Sum>x \<in> set xs. f x) \<le> (\<Sum>x\<leftarrow>xs. f x)"
proof (induction xs)
  case (Cons x xs)
  then have "(\<Sum>y \<in> set xs. f y) \<le> (\<Sum>y\<leftarrow>xs. f y)" "0 \<le> f x" by simp_all
  then show ?case by (cases "x \<in> set xs") (simp_all add: insert_absorb)
qed simp

lemma allocated_le:
  assumes "\<And>t. t \<in> set ds \<Longrightarrow> 0 \<le> t_bytes t"
    and "\<And>t. t \<in> set ts \<Longrightarrow> t \<in> set ds \<or> (allocation_id t = 0 \<and> t_bytes t = b)" "0 \<le> b"
  shows "allocated ts \<le> b + (\<Sum>t\<leftarrow>ds. t_bytes t)"
proof -
  let ?pair = "\<lambda>t. (allocation_id t, t_bytes t)"
  have "?pair ` set ts \<subseteq> set ((0, b) # map ?pair ds)" using assms(2) by force
  moreover have "\<forall>q \<in> set ((0, b) # map ?pair ds). 0 \<le> snd q" using assms(1,3) by auto
  ultimately have "allocated ts \<le> (\<Sum>q \<in> set ((0, b) # map ?pair ds). snd q)"
    unfolding allocated_def set_map by (intro sum_mono2) auto
  also have "\<dots> \<le> (\<Sum>q\<leftarrow>(0, b) # map ?pair ds. snd q)" by (rule sum_set_le) (use assms(1,3) in auto)
  finally show ?thesis by (simp add: comp_def)
qed

lemma draft_bytes:
  assumes "length gs = length tss" "rmap group_bytes (filter is_dflash_group gs) = Inr ns"
    and "\<And>i. i < length gs \<Longrightarrow> is_dflash_group (gs ! i) \<Longrightarrow>
      group_bytes (gs ! i) = Inr (\<Sum>t\<leftarrow>tss ! i. t_bytes t div nb) \<and> (\<forall>t \<in> set (tss ! i). nb dvd t_bytes t)"
  shows "(\<Sum>t\<leftarrow>draft_tensors gs tss. t_bytes t) = nb * sum_list ns"
  using assms
proof (induction gs tss arbitrary: ns rule: list_induct2)
  case Nil
  then show ?case by (simp add: draft_tensors_def)
next
  case (Cons g gs ts tss)
  have rest: "group_bytes (gs ! i) = Inr (\<Sum>t\<leftarrow>tss ! i. t_bytes t div nb) \<and> (\<forall>t \<in> set (tss ! i). nb dvd t_bytes t)"
    if "i < length gs" "is_dflash_group (gs ! i)" for i using Cons.prems(2) [of "Suc i"] that by simp
  show ?case
  proof (cases "is_dflash_group g")
    case True
    then have g: "group_bytes g = Inr (\<Sum>t\<leftarrow>ts. t_bytes t div nb)" "\<forall>t \<in> set ts. nb dvd t_bytes t"
      using Cons.prems(2) [of 0] by simp_all
    obtain ms where ms: "rmap group_bytes (filter is_dflash_group gs) = Inr ms" "ns = (\<Sum>t\<leftarrow>ts. t_bytes t div nb) # ms"
      using Cons.prems(1) True g(1) by auto
    have "(\<Sum>t\<leftarrow>ts. t_bytes t) = nb * (\<Sum>t\<leftarrow>ts. t_bytes t div nb)"
      using g(2) by (simp add: sum_list_const_mult [symmetric] cong: map_cong)
    then show ?thesis using Cons.IH [OF ms(1) rest] True ms(2)
      by (simp add: draft_tensors_Cons distrib_left)
  next
    case False
    then show ?thesis using Cons.IH [OF _ rest] Cons.prems(1) by (simp add: draft_tensors_Cons)
  qed
qed

lemma config_placed:
  assumes "lib_ok lib" "gs \<noteq> []" "\<forall>g \<in> set gs. good_group g" "page_layout (resolved_layout cfg)"
    and "get_kv_cache_config_from_groups lib cfg gs available = Inr c" "0 < num_blocks c"
  shows "\<exists>tss. kv_cache_tensors c = concat tss \<and> list_all2 (group_placed (nat (num_blocks c))) gs tss"
  using config_tensors [OF assms] by (force simp: list_all2_conv_all_nth group_run_def)

definition sample_plan :: kv_cache_config where
  "sample_plan = projr (get_kv_cache_config_from_groups sample_lib (sample_config True) sample_groups 2000)"

lemma sample_plan_runs:
  "get_kv_cache_config_from_groups sample_lib (sample_config True) sample_groups 2000 = Inr sample_plan \<and> 0 < num_blocks sample_plan"
  by code_simp

lemma sample_page_layout: "page_layout (resolved_layout (sample_config True))"
  by (auto simp: sample_config_def sample_layout_def page_layout_def page_order_def dim_B_def)

text \<open>
  C3. The plan of \<open>get_kv_cache_config_from_groups\<close> is a placement: with a page layout (layer
  and block axes outermost, in either order) and groups of well-formed layers, the planned
  tensors are the tensors of the groups one after the other, the tensors of a group hold each
  of its layers, and every page \<open>(layer, block)\<close> of the group lies inside its allocation and does
  not overlap any other page of the group in the same allocation.
\<close>

theorem placement_disjoint:
  assumes "lib_ok lib" "gs \<noteq> []" "\<forall>g \<in> set gs. good_group g" "page_layout (resolved_layout cfg)"
    and "get_kv_cache_config_from_groups lib cfg gs available = Inr c" "0 < num_blocks c"
  shows "\<exists>tss. kv_cache_tensors c = concat tss \<and> list_all2 (group_placed (nat (num_blocks c))) gs tss"
  by (rule config_placed [OF assms])

theorem placement_disjoint_witness:
  "\<exists>tss. kv_cache_tensors sample_plan = concat tss \<and> list_all2 (group_placed (nat (num_blocks sample_plan))) sample_groups tss \<and>
    num_blocks sample_plan = 5 \<and> length (concat tss) = 3"
proof -
  have n: "num_blocks sample_plan = 5" "length (kv_cache_tensors sample_plan) = 3" by code_simp+
  have "sample_groups \<noteq> []" by (simp add: sample_groups_def)
  from placement_disjoint [OF sample_lib_ok this sample_groups_good sample_page_layout] sample_plan_runs n show ?thesis by metis
qed

lemma bytes_per_block_parts:
  assumes "bytes_per_block lib cfg gs = Inr n" "shared_bytes_per_block lib cfg gs = Inr S"
  shows "\<exists>ds. rmap group_bytes (filter is_dflash_group gs) = Inr ds \<and> n = S + sum_list ds"
proof -
  let ?gs = "filter (\<lambda>g. \<not> is_dflash_group g) gs"
  have idem: "filter (\<lambda>g. \<not> is_dflash_group g) ?gs = ?gs" "filter is_dflash_group ?gs = []" by (simp_all add: filter_empty_conv)
  obtain sh ds where b: "shared_block_bytes lib cfg ?gs = Inr sh" "rmap group_bytes (filter is_dflash_group gs) = Inr ds"
    "n = sh + sum_list ds"
    using assms(1) by (auto simp: bytes_per_block_def Let_def split: if_splits)
  have "sh = S"
  proof (cases "?gs = []")
    case True
    then have "sh = 0" using b(1) by (simp add: shared_block_bytes_def contains_glm5_next_mla_def)
    moreover have "S = 0" using assms(2) True by (simp add: shared_bytes_per_block_def Let_def)
    ultimately show ?thesis by simp
  next
    case False
    then have "bytes_per_block lib cfg ?gs = Inr S" using assms(2) by (simp add: shared_bytes_per_block_def Let_def)
    then show ?thesis using b(1) by (simp add: bytes_per_block_def idem Let_def split: if_splits)
  qed
  then show ?thesis using b by blast
qed

lemma shared_nonneg:
  assumes "lib_ok lib" "\<forall>g \<in> set gs. good_group g" "shared_bytes_per_block lib cfg gs = Inr S"
  shows "0 \<le> S"
proof (cases "filter (\<lambda>g. \<not> is_dflash_group g) gs = []")
  case True
  then show ?thesis using assms(3) by (simp add: shared_bytes_per_block_def Let_def)
next
  case False
  then obtain g where g: "g \<in> set gs" "\<not> is_dflash_group g" by (auto simp: filter_empty_conv)
  then have gg: "good_group g" using assms(2) by blast
  have "0 \<le> part_bytes q" if "q \<in> set (layers_by_spec g)" for q
    using good_page [OF parts_of_group(1) [OF gg, of "fst q" "snd q"]] that by (simp add: part_bytes_def)
  then have "0 \<le> base (layers_by_spec g) (length (layers_by_spec g))"
    unfolding base_def by (intro sum_list_nonneg_int) auto
  then show ?thesis using shared_covers [OF assms(1,3) g group_total(1) [OF gg]] by linarith
qed

lemma draft_tensors_set: "length tss = length gs \<Longrightarrow>
    t \<in> set (draft_tensors gs tss) \<longleftrightarrow> (\<exists>i < length gs. is_dflash_group (gs ! i) \<and> t \<in> set (tss ! i))"
  by (force simp: draft_tensors_def in_set_zip)

lemma in_concat_nth: "t \<in> set (concat tss) \<longleftrightarrow> (\<exists>i < length tss. t \<in> set (tss ! i))"
  by (force simp: in_set_conv_nth [of _ tss])

text \<open>
  C21. The allocations of a plan take no more than the memory of its blocks: all groups
  together, the shared allocation counted once and the draft layers one by one, at most
  \<open>num_blocks\<close> times the bytes of a block, and so at most the available memory unless the number
  of blocks is overridden.
\<close>

theorem allocations_fit:
  assumes "lib_ok lib" "gs \<noteq> []" "\<forall>g \<in> set gs. good_group g" "page_layout (resolved_layout cfg)"
    and "get_kv_cache_config_from_groups lib cfg gs available = Inr c" "0 < num_blocks c"
  shows "\<exists>n. bytes_per_block lib cfg gs = Inr n \<and> allocated (kv_cache_tensors c) \<le> num_blocks c * n \<and>
    (blocks_override cfg = None \<longrightarrow> num_blocks c * n \<le> available)"
proof -
  define nb where "nb = nat (num_blocks c)"
  have nb: "int nb = num_blocks c" using assms(6) by (simp add: nb_def)
  obtain n where n: "bytes_per_block lib cfg gs = Inr n" "num_blocks c = may_override_num_blocks cfg (available div n)"
    using config_run [OF assms(2,5)] by blast
  then have pos: "0 < n" by (auto simp: bytes_per_block_def Let_def split: if_splits)
  obtain tss ks S where p: "kv_cache_tensors c = concat tss" "length tss = length gs"
      "shared_bytes_per_block lib cfg gs = Inr S"
    and run: "\<forall>i < length gs. group_run nb S (ks ! i) (ks ! Suc i) (gs ! i) (tss ! i)"
    using config_tensors [OF assms, folded nb_def] by blast
  obtain ds where ds: "rmap group_bytes (filter is_dflash_group gs) = Inr ds" "n = S + sum_list ds"
    using bytes_per_block_parts [OF n(1) p(3)] by blast
  have total: "(\<Sum>t\<leftarrow>draft_tensors gs tss. t_bytes t) = int nb * sum_list ds"
    by (rule draft_bytes [OF p(2) [symmetric] ds(1)]) (use run in \<open>simp add: group_run_def\<close>)
  have "t \<in> set (draft_tensors gs tss) \<or> (allocation_id t = 0 \<and> t_bytes t = S * int nb)" if h: "t \<in> set (concat tss)" for t
  proof -
    obtain i where i: "i < length gs" "t \<in> set (tss ! i)" using h p(2) unfolding in_concat_nth by auto
    then have "group_run nb S (ks ! i) (ks ! Suc i) (gs ! i) (tss ! i)" using run by blast
    then show ?thesis using i by (cases "is_dflash_group (gs ! i)") (auto simp: group_run_def draft_tensors_set [OF p(2)])
  qed
  moreover have "0 \<le> t_bytes t" if t: "t \<in> set (draft_tensors gs tss)" for t
  proof -
    obtain i where i: "i < length gs" "is_dflash_group (gs ! i)" "t \<in> set (tss ! i)"
      using t by (auto simp: draft_tensors_set [OF p(2)])
    then have "group_run nb S (ks ! i) (ks ! Suc i) (gs ! i) (tss ! i)" using run by blast
    then show ?thesis using i(2,3) by (auto simp: group_run_def less_imp_le)
  qed
  ultimately have "allocated (concat tss) \<le> S * int nb + (\<Sum>t\<leftarrow>draft_tensors gs tss. t_bytes t)"
    using shared_nonneg [OF assms(1,3) p(3)] by (intro allocated_le) auto
  then have "allocated (kv_cache_tensors c) \<le> num_blocks c * n"
    by (simp add: p(1) total nb ds(2) algebra_simps)
  moreover have "num_blocks c * n \<le> available" if h: "blocks_override cfg = None"
  proof -
    have "num_blocks c = available div n" using h n(2) unfolding may_override_num_blocks_def by simp
    then have "num_blocks c * n + available mod n = available" by (simp only: div_mult_mod_eq)
    moreover have "0 \<le> available mod n" by (rule pos_mod_sign [OF pos])
    ultimately show ?thesis by linarith
  qed
  ultimately show ?thesis using n(1) by (intro exI [of _ n] conjI impI)
qed

theorem allocations_fit_witness:
  "\<exists>n. bytes_per_block sample_lib (sample_config True) sample_groups = Inr n \<and>
     allocated (kv_cache_tensors sample_plan) \<le> num_blocks sample_plan * n \<and> num_blocks sample_plan * n \<le> 2000 \<and>
     allocated (kv_cache_tensors sample_plan) = 1920"
proof -
  have n: "allocated (kv_cache_tensors sample_plan) = 1920" "blocks_override (sample_config True) = None" by code_simp+
  have "sample_groups \<noteq> []" by (simp add: sample_groups_def)
  from allocations_fit [OF sample_lib_ok this sample_groups_good sample_page_layout] sample_plan_runs n show ?thesis by blast
qed

end
