(* ===== verification/KVPlanProps.thy ===== *)
theory KVPlanProps
  imports KVMemory KVCover KVAllocation
begin

text \<open>
  What \<open>get_kv_cache_configs\<close> promises the scheduler: the workers agree on the number of
  blocks, the plan of a worker fits its memory, its groups hold each of its layers exactly
  once, and one request of the planned length fits beside the null block.
\<close>

section \<open>The steps of a plan\<close>

lemma auto_fit_length:
  assumes "auto_fit_max_model_len lib cfg per_worker available = Inr cfg1"
  shows "\<exists>x. cfg1 = cfg\<lparr>max_model_len := x\<rparr>"
proof -
  have "cfg1 = cfg \<or> (\<exists>x. cfg1 = cfg\<lparr>max_model_len := x\<rparr>)"
    using assms by (auto simp: auto_fit_max_model_len_def Let_def split: if_splits)
  moreover have "cfg = cfg\<lparr>max_model_len := max_model_len cfg\<rparr>" by simp
  ultimately show ?thesis by metis
qed

lemma rmap_nth:
  assumes "rmap f xs = Inr ys"
  shows "length ys = length xs" "i < length xs \<Longrightarrow> f (xs ! i) = Inr (ys ! i)"
  using assms by (auto simp: rmap_Inr_iff list_all2_conv_all_nth)

text \<open>The plan of the \<open>i\<close>-th worker, with the memory it plans for and the first and final configuration.\<close>

definition worker_plan ::
  "kv_lib \<Rightarrow> kv_config \<Rightarrow> kv_config \<Rightarrow> kv_group list \<Rightarrow> specs \<Rightarrow> int \<Rightarrow> int \<Rightarrow> kv_group list \<Rightarrow> int \<Rightarrow>
   kv_cache_config \<Rightarrow> kv_cache_config \<Rightarrow> bool" where
  "worker_plan lib cfg cfg1 gs worker available memory hs least p c \<longleftrightarrow>
     project_groups gs worker = Inr hs \<and>
     (case blocks_override cfg of None \<Rightarrow> memory = available
      | Some k \<Rightarrow> hs = [] \<or> (\<exists>n. bytes_per_block lib cfg hs = Inr n \<and> memory = k * n)) \<and>
     (hs = [] \<or> (\<exists>n. bytes_per_block lib cfg hs = Inr n \<and> check_worker lib cfg1 (hs, memory - n) = Inr ())) \<and>
     length (group_names hs) = length worker \<and>
     get_kv_cache_config_from_groups lib cfg1 hs memory = Inr p \<and> least \<le> num_blocks p \<and>
     shrink_config lib cfg1 least p = Inr c"

lemma plan_steps:
  assumes "get_kv_cache_configs lib cfg workers available = Inr (cfg1, cs)"
  shows "\<exists>merged tagged gs hss memory ps least. merge_workers workers = Inr merged \<and> tag_windows lib cfg merged = Inr tagged \<and>
    get_kv_cache_groups lib cfg tagged = Inr gs \<and> (\<exists>x. cfg1 = cfg\<lparr>max_model_len := x\<rparr>) \<and>
    length cs = min (length workers) (length available) \<and> length ps = length cs \<and> least \<in> num_blocks ` set ps \<and>
    (\<forall>i < length cs. worker_plan lib cfg cfg1 gs (workers ! i) (available ! i) (memory ! i) (hss ! i) least (ps ! i) (cs ! i))"
proof -
  obtain merged tagged gs hss memory usable where s: "merge_workers workers = Inr merged" "tag_windows lib cfg merged = Inr tagged"
      "get_kv_cache_groups lib cfg tagged = Inr gs" "rmap (project_groups gs) workers = Inr hss"
      "adjust_memory lib cfg hss available = Inr memory" "usable_memory lib cfg hss memory = Inr usable"
    and fit: "(if original_max_model_len cfg = - 1 then auto_fit_max_model_len lib cfg hss usable else Inr cfg) = Inr cfg1"
    and checks: "\<exists>us. rmap (check_worker lib cfg1) (zip hss usable) = Inr us" and plan: "plan_workers lib cfg1 hss workers memory = Inr cs"
    using assms by (auto simp: get_kv_cache_configs_def)
  have cfg1: "\<exists>x. cfg1 = cfg\<lparr>max_model_len := x\<rparr>"
  proof (cases "original_max_model_len cfg = - 1")
    case False
    then have "cfg1 = cfg\<lparr>max_model_len := max_model_len cfg\<rparr>" using fit by simp
    then show ?thesis by blast
  qed (use fit auto_fit_length in auto)
  obtain us where us: "rmap (check_worker lib cfg1) (zip hss usable) = Inr us" using checks by blast
  obtain ps where ps: "rmap (plan_worker lib cfg1) (zip hss (zip workers memory)) = Inr ps" "ps \<noteq> []"
    and cs: "rmap (shrink_config lib cfg1 (Min (set (map num_blocks ps)))) ps = Inr cs"
    using plan by (auto simp: plan_workers_def split: if_splits)
  define least where "least = Min (num_blocks ` set ps)"
  have hss: "length hss = length workers" using rmap_nth(1) [OF s(4)] .
  have memory: "length memory = (case blocks_override cfg of None \<Rightarrow> length available | Some k \<Rightarrow> min (length hss) (length available))"
    using s(5) by (auto simp: adjust_memory_def dest!: rmap_nth(1) split: option.splits)
  have usable: "length usable = min (length hss) (length memory)"
    using rmap_nth(1) [OF s(6) [unfolded usable_memory_def]] by simp
  have len: "length ps = min (length workers) (length available)" "length cs = length ps"
    using rmap_nth(1) [OF ps(1)] rmap_nth(1) [OF cs] hss memory by (auto split: option.splits)
  have "worker_plan lib cfg cfg1 gs (workers ! i) (available ! i) (memory ! i) (hss ! i) least (ps ! i) (cs ! i)"
    if i: "i < length cs" for i
  proof -
    have w: "i < length workers" "i < length available" "i < length memory" "i < length usable" "i < length hss" "i < length ps"
      using i len hss memory usable by (auto split: option.splits)
    have "least \<le> num_blocks (ps ! i)" unfolding least_def using w(6) by (intro Min_le) auto
    moreover have "plan_worker lib cfg1 (hss ! i, workers ! i, memory ! i) = Inr (ps ! i)"
      using rmap_nth(2) [OF ps(1), of i] w by simp
    moreover have "shrink_config lib cfg1 least (ps ! i) = Inr (cs ! i)"
      using rmap_nth(2) [OF cs w(6)] by (simp add: least_def)
    moreover have "project_groups gs (workers ! i) = Inr (hss ! i)" using rmap_nth(2) [OF s(4) w(1)] .
    moreover have "case blocks_override cfg of None \<Rightarrow> memory ! i = available ! i
        | Some k \<Rightarrow> hss ! i = [] \<or> (\<exists>n. bytes_per_block lib cfg (hss ! i) = Inr n \<and> memory ! i = k * n)"
    proof (cases "blocks_override cfg")
      case (Some k)
      have "(if hss ! i = [] then Inr (available ! i) else rbind (bytes_per_block lib cfg (hss ! i)) (\<lambda>n. Inr (k * n))) = Inr (memory ! i)"
        using rmap_nth(2) [OF s(5) [unfolded adjust_memory_def Some option.case], of i] w by simp
      then show ?thesis using Some by (auto split: if_splits)
    qed (use s(5) in \<open>simp add: adjust_memory_def\<close>)
    moreover have "hss ! i = [] \<or> (\<exists>n. bytes_per_block lib cfg (hss ! i) = Inr n \<and> check_worker lib cfg1 (hss ! i, memory ! i - n) = Inr ())"
    proof -
      have u: "(if hss ! i = [] then Inr (memory ! i) else rbind (bytes_per_block lib cfg (hss ! i)) (\<lambda>n. Inr (memory ! i - n))) = Inr (usable ! i)"
        using rmap_nth(2) [OF s(6) [unfolded usable_memory_def], of i] w by simp
      have "check_worker lib cfg1 (hss ! i, usable ! i) = Inr ()" using rmap_nth(2) [OF us, of i] w by simp
      then show ?thesis using u by (auto split: if_splits)
    qed
    ultimately show ?thesis
      by (simp add: worker_plan_def plan_worker_def group_names_def length_concat comp_def split: if_splits)
  qed
  moreover have "least \<in> num_blocks ` set ps" unfolding least_def using ps(2) by (intro Min_in) auto
  ultimately have "merge_workers workers = Inr merged \<and> tag_windows lib cfg merged = Inr tagged \<and>
    get_kv_cache_groups lib cfg tagged = Inr gs \<and> (\<exists>x. cfg1 = cfg\<lparr>max_model_len := x\<rparr>) \<and>
    length cs = min (length workers) (length available) \<and> length ps = length cs \<and> least \<in> num_blocks ` set ps \<and>
    (\<forall>i < length cs. worker_plan lib cfg cfg1 gs (workers ! i) (available ! i) (memory ! i) (hss ! i) least (ps ! i) (cs ! i))"
    using s(1-3) cfg1 len by simp
  then show ?thesis by (intro exI)
qed

section \<open>Layers\<close>

lemma merged_distinct: "merge_workers workers = Inr merged \<Longrightarrow> distinct (map fst merged)"
proof -
  have "rfold merge_item qs ss = Inr ts \<Longrightarrow> distinct (map fst ss) \<Longrightarrow> distinct (map fst ts)" for qs ss ts
  proof (induction qs arbitrary: ss)
    case (Cons q qs)
    obtain us where us: "merge_item q ss = Inr us" "rfold merge_item qs us = Inr ts" using Cons.prems(1) by auto
    have "distinct (map fst us)" using us(1) Cons.prems(2)
      by (auto simp: merge_item_def map_of_eq_None_iff split: prod.splits option.splits if_splits)
    then show ?case using Cons.IH us(2) by blast
  qed simp
  then show "merge_workers workers = Inr merged \<Longrightarrow> distinct (map fst merged)" by (fastforce simp: merge_workers_def)
qed

lemma tagged_keys: "tag_windows lib cfg ss = Inr ts \<Longrightarrow> map fst ts = map fst ss"
  unfolding tag_windows_def by (induction ss arbitrary: ts) (auto split: if_splits)

lemma project_names: "project_group w g = Inr h \<Longrightarrow> layer_names h = filter (\<lambda>n. n \<in> fst ` set w) (layer_names g)"
  by (auto simp: project_group_def Let_def)

lemma projected_names: "project_groups gs w = Inr hs \<Longrightarrow> group_names hs = filter (\<lambda>n. n \<in> fst ` set w) (group_names gs)"
  unfolding project_groups_def by (induction gs arbitrary: hs) (auto dest: project_names)

lemma distinct_submultiset:
  assumes "mset xs \<subseteq># mset ys" "distinct ys"
  shows "distinct xs"
proof -
  obtain M where "mset ys = mset xs + M" using assms(1) by (metis mset_subset_eq_exists_conv)
  moreover obtain zs where "mset zs = M" using ex_mset by blast
  ultimately have "mset ys = mset (xs @ zs)" by simp
  then have "distinct (xs @ zs)" using assms(2) mset_eq_imp_distinct_iff by blast
  then show ?thesis by simp
qed

lemma same_length_same_mset:
  assumes "distinct xs" "set xs \<subseteq> set ys" "length xs = length ys"
  shows "mset xs = mset ys"
proof -
  have "card (set ys) \<le> length ys" by (rule card_length)
  moreover have "card (set xs) = length xs" using assms(1) by (rule distinct_card)
  moreover have "card (set xs) \<le> card (set ys)" using assms(2) by (simp add: card_mono)
  ultimately have "card (set ys) = length ys" "card (set xs) = card (set ys)" using assms(3) by simp_all
  then have "distinct ys" "set xs = set ys" using assms(2) by (simp_all add: card_distinct card_subset_eq)
  then show ?thesis using assms(1) set_eq_iff_mset_eq_distinct by blast
qed

lemma config_groups: "get_kv_cache_config_from_groups lib cfg gs m = Inr c \<Longrightarrow> kv_cache_groups c = gs"
  by (auto simp: get_kv_cache_config_from_groups_def Let_def split: if_splits)

lemma shrunk_groups: "shrink_config lib cfg k p = Inr c \<Longrightarrow> kv_cache_groups c = kv_cache_groups p"
  by (auto simp: shrink_config_def split: if_splits dest: config_groups)

lemma plan_groups:
  assumes "worker_plan lib cfg cfg1 gs w m mm hs k p c"
  shows "kv_cache_groups c = hs" "kv_cache_groups p = hs"
  using assms config_groups shrunk_groups by (auto simp: worker_plan_def)

definition sample_plans :: "kv_config \<times> kv_cache_config list" where
  "sample_plans = projr (get_kv_cache_configs sample_lib (sample_config True) [sample_specs, take 3 sample_specs] [2000, 1700])"

lemma sample_plans_run:
  "get_kv_cache_configs sample_lib (sample_config True) [sample_specs, take 3 sample_specs] [2000, 1700] =
     Inr (fst sample_plans, snd sample_plans)"
proof -
  have "\<not> isl (get_kv_cache_configs sample_lib (sample_config True) [sample_specs, take 3 sample_specs] [2000, 1700])"
    by code_simp
  then show ?thesis by (simp add: sample_plans_def)
qed

lemma plan_layers:
  assumes "get_kv_cache_configs lib cfg workers available = Inr (cfg1, cs)"
  shows "length cs = min (length workers) (length available) \<and>
    (\<forall>i < length cs. mset (concat (map layer_names (kv_cache_groups (cs ! i)))) = mset (map fst (workers ! i)))"
proof -
  obtain merged tagged gs hss memory ps least where s: "merge_workers workers = Inr merged" "tag_windows lib cfg merged = Inr tagged"
      "get_kv_cache_groups lib cfg tagged = Inr gs" "length cs = min (length workers) (length available)"
    and each: "\<forall>i < length cs. worker_plan lib cfg cfg1 gs (workers ! i) (available ! i) (memory ! i) (hss ! i) least (ps ! i) (cs ! i)"
    using plan_steps [OF assms] by blast
  have "distinct (map fst tagged)" using merged_distinct [OF s(1)] tagged_keys [OF s(2)] by simp
  moreover have "mset (group_names gs) \<subseteq># mset (map fst tagged)" by (rule grouped_names [OF s(3)])
  ultimately have distinct: "distinct (group_names gs)" by (rule distinct_submultiset [rotated])
  have "mset (concat (map layer_names (kv_cache_groups (cs ! i)))) = mset (map fst (workers ! i))" if i: "i < length cs" for i
  proof -
    have w: "worker_plan lib cfg cfg1 gs (workers ! i) (available ! i) (memory ! i) (hss ! i) least (ps ! i) (cs ! i)"
      using each i by blast
    then have names: "group_names (hss ! i) = filter (\<lambda>n. n \<in> fst ` set (workers ! i)) (group_names gs)"
      "length (group_names (hss ! i)) = length (workers ! i)"
      using projected_names by (auto simp: worker_plan_def)
    have "mset (group_names (hss ! i)) = mset (map fst (workers ! i))"
      by (rule same_length_same_mset) (use names distinct in auto)
    then show ?thesis using plan_groups(1) [OF w] by (simp add: group_names_def)
  qed
  then show ?thesis using s(4) by blast
qed

text \<open>
  C5. When \<open>get_kv_cache_configs\<close> plans, there is a configuration for every worker that has
  memory, and its groups hold each layer of the worker exactly once: whatever way the layers
  of the model were grouped, no layer is left without a group and none is in two.
\<close>

theorem plans_cover_layers:
  assumes "get_kv_cache_configs lib cfg workers available = Inr (cfg1, cs)"
  shows "length cs = min (length workers) (length available) \<and>
    (\<forall>i < length cs. mset (concat (map layer_names (kv_cache_groups (cs ! i)))) = mset (map fst (workers ! i)))"
  by (rule plan_layers [OF assms])

theorem plans_cover_layers_witness:
  "length (snd sample_plans) = 2 \<and>
   mset (concat (map layer_names (kv_cache_groups (snd sample_plans ! 1)))) = mset (map fst (take 3 sample_specs))"
  using plans_cover_layers [OF sample_plans_run] by simp

section \<open>Blocks and memory\<close>

lemma num_blocks_run:
  assumes "get_kv_cache_config_from_groups lib cfg gs m = Inr c"
  shows "gs = [] \<and> num_blocks c = 1 \<or> gs \<noteq> [] \<and>
    (\<exists>n. bytes_per_block lib cfg gs = Inr n \<and> num_blocks c = may_override_num_blocks cfg (m div n))"
proof (cases "gs = []")
  case False
  then show ?thesis using config_run [OF False assms] by blast
qed (use assms in \<open>auto simp: get_kv_cache_config_from_groups_def\<close>)

text \<open>
  The first configuration of a worker has the blocks its memory gives, and shrinking leaves
  the least number of all workers.
\<close>

lemma plan_blocks:
  assumes "worker_plan lib cfg cfg1 gs w m mm hs least p c" "cfg1 = cfg\<lparr>max_model_len := x\<rparr>" "hs \<noteq> []"
  shows "\<exists>n. bytes_per_block lib cfg1 hs = Inr n \<and> 0 < n \<and> num_blocks p = mm div n \<and>
    (blocks_override cfg = None \<longrightarrow> mm = m) \<and>
    (\<exists>bs. rmap (group_max_blocks lib cfg1) hs = Inr bs \<and> 1 + sum_list bs \<le> num_blocks p)"
proof -
  note w = assms(1) [unfolded worker_plan_def]
  have bytes: "bytes_per_block lib cfg1 hs = bytes_per_block lib cfg hs" by (simp add: assms(2) bytes_per_block_len)
  obtain n where n: "bytes_per_block lib cfg1 hs = Inr n" "check_worker lib cfg1 (hs, mm - n) = Inr ()"
    using w assms(3) by (auto simp: bytes)
  have pos: "0 < n" by (rule bytes_per_block_pos [OF n(1)])
  have blocks: "num_blocks p = may_override_num_blocks cfg1 (mm div n)"
    using num_blocks_run [of lib cfg1 hs mm p] w assms(3) n(1) by auto
  have over: "num_blocks p = mm div n \<and> (blocks_override cfg = None \<longrightarrow> mm = m)"
  proof (cases "blocks_override cfg")
    case None
    then show ?thesis using w blocks by (simp add: may_override_num_blocks_def assms(2))
  next
    case (Some k)
    then have "mm = k * n" using w assms(3) n(1) bytes by auto
    moreover have "num_blocks p = k" using blocks Some by (simp add: may_override_num_blocks_def assms(2))
    ultimately show ?thesis using pos Some by simp
  qed
  obtain bs where bs: "rmap (group_max_blocks lib cfg1) hs = Inr bs" "n * sum_list bs \<le> mm - n"
    using n assms(3) by (auto simp: check_worker_def check_enough_def max_memory_from_groups_def split: if_splits)
  have "(1 + sum_list bs) * n \<le> mm" using bs(2) by (simp add: algebra_simps)
  then have "(1 + sum_list bs) * n div n \<le> mm div n" using pos by (intro zdiv_mono1) auto
  then have "1 + sum_list bs \<le> num_blocks p" using pos over by simp
  then show ?thesis using n(1) pos over bs(1) by (intro exI [of _ n]) simp
qed

lemma plan_least:
  assumes "worker_plan lib cfg cfg1 gs w m mm hs least p c" "cfg1 = cfg\<lparr>max_model_len := x\<rparr>"
    and "\<And>k. blocks_override cfg = Some k \<Longrightarrow> hs = [] \<or> least = k"
  shows "num_blocks c = least"
proof -
  note w = assms(1) [unfolded worker_plan_def]
  show ?thesis
  proof (cases "num_blocks p = least")
    case True
    then show ?thesis using w by (simp add: shrink_config_def)
  next
    case False
    then obtain n where n: "bytes_per_block lib cfg1 hs = Inr n" "get_kv_cache_config_from_groups lib cfg1 hs (least * n) = Inr c"
      using w config_groups [of lib cfg1 hs mm p] by (auto simp: shrink_config_def)
    have pos: "0 < n" by (rule bytes_per_block_pos [OF n(1)])
    have "hs \<noteq> []"
    proof
      assume "hs = []"
      then have "bytes_per_block lib cfg1 [] = Inr n" using n(1) by simp
      then show False by (simp add: bytes_per_block_def shared_block_bytes_def contains_glm5_next_mla_def)
    qed
    then have "num_blocks c = may_override_num_blocks cfg1 (least * n div n)"
      using num_blocks_run [OF n(2)] n(1) by auto
    then show ?thesis using pos assms(3) \<open>hs \<noteq> []\<close>
      by (cases "blocks_override cfg") (simp_all add: may_override_num_blocks_def assms(2))
  qed
qed

lemma empty_plans:
  assumes "worker_plan lib cfg cfg1 gs w m mm hs least p c"
  shows "hs = [] \<longleftrightarrow> gs = []" "hs = [] \<Longrightarrow> num_blocks p = 1"
proof -
  note w = assms [unfolded worker_plan_def]
  have "length hs = length gs" using rmap_nth(1) [of "project_group w" gs hs] w by (simp add: project_groups_def)
  then show "hs = [] \<longleftrightarrow> gs = []" by auto
  show "hs = [] \<Longrightarrow> num_blocks p = 1" using num_blocks_run [of lib cfg1 hs mm p] w by auto
qed

lemma plan_blocks_agree:
  assumes "get_kv_cache_configs lib cfg workers available = Inr (cfg1, cs)"
  shows "\<exists>gs hss memory ps least x. cfg1 = cfg\<lparr>max_model_len := x\<rparr> \<and> length ps = length cs \<and> least \<in> num_blocks ` set ps \<and>
    (\<forall>i < length cs. worker_plan lib cfg cfg1 gs (workers ! i) (available ! i) (memory ! i) (hss ! i) least (ps ! i) (cs ! i) \<and>
       num_blocks (cs ! i) = least \<and> kv_cache_groups (cs ! i) = hss ! i)"
proof -
  obtain gs hss memory ps least x where s: "cfg1 = cfg\<lparr>max_model_len := x\<rparr>" "length ps = length cs" "least \<in> num_blocks ` set ps"
    and each: "\<forall>i < length cs. worker_plan lib cfg cfg1 gs (workers ! i) (available ! i) (memory ! i) (hss ! i) least (ps ! i) (cs ! i)"
    using plan_steps [OF assms] by blast
  obtain j where j: "j < length cs" "least = num_blocks (ps ! j)" using s(2,3) by (force simp: in_set_conv_nth)
  note wj = each [rule_format, OF j(1)]
  have "hss ! i = [] \<or> least = k" if "i < length cs" "blocks_override cfg = Some k" for i k
  proof (cases "gs = []")
    case True
    then show ?thesis using empty_plans(1) [OF each [rule_format, OF that(1)]] by simp
  next
    case False
    then have ne: "hss ! j \<noteq> []" using empty_plans(1) [OF wj] by simp
    have "num_blocks (ps ! j) = k"
      using num_blocks_run [of lib cfg1 "hss ! j" "memory ! j" "ps ! j"] wj ne that(2)
      by (auto simp: worker_plan_def may_override_num_blocks_def s(1))
    then show ?thesis using j(2) by simp
  qed
  then have "num_blocks (cs ! i) = least" if "i < length cs" for i
    using plan_least [OF each [rule_format, OF that] s(1)] that by blast
  moreover have "kv_cache_groups (cs ! i) = hss ! i" if "i < length cs" for i
    using plan_groups(1) [OF each [rule_format, OF that]] .
  ultimately have "cfg1 = cfg\<lparr>max_model_len := x\<rparr> \<and> length ps = length cs \<and> least \<in> num_blocks ` set ps \<and>
    (\<forall>i < length cs. worker_plan lib cfg cfg1 gs (workers ! i) (available ! i) (memory ! i) (hss ! i) least (ps ! i) (cs ! i) \<and>
       num_blocks (cs ! i) = least \<and> kv_cache_groups (cs ! i) = hss ! i)"
    using s each by blast
  then show ?thesis by (intro exI)
qed

text \<open>
  C12. The workers of a plan agree and fit: every configuration that \<open>get_kv_cache_configs\<close>
  returns has the same number of blocks, and, unless the number is overridden, the blocks of a
  worker with KV-cache groups take at most the memory available to that worker.
\<close>

theorem plans_agree_and_fit:
  assumes "get_kv_cache_configs lib cfg workers available = Inr (cfg1, cs)"
  shows "(\<forall>c \<in> set cs. \<forall>d \<in> set cs. num_blocks c = num_blocks d) \<and>
    (blocks_override cfg = None \<longrightarrow> (\<forall>i < length cs. kv_cache_groups (cs ! i) \<noteq> [] \<longrightarrow>
      (\<exists>n > 0. bytes_per_block lib cfg1 (kv_cache_groups (cs ! i)) = Inr n \<and> num_blocks (cs ! i) * n \<le> available ! i)))"
proof -
  obtain gs hss memory ps least x where s: "cfg1 = cfg\<lparr>max_model_len := x\<rparr>"
    and each: "\<forall>i < length cs. worker_plan lib cfg cfg1 gs (workers ! i) (available ! i) (memory ! i) (hss ! i) least (ps ! i) (cs ! i) \<and>
       num_blocks (cs ! i) = least \<and> kv_cache_groups (cs ! i) = hss ! i"
    using plan_blocks_agree [OF assms] by blast
  have "\<exists>n > 0. bytes_per_block lib cfg1 (kv_cache_groups (cs ! i)) = Inr n \<and> num_blocks (cs ! i) * n \<le> available ! i"
    if h: "blocks_override cfg = None" "i < length cs" "kv_cache_groups (cs ! i) \<noteq> []" for i
  proof -
    have w: "worker_plan lib cfg cfg1 gs (workers ! i) (available ! i) (memory ! i) (hss ! i) least (ps ! i) (cs ! i)"
      and e: "num_blocks (cs ! i) = least" "kv_cache_groups (cs ! i) = hss ! i" using each h(2) by blast+
    obtain n where n: "bytes_per_block lib cfg1 (hss ! i) = Inr n" "0 < n" "num_blocks (ps ! i) = memory ! i div n"
      "memory ! i = available ! i" using plan_blocks [OF w s] h e(2) by auto
    have "least \<le> memory ! i div n" using w n(3) by (simp add: worker_plan_def)
    then have "least * n \<le> memory ! i div n * n" using n(2) by (intro mult_right_mono) auto
    also have "\<dots> \<le> memory ! i" using pos_mod_sign [OF n(2), of "memory ! i"] div_mult_mod_eq [of "memory ! i" n] by linarith
    finally show ?thesis using n e by auto
  qed
  moreover have "\<forall>c \<in> set cs. num_blocks c = least" using each by (metis in_set_conv_nth)
  ultimately show ?thesis by simp
qed

theorem plans_agree_and_fit_witness:
  "num_blocks (snd sample_plans ! 0) = num_blocks (snd sample_plans ! 1) \<and> num_blocks (snd sample_plans ! 1) = 7 \<and>
   (\<exists>n > 0. bytes_per_block sample_lib (fst sample_plans) (kv_cache_groups (snd sample_plans ! 0)) = Inr n \<and>
      num_blocks (snd sample_plans ! 0) * n \<le> 2000)"
proof -
  have n: "length (snd sample_plans) = 2" "num_blocks (snd sample_plans ! 1) = 7"
    "blocks_override (sample_config True) = None" "kv_cache_groups (snd sample_plans ! 0) \<noteq> []" by code_simp+
  then have "snd sample_plans ! 0 \<in> set (snd sample_plans)" "snd sample_plans ! 1 \<in> set (snd sample_plans)" by simp_all
  with plans_agree_and_fit [OF sample_plans_run] n show ?thesis by (metis nth_Cons_0 zero_less_numeral)
qed

text \<open>
  C22. A plan holds a request: when the groups of all workers need the same number of blocks
  for a request of the planned length (as they do when the workers have the same layers), the
  number of blocks of every configuration is at least the blocks of one such request and the
  null block.
\<close>

theorem plans_hold_a_request:
  assumes "get_kv_cache_configs lib cfg workers available = Inr (cfg1, cs)" "c \<in> set cs" "kv_cache_groups c \<noteq> []"
    and "\<forall>d \<in> set cs. rmap (group_max_blocks lib cfg1) (kv_cache_groups d) = rmap (group_max_blocks lib cfg1) (kv_cache_groups c)"
  shows "\<exists>bs. rmap (group_max_blocks lib cfg1) (kv_cache_groups c) = Inr bs \<and> 1 + sum_list bs \<le> num_blocks c"
proof -
  obtain gs hss memory ps least x where s: "cfg1 = cfg\<lparr>max_model_len := x\<rparr>" "length ps = length cs" "least \<in> num_blocks ` set ps"
    and each: "\<forall>i < length cs. worker_plan lib cfg cfg1 gs (workers ! i) (available ! i) (memory ! i) (hss ! i) least (ps ! i) (cs ! i) \<and>
       num_blocks (cs ! i) = least \<and> kv_cache_groups (cs ! i) = hss ! i"
    using plan_blocks_agree [OF assms(1)] by blast
  obtain i where i: "i < length cs" "c = cs ! i" using assms(2) by (metis in_set_conv_nth)
  obtain j where j: "j < length cs" "least = num_blocks (ps ! j)" using s(2,3) by (force simp: in_set_conv_nth)
  have wi: "worker_plan lib cfg cfg1 gs (workers ! i) (available ! i) (memory ! i) (hss ! i) least (ps ! i) (cs ! i)"
    and wj: "worker_plan lib cfg cfg1 gs (workers ! j) (available ! j) (memory ! j) (hss ! j) least (ps ! j) (cs ! j)"
    and e: "num_blocks c = least" "kv_cache_groups c = hss ! i" "kv_cache_groups (cs ! j) = hss ! j"
    using each i j(1) by auto
  have "hss ! j \<noteq> []" using assms(3) e(2) empty_plans(1) [OF wi] empty_plans(1) [OF wj] by simp
  then obtain bs where bs: "rmap (group_max_blocks lib cfg1) (hss ! j) = Inr bs" "1 + sum_list bs \<le> num_blocks (ps ! j)"
    using plan_blocks [OF wj s(1)] by blast
  moreover have "rmap (group_max_blocks lib cfg1) (kv_cache_groups c) = Inr bs"
    using assms(4) j(1) e(3) bs(1) by (metis nth_mem)
  ultimately show ?thesis using e(1) j(2) by simp
qed

theorem plans_hold_a_request_witness:
  "\<exists>bs. rmap (group_max_blocks sample_lib (fst sample_plans)) (kv_cache_groups (hd (snd sample_plans))) = Inr bs \<and>
     1 + sum_list bs \<le> num_blocks (hd (snd sample_plans)) \<and> length bs = 4"
proof -
  have c: "hd (snd sample_plans) \<in> set (snd sample_plans)" "kv_cache_groups (hd (snd sample_plans)) \<noteq> []"
    "\<forall>d \<in> set (snd sample_plans). rmap (group_max_blocks sample_lib (fst sample_plans)) (kv_cache_groups d) =
       rmap (group_max_blocks sample_lib (fst sample_plans)) (kv_cache_groups (hd (snd sample_plans)))"
    "length (kv_cache_groups (hd (snd sample_plans))) = 4" by code_simp+
  obtain bs where bs: "rmap (group_max_blocks sample_lib (fst sample_plans)) (kv_cache_groups (hd (snd sample_plans))) = Inr bs"
    "1 + sum_list bs \<le> num_blocks (hd (snd sample_plans))"
    using plans_hold_a_request [OF sample_plans_run c(1,2,3)] by blast
  then show ?thesis using rmap_nth(1) [OF bs(1)] c(4) by (intro exI [of _ bs]) simp
qed

section \<open>The tensors of a plan\<close>

lemma plan_config:
  assumes "worker_plan lib cfg cfg1 gs w m mm hs least p c"
  shows "\<exists>k. get_kv_cache_config_from_groups lib cfg1 hs k = Inr c"
proof (cases "num_blocks p = least")
  case True
  then show ?thesis using assms by (auto simp: worker_plan_def shrink_config_def)
next
  case False
  then show ?thesis using assms plan_groups(2) [OF assms] by (auto simp: worker_plan_def shrink_config_def)
qed

lemma placed_names: "list_all2 (group_placed nb) gs tss \<Longrightarrow> mset (concat (map t_layers (concat tss))) = mset (group_names gs)"
  by (induction rule: list_all2_induct) (auto simp: group_placed_def)

text \<open>
  C10. From the layers of the workers to the bytes: in a plan of \<open>get_kv_cache_configs\<close> for a page
  layout, the tensors of a worker whose groups are well formed hold each of its layers exactly
  once, and the pages of every group are in their allocations and apart.
\<close>

theorem plans_place_layers:
  assumes "lib_ok lib" "get_kv_cache_configs lib cfg workers available = Inr (cfg1, cs)" "page_layout (resolved_layout cfg)"
    and "i < length cs" "kv_cache_groups (cs ! i) \<noteq> []" "\<forall>g \<in> set (kv_cache_groups (cs ! i)). good_group g" "0 < num_blocks (cs ! i)"
  shows "mset (concat (map t_layers (kv_cache_tensors (cs ! i)))) = mset (map fst (workers ! i)) \<and>
    (\<exists>tss. kv_cache_tensors (cs ! i) = concat tss \<and>
      list_all2 (group_placed (nat (num_blocks (cs ! i)))) (kv_cache_groups (cs ! i)) tss)"
proof -
  obtain gs hss memory ps least x where s: "cfg1 = cfg\<lparr>max_model_len := x\<rparr>"
    and each: "\<forall>i < length cs. worker_plan lib cfg cfg1 gs (workers ! i) (available ! i) (memory ! i) (hss ! i) least (ps ! i) (cs ! i) \<and>
       num_blocks (cs ! i) = least \<and> kv_cache_groups (cs ! i) = hss ! i"
    using plan_blocks_agree [OF assms(2)] by blast
  then have w: "worker_plan lib cfg cfg1 gs (workers ! i) (available ! i) (memory ! i) (hss ! i) least (ps ! i) (cs ! i)"
    and g: "kv_cache_groups (cs ! i) = hss ! i" using assms(4) by blast+
  obtain k where k: "get_kv_cache_config_from_groups lib cfg1 (kv_cache_groups (cs ! i)) k = Inr (cs ! i)"
    using plan_config [OF w] g by auto
  have "page_layout (resolved_layout cfg1)" using assms(3) by (simp add: s)
  from config_placed [OF assms(1,5,6) this k assms(7)] obtain tss where tss: "kv_cache_tensors (cs ! i) = concat tss"
    "list_all2 (group_placed (nat (num_blocks (cs ! i)))) (kv_cache_groups (cs ! i)) tss" by blast
  have "mset (concat (map t_layers (kv_cache_tensors (cs ! i)))) = mset (map fst (workers ! i))"
    using placed_names [OF tss(2)] plan_layers [OF assms(2)] assms(4) by (simp add: tss(1) group_names_def)
  then show ?thesis using tss by blast
qed

theorem plans_place_layers_witness:
  "mset (concat (map t_layers (kv_cache_tensors (snd sample_plans ! 0)))) = mset [''l0'', ''l1'', ''m0'', ''draft'']"
proof -
  let ?c = "snd sample_plans ! 0"
  have n: "0 < length (snd sample_plans)" "0 < num_blocks ?c" "kv_cache_groups ?c \<noteq> []"
    "group_names (kv_cache_groups ?c) = [''l0'', ''l1'', ''m0'', ''draft'']"
    "map group_spec (kv_cache_groups ?c) =
       [Layer sample_full, Layer sample_full, Layer (set_page_padded 128 sample_mamba), Layer sample_full]" by code_simp+
  have "layer_page_size sample_full = Inr 128" "layer_page_size (set_page_padded 128 sample_mamba) = Inr 128" by code_simp+
  then have good: "good_layer sample_full" "good_layer (set_page_padded 128 sample_mamba)"
    by (simp_all add: good_layer_def) (simp_all add: sample_full_def sample_mamba_def sample_attn_def layer_block_size_def)
  have "good_group g" if "g \<in> set (kv_cache_groups ?c)" for g
  proof -
    have "group_spec g \<in> set (map group_spec (kv_cache_groups ?c))" using that by simp
    then show ?thesis unfolding n(5) using good by (auto simp: good_group_def)
  qed
  then have "\<forall>g \<in> set (kv_cache_groups ?c). good_group g" by blast
  from plans_place_layers [OF sample_lib_ok sample_plans_run sample_page_layout n(1,3) this n(2)]
  show ?thesis by (simp add: sample_specs_def)
qed

end
