(* ===== verification/KVTypes.thy ===== *)
theory KVTypes
  imports KVSample KVWell
begin

text \<open>
  What a merged specification is: \<open>merge\<close> of \<open>kv_cache_interface.py\<close> gives a specification of
  the class of the first layer, and, except for sliding-window MLA, with the attention fields,
  the block size and the page size of every layer of the group.
\<close>

lemma the_one_all:
  assumes "the_one xs = Inr x" "y \<in> set xs"
  shows "y = x"
proof -
  have "remdups xs = [x]" using assms(1) by (auto simp: the_one_def split: list.splits)
  then have "set xs = {x}" by (metis list.set(1) list.set(2) set_remdups)
  then show ?thesis using assms(2) by simp
qed

lemma apply_alignment_None [simp]: "apply_alignment lib None a = Inr a"
  by (simp add: apply_alignment_def)

lemma attn_only_page: "mla_of s = None \<Longrightarrow> attn_of s = Some a \<Longrightarrow>
    layer_page_size s = attn_page_size a \<and> layer_block_size s = a_block_size a"
  by (cases s) (auto simp: layer_page_size_def layer_block_size_def)

lemma mla_page: "mla_of s = Some m \<Longrightarrow> attn_of s = Some a \<Longrightarrow>
    layer_page_size s = mla_page_size a m \<and> layer_block_size s = a_block_size a"
  by (cases s) (auto simp: layer_page_size_def layer_block_size_def)

lemma full_parts:
  assumes "merge_full_parts g ss = Inr (a, f)" "x \<in> set ss"
  shows "attn_of x = Some a \<and> mla_of x = None"
proof -
  have "\<not> isinst x CMLA" "same_attn ss a"
    using assms by (auto simp: merge_full_parts_def Let_def split: if_splits)
  then show ?thesis using assms(2) by (cases x) (auto simp: same_attn_def is_subclass_def)
qed

lemma merged_mla:
  assumes "merge_mla lib cls ss = Inr s" "cls = MLA \<or> cls = Hidden"
  shows "\<exists>a f m. s = cls a f m \<and> (\<forall>x \<in> set ss. attn_of x = Some a \<and> (\<exists>k. mla_of x = Some k \<and> page_tail k = page_tail m))"
proof -
  obtain pt and a :: attn and f m where tails: "the_one (map (page_tail \<circ> the \<circ> mla_of) ss) = Inr pt"
    and s: "post_init lib (cls a f m) = Inr s" "same_attn ss (the (attn_of s))" "page_tail m = pt" "alignment m = None"
    and kinds: "\<forall>x \<in> set ss. isinst x CMLA"
    using assms(1) by (auto simp: merge_mla_def Let_def split: if_splits)
  have sm: "s = cls a f m" using assms(2) s(1,4) by (auto split: if_splits)
  have "attn_of x = Some a \<and> (\<exists>k. mla_of x = Some k \<and> page_tail k = page_tail m)" if x: "x \<in> set ss" for x
  proof -
    have "isinst x CMLA" using kinds x by blast
    then obtain k where k: "mla_of x = Some k" by (cases x) (auto simp: is_subclass_def)
    have "(page_tail \<circ> the \<circ> mla_of) x = pt" by (rule the_one_all [OF tails]) (use x in simp)
    then show ?thesis using k s(2,3) x sm assms(2) by (auto simp: same_attn_def)
  qed
  then show ?thesis using sm by blast
qed

text \<open>
  C26. The specification of a merged group is of its layers' type: when the class method of the
  first layer merges a list of specifications, the result has the class of the first one, and,
  unless that is the sliding-window MLA class, every merged layer has the attention fields, the
  block size and the page size of the result, so that the group plans the memory of each.
\<close>

theorem merge_keeps_type:
  assumes "merge_specs lib ss = Inr s"
  shows "class_of s = class_of (hd ss) \<and>
    (class_of s \<noteq> CSlidingMLA \<longrightarrow> (\<forall>x \<in> set ss. attn_of x = attn_of s \<and> layer_block_size x = layer_block_size s \<and>
      layer_page_size x = layer_page_size s))"
proof -
  obtain t ts where ss: "ss = t # ts" using assms by (auto simp: merge_specs_def split: list.splits)
  have equal: ?thesis if "merge_equal ss = Inr s"
    using that by (auto simp: merge_equal_def ss split: if_splits)
  have full: ?thesis if "merge_full_parts g ss = Inr (a, f)" "attn_of s = Some a" "mla_of s = None" "class_of s = class_of t" for g a f
    using full_parts [OF that(1)] that(2-4) attn_only_page by (fastforce simp: ss)
  have mla: ?thesis if c: "merge_mla lib cls ss = Inr s" "cls = MLA \<or> cls = Hidden" "\<And>a f m. class_of (cls a f m) = class_of t" for cls
  proof -
    obtain a f m where m: "s = cls a f m" "\<forall>x \<in> set ss. attn_of x = Some a \<and> (\<exists>k. mla_of x = Some k \<and> page_tail k = page_tail m)"
      using merged_mla [OF c(1,2)] by blast
    have s: "attn_of s = Some a" "mla_of s = Some m" using m(1) c(2) by auto
    have "attn_of x = attn_of s \<and> layer_block_size x = layer_block_size s \<and> layer_page_size x = layer_page_size s" if h: "x \<in> set ss" for x
      using m(2) h mla_page [OF s(2,1)] mla_page [of x _ a] s(1) by (fastforce simp: mla_page_size_def)
    then show ?thesis using m(1) c(3) by (simp add: ss)
  qed
  show ?thesis
  proof (cases t)
    case (Full a f)
    then show ?thesis using assms full [of id] by (auto simp: merge_specs_def ss merge_full_def)
  next
    case (MLA a f m)
    then show ?thesis using assms mla [of MLA] by (simp add: merge_specs_def ss)
  next
    case (Hidden a f m)
    then show ?thesis using assms mla [of Hidden] by (simp add: merge_specs_def ss)
  next
    case (RSWA a f w)
    then show ?thesis using assms full [of id] by (auto simp: merge_specs_def ss merge_rswa_def split: if_splits)
  next
    case (Sink a f l)
    then show ?thesis using assms full [of "\<lambda>a. a\<lparr>a_tokens_per_state := 1\<rparr>"] by (auto simp: merge_specs_def ss merge_sink_def)
  next
    case (SlidingMLA a w m)
    then have "merge_sliding_mla lib ss = Inr s" using assms by (simp add: merge_specs_def ss)
    then show ?thesis using SlidingMLA
      by (auto simp: merge_sliding_mla_def ss Let_def sliding_mla_init_def split: if_splits)
  qed (use assms equal in \<open>simp_all add: merge_specs_def ss\<close>)
qed

theorem merge_keeps_type_witness:
  "\<exists>s. merge_specs sample_lib [sample_full, sample_full] = Inr s \<and> layer_page_size sample_full = layer_page_size s \<and> class_of s = CFull"
proof -
  have "merge_specs sample_lib [sample_full, sample_full] = Inr sample_full" by code_simp
  from merge_keeps_type [OF this] this show ?thesis by (simp add: sample_full_def)
qed

text \<open>
  The exception is real: the merge of sliding-window MLA specifications takes the block size of
  the first without a check, and resets the quantization mode.
\<close>

definition sample_window :: "int \<Rightarrow> layer_spec" where
  "sample_window b = SlidingMLA (sample_attn\<lparr>a_block_size := b, head_size_v := 0, kv_quant_mode := Fp8PerTensor\<rparr>)
     \<lparr>sliding_window = 64, extra_retained = 0\<rparr>
     \<lparr>s_cache_dtype_str = None, s_alignment = None, s_model_version = None\<rparr>"

lemma sliding_mla_merge_unchecked:
  "\<exists>s a. merge_specs sample_lib [sample_window 16, sample_window 32] = Inr s \<and>
     layer_page_size s \<noteq> layer_page_size (sample_window 32) \<and> attn_of s = Some a \<and> kv_quant_mode a = QNone"
proof -
  let ?s = "projr (merge_specs sample_lib [sample_window 16, sample_window 32])"
  have "merge_specs sample_lib [sample_window 16, sample_window 32] = Inr ?s"
    "layer_page_size ?s \<noteq> layer_page_size (sample_window 32)" "attn_of ?s = Some (the (attn_of ?s))"
    "kv_quant_mode (the (attn_of ?s)) = QNone" by code_simp+
  then show ?thesis by blast
qed

end
