(* ===== verification/SchedSplit.thy ===== *)
theory SchedSplit
  imports PyText Prelude
begin

text \<open>
  The repository's additions to the vLLM scheduler, from
  \<open>experiments/e03/prefill-step-cap/scheduler.py\<close>: the switches read from the
  environment, the step token cap, the admission rule for short prefills, the end-drain
  rule, and the two functions that shape a prefill chunk, \<open>_mamba_block_aligned_split\<close>
  and \<open>_reserve_prefill_lookahead\<close>. A request is the record of the attributes the
  scheduler reads and writes; the KV connector, vLLM's, is a function from a request to
  the boundaries it asks for, taken to be a sequence of integers as its interface says.
\<close>

section \<open>Switches and budgets\<close>

datatype sched_error = SchedValueError | SchedAssertion | SchedIndexError | SchedKeyError

definition resilience_cap :: int where "resilience_cap = 6912"
definition resilience_budget :: int where "resilience_budget = 8192"
definition resilience_block :: int where "resilience_block = 2304"
definition eager_threshold :: int where "eager_threshold = 72"

definition env_text :: "string option \<Rightarrow> string" where
  "env_text v = (case v of None \<Rightarrow> ''0'' | Some s \<Rightarrow> s)"

definition step_token_cap :: "string option \<Rightarrow> sched_error + int" where
  "step_token_cap v =
     (if env_text v = ''0'' then Inr 0
      else if env_text v \<noteq> ''6912'' then Inl SchedValueError
      else Inr resilience_cap)"

definition effective_token_budget :: "int \<Rightarrow> int \<Rightarrow> sched_error + int" where
  "effective_token_budget configured cap =
     (if configured \<le> 0 \<or> cap < 0 then Inl SchedValueError
      else Inr (if cap \<noteq> 0 then min configured cap else configured))"

definition check_step_cap ::
  "int \<Rightarrow> int \<Rightarrow> int \<Rightarrow> int \<Rightarrow> int list option \<Rightarrow> sched_error + unit" where
  "check_step_cap cap max_batched max_scheduled block captures =
     (if cap \<noteq> 0 \<and>
         (max_batched \<noteq> resilience_budget \<or> max_scheduled \<noteq> resilience_budget \<or>
          block \<noteq> resilience_block \<or>
          (case captures of None \<Rightarrow> True
           | Some cs \<Rightarrow> cs = [] \<or> foldl max (hd cs) (tl cs) \<noteq> eager_threshold))
      then Inl SchedValueError else Inr ())"

record step_receipt =
  receipt_schema :: string
  wall_time_ns :: int
  monotonic_ns :: int
  receipt_pid :: int
  schedule_sequence :: int
  scheduled_target_tokens :: int
  num_scheduled_new_requests :: int
  configured_token_budget :: int
  effective_token_cap :: int

definition build_receipt :: "int \<Rightarrow> int \<Rightarrow> int \<Rightarrow> int \<Rightarrow> int \<Rightarrow> int \<Rightarrow> int \<Rightarrow> int \<Rightarrow> step_receipt" where
  "build_receipt wall monot pid sequence target new configured cap =
     \<lparr>receipt_schema = ''prefill-step-cap-v1'', wall_time_ns = wall, monotonic_ns = monot,
      receipt_pid = pid, schedule_sequence = sequence, scheduled_target_tokens = target,
      num_scheduled_new_requests = new, configured_token_budget = configured,
      effective_token_cap = cap\<rparr>"

text \<open>The scheduler logs a receipt only for an output above the eager threshold.\<close>

definition receipt_due :: "int \<Rightarrow> int \<Rightarrow> bool" where
  "receipt_due cap scheduled \<longleftrightarrow> cap \<noteq> 0 \<and> eager_threshold < scheduled"

definition short_prefill_env :: "string option \<Rightarrow> sched_error + int" where
  "short_prefill_env v =
     (case py_int (env_text v) of None \<Rightarrow> Inl SchedValueError
      | Some tokens \<Rightarrow> if tokens < 0 then Inl SchedValueError else Inr tokens)"

definition cadence_env :: "string option \<Rightarrow> sched_error + bool" where
  "cadence_env v =
     (if env_text v \<notin> {''0'', ''1''} then Inl SchedValueError else Inr (env_text v = ''1''))"

definition e29_flag :: "string option \<Rightarrow> sched_error + bool" where
  "e29_flag v =
     (if env_text v \<notin> {''0'', ''1''} then Inl SchedValueError else Inr (env_text v = ''1''))"

definition e27b_admits :: "int \<Rightarrow> int \<Rightarrow> int \<Rightarrow> bool" where
  "e27b_admits remaining admitted limit \<longleftrightarrow>
     0 < remaining \<and> remaining < limit \<and> admitted + remaining \<le> limit"

definition end_drain_holds :: "int \<Rightarrow> int \<Rightarrow> int option \<Rightarrow> bool \<Rightarrow> bool \<Rightarrow> bool" where
  "end_drain_holds output_tokens in_flight max_tokens prefill_chunk structured \<longleftrightarrow>
     \<not> prefill_chunk \<and> \<not> structured \<and> 0 < in_flight \<and>
     (case max_tokens of None \<Rightarrow> False | Some m \<Rightarrow> m \<le> output_tokens + in_flight)"

section \<open>Requests and configuration\<close>

datatype req_status = IsWaiting | IsRunning | IsPreempted

record mm_item =
  mm_offset :: int
  mm_length :: int
  mm_embeds :: int
  mm_identifier :: string

record sreq =
  num_prompt_tokens :: int
  num_tokens :: int
  num_computed_tokens :: int
  num_output_tokens :: int
  num_output_placeholders :: int
  max_tokens :: int
  spec_token_ids :: "int list"
  is_prefill_chunk :: bool
  use_structured_output :: bool
  next_decode_eligible_step :: int
  shared_prefix_boundary :: int
  mm_features :: "mm_item list"
  priority :: int
  arrival_time :: rat
  status :: req_status
  num_in_flight_tokens :: int
  num_stale_output_tokens :: int
  drop_stale_output :: bool
  num_preemptions :: int
  last_sched_seq :: int

datatype sched_policy = Fcfs | Priority

record sched_config =
  max_num_scheduled_tokens :: int
  max_num_batched_tokens :: int
  draft_slots :: int
  cap :: int
  short_prefill :: int
  cadence_when_queued :: bool
  end_drain :: bool
  long_prefill_token_threshold :: int
  max_model_len :: int
  num_sampled_tokens_per_step :: int
  num_prefill_lookahead :: int
  need_aligned_split :: bool
  block_size :: int
  hash_block_size :: int
  use_eagle :: bool
  checkpoint_blocks :: bool
  partial_cache_hit :: bool
  disable_chunked_mm_input :: bool
  is_encoder_decoder :: bool
  has_ec_connector :: bool
  requires_kv_delivery :: bool
  defer_block_free :: bool
  sched_policy :: sched_policy

section \<open>Shaping a prefill chunk\<close>

type_synonym boundary_source = "(sreq \<Rightarrow> int list) option"

definition publication_boundaries ::
  "sched_config \<Rightarrow> boundary_source \<Rightarrow> sreq \<Rightarrow> sched_error + int list" where
  "publication_boundaries cfg conn q =
     (case conn of None \<Rightarrow> Inr []
      | Some f \<Rightarrow> let normalized = sort (remdups (f q)) in
          if list_ex (\<lambda>b. b \<le> 0 \<or> num_prompt_tokens q \<le> b \<or> b mod hash_block_size cfg \<noteq> 0)
               normalized
          then Inl SchedValueError else Inr normalized)"

definition publication_boundary_at ::
  "sched_config \<Rightarrow> boundary_source \<Rightarrow> sreq \<Rightarrow> int \<Rightarrow> sched_error + int option" where
  "publication_boundary_at cfg conn q e =
     rbind (publication_boundaries cfg conn q)
       (\<lambda>bs. Inr (if e \<in> set bs then Some e else None))"

definition min_or :: "int \<Rightarrow> int list \<Rightarrow> int" where
  "min_or d xs = (if xs = [] then d else min_list xs)"

definition prefill_end :: "sreq \<Rightarrow> int" where
  "prefill_end q = max (num_prompt_tokens q) (num_tokens q - 1)"

definition last_cache_position :: "sched_config \<Rightarrow> sreq \<Rightarrow> int" where
  "last_cache_position cfg q =
     (let last = num_tokens q - num_tokens q mod block_size cfg
      in if use_eagle cfg then max (last - block_size cfg) 0 else last)"

definition internal_checkpoint :: "sched_config \<Rightarrow> int \<Rightarrow> bool" where
  "internal_checkpoint cfg start \<longleftrightarrow> checkpoint_blocks cfg \<and> start mod block_size cfg = 0"

definition max_prefill_tokens :: "sched_config \<Rightarrow> int" where
  "max_prefill_tokens cfg =
     (if 0 < long_prefill_token_threshold cfg
      then min (max_num_scheduled_tokens cfg) (long_prefill_token_threshold cfg)
      else max_num_scheduled_tokens cfg)"

text \<open>The end of the chunk after the alignment of intermediate chunks.\<close>

definition aligned_chunk_end :: "sched_config \<Rightarrow> sreq \<Rightarrow> int \<Rightarrow> int \<Rightarrow> int" where
  "aligned_chunk_end cfg q start e =
     (let ckpt = internal_checkpoint cfg start;
          aligned = e div block_size cfg * block_size cfg
      in if e < prefill_end q \<and> \<not> (ckpt \<and> num_prompt_tokens q \<le> e) \<and> (\<not> ckpt \<or> use_eagle cfg) \<and>
            (start < aligned \<or> block_size cfg \<le> max_prefill_tokens cfg)
         then aligned else e)"

definition mandatory_stops ::
  "sched_config \<Rightarrow> sreq \<Rightarrow> int \<Rightarrow> int \<Rightarrow> int list \<Rightarrow> int list" where
  "mandatory_stops cfg q start e boundaries =
     (let bs = block_size cfg;
          last = (if internal_checkpoint cfg start then 0 else last_cache_position cfg q);
          tail = (if partial_cache_hit cfg
                  then num_prompt_tokens q div hash_block_size cfg * hash_block_size cfg else 0)
      in [if start mod bs \<noteq> 0 then (start div bs + 1) * bs else 0,
          last,
          if last < tail \<and> tail < num_prompt_tokens q then tail else 0,
          min_or 0 (filter (\<lambda>b. start < b \<and> b < e) boundaries),
          if start < shared_prefix_boundary q \<and> shared_prefix_boundary q < e
          then start + (shared_prefix_boundary q - start) div bs * bs else 0])"

definition block_aligned_split ::
  "sched_config \<Rightarrow> boundary_source \<Rightarrow> sreq \<Rightarrow> int \<Rightarrow> int \<Rightarrow> int \<Rightarrow> sched_error + int" where
  "block_aligned_split cfg conn q n new_local external =
     (let start = num_computed_tokens q + new_local + external
      in if prefill_end q \<le> start then Inr n
         else let e = aligned_chunk_end cfg q start (start + n)
              in rbind (publication_boundaries cfg conn q) (\<lambda>boundaries.
                   let stops = mandatory_stops cfg q start e boundaries
                   in Inr (max (min_or e (filter (\<lambda>s. start < s \<and> s < e) stops) - start) 0)))"

definition reserve_prefill_lookahead :: "sched_config \<Rightarrow> sreq \<Rightarrow> int \<Rightarrow> int \<Rightarrow> int" where
  "reserve_prefill_lookahead cfg q computed n =
     (let remaining = num_tokens q - computed - n
      in max (if 0 < remaining \<and> remaining < num_prefill_lookahead cfg
              then n - (num_prefill_lookahead cfg - remaining) else n) 0)"

section \<open>Facts\<close>

lemma min_or_in: "min_or d xs = d \<and> xs = [] \<or> min_or d xs \<in> set xs"
  by (cases "xs = []") (simp_all add: min_or_def min_list_Min)

lemma min_or_le: "x \<in> set xs \<Longrightarrow> min_or d xs \<le> x"
  by (auto simp: min_or_def min_list_Min)

lemma floor_le: "0 < b \<Longrightarrow> e div b * b \<le> e" for b e :: int
  using div_mult_mod_eq [of e b] pos_mod_sign [of b e] by linarith

lemma aligned_chunk_end_le: "0 < block_size cfg \<Longrightarrow> aligned_chunk_end cfg q start e \<le> e"
  by (simp add: aligned_chunk_end_def Let_def floor_le)

text \<open>The chunk that the split returns ends at its aligned end or at a mandatory stop.\<close>

lemma block_aligned_split_cases:
  assumes "block_aligned_split cfg conn q n nl ne = Inr m" "0 < m"
    and "start = num_computed_tokens q + nl + ne" "start < prefill_end q"
  obtains bs where "publication_boundaries cfg conn q = Inr bs"
    and "start + m \<le> aligned_chunk_end cfg q start (start + n)"
    and "\<And>s. s \<in> set (mandatory_stops cfg q start (aligned_chunk_end cfg q start (start + n)) bs) \<Longrightarrow>
           start < s \<Longrightarrow> start + m \<le> s"
    and "start + m = aligned_chunk_end cfg q start (start + n) \<or>
         start + m \<in> set (mandatory_stops cfg q start (aligned_chunk_end cfg q start (start + n)) bs)"
proof -
  let ?e = "aligned_chunk_end cfg q start (start + n)"
  let ?f = "\<lambda>bs. filter (\<lambda>s. start < s \<and> s < ?e) (mandatory_stops cfg q start ?e bs)"
  obtain bs where bs: "publication_boundaries cfg conn q = Inr bs"
    and m: "m = max (min_or ?e (?f bs) - start) 0"
    using assms by (auto simp: block_aligned_split_def Let_def)
  have e: "start + m = min_or ?e (?f bs)" using m assms(2) by simp
  have le: "start + m \<le> ?e"
    using e min_or_in [of ?e "?f bs"] by auto
  show ?thesis
  proof (rule that [OF bs le])
    fix s assume "s \<in> set (mandatory_stops cfg q start ?e bs)" "start < s"
    then show "start + m \<le> s"
      using e le min_or_le [of s "?f bs" ?e] by (cases "s < ?e") auto
  next
    show "start + m = ?e \<or> start + m \<in> set (mandatory_stops cfg q start ?e bs)"
      using e min_or_in [of ?e "?f bs"] by auto
  qed
qed

lemma reserve_bounds:
  "0 \<le> reserve_prefill_lookahead cfg q c n \<and> reserve_prefill_lookahead cfg q c n \<le> max 0 n"
  by (auto simp: reserve_prefill_lookahead_def Let_def)

text \<open>A split never returns more than what it was given.\<close>

lemma split_le:
  assumes "block_aligned_split cfg conn q n nl ne = Inr m" "0 < block_size cfg"
  shows "m \<le> max 0 n"
proof (cases "m \<le> 0")
  case False
  show ?thesis
  proof (cases "prefill_end q \<le> num_computed_tokens q + nl + ne")
    case True
    then show ?thesis using assms(1) by (simp add: block_aligned_split_def)
  next
    case late: False
    from block_aligned_split_cases [OF assms(1) _ refl] False late
    obtain s where "s + m \<le> aligned_chunk_end cfg q s (s + n)"
      by (metis linorder_not_le)
    then show ?thesis using aligned_chunk_end_le [OF assms(2), of q s "s + n"] by simp
  qed
qed simp

lemma last_cache_aligned: "block_size cfg dvd last_cache_position cfg q"
  by (auto simp: last_cache_position_def Let_def max_def minus_mod_eq_mult_div)

lemma next_boundary:
  fixes b s :: int
  assumes "0 < b" "s mod b \<noteq> 0"
  shows "s < (s div b + 1) * b \<and> (s div b + 1) * b < s + b"
proof -
  have "0 < s mod b" "s mod b < b"
    using assms pos_mod_sign [of b s] pos_mod_bound [of b s] by linarith+
  then show ?thesis using div_mult_mod_eq [of s b] unfolding distrib_right mult_1 by linarith
qed

lemma below_next_boundary:
  fixes b e s :: int
  assumes "0 < b" "e div b * b \<le> s"
  shows "e < (s div b + 1) * b"
proof -
  have "e div b \<le> s div b"
    using zdiv_mono1 [OF assms(2,1)] assms(1) by simp
  then have "e div b * b \<le> s div b * b" using assms(1) by (simp add: mult_right_mono)
  moreover have "e mod b < b" using assms(1) by simp
  ultimately show ?thesis using div_mult_mod_eq [of e b] unfolding distrib_right mult_1 by linarith
qed

text \<open>
  An aligned end is a block boundary, unless the chunk stays inside its block, or checkpoints
  inside the chunk make the alignment unnecessary.
\<close>

lemma aligned_end_cases:
  assumes "0 < block_size cfg" "e = start + n" "aligned_chunk_end cfg q start e < prefill_end q"
  shows "block_size cfg dvd aligned_chunk_end cfg q start e \<or>
         max_prefill_tokens cfg < block_size cfg \<and>
         aligned_chunk_end cfg q start e < (start div block_size cfg + 1) * block_size cfg \<or>
         internal_checkpoint cfg start \<and>
         (\<not> use_eagle cfg \<or> num_prompt_tokens q \<le> aligned_chunk_end cfg q start e)"
proof (cases "e < prefill_end q \<and> (start < e div block_size cfg * block_size cfg \<or>
                block_size cfg \<le> max_prefill_tokens cfg)")
  case True
  then show ?thesis by (auto simp: aligned_chunk_end_def Let_def)
next
  case False
  then have e: "aligned_chunk_end cfg q start e = e" by (auto simp: aligned_chunk_end_def Let_def)
  with False assms(3) have "e div block_size cfg * block_size cfg \<le> start"
    "max_prefill_tokens cfg < block_size cfg" by auto
  with e show ?thesis using below_next_boundary [OF assms(1)] by auto
qed

text \<open>
  C19. Where an intermediate prefill chunk ends. A chunk that stops short of the end of the
  prefill ends at a block boundary, at the prompt's last hash boundary, or at a boundary the
  connector asked for, with two exceptions that the code makes: where a block is wider than the
  configured chunk limit, the chunk may end inside the block it started in; and where the model
  keeps checkpoints inside a chunk, a chunk that starts at a block boundary may end anywhere,
  under Eagle only behind the prompt. From inside a block a chunk never crosses the next
  block boundary.
\<close>

theorem split_ends_aligned:
  assumes "block_aligned_split cfg conn q n nl ne = Inr m" "0 < block_size cfg" "0 < m"
    and "start = num_computed_tokens q + nl + ne" "start + m < prefill_end q"
  shows "(block_size cfg dvd start + m \<or>
          start + m = num_prompt_tokens q div hash_block_size cfg * hash_block_size cfg \<or>
          (\<exists>f. conn = Some f \<and> start + m \<in> set (f q)) \<or>
          max_prefill_tokens cfg < block_size cfg \<and> start + m < (start div block_size cfg + 1) * block_size cfg \<or>
          internal_checkpoint cfg start \<and> (\<not> use_eagle cfg \<or> num_prompt_tokens q \<le> start + m))
       \<and> (start mod block_size cfg \<noteq> 0 \<longrightarrow> start + m \<le> (start div block_size cfg + 1) * block_size cfg)"
proof -
  let ?b = "block_size cfg" and ?e = "aligned_chunk_end cfg q start (start + n)"
  have early: "start < prefill_end q" using assms(3,5) by simp
  obtain bs where bs: "publication_boundaries cfg conn q = Inr bs"
    and stops: "\<And>s. s \<in> set (mandatory_stops cfg q start ?e bs) \<Longrightarrow> start < s \<Longrightarrow> start + m \<le> s"
    and cases: "start + m = ?e \<or> start + m \<in> set (mandatory_stops cfg q start ?e bs)"
    using block_aligned_split_cases [OF assms(1,3,4) early] by metis
  have mid: "start mod ?b \<noteq> 0 \<longrightarrow> start + m \<le> (start div ?b + 1) * ?b"
    using stops [of "(start div ?b + 1) * ?b"] next_boundary [OF assms(2), of start]
    by (auto simp: mandatory_stops_def Let_def)
  from cases show ?thesis
  proof
    assume "start + m = ?e"
    then show ?thesis using aligned_end_cases [OF assms(2) refl, of q start n] assms(5) mid by auto
  next
    assume s: "start + m \<in> set (mandatory_stops cfg q start ?e bs)"
    have junction: "?b dvd start + (shared_prefix_boundary q - start) div ?b * ?b"
      if h: "start + m = start + (shared_prefix_boundary q - start) div ?b * ?b"
    proof (cases "start mod ?b = 0")
      case False
      have "m = (shared_prefix_boundary q - start) div ?b * ?b" using h by simp
      then have "?b \<le> m" using assms(2,3) by (metis dvd_triv_right zdvd_imp_le)
      then show ?thesis using mid next_boundary [OF assms(2) False] False by simp
    qed (simp add: dvd_eq_mod_eq_0)
    have ask: "\<exists>f. conn = Some f \<and> s \<in> set (f q)" if h: "s \<in> set bs" for s
      using bs h by (auto simp: publication_boundaries_def Let_def split: option.splits if_splits)
    let ?pub = "min_or 0 (filter (\<lambda>b. start < b \<and> b < ?e) bs)"
    have pub: "?pub = 0 \<or> (\<exists>f. conn = Some f \<and> ?pub \<in> set (f q))"
      using min_or_in [of 0 "filter (\<lambda>b. start < b \<and> b < ?e) bs"] ask by auto
    have "start + m = 0 \<or> start + m = (start div ?b + 1) * ?b \<or>
          start + m = last_cache_position cfg q \<or>
          start + m = num_prompt_tokens q div hash_block_size cfg * hash_block_size cfg \<or>
          start + m = ?pub \<or> start + m = start + (shared_prefix_boundary q - start) div ?b * ?b"
      using s unfolding mandatory_stops_def Let_def by (auto split: if_split_asm)
    then have "?b dvd start + m \<or>
          start + m = num_prompt_tokens q div hash_block_size cfg * hash_block_size cfg \<or>
          (\<exists>f. conn = Some f \<and> start + m \<in> set (f q))"
    proof (elim disjE)
      assume "start + m = ?pub"
      with pub show ?thesis by auto
    qed (use last_cache_aligned [of cfg q] junction in simp_all)
    with mid show ?thesis by blast
  qed
qed

definition sample_sched_config :: sched_config where
  "sample_sched_config =
     \<lparr>max_num_scheduled_tokens = 8192, max_num_batched_tokens = 8192, draft_slots = 8, cap = 6912,
      short_prefill = 1000, cadence_when_queued = True, end_drain = True,
      long_prefill_token_threshold = 0, max_model_len = 100000, num_sampled_tokens_per_step = 1,
      num_prefill_lookahead = 1, need_aligned_split = True, block_size = 2304,
      hash_block_size = 64, use_eagle = True, checkpoint_blocks = False, partial_cache_hit = True,
      disable_chunked_mm_input = False, is_encoder_decoder = False, has_ec_connector = False,
      requires_kv_delivery = False, defer_block_free = False, sched_policy = Priority\<rparr>"

definition sample_sreq :: "int \<Rightarrow> int \<Rightarrow> int \<Rightarrow> sreq" where
  "sample_sreq prompt computed prio =
     \<lparr>num_prompt_tokens = prompt, num_tokens = prompt, num_computed_tokens = computed,
      num_output_tokens = 0, num_output_placeholders = 0, max_tokens = 100, spec_token_ids = [],
      is_prefill_chunk = True, use_structured_output = False, next_decode_eligible_step = 0,
      shared_prefix_boundary = 0, mm_features = [], priority = prio, arrival_time = 0,
      status = IsRunning, num_in_flight_tokens = 0, num_stale_output_tokens = 0,
      drop_stale_output = False, num_preemptions = 0, last_sched_seq = 0\<rparr>"

lemma sample_split:
  "block_aligned_split sample_sched_config None (sample_sreq 20000 100 0) 6912 0 0 = Inr 2204"
  by code_simp

theorem split_ends_aligned_witness:
  "2304 dvd (100 + 2204 :: int) \<or>
   (100 + 2204 :: int) = 20000 div 64 * 64 \<or> (8192::int) < 2304 \<and> (100 + 2204 :: int) < 2304"
  using split_ends_aligned [OF sample_split _ _ refl]
  by (simp add: sample_sched_config_def sample_sreq_def internal_checkpoint_def prefill_end_def
      max_prefill_tokens_def)

text \<open>
  C40. The split cannot starve a prefill: given a budget of at least one block, and however the
  boundaries fall, it returns a chunk that is not empty and within the budget.
\<close>

theorem split_makes_progress:
  assumes "block_aligned_split cfg conn q n nl ne = Inr m"
    and "0 < block_size cfg" "block_size cfg \<le> n"
  shows "0 < m \<and> m \<le> n"
proof (cases "prefill_end q \<le> num_computed_tokens q + nl + ne")
  case True
  then show ?thesis using assms by (simp add: block_aligned_split_def)
next
  case False
  let ?s = "num_computed_tokens q + nl + ne"
  let ?e = "aligned_chunk_end cfg q ?s (?s + n)"
  have "?s < (?s + n) div block_size cfg * block_size cfg"
    using below_next_boundary [OF assms(2), of "?s + n" ?s]
      floor_le [OF assms(2), of ?s] assms(3) by (force simp: distrib_right)
  with False have "?s < ?e"
    using assms(2,3) by (simp add: aligned_chunk_end_def Let_def)
  moreover obtain bs where
    "m = max (min_or ?e (filter (\<lambda>s. ?s < s \<and> s < ?e) (mandatory_stops cfg q ?s ?e bs)) - ?s) 0"
    using assms(1) False by (auto simp: block_aligned_split_def Let_def)
  ultimately have "0 < m"
    using min_or_in [of ?e "filter (\<lambda>s. ?s < s \<and> s < ?e) (mandatory_stops cfg q ?s ?e bs)"] by auto
  with split_le [OF assms(1,2)] show ?thesis by simp
qed

theorem split_makes_progress_witness: "0 < (2204::int) \<and> (2204::int) \<le> 6912"
  using split_makes_progress [OF sample_split] by (simp add: sample_sched_config_def)

section \<open>The switches\<close>

text \<open>The vendor's length guard: the step in flight is certain to finish the request.\<close>

definition vendor_finishes :: "sreq \<Rightarrow> bool" where
  "vendor_finishes q \<longleftrightarrow> 0 < num_output_placeholders q \<and>
     num_prompt_tokens q + max_tokens q \<le> num_computed_tokens q + 2 - num_output_placeholders q"

text \<open>
  Where the accounting of the async engine holds, end drain holds back at least what the
  vendor's guard holds back.
\<close>

lemma vendor_guard_implies_hold:
  assumes "num_computed_tokens q =
      num_prompt_tokens q + num_output_tokens q + num_output_placeholders q - 1"
    and "vendor_finishes q" "\<not> is_prefill_chunk q" "\<not> use_structured_output q"
  shows "end_drain_holds (num_output_tokens q) (num_output_placeholders q) (Some (max_tokens q))
           (is_prefill_chunk q) (use_structured_output q)"
  using assms by (auto simp: vendor_finishes_def end_drain_holds_def)

text \<open>A scheduler that starts with the cap has room for exactly three blocks in a step.\<close>

lemma capped_step_is_three_blocks:
  assumes "check_step_cap c max_batched max_sched block captures = Inr ()"
    and "step_token_cap v = Inr c" "c \<noteq> 0"
  shows "effective_token_budget max_sched c = Inr (3 * block)"
  using assms by (auto simp: check_step_cap_def step_token_cap_def effective_token_budget_def
      resilience_cap_def resilience_budget_def resilience_block_def split: if_splits)

end
