(* ===== verification/SchedRun.thy ===== *)
theory SchedRun
  imports SchedSplit
begin

text \<open>
  The first half of \<open>Scheduler.schedule\<close> in
  \<open>experiments/e03/prefill-step-cap/scheduler.py\<close>: the start of a step and the loop over the
  running requests, with preemption, the refunds it makes, and the repository's guards
  (end drain, short prefills, cadence). The cache manager, the encoder cache, the KV and
  encoder connectors and the request queues are vLLM's; they are the fields of
  \<open>externals\<close>, functions on an abstract world. Requests are shared objects: the lists of
  the scheduler hold their ids, and \<open>requests\<close> is the store. Log lines, statistics and
  request events are left out.
\<close>

section \<open>State\<close>

record 'w externals =
  connector :: boundary_source
  allocate_slots :: "string \<Rightarrow> sreq \<Rightarrow> int \<Rightarrow> int option \<Rightarrow> 'w \<Rightarrow> 'w \<times> int list option"
  kv_free :: "string \<Rightarrow> 'w \<Rightarrow> 'w"
  pop_blocks_for_free :: "string \<Rightarrow> 'w \<Rightarrow> 'w \<times> int list"
  encoder_free :: "string \<Rightarrow> 'w \<Rightarrow> 'w"
  check_and_update_cache :: "string \<Rightarrow> nat \<Rightarrow> 'w \<Rightarrow> 'w \<times> bool"
  can_allocate :: "string \<Rightarrow> nat \<Rightarrow> int \<Rightarrow> int \<Rightarrow> 'w \<Rightarrow> bool"
  encoder_allocate :: "string \<Rightarrow> nat \<Rightarrow> 'w \<Rightarrow> 'w"
  ec_after_alloc :: "string \<Rightarrow> nat \<Rightarrow> 'w \<Rightarrow> 'w"
  ec_has_item :: "string \<Rightarrow> 'w \<Rightarrow> bool"
  mm_window :: "mm_item list \<Rightarrow> int \<Rightarrow> int \<Rightarrow> nat \<times> nat"
  embeds_range :: "mm_item \<Rightarrow> int \<Rightarrow> int \<Rightarrow> int \<times> int"
  prepend_request :: "string \<Rightarrow> string list \<Rightarrow> string list"
  step_starts :: "'w \<Rightarrow> 'w"

record 'w sched =
  running :: "string list"
  waiting :: "string list"
  requests :: "string \<Rightarrow> sreq"
  current_step :: int
  paused_all :: bool
  prefill_capacity_bound :: bool
  e27b_step_short_prefill :: int
  e27b_admitted :: int
  e27c_latch_overrides :: int
  e29_held_ids :: "string list"
  e29_holds :: int
  e29_resumes :: int
  inflight_prefills :: "string list"
  reset_preempted_req_ids :: "string list"
  sched_step_seq :: int
  processed_step_seq :: int
  deferred_frees :: "(int \<times> int list) list"
  world :: 'w

text \<open>The local variables of \<open>schedule\<close>; a dictionary is an association list in insertion order.\<close>

record step_acc =
  scheduled_running :: "string list"
  preempted_reqs :: "string list"
  req_to_new_blocks :: "(string \<times> int list) list"
  num_scheduled_tokens :: "(string \<times> int) list"
  spec_decode_tokens :: "(string \<times> int list) list"
  encoder_inputs :: "(string \<times> nat list) list"
  token_budget :: int
  input_budget :: int
  encoder_budget :: int
  req_index :: nat
  prefill_scheduled :: bool

section \<open>Guards and counters\<close>

definition would_hold :: "sched_config \<Rightarrow> sreq \<Rightarrow> bool" where
  "would_hold cfg q \<longleftrightarrow> end_drain cfg \<and>
     end_drain_holds (num_output_tokens q) (num_output_placeholders q) (Some (max_tokens q))
       (is_prefill_chunk q) (use_structured_output q)"

definition count_hold :: "string \<Rightarrow> 'w sched \<Rightarrow> 'w sched" where
  "count_hold r s =
     (if r \<in> set (e29_held_ids s) then s
      else s\<lparr>e29_held_ids := r # e29_held_ids s, e29_holds := e29_holds s + 1\<rparr>)"

definition count_resume :: "string \<Rightarrow> 'w sched \<Rightarrow> 'w sched" where
  "count_resume r s =
     s\<lparr>e29_held_ids := removeAll r (e29_held_ids s), e29_resumes := e29_resumes s + 1\<rparr>"

definition e27b_admit :: "sched_config \<Rightarrow> int \<Rightarrow> 'w sched \<Rightarrow> 'w sched \<times> bool" where
  "e27b_admit cfg remaining s =
     (if \<not> e27b_admits remaining (e27b_step_short_prefill s) (short_prefill cfg) then (s, False)
      else (s\<lparr>e27b_step_short_prefill := e27b_step_short_prefill s + remaining,
              e27b_admitted := e27b_admitted s + 1\<rparr>, True))"

definition count_override :: "'w sched \<Rightarrow> 'w sched" where
  "count_override s = s\<lparr>e27c_latch_overrides := e27c_latch_overrides s + 1\<rparr>"

definition tokens_with_spec :: "sreq \<Rightarrow> int" where
  "tokens_with_spec q = num_tokens q + int (length (spec_token_ids q))"

section \<open>Preemption\<close>

definition free_request_blocks :: "'w externals \<Rightarrow> sched_config \<Rightarrow> string \<Rightarrow> 'w sched \<Rightarrow> 'w sched" where
  "free_request_blocks x cfg r s =
     (if \<not> defer_block_free cfg \<or> last_sched_seq (requests s r) \<le> processed_step_seq s
      then s\<lparr>world := kv_free x r (world s)\<rparr>
      else (let (w, blocks) = pop_blocks_for_free x r (world s); s1 = s\<lparr>world := w\<rparr>
            in if blocks \<noteq> [] then s1\<lparr>deferred_frees := deferred_frees s1 @ [(sched_step_seq s1, blocks)]\<rparr>
               else s1))"

definition preempted :: "bool \<Rightarrow> sreq \<Rightarrow> sreq" where
  "preempted discard q =
     q\<lparr>status := IsPreempted, num_computed_tokens := 0, spec_token_ids := [],
       drop_stale_output := discard \<or> drop_stale_output q \<and> 0 < num_stale_output_tokens q,
       num_stale_output_tokens := num_in_flight_tokens q,
       num_output_placeholders := 0, num_preemptions := num_preemptions q + 1\<rparr>"

definition preempt_request ::
  "'w externals \<Rightarrow> sched_config \<Rightarrow> string \<Rightarrow> 'w sched \<Rightarrow> sched_error + 'w sched" where
  "preempt_request x cfg r s =
     (if status (requests s r) \<noteq> IsRunning then Inl SchedAssertion
      else let s1 = s\<lparr>e29_held_ids := removeAll r (e29_held_ids s)\<rparr>;
               s2 = free_request_blocks x cfg r s1
           in Inr (s2\<lparr>world := encoder_free x r (world s2),
                   inflight_prefills := removeAll r (inflight_prefills s2),
                   requests := (requests s2)(r := preempted (requires_kv_delivery cfg) (requests s2 r)),
                   waiting := prepend_request x r (waiting s2),
                   reset_preempted_req_ids := List.insert r (reset_preempted_req_ids s2)\<rparr>))"

text \<open>Python's \<open>max\<close> keeps the first of equal keys.\<close>

definition outranks :: "sreq \<Rightarrow> sreq \<Rightarrow> bool" where
  "outranks a b \<longleftrightarrow> priority b < priority a \<or> priority a = priority b \<and> arrival_time b < arrival_time a"

definition lowest_priority :: "(string \<Rightarrow> sreq) \<Rightarrow> string list \<Rightarrow> string" where
  "lowest_priority store rs =
     foldl (\<lambda>best r. if outranks (store r) (store best) then r else best) (hd rs) (tl rs)"

definition index_of :: "string \<Rightarrow> string list \<Rightarrow> nat" where
  "index_of r rs = length (takeWhile (\<lambda>t. t \<noteq> r) rs)"

definition embeds_of :: "sreq \<Rightarrow> nat list \<Rightarrow> int" where
  "embeds_of q is = (\<Sum>i\<leftarrow>is. mm_embeds (mm_features q ! i))"

definition refund :: "sched_config \<Rightarrow> (string \<Rightarrow> sreq) \<Rightarrow> string \<Rightarrow> step_acc \<Rightarrow> sched_error + step_acc" where
  "refund cfg store r a =
     (case (map_of (num_scheduled_tokens a) r, map_of (req_to_new_blocks a) r) of
        (Some restored, Some _) \<Rightarrow>
          Inr (a\<lparr>scheduled_running := remove1 r (scheduled_running a),
                 num_scheduled_tokens := AList.delete r (num_scheduled_tokens a),
                 token_budget := token_budget a + restored,
                 input_budget := input_budget a + restored + draft_slots cfg,
                 req_to_new_blocks := AList.delete r (req_to_new_blocks a),
                 spec_decode_tokens := AList.delete r (spec_decode_tokens a),
                 encoder_inputs := AList.delete r (encoder_inputs a),
                 encoder_budget := encoder_budget a +
                   (case map_of (encoder_inputs a) r of None \<Rightarrow> 0 | Some is \<Rightarrow> embeds_of (store r) is)\<rparr>)
      | _ \<Rightarrow> Inl SchedKeyError)"

definition take_victim ::
  "sched_config \<Rightarrow> 'w sched \<Rightarrow> step_acc \<Rightarrow> sched_error + (string \<times> 'w sched \<times> step_acc)" where
  "take_victim cfg s a =
     (if sched_policy cfg = Priority then
        if running s = [] then Inl SchedValueError
        else let v = lowest_priority (requests s) (running s); i = index_of v (running s);
                 s1 = s\<lparr>running := take i (running s) @ drop (Suc i) (running s)\<rparr>;
                 a1 = (if i < req_index a then a\<lparr>req_index := req_index a - 1\<rparr> else a)
             in if v \<in> set (scheduled_running a1)
                then rbind (refund cfg (requests s) v a1) (\<lambda>a2. Inr (v, s1, a2))
                else Inr (v, s1, a1)
      else if running s = [] then Inl SchedIndexError
      else Inr (last (running s), s\<lparr>running := butlast (running s)\<rparr>, a))"

lemma free_request_blocks_running [simp]:
  "running (free_request_blocks x cfg r s) = running s"
  "requests (free_request_blocks x cfg r s) = requests s"
  "current_step (free_request_blocks x cfg r s) = current_step s"
  "e27b_step_short_prefill (free_request_blocks x cfg r s) = e27b_step_short_prefill s"
  "e29_held_ids (free_request_blocks x cfg r s) = e29_held_ids s"
  by (simp_all add: free_request_blocks_def Let_def split: prod.splits)

lemma preempt_request_Inr:
  assumes "preempt_request x cfg r s = Inr t"
  shows "running t = running s" "current_step t = current_step s"
    "e27b_step_short_prefill t = e27b_step_short_prefill s" "status (requests s r) = IsRunning"
    "requests t = (requests s)(r := preempted (requires_kv_delivery cfg) (requests s r))"
    "waiting t = prepend_request x r (waiting (free_request_blocks x cfg r s))"
    "e29_held_ids t = removeAll r (e29_held_ids s)"
  using assms
  by (auto simp: preempt_request_def Let_def free_request_blocks_def split: if_splits prod.splits)

lemma lowest_of_in:
  "foldl (\<lambda>best r. if outranks (store r) (store best) then r else best) b ts \<in> insert b (set ts)"
proof (induction ts arbitrary: b)
  case (Cons t ts)
  show ?case
    using Cons.IH [of "if outranks (store t) (store b) then t else b"] by (auto split: if_split_asm)
qed simp

lemma lowest_priority_in: "rs \<noteq> [] \<Longrightarrow> lowest_priority store rs \<in> set rs"
  using lowest_of_in [of store "hd rs" "tl rs"] by (cases rs) (simp_all add: lowest_priority_def)

lemma index_of_nth: "r \<in> set rs \<Longrightarrow> index_of r rs < length rs \<and> rs ! index_of r rs = r"
  unfolding index_of_def by (induction rs) auto

lemma butlast_take_drop: "xs \<noteq> [] \<Longrightarrow> butlast xs = take (length xs - 1) xs @ drop (Suc (length xs - 1)) xs"
  by (simp add: butlast_conv_take)

lemma refund_Inr:
  assumes "refund cfg store r a = Inr b"
  obtains k where "map_of (num_scheduled_tokens a) r = Some k"
    and "num_scheduled_tokens b = AList.delete r (num_scheduled_tokens a)"
    and "scheduled_running b = remove1 r (scheduled_running a)"
    and "req_to_new_blocks b = AList.delete r (req_to_new_blocks a)"
    and "token_budget b = token_budget a + k" "input_budget b = input_budget a + k + draft_slots cfg"
    and "req_index b = req_index a" "preempted_reqs b = preempted_reqs a"
  using assms by (auto simp: refund_def split: option.splits)

text \<open>
  Taking a victim removes exactly that request from the running list and keeps the cursor on
  the same request; a victim scheduled in this step is refunded.
\<close>

lemma take_victim_cases:
  assumes "take_victim cfg s a = Inr (v, t, b)" "req_index a < length (running s)"
  obtains i a1 where "i < length (running s)" "running s ! i = v"
    and "t = s\<lparr>running := take i (running s) @ drop (Suc i) (running s)\<rparr>"
    and "a1 = a\<lparr>req_index := (if i < req_index a then req_index a - 1 else req_index a)\<rparr>"
    and "(if v \<in> set (scheduled_running a) \<and> sched_policy cfg = Priority
          then refund cfg (requests s) v a1 = Inr b else b = a1)"
    and "sched_policy cfg = Priority \<or> req_index a \<le> i"
proof (cases "sched_policy cfg = Priority")
  case True
  have ne: "running s \<noteq> []" using assms(2) by auto
  let ?v = "lowest_priority (requests s) (running s)"
  have i: "index_of ?v (running s) < length (running s) \<and> running s ! index_of ?v (running s) = ?v"
    by (rule index_of_nth [OF lowest_priority_in [OF ne]])
  let ?a1 = "a\<lparr>req_index := (if index_of ?v (running s) < req_index a then req_index a - 1 else req_index a)\<rparr>"
  have v: "v = ?v \<and> t = s\<lparr>running := take (index_of ?v (running s)) (running s) @
        drop (Suc (index_of ?v (running s))) (running s)\<rparr> \<and>
      (if v \<in> set (scheduled_running a) then refund cfg (requests s) v ?a1 = Inr b else b = ?a1)"
    using assms(1) True ne by (auto simp: take_victim_def Let_def split: if_split_asm)
  show ?thesis
    by (rule that [of "index_of ?v (running s)" ?a1]) (use i v True in auto)
next
  case False
  have ne: "running s \<noteq> []" using assms(2) by auto
  have v: "v = last (running s)" "t = s\<lparr>running := butlast (running s)\<rparr>" "b = a"
    using assms(1) False ne by (simp_all add: take_victim_def)
  have "req_index a \<le> length (running s) - 1" using assms(2) by simp
  then show ?thesis
    by (intro that [of "length (running s) - 1" a])
       (use v ne False butlast_take_drop [OF ne] in \<open>auto simp: last_conv_nth\<close>)
qed

lemma take_victim_shorter:
  assumes "take_victim cfg s a = Inr (v, t, b)"
  shows "length (running t) < length (running s)"
proof (cases "running s = []")
  case False
  then have "index_of (lowest_priority (requests s) (running s)) (running s) < length (running s)"
    using index_of_nth [OF lowest_priority_in] by blast
  with assms False show ?thesis by (auto simp: take_victim_def Let_def split: if_split_asm)
qed (use assms in \<open>auto simp: take_victim_def split: if_split_asm\<close>)

text \<open>The \<open>while True\<close> of the code: allocate, or preempt and try again.\<close>

function try_allocate ::
  "'w externals \<Rightarrow> sched_config \<Rightarrow> string \<Rightarrow> int \<Rightarrow> int option \<Rightarrow> 'w sched \<Rightarrow> step_acc \<Rightarrow>
   sched_error + ('w sched \<times> step_acc \<times> int list option)" where
  "try_allocate x cfg r n boundary s a =
     (case allocate_slots x r (requests s r) n boundary (world s) of
        (w, Some blocks) \<Rightarrow> Inr (s\<lparr>world := w\<rparr>, a, Some blocks)
      | (w, None) \<Rightarrow>
          (case take_victim cfg (s\<lparr>world := w\<rparr>) a of
             Inl e \<Rightarrow> Inl e
           | Inr (v, s1, a1) \<Rightarrow>
               (case preempt_request x cfg v s1 of
                  Inl e \<Rightarrow> Inl e
                | Inr s2 \<Rightarrow>
                    let a2 = a1\<lparr>preempted_reqs := preempted_reqs a1 @ [v]\<rparr>
                    in if v = r then Inr (s2, a2, None)
                       else try_allocate x cfg r n boundary s2 a2)))"
  by pat_completeness auto
termination
  by (relation "measure (\<lambda>(x, cfg, r, n, boundary, s, a). length (running s))")
     (auto dest!: take_victim_shorter preempt_request_Inr(1))

declare try_allocate.simps [simp del]

section \<open>Encoder inputs\<close>

record enc_scan =
  scan_inputs :: "nat list"
  scan_external :: "nat list"
  scan_hashes :: "string list"
  scan_embeds :: int
  scan_budget :: int

fun encoder_scan ::
  "'w externals \<Rightarrow> sched_config \<Rightarrow> string \<Rightarrow> sreq \<Rightarrow> int \<Rightarrow> int \<Rightarrow> int \<Rightarrow> nat list \<Rightarrow> enc_scan \<Rightarrow> 'w \<Rightarrow>
   sched_error + (enc_scan \<times> int \<times> 'w)" where
  "encoder_scan x cfg r q computed shift n [] st w = Inr (st, n, w)"
| "encoder_scan x cfg r q computed shift n (i # todo) st w =
     (if length (mm_features q) \<le> i then Inl SchedIndexError
      else let f = mm_features q ! i; start = mm_offset f in
        if is_encoder_decoder cfg \<and> 0 < computed then
          if start \<noteq> 0 then Inl SchedAssertion
          else encoder_scan x cfg r q computed shift n todo st w
        else if \<not> is_encoder_decoder cfg \<and> mm_identifier f \<in> set (scan_hashes st) then
          encoder_scan x cfg r q computed shift n todo st w
        else let (w1, hit) = (if is_encoder_decoder cfg then (w, False)
                              else check_and_update_cache x r i w) in
          if hit then encoder_scan x cfg r q computed shift n todo st w1
          else if disable_chunked_mm_input cfg \<and> computed < start \<and>
                  computed + n < start + mm_length f then
            Inr (st, max 0 (start - (computed + shift)), w1)
          else if \<not> can_allocate x r i (scan_budget st) (scan_embeds st) w1 then
            Inr (st, if computed + shift < start then start - (computed + shift) else 0, w1)
          else let (lo, hi) = embeds_range x f (max 0 (computed - start))
                                (min (mm_length f) (computed + n + shift - start)) in
            if hi - lo = 0 then encoder_scan x cfg r q computed shift n todo st w1
            else if has_ec_connector cfg \<and> ec_has_item x (mm_identifier f) w1 then
              encoder_scan x cfg r q computed shift n todo
                (st\<lparr>scan_hashes := mm_identifier f # scan_hashes st,
                    scan_external := scan_external st @ [i],
                    scan_embeds := scan_embeds st + mm_embeds f\<rparr>) w1
            else encoder_scan x cfg r q computed shift n todo
                (st\<lparr>scan_embeds := scan_embeds st + mm_embeds f,
                    scan_budget := scan_budget st - mm_embeds f,
                    scan_hashes := mm_identifier f # scan_hashes st,
                    scan_inputs := scan_inputs st @ [i]\<rparr>) w1)"

definition try_encoder_inputs ::
  "'w externals \<Rightarrow> sched_config \<Rightarrow> string \<Rightarrow> sreq \<Rightarrow> int \<Rightarrow> int \<Rightarrow> int \<Rightarrow> int \<Rightarrow> 'w \<Rightarrow>
   sched_error + (enc_scan \<times> int \<times> 'w)" where
  "try_encoder_inputs x cfg r q computed n budget shift w =
     (let st = \<lparr>scan_inputs = [], scan_external = [], scan_hashes = [], scan_embeds = 0,
                scan_budget = budget\<rparr>
      in if n = 0 \<or> mm_features q = [] then Inr (st, n, w)
         else let (lo, hi) = mm_window x (mm_features q) computed (computed + n + shift)
              in encoder_scan x cfg r q computed shift n
                   [(if is_encoder_decoder cfg then 0 else lo)..<hi] st w)"

fun encoder_allocs :: "'w externals \<Rightarrow> sched_config \<Rightarrow> string \<Rightarrow> nat list \<Rightarrow> 'w \<Rightarrow> 'w" where
  "encoder_allocs x cfg r [] w = w"
| "encoder_allocs x cfg r (i # todo) w =
     (let w1 = encoder_allocate x r i w
      in encoder_allocs x cfg r todo (if has_ec_connector cfg then ec_after_alloc x r i w1 else w1))"

section \<open>The loop over the running requests\<close>

text \<open>What may be scheduled of a request, before alignment and encoder inputs.\<close>

definition wanted_tokens :: "sched_config \<Rightarrow> step_acc \<Rightarrow> sreq \<Rightarrow> int" where
  "wanted_tokens cfg a q =
     (let n = tokens_with_spec q + num_output_placeholders q - num_computed_tokens q;
          n1 = (if 0 < long_prefill_token_threshold cfg \<and> long_prefill_token_threshold cfg < n
                then long_prefill_token_threshold cfg else n);
          n2 = min (min n1 (token_budget a)) (input_budget a - draft_slots cfg)
      in min n2 (max_model_len cfg - num_computed_tokens q - num_sampled_tokens_per_step cfg))"

definition spec_to_schedule :: "sreq \<Rightarrow> int \<Rightarrow> int list option" where
  "spec_to_schedule q n =
     (let k = n + num_computed_tokens q - num_tokens q - num_output_placeholders q
      in if spec_token_ids q \<noteq> [] \<and> 0 < k
         then Some (if k < int (length (spec_token_ids q)) then take (nat k) (spec_token_ids q)
                    else spec_token_ids q)
         else None)"

definition commit_request ::
  "'w externals \<Rightarrow> sched_config \<Rightarrow> string \<Rightarrow> int \<Rightarrow> int list \<Rightarrow> enc_scan \<Rightarrow> 'w sched \<Rightarrow> step_acc \<Rightarrow>
   'w sched \<times> step_acc" where
  "commit_request x cfg r n blocks scan s a =
     (let q = requests s r in
      (s\<lparr>requests := (requests s)(r := if spec_token_ids q \<noteq> [] then q\<lparr>spec_token_ids := []\<rparr> else q),
         world := encoder_allocs x cfg r (scan_external scan)
                    (encoder_allocs x cfg r (scan_inputs scan) (world s))\<rparr>,
       a\<lparr>scheduled_running := scheduled_running a @ [r],
         prefill_scheduled := prefill_scheduled a \<or> is_prefill_chunk q,
         req_to_new_blocks := AList.update r blocks (req_to_new_blocks a),
         num_scheduled_tokens := AList.update r n (num_scheduled_tokens a),
         token_budget := token_budget a - n,
         input_budget := input_budget a - (n + draft_slots cfg),
         req_index := req_index a + 1,
         spec_decode_tokens := (case spec_to_schedule q n of None \<Rightarrow> spec_decode_tokens a
                                | Some ids \<Rightarrow> AList.update r ids (spec_decode_tokens a)),
         encoder_inputs := (if scan_inputs scan \<noteq> [] then AList.update r (scan_inputs scan) (encoder_inputs a)
                            else encoder_inputs a),
         encoder_budget := (if scan_inputs scan \<noteq> [] then scan_budget scan else encoder_budget a)\<rparr>))"

definition skip_request :: "step_acc \<Rightarrow> step_acc" where
  "skip_request a = a\<lparr>req_index := req_index a + 1\<rparr>"

text \<open>Size, place and commit one request that passed the guards.\<close>

definition schedule_request ::
  "'w externals \<Rightarrow> sched_config \<Rightarrow> string \<Rightarrow> 'w sched \<Rightarrow> step_acc \<Rightarrow>
   sched_error + (bool \<times> 'w sched \<times> step_acc)" where
  "schedule_request x cfg r s a =
     (let q = requests s r; n0 = wanted_tokens cfg a q in
      rbind (if need_aligned_split cfg then block_aligned_split cfg (connector x) q n0 0 0 else Inr n0)
        (\<lambda>n1. rbind (try_encoder_inputs x cfg r q (num_computed_tokens q) n1 (encoder_budget a)
                       (num_prefill_lookahead cfg) (world s))
        (\<lambda>(scan, n2, w).
           let s1 = s\<lparr>world := w\<rparr>;
               n = reserve_prefill_lookahead cfg q (num_computed_tokens q) n2
           in if n = 0 then Inr (True, s1, skip_request a)
              else rbind (publication_boundary_at cfg (connector x) q (num_computed_tokens q + n))
                (\<lambda>boundary. rbind (try_allocate x cfg r n boundary s1 a)
                (\<lambda>(s2, a2, got). case got of
                     None \<Rightarrow> Inr (False, s2, a2)
                   | Some blocks \<Rightarrow> Inr (True, commit_request x cfg r n blocks scan s2 a2))))))"

definition run_step ::
  "'w externals \<Rightarrow> sched_config \<Rightarrow> bool \<Rightarrow> 'w sched \<Rightarrow> step_acc \<Rightarrow>
   sched_error + (bool \<times> 'w sched \<times> step_acc)" where
  "run_step x cfg defer s a =
     (let r = running s ! req_index a; q = requests s r in
      if input_budget a \<le> draft_slots cfg then Inr (False, s, a)
      else if vendor_finishes q then Inr (True, s, skip_request a)
      else if would_hold cfg q then Inr (True, count_hold r s, skip_request a)
      else if current_step s < next_decode_eligible_step q then Inr (True, s, skip_request a)
      else if defer \<and> is_prefill_chunk q then
        (case e27b_admit cfg (num_tokens q - num_computed_tokens q) s of
           (s1, False) \<Rightarrow> Inr (True, s1, skip_request a)
         | (s1, True) \<Rightarrow> schedule_request x cfg r s1 a)
      else schedule_request x cfg r s a)"

end
