(* ===== verification/SchedPass.thy ===== *)
theory SchedPass
  imports SchedRun
begin

text \<open>
  The running pass of \<open>Scheduler.schedule\<close> as a whole: the loop over the running requests,
  its invariant, and \<open>_update_after_schedule\<close>. The invariant says what the code's closing
  assertions check, and more: the budgets balance with what was scheduled, preempted
  requests left the running list, and a scheduled request passed every guard.
\<close>

section \<open>The cursor and the invariant\<close>

definition cursor :: "string \<Rightarrow> 'w sched \<Rightarrow> step_acc \<Rightarrow> bool" where
  "cursor r s a \<longleftrightarrow> req_index a < length (running s) \<and> running s ! req_index a = r"

definition lists_ok :: "string set \<Rightarrow> 'w sched \<Rightarrow> step_acc \<Rightarrow> bool" where
  "lists_ok rs s a \<longleftrightarrow>
     distinct (running s) \<and> req_index a \<le> length (running s) \<and> distinct (scheduled_running a) \<and>
     map fst (num_scheduled_tokens a) = scheduled_running a \<and>
     map fst (req_to_new_blocks a) = scheduled_running a \<and>
     set (scheduled_running a) \<subseteq> set (take (req_index a) (running s)) \<and>
     set (running s) \<union> set (preempted_reqs a) = rs \<and> set (running s) \<inter> set (preempted_reqs a) = {}"

definition store_ok :: "(string \<Rightarrow> sreq) \<Rightarrow> 'w sched \<Rightarrow> step_acc \<Rightarrow> bool" where
  "store_ok store s a \<longleftrightarrow> (\<forall>r \<in> set (running s). status (store r) = IsRunning \<and>
     requests s r = (if r \<in> set (scheduled_running a) then (store r)\<lparr>spec_token_ids := []\<rparr> else store r))"

definition step_budget_ok :: "sched_config \<Rightarrow> int \<Rightarrow> step_acc \<Rightarrow> bool" where
  "step_budget_ok cfg b a \<longleftrightarrow>
     token_budget a + (\<Sum>(r, n)\<leftarrow>num_scheduled_tokens a. n) = b \<and> 0 \<le> token_budget a \<and>
     input_budget a + (\<Sum>(r, n)\<leftarrow>num_scheduled_tokens a. n + draft_slots cfg) = max_num_batched_tokens cfg \<and>
     0 \<le> input_budget a"

text \<open>What a scheduled request and its number of tokens satisfy, in terms of the request before.\<close>

definition fits_step :: "sched_config \<Rightarrow> int \<Rightarrow> sreq \<Rightarrow> int \<Rightarrow> bool" where
  "fits_step cfg step q n \<longleftrightarrow>
     0 < n \<and> n \<le> tokens_with_spec q + num_output_placeholders q - num_computed_tokens q \<and>
     num_computed_tokens q + n + num_sampled_tokens_per_step cfg \<le> max_model_len cfg \<and>
     \<not> vendor_finishes q \<and> \<not> would_hold cfg q \<and> next_decode_eligible_step q \<le> step"

definition fit_ok :: "sched_config \<Rightarrow> (string \<Rightarrow> sreq) \<Rightarrow> int \<Rightarrow> step_acc \<Rightarrow> bool" where
  "fit_ok cfg store step a \<longleftrightarrow> (\<forall>(r, n) \<in> set (num_scheduled_tokens a). fits_step cfg step (store r) n)"

definition chunk_work :: "sreq \<Rightarrow> int" where
  "chunk_work q = (if is_prefill_chunk q then num_tokens q - num_computed_tokens q else 0)"

definition counted :: "sreq \<Rightarrow> bool" where
  "counted q \<longleftrightarrow> (is_prefill_chunk q \<longrightarrow> 0 < chunk_work q)"

lemma counted_nonneg: "counted q \<Longrightarrow> 0 \<le> chunk_work q"
  by (auto simp: counted_def chunk_work_def)

text \<open>\<open>extra\<close> is the work of a request that was admitted and is not yet scheduled.\<close>

definition short_ok ::
  "sched_config \<Rightarrow> (string \<Rightarrow> sreq) \<Rightarrow> bool \<Rightarrow> int \<Rightarrow> 'w sched \<Rightarrow> step_acc \<Rightarrow> bool" where
  "short_ok cfg store defer extra s a \<longleftrightarrow> (defer \<longrightarrow>
     (\<forall>(r, n) \<in> set (num_scheduled_tokens a). counted (store r)) \<and>
     (\<Sum>(r, n)\<leftarrow>num_scheduled_tokens a. chunk_work (store r)) + extra \<le> e27b_step_short_prefill s \<and>
     e27b_step_short_prefill s \<le> max 0 (short_prefill cfg))"

definition step_inv ::
  "sched_config \<Rightarrow> string set \<Rightarrow> (string \<Rightarrow> sreq) \<Rightarrow> int \<Rightarrow> bool \<Rightarrow> int \<Rightarrow> int \<Rightarrow>
   'w sched \<Rightarrow> step_acc \<Rightarrow> bool" where
  "step_inv cfg rs store step defer b extra s a \<longleftrightarrow>
     lists_ok rs s a \<and> store_ok store s a \<and> step_budget_ok cfg b a \<and> fit_ok cfg store step a \<and>
     short_ok cfg store defer extra s a \<and> current_step s = step"

lemmas step_inv_defs = step_inv_def lists_ok_def store_ok_def step_budget_ok_def fit_ok_def short_ok_def

section \<open>Association lists under deletion and update\<close>

lemma delete_keys: "distinct (map fst al) \<Longrightarrow> map fst (AList.delete k al) = remove1 k (map fst al)"
  by (induction al) (auto simp: AList.delete_eq remove1_idem)

lemma delete_absent: "k \<notin> set (map fst al) \<Longrightarrow> AList.delete k al = al"
  by simp

lemma delete_sum:
  fixes f :: "'k \<times> 'v \<Rightarrow> int"
  assumes "distinct (map fst al)" "map_of al k = Some v"
  shows "(\<Sum>p\<leftarrow>AList.delete k al. f p) = (\<Sum>p\<leftarrow>al. f p) - f (k, v)"
  using assms
proof (induction al)
  case (Cons p al)
  then show ?case by (cases "fst p = k") (auto simp: delete_absent)
qed simp

lemma delete_subset: "set (AList.delete k al) \<subseteq> set al"
  by (auto simp: AList.delete_eq)

lemma remove_at:
  assumes "i < length xs" "distinct xs"
  shows "distinct (take i xs @ drop (Suc i) xs)"
    and "set (take i xs @ drop (Suc i) xs) = set xs - {xs ! i}"
proof -
  have "distinct (take i xs @ xs ! i # drop (Suc i) xs)"
    using assms id_take_nth_drop [of i xs] by simp
  then show "distinct (take i xs @ drop (Suc i) xs)"
    and "set (take i xs @ drop (Suc i) xs) = set xs - {xs ! i}"
    using arg_cong [OF id_take_nth_drop [OF assms(1)], of set] by auto
qed

text \<open>The positions before the cursor lose just the victim, and the cursor stays on its request.\<close>

lemma remove_before:
  assumes "i < length xs" "j < length xs"
    and "j' = (if i < j then j - 1 else j)"
  shows "set (take j xs) - {xs ! i} \<subseteq> set (take j' (take i xs @ drop (Suc i) xs))"
    and "i \<noteq> j \<Longrightarrow> j' < length xs - 1 \<and> (take i xs @ drop (Suc i) xs) ! j' = xs ! j"
proof -
  let ?ys = "take i xs" and ?zs = "drop (Suc i) xs"
  have xs: "xs = ?ys @ xs ! i # ?zs" and len: "length ?ys = i"
    using assms(1) id_take_nth_drop [of i xs] by simp_all
  show "set (take j xs) - {xs ! i} \<subseteq> set (take j' (?ys @ ?zs))"
  proof (cases "i < j")
    case True
    then obtain k where k: "j = Suc (i + k)" by (metis less_imp_Suc_add)
    have "take j xs = ?ys @ xs ! i # take k ?zs" using k len by (subst xs) simp
    moreover have "take j' (?ys @ ?zs) = ?ys @ take k ?zs"
      using k len assms(3) by simp
    ultimately show ?thesis by auto
  next
    case False
    then have "take j xs = take j ?ys" by (simp add: min_absorb1)
    with False len assms(3) show ?thesis by auto
  qed
  show "j' < length xs - 1 \<and> (?ys @ ?zs) ! j' = xs ! j" if h: "i \<noteq> j"
    using assms h len by (auto simp: nth_append)
qed

section \<open>Evicting a victim\<close>

lemma take_victim_acc:
  assumes "take_victim cfg s a = Inr (v, t, b)" "req_index a < length (running s)" "lists_ok rs s a"
  obtains i where "i < length (running s)" "running s ! i = v"
    and "t = s\<lparr>running := take i (running s) @ drop (Suc i) (running s)\<rparr>"
    and "req_index b = (if i < req_index a then req_index a - 1 else req_index a)"
    and "scheduled_running b = remove1 v (scheduled_running a)"
    and "num_scheduled_tokens b = AList.delete v (num_scheduled_tokens a)"
    and "req_to_new_blocks b = AList.delete v (req_to_new_blocks a)"
    and "preempted_reqs b = preempted_reqs a"
    and "case map_of (num_scheduled_tokens a) v of
           None \<Rightarrow> token_budget b = token_budget a \<and> input_budget b = input_budget a
         | Some k \<Rightarrow> token_budget b = token_budget a + k \<and> input_budget b = input_budget a + k + draft_slots cfg"
proof -
  obtain i a1 where i: "i < length (running s)" "running s ! i = v"
    "t = s\<lparr>running := take i (running s) @ drop (Suc i) (running s)\<rparr>"
    "a1 = a\<lparr>req_index := (if i < req_index a then req_index a - 1 else req_index a)\<rparr>"
    "if v \<in> set (scheduled_running a) \<and> sched_policy cfg = Priority
     then refund cfg (requests s) v a1 = Inr b else b = a1"
    "sched_policy cfg = Priority \<or> req_index a \<le> i"
    using take_victim_cases [OF assms(1,2)] by metis
  show ?thesis
  proof (cases "v \<in> set (scheduled_running a)")
    case True
    have "sched_policy cfg = Priority"
    proof (rule ccontr)
      assume "sched_policy cfg \<noteq> Priority"
      then have "req_index a \<le> i" using i(6) by simp
      moreover have "v \<in> set (take (req_index a) (running s))"
        using True assms(3) by (auto simp: lists_ok_def)
      then obtain j where "j < req_index a" "j < length (running s)" "running s ! j = v"
        by (auto simp: in_set_conv_nth)
      ultimately show False
        using i(1,2) assms(3) nth_eq_iff_index_eq [of "running s" i j] by (simp add: lists_ok_def)
    qed
    with i(5) True have "refund cfg (requests s) v a1 = Inr b" by simp
    then show ?thesis
      by (rule refund_Inr) (use i in \<open>auto intro!: that [OF i(1-3)]\<close>)
  next
    case False
    then have keys: "v \<notin> set (map fst (num_scheduled_tokens a))" "v \<notin> set (map fst (req_to_new_blocks a))"
      using assms(3) by (simp_all add: lists_ok_def)
    then have "map_of (num_scheduled_tokens a) v = None" by (metis map_of_eq_None_iff set_map)
    with i False keys show ?thesis
      by (intro that [OF i(1-3)]) (simp_all add: delete_absent remove1_idem)
  qed
qed

lemma evict_lists:
  assumes "take_victim cfg s a = Inr (v, t, b)" "cursor r s a" "lists_ok rs s a"
    and "preempt_request x cfg v t = Inr u"
  shows "lists_ok rs u (b\<lparr>preempted_reqs := preempted_reqs b @ [v]\<rparr>)"
    and "v \<noteq> r \<Longrightarrow> cursor r u (b\<lparr>preempted_reqs := preempted_reqs b @ [v]\<rparr>)"
    and "set (running u) = set (running s) - {v}"
    and "int (length (running u)) - int (req_index b) \<le> int (length (running s)) - int (req_index a)"
proof -
  have idx: "req_index a < length (running s)" and r: "running s ! req_index a = r"
    using assms(2) by (auto simp: cursor_def)
  obtain i where i: "i < length (running s)" "running s ! i = v"
    "t = s\<lparr>running := take i (running s) @ drop (Suc i) (running s)\<rparr>"
    "req_index b = (if i < req_index a then req_index a - 1 else req_index a)"
    "scheduled_running b = remove1 v (scheduled_running a)"
    "num_scheduled_tokens b = AList.delete v (num_scheduled_tokens a)"
    "req_to_new_blocks b = AList.delete v (req_to_new_blocks a)" "preempted_reqs b = preempted_reqs a"
    by (rule take_victim_acc [OF assms(1) idx assms(3)])
  have u: "running u = take i (running s) @ drop (Suc i) (running s)"
    using preempt_request_Inr(1) [OF assms(4)] i(3) by simp
  have d: "distinct (running s)" using assms(3) by (simp add: lists_ok_def)
  show run: "set (running u) = set (running s) - {v}"
    using remove_at(2) [OF i(1) d] u i(2) by simp
  have "set (scheduled_running b) \<subseteq> set (take (req_index a) (running s)) - {v}"
    using assms(3) i(5) by (auto simp: lists_ok_def)
  then have sub: "set (scheduled_running b) \<subseteq> set (take (req_index b) (running u))"
    using remove_before(1) [OF i(1) idx i(4)] u i(2) by auto
  have v: "v \<in> set (running s)" using i(1,2) nth_mem by blast
  have keys: "map fst (num_scheduled_tokens b) = scheduled_running b"
    "map fst (req_to_new_blocks b) = scheduled_running b"
    using assms(3) i(5-7) by (simp_all add: lists_ok_def delete_keys)
  have "length (running u) = length (running s) - 1" using u i(1) by simp
  moreover from this show "int (length (running u)) - int (req_index b) \<le>
      int (length (running s)) - int (req_index a)"
    using i(1,4) idx by auto
  ultimately show "lists_ok rs u (b\<lparr>preempted_reqs := preempted_reqs b @ [v]\<rparr>)"
    using assms(3) sub keys run v remove_at(1) [OF i(1) d] u i(4,5,8) idx
    unfolding lists_ok_def by (auto simp: distinct_remove1)
  assume "v \<noteq> r"
  then have "i \<noteq> req_index a" using i(2) r by auto
  with remove_before(2) [OF i(1) idx i(4)] show "cursor r u (b\<lparr>preempted_reqs := preempted_reqs b @ [v]\<rparr>)"
    using u r i(1) by (simp add: cursor_def)
qed

text \<open>Every part of the invariant survives an eviction.\<close>

lemma evict_inv:
  assumes "take_victim cfg s a = Inr (v, t, b)" "cursor r s a"
    and "preempt_request x cfg v t = Inr u" "step_inv cfg rs store step defer bud extra s a"
    and "0 \<le> draft_slots cfg"
  shows "step_inv cfg rs store step defer bud extra u (b\<lparr>preempted_reqs := preempted_reqs b @ [v]\<rparr>)"
proof -
  let ?b = "b\<lparr>preempted_reqs := preempted_reqs b @ [v]\<rparr>"
  have l: "lists_ok rs s a" using assms(4) by (simp add: step_inv_def)
  have idx: "req_index a < length (running s)" using assms(2) by (simp add: cursor_def)
  obtain i where i: "t = s\<lparr>running := take i (running s) @ drop (Suc i) (running s)\<rparr>"
    "scheduled_running b = remove1 v (scheduled_running a)"
    "num_scheduled_tokens b = AList.delete v (num_scheduled_tokens a)"
    and ref: "case map_of (num_scheduled_tokens a) v of
           None \<Rightarrow> token_budget b = token_budget a \<and> input_budget b = input_budget a
         | Some k \<Rightarrow> token_budget b = token_budget a + k \<and> input_budget b = input_budget a + k + draft_slots cfg"
    by (rule take_victim_acc [OF assms(1) idx l])
  note u = preempt_request_Inr [OF assms(3)]
  have d: "distinct (map fst (num_scheduled_tokens a))" "distinct (scheduled_running a)"
    using l by (simp_all add: lists_ok_def)
  have sub: "set (num_scheduled_tokens b) \<subseteq> set (num_scheduled_tokens a)"
    using i(3) delete_subset by metis
  have run: "set (running u) = set (running s) - {v}" by (rule evict_lists(3) [OF assms(1,2) l assms(3)])
  have store: "store_ok store u ?b"
    using assms(4) run u(5) i(1,2) d(2) by (auto simp: step_inv_def store_ok_def)
  have fit: "fit_ok cfg store step ?b"
    using assms(4) sub by (auto simp: step_inv_def fit_ok_def)
  have budget: "step_budget_ok cfg bud ?b"
  proof (cases "map_of (num_scheduled_tokens a) v")
    case None
    then have "token_budget b = token_budget a \<and> input_budget b = input_budget a"
      using ref by simp
    moreover have "num_scheduled_tokens b = num_scheduled_tokens a"
      using None i(3) by (simp add: map_of_eq_None_iff)
    ultimately show ?thesis using assms(4) by (simp add: step_inv_def step_budget_ok_def)
  next
    case (Some k)
    then have "0 < k" using assms(4) map_of_SomeD [OF Some] by (auto simp: step_inv_def fit_ok_def fits_step_def)
    with Some ref show ?thesis
      using assms(4,5) i(3) by (auto simp: step_inv_def step_budget_ok_def delete_sum [OF d(1) Some])
  qed
  have short: "short_ok cfg store defer extra u ?b"
  proof (cases "map_of (num_scheduled_tokens a) v")
    case None
    then show ?thesis
      using assms(4) i(1,3) u(3) by (simp add: step_inv_def short_ok_def map_of_eq_None_iff)
  next
    case (Some k)
    have sum: "(\<Sum>(r, n)\<leftarrow>num_scheduled_tokens b. chunk_work (store r)) =
        (\<Sum>(r, n)\<leftarrow>num_scheduled_tokens a. chunk_work (store r)) - chunk_work (store v)"
      using delete_sum [OF d(1) Some, of "\<lambda>(r, n). chunk_work (store r)"] i(3) by simp
    show ?thesis
      unfolding short_ok_def
    proof (rule impI)
      assume "defer"
      then have old: "\<forall>(r, n) \<in> set (num_scheduled_tokens a). counted (store r)"
        "(\<Sum>(r, n)\<leftarrow>num_scheduled_tokens a. chunk_work (store r)) + extra \<le> e27b_step_short_prefill s"
        "e27b_step_short_prefill s \<le> max 0 (short_prefill cfg)"
        using assms(4) by (simp_all add: step_inv_def short_ok_def)
      have "0 \<le> chunk_work (store v)" using old(1) map_of_SomeD [OF Some] counted_nonneg by blast
      moreover have "e27b_step_short_prefill u = e27b_step_short_prefill s" using u(3) i(1) by simp
      moreover have "\<forall>(r, n) \<in> set (num_scheduled_tokens b). counted (store r)"
        using old(1) sub by blast
      ultimately show "(\<forall>(r, n) \<in> set (num_scheduled_tokens ?b). counted (store r)) \<and>
          (\<Sum>(r, n)\<leftarrow>num_scheduled_tokens ?b. chunk_work (store r)) + extra \<le> e27b_step_short_prefill u \<and>
          e27b_step_short_prefill u \<le> max 0 (short_prefill cfg)"
        using old(2,3) sum by simp
    qed
  qed
  show ?thesis
    using evict_lists(1) [OF assms(1,2) l assms(3)] store fit budget short assms(4) u(2) i(1)
    by (simp add: step_inv_def)
qed

section \<open>Allocation\<close>

text \<open>
  An induction over the allocation loop: what every failed attempt (with its eviction) and
  every call of the cache manager keep, the loop keeps; on success the cursor still stands
  on the request.
\<close>

lemma try_allocate_inv:
  assumes "try_allocate x cfg r n boundary s a = Inr (t, b, got)" "cursor r s a" "P s a"
    and world: "\<And>s a w. P s a \<Longrightarrow> P (s\<lparr>world := w\<rparr>) a"
    and evict: "\<And>s a v t b u. P s a \<Longrightarrow> cursor r s a \<Longrightarrow> take_victim cfg s a = Inr (v, t, b) \<Longrightarrow>
        preempt_request x cfg v t = Inr u \<Longrightarrow>
        P u (b\<lparr>preempted_reqs := preempted_reqs b @ [v]\<rparr>) \<and>
        (v \<noteq> r \<longrightarrow> cursor r u (b\<lparr>preempted_reqs := preempted_reqs b @ [v]\<rparr>))"
  shows "P t b \<and> (got \<noteq> None \<longrightarrow> cursor r t b)"
  using assms
proof (induction x cfg r n boundary s a rule: try_allocate.induct)
  case (1 x cfg r n boundary s a)
  obtain w res where alloc: "allocate_slots x r (requests s r) n boundary (world s) = (w, res)"
    by fastforce
  have cur: "cursor r (s\<lparr>world := w\<rparr>) a" and P: "P (s\<lparr>world := w\<rparr>) a"
    using "1.prems"(2,3,4) by (simp_all add: cursor_def)
  show ?case
  proof (cases res)
    case (Some blocks)
    with alloc "1.prems"(1) have "t = s\<lparr>world := w\<rparr>" "b = a"
      by (simp_all add: try_allocate.simps [of x cfg r n boundary s a])
    with cur P show ?thesis by simp
  next
    case None
    obtain v s1 a1 s2 where v: "take_victim cfg (s\<lparr>world := w\<rparr>) a = Inr (v, s1, a1)"
      and u: "preempt_request x cfg v s1 = Inr s2"
      and rest: "if v = r then t = s2 \<and> b = a1\<lparr>preempted_reqs := preempted_reqs a1 @ [v]\<rparr> \<and> got = None
        else try_allocate x cfg r n boundary s2 (a1\<lparr>preempted_reqs := preempted_reqs a1 @ [v]\<rparr>) = Inr (t, b, got)"
      using "1.prems"(1) alloc None
      by (auto simp: try_allocate.simps [of x cfg r n boundary s a] Let_def
          split: sum.splits prod.splits if_split_asm)
    note step = "1.prems"(5) [OF P cur v u]
    show ?thesis
    proof (cases "v = r")
      case True
      with rest step show ?thesis by simp
    next
      case False
      from "1.IH" [OF alloc [symmetric] None v refl refl u refl False] rest False step "1.prems"(4,5)
      show ?thesis by simp
    qed
  qed
qed

lemma take_victim_total:
  assumes "lists_ok rs s a" "store_ok store s a" "cursor r s a"
  shows "\<exists>v t b. take_victim cfg s a = Inr (v, t, b) \<and> status (requests t v) = IsRunning"
proof -
  have ne: "running s \<noteq> []" using assms(3) by (auto simp: cursor_def)
  have run: "status (requests s v) = IsRunning" if h: "v \<in> set (running s)" for v
    using assms(2) h by (auto simp: store_ok_def)
  have ref: "\<exists>b. refund cfg (requests s) v a1 = Inr b"
    if h: "v \<in> set (scheduled_running a)" "num_scheduled_tokens a1 = num_scheduled_tokens a"
      "req_to_new_blocks a1 = req_to_new_blocks a" for v a1
  proof -
    have "v \<in> fst ` set (num_scheduled_tokens a)" "v \<in> fst ` set (req_to_new_blocks a)"
      using assms(1) h(1) by (metis lists_ok_def set_map)+
    then obtain k l where "map_of (num_scheduled_tokens a) v = Some k" "map_of (req_to_new_blocks a) v = Some l"
      by (metis domD dom_map_of_conv_image_fst)
    with h show ?thesis by (simp add: refund_def)
  qed
  show ?thesis
  proof (cases "sched_policy cfg = Priority")
    case True
    let ?v = "lowest_priority (requests s) (running s)"
    let ?a1 = "if index_of ?v (running s) < req_index a then a\<lparr>req_index := req_index a - 1\<rparr> else a"
    have "\<exists>b. refund cfg (requests s) ?v ?a1 = Inr b" if h: "?v \<in> set (scheduled_running a)"
      by (rule ref [OF h]) simp_all
    moreover have "scheduled_running ?a1 = scheduled_running a" by simp
    ultimately show ?thesis
      using True ne run [OF lowest_priority_in [OF ne]] by (auto simp: take_victim_def Let_def)
  next
    case False
    with ne run [of "last (running s)"] show ?thesis by (simp add: take_victim_def)
  qed
qed

lemma try_allocate_total:
  assumes "step_inv cfg rs store step defer bud extra s a" "cursor r s a" "0 \<le> draft_slots cfg"
  shows "\<exists>y. try_allocate x cfg r n boundary s a = Inr y"
  using assms
proof (induction x cfg r n boundary s a rule: try_allocate.induct)
  case (1 x cfg r n boundary s a)
  obtain w res where alloc: "allocate_slots x r (requests s r) n boundary (world s) = (w, res)"
    by fastforce
  have cur: "cursor r (s\<lparr>world := w\<rparr>) a"
    and inv: "step_inv cfg rs store step defer bud extra (s\<lparr>world := w\<rparr>) a"
    using "1.prems"(1,2) by (simp_all add: cursor_def step_inv_defs)
  show ?case
  proof (cases res)
    case (Some blocks)
    with alloc show ?thesis by (simp add: try_allocate.simps [of x cfg r n boundary s a])
  next
    case None
    obtain v s1 a1 where v: "take_victim cfg (s\<lparr>world := w\<rparr>) a = Inr (v, s1, a1)"
      and st: "status (requests s1 v) = IsRunning"
      using take_victim_total [OF _ _ cur] inv by (metis step_inv_def)
    from st obtain s2 where u: "preempt_request x cfg v s1 = Inr s2" by (simp add: preempt_request_def Let_def)
    show ?thesis
    proof (cases "v = r")
      case True
      with alloc None v u show ?thesis by (simp add: try_allocate.simps [of x cfg r n boundary s a] Let_def)
    next
      case False
      have "lists_ok rs (s\<lparr>world := w\<rparr>) a" using inv by (simp add: step_inv_def)
      from evict_lists(2) [OF v cur this u False] "1.IH" [OF alloc [symmetric] None v refl refl u refl False]
        evict_inv [OF v cur u inv "1.prems"(3)] "1.prems"(3)
      show ?thesis using alloc None v u False
        by (simp add: try_allocate.simps [of x cfg r n boundary s a] Let_def)
    qed
  qed
qed

section \<open>Encoder inputs\<close>

text \<open>
  vLLM's \<open>get_mm_features_in_window\<close> returns a range of features that start before the end
  of the window.
\<close>

definition window_law :: "'w externals \<Rightarrow> bool" where
  "window_law x \<longleftrightarrow> (\<forall>fs a b. snd (mm_window x fs a b) \<le> length fs \<and>
     (\<forall>i < snd (mm_window x fs a b). mm_offset (fs ! i) < b))"

text \<open>
  What a request must meet for the pass not to raise: the connector's boundaries are accepted,
  and the inputs of an encoder-decoder model sit at position 0.
\<close>

definition request_ok :: "'w externals \<Rightarrow> sched_config \<Rightarrow> sreq \<Rightarrow> bool" where
  "request_ok x cfg q \<longleftrightarrow>
     (\<exists>bs. publication_boundaries cfg (connector x) q = Inr bs) \<and>
     (is_encoder_decoder cfg \<longrightarrow> (\<forall>f \<in> set (mm_features q). mm_offset f = 0))"

definition bounded_result :: "int \<Rightarrow> sched_error + (enc_scan \<times> int \<times> 'w) \<Rightarrow> bool" where
  "bounded_result n y = (case y of Inl _ \<Rightarrow> False | Inr (_, m, _) \<Rightarrow> m \<le> max 0 n)"

lemma bounded_result_Inr [simp]: "bounded_result n (Inr (st, m, w)) \<longleftrightarrow> m \<le> max 0 n"
  by (simp add: bounded_result_def)

lemma if_bounded:
  "(c \<Longrightarrow> bounded_result n y) \<Longrightarrow> (\<not> c \<Longrightarrow> bounded_result n z) \<Longrightarrow> bounded_result n (if c then y else z)"
  by simp

lemma prod_bounded: "(\<And>u v. bounded_result n (f u v)) \<Longrightarrow> bounded_result n (case p of (u, v) \<Rightarrow> f u v)"
  by (cases p) simp

lemma bounded_resultE:
  assumes "bounded_result n y"
  obtains st m w where "y = Inr (st, m, w)" "m \<le> max 0 n"
  using assms by (auto simp: bounded_result_def split: sum.splits)

lemma encoder_scan_bounds:
  assumes "\<And>i. i \<in> set todo \<Longrightarrow> i < length (mm_features q) \<and> mm_offset (mm_features q ! i) < computed + n + shift"
    and "is_encoder_decoder cfg \<Longrightarrow> \<forall>f \<in> set (mm_features q). mm_offset f = 0"
  shows "bounded_result n (encoder_scan x cfg r q computed shift n todo st w)"
  using assms
proof (induction todo arbitrary: st w)
  case (Cons i todo)
  have i: "i < length (mm_features q)" "mm_offset (mm_features q ! i) < computed + n + shift"
    using Cons.prems(1) [of i] by auto
  have enc: "mm_offset (mm_features q ! i) = 0" if h: "is_encoder_decoder cfg"
    using Cons.prems(2) [OF h] nth_mem [OF i(1)] by blast
  have IH: "bounded_result n (encoder_scan x cfg r q computed shift n todo st w)" for st w
    using Cons.IH Cons.prems by simp
  have roll: "max 0 (mm_offset (mm_features q ! i) - (computed + shift)) \<le> max 0 n"
    "(if computed + shift < mm_offset (mm_features q ! i)
      then mm_offset (mm_features q ! i) - (computed + shift) else 0) \<le> max 0 n"
    using i(2) by auto
  obtain w1 hit where hit: "(if is_encoder_decoder cfg then (w, False) else check_and_update_cache x r i w) = (w1, hit)"
    by fastforce
  show ?case
    unfolding encoder_scan.simps Let_def hit
    by (intro if_bounded prod_bounded) (use i(1) enc roll IH in simp_all)
qed simp

lemma try_encoder_bounds:
  assumes "window_law x" "request_ok x cfg q"
  shows "bounded_result n (try_encoder_inputs x cfg r q computed n budget shift w)"
proof -
  obtain lo hi where win: "mm_window x (mm_features q) computed (computed + n + shift) = (lo, hi)"
    by fastforce
  with assms(1) have "hi \<le> length (mm_features q)"
    "\<And>i. i < hi \<Longrightarrow> mm_offset (mm_features q ! i) < computed + n + shift"
    unfolding window_law_def by (metis snd_conv)+
  then have "bounded_result n (encoder_scan x cfg r q computed shift n [k..<hi] st w)" for k st
    using win assms(2) by (intro encoder_scan_bounds) (auto simp: request_ok_def)
  then show ?thesis using win by (simp add: try_encoder_inputs_def Let_def)
qed

section \<open>One request\<close>

lemma step_inv_request:
  assumes "step_inv cfg rs store step defer bud extra s a" "cursor r s a"
  shows "r \<notin> set (scheduled_running a)" "requests s r = store r" "r \<in> set (running s)"
proof -
  have d: "distinct (running s)" "set (scheduled_running a) \<subseteq> set (take (req_index a) (running s))"
    using assms(1) by (simp_all add: step_inv_def lists_ok_def)
  show r: "r \<in> set (running s)"
    using assms(2) nth_mem [of "req_index a" "running s"] by (simp add: cursor_def)
  have "running s = take (req_index a) (running s) @ r # drop (Suc (req_index a)) (running s)"
    using assms(2) id_take_nth_drop [of "req_index a" "running s"] by (simp add: cursor_def)
  then have "distinct (take (req_index a) (running s) @ r # drop (Suc (req_index a)) (running s))"
    using d(1) by simp
  then have "r \<notin> set (take (req_index a) (running s))" by simp
  with d(2) show "r \<notin> set (scheduled_running a)" by blast
  with assms(1) r show "requests s r = store r" by (simp add: step_inv_def store_ok_def)
qed

lemma evict_budgets:
  assumes "take_victim cfg s a = Inr (v, t, b)" "cursor r s a"
    and "step_inv cfg rs store step defer bud extra s a" "0 \<le> draft_slots cfg"
  shows "token_budget a \<le> token_budget b \<and> input_budget a \<le> input_budget b"
proof -
  have l: "lists_ok rs s a" "req_index a < length (running s)"
    using assms(2,3) by (simp_all add: step_inv_def cursor_def)
  have pos: "0 < k" if h: "map_of (num_scheduled_tokens a) v = Some k" for k
    using assms(3) map_of_SomeD [OF h] by (auto simp: step_inv_def fit_ok_def fits_step_def)
  show ?thesis
    by (rule take_victim_acc [OF assms(1) l(2,1)])
       (use pos assms(4) in \<open>auto split: option.splits\<close>)
qed

lemma commit_inv:
  assumes "step_inv cfg rs store step defer bud extra s a" "cursor r s a"
    and "fits_step cfg step (store r) n" "n \<le> token_budget a" "n \<le> input_budget a - draft_slots cfg"
    and "defer \<Longrightarrow> extra = chunk_work (store r) \<and> counted (store r)" "0 \<le> extra"
    and "commit_request x cfg r n blocks scan s a = (t, b)"
  shows "step_inv cfg rs store step defer bud 0 t b"
proof -
  note fresh = step_inv_request [OF assms(1,2)]
  have l: "lists_ok rs s a" using assms(1) by (simp add: step_inv_def)
  have keys: "r \<notin> set (map fst (num_scheduled_tokens a))" "r \<notin> set (map fst (req_to_new_blocks a))"
    using l fresh(1) by (simp_all add: lists_ok_def)
  have b: "scheduled_running b = scheduled_running a @ [r]"
    "num_scheduled_tokens b = num_scheduled_tokens a @ [(r, n)]"
    "req_to_new_blocks b = req_to_new_blocks a @ [(r, blocks)]"
    "token_budget b = token_budget a - n" "input_budget b = input_budget a - (n + draft_slots cfg)"
    "req_index b = req_index a + 1" "preempted_reqs b = preempted_reqs a"
    and t: "running t = running s" "current_step t = current_step s"
    "e27b_step_short_prefill t = e27b_step_short_prefill s"
    "requests t = (requests s)(r := (store r)\<lparr>spec_token_ids := []\<rparr>)"
    using assms(8) fresh(2) update_fresh [OF keys(1)] update_fresh [OF keys(2)]
    by (auto simp: commit_request_def Let_def)
  have "take (req_index b) (running t) = take (req_index a) (running s) @ [r]"
    using assms(2) b(6) t(1) by (simp add: cursor_def take_Suc_conv_app_nth)
  then have "lists_ok rs t b"
    using l fresh(1) b t(1) assms(2) by (auto simp: lists_ok_def cursor_def)
  moreover have "store_ok store t b"
    using assms(1) b(1) t(1,4) by (auto simp: step_inv_def store_ok_def)
  moreover have "step_budget_ok cfg bud b"
    using assms(1,4,5) b(2,4,5) by (simp add: step_inv_def step_budget_ok_def)
  moreover have "fit_ok cfg store step b"
    using assms(1,3) b(2) by (auto simp: step_inv_def fit_ok_def)
  moreover have "short_ok cfg store defer 0 t b"
    using assms(1,6,7) b(2) t(3) by (auto simp: step_inv_def short_ok_def)
  ultimately show ?thesis using assms(1) t(2) by (simp add: step_inv_def)
qed

lemma wanted_bounds:
  "wanted_tokens cfg a q \<le> token_budget a"
  "wanted_tokens cfg a q \<le> input_budget a - draft_slots cfg"
  "wanted_tokens cfg a q \<le> tokens_with_spec q + num_output_placeholders q - num_computed_tokens q"
  "num_computed_tokens q + wanted_tokens cfg a q + num_sampled_tokens_per_step cfg \<le> max_model_len cfg"
  by (auto simp: wanted_tokens_def Let_def)

lemma split_total:
  assumes "request_ok x cfg q"
  shows "\<exists>m. block_aligned_split cfg (connector x) q n nl ne = Inr m"
  using assms by (auto simp: request_ok_def block_aligned_split_def Let_def)

text \<open>The running list shrinks or the cursor moves on.\<close>

definition todo_size :: "'w sched \<Rightarrow> step_acc \<Rightarrow> int" where
  "todo_size s a = int (length (running s)) - int (req_index a)"

lemma skip_inv:
  assumes "step_inv cfg rs store step defer bud extra s a" "cursor r s a" "0 \<le> extra"
    and "running t = running s" "requests t = requests s" "current_step t = current_step s"
    and "e27b_step_short_prefill t = e27b_step_short_prefill s"
  shows "step_inv cfg rs store step defer bud 0 t (skip_request a) \<and>
         todo_size t (skip_request a) < todo_size s a"
proof -
  have "set (take (req_index a) (running s)) \<subseteq> set (take (Suc (req_index a)) (running s))"
    by (rule set_take_subset_set_take) simp
  then show ?thesis
    using assms by (auto simp: step_inv_defs skip_request_def cursor_def todo_size_def)
qed

lemma drop_extra:
  "step_inv cfg rs store step defer bud extra s a \<Longrightarrow> 0 \<le> extra \<Longrightarrow>
   step_inv cfg rs store step defer bud 0 s a"
  by (auto simp: step_inv_def short_ok_def)

text \<open>What the loop needs of one iteration: no error, the invariant, and progress.\<close>

definition step_fine ::
  "sched_config \<Rightarrow> string set \<Rightarrow> (string \<Rightarrow> sreq) \<Rightarrow> int \<Rightarrow> bool \<Rightarrow> int \<Rightarrow> int \<Rightarrow>
   sched_error + (bool \<times> 'w sched \<times> step_acc) \<Rightarrow> bool" where
  "step_fine cfg rs store step defer bud sz y \<longleftrightarrow> (case y of Inl _ \<Rightarrow> False
     | Inr (go, t, b) \<Rightarrow> step_inv cfg rs store step defer bud 0 t b \<and> (go \<longrightarrow> todo_size t b < sz))"

lemma step_fine_Inr [simp]:
  "step_fine cfg rs store step defer bud sz (Inr (go, t, b)) \<longleftrightarrow>
   step_inv cfg rs store step defer bud 0 t b \<and> (go \<longrightarrow> todo_size t b < sz)"
  by (simp add: step_fine_def)

lemma allocate_keeps:
  fixes s :: "'w sched"
  assumes "try_allocate x cfg r n boundary s a = Inr (t, b, got)" "cursor r s a"
    and "step_inv cfg rs store step defer bud extra s a" "0 \<le> draft_slots cfg"
  shows "step_inv cfg rs store step defer bud extra t b" "todo_size t b \<le> todo_size s a"
    "token_budget a \<le> token_budget b" "input_budget a \<le> input_budget b"
    "got \<noteq> None \<Longrightarrow> cursor r t b"
proof -
  define P where "P = (\<lambda>(t :: 'w sched) b. step_inv cfg rs store step defer bud extra t b \<and> todo_size t b \<le> todo_size s a \<and>
      token_budget a \<le> token_budget b \<and> input_budget a \<le> input_budget b)"
  have "P t b \<and> (got \<noteq> None \<longrightarrow> cursor r t b)"
  proof (rule try_allocate_inv [OF assms(1,2)])
    show "P s a" using assms(3) by (simp add: P_def)
  next
    fix s :: "'w sched" and a w assume "P s a" then show "P (s\<lparr>world := w\<rparr>) a"
      by (simp add: P_def step_inv_defs todo_size_def)
  next
    fix s :: "'w sched" and a v t b u
    assume h: "P s a" "cursor r s a" "take_victim cfg s a = Inr (v, t, b)"
      "preempt_request x cfg v t = Inr u"
    then have inv: "step_inv cfg rs store step defer bud extra s a" and "lists_ok rs s a"
      by (simp_all add: P_def step_inv_def)
    note ev = evict_lists [OF h(3,2) this(2) h(4)]
    have "P u (b\<lparr>preempted_reqs := preempted_reqs b @ [v]\<rparr>)"
      using h(1) evict_inv [OF h(3,2,4) inv assms(4)] ev(4) evict_budgets [OF h(3,2) inv assms(4)]
      by (simp add: P_def todo_size_def)
    with ev(2) show "P u (b\<lparr>preempted_reqs := preempted_reqs b @ [v]\<rparr>) \<and>
        (v \<noteq> r \<longrightarrow> cursor r u (b\<lparr>preempted_reqs := preempted_reqs b @ [v]\<rparr>))" by blast
  qed
  then show "step_inv cfg rs store step defer bud extra t b" "todo_size t b \<le> todo_size s a"
    "token_budget a \<le> token_budget b" "input_budget a \<le> input_budget b"
    "got \<noteq> None \<Longrightarrow> cursor r t b"
    by (simp_all add: P_def)
qed

lemma schedule_request_fine:
  assumes inv: "step_inv cfg rs store step defer bud extra s a" and cur: "cursor r s a"
    and env: "window_law x" "request_ok x cfg (store r)" "0 \<le> draft_slots cfg" "0 < block_size cfg"
    and guards: "\<not> vendor_finishes (store r)" "\<not> would_hold cfg (store r)"
      "next_decode_eligible_step (store r) \<le> step"
    and extra: "defer \<Longrightarrow> extra = chunk_work (store r) \<and> counted (store r)" "0 \<le> extra"
  shows "step_fine cfg rs store step defer bud (todo_size s a) (schedule_request x cfg r s a)"
proof -
  let ?q = "store r"
  have q: "requests s r = ?q" by (rule step_inv_request(2) [OF inv cur])
  obtain n1 where n1: "(if need_aligned_split cfg
      then block_aligned_split cfg (connector x) ?q (wanted_tokens cfg a ?q) 0 0
      else Inr (wanted_tokens cfg a ?q)) = Inr n1" "n1 \<le> max 0 (wanted_tokens cfg a ?q)"
    using split_total [OF env(2)] split_le [OF _ env(4)] by (cases "need_aligned_split cfg") (auto, blast)
  obtain scan n2 w where n2: "try_encoder_inputs x cfg r ?q (num_computed_tokens ?q) n1 (encoder_budget a)
      (num_prefill_lookahead cfg) (world s) = Inr (scan, n2, w)" "n2 \<le> max 0 n1"
    by (rule bounded_resultE [OF try_encoder_bounds [OF env(1,2)]])
  define n where "n = reserve_prefill_lookahead cfg ?q (num_computed_tokens ?q) n2"
  have n: "0 \<le> n" "n \<noteq> 0 \<Longrightarrow> n \<le> wanted_tokens cfg a ?q"
    using reserve_bounds [of cfg ?q "num_computed_tokens ?q" n2] n1(2) n2(2) unfolding n_def by linarith+
  show ?thesis
  proof (cases "n = 0")
    case True
    then have "schedule_request x cfg r s a = Inr (True, s\<lparr>world := w\<rparr>, skip_request a)"
      using n1(1) n2(1) by (simp add: schedule_request_def Let_def q n_def)
    then show ?thesis using skip_inv [OF inv cur extra(2), of "s\<lparr>world := w\<rparr>"] by simp
  next
    case False
    let ?s = "s\<lparr>world := w\<rparr>"
    obtain boundary where bd: "publication_boundary_at cfg (connector x) ?q (num_computed_tokens ?q + n) = Inr boundary"
      using env(2) by (auto simp: request_ok_def publication_boundary_at_def)
    have inv1: "step_inv cfg rs store step defer bud extra ?s a" and cur1: "cursor r ?s a"
      using inv cur by (simp_all add: step_inv_defs cursor_def)
    obtain s2 a2 got where al: "try_allocate x cfg r n boundary ?s a = Inr (s2, a2, got)"
      using try_allocate_total [OF inv1 cur1 env(3)] by (metis prod_cases3)
    note keep = allocate_keeps [OF al cur1 inv1 env(3)]
    have res: "schedule_request x cfg r s a = (case got of None \<Rightarrow> Inr (False, s2, a2)
        | Some blocks \<Rightarrow> Inr (True, commit_request x cfg r n blocks scan s2 a2))"
      using n1(1) n2(1) False bd al by (simp add: schedule_request_def Let_def q n_def [symmetric])
    show ?thesis
    proof (cases got)
      case None
      then show ?thesis using res drop_extra [OF keep(1) extra(2)] by simp
    next
      case (Some blocks)
      obtain t b where tb: "commit_request x cfg r n blocks scan s2 a2 = (t, b)" by fastforce
      have w: "n \<le> wanted_tokens cfg a ?q" by (rule n(2) [OF False])
      have "fits_step cfg step ?q n"
        using wanted_bounds(3,4) [where cfg = cfg and a = a and q = ?q] w n(1) False guards by (simp add: fits_step_def)
      moreover have "n \<le> token_budget a2" "n \<le> input_budget a2 - draft_slots cfg"
        using wanted_bounds(1,2) [where cfg = cfg and a = a and q = ?q] w keep(3,4) by linarith+
      ultimately have "step_inv cfg rs store step defer bud 0 t b"
        using commit_inv [OF keep(1) keep(5) _ _ _ extra tb] Some by blast
      moreover have "todo_size t b < todo_size s a"
        using tb keep(2) by (auto simp: commit_request_def Let_def todo_size_def)
      ultimately show ?thesis using res Some tb by simp
    qed
  qed
qed

section \<open>The loop\<close>

lemma count_hold_same [simp]:
  "running (count_hold r s) = running s" "requests (count_hold r s) = requests s"
  "current_step (count_hold r s) = current_step s"
  "e27b_step_short_prefill (count_hold r s) = e27b_step_short_prefill s"
  by (simp_all add: count_hold_def)

lemma run_step_fine:
  assumes inv: "step_inv cfg rs store step defer bud 0 s a" and more: "req_index a < length (running s)"
    and env: "window_law x" "0 \<le> draft_slots cfg" "0 < block_size cfg"
    and ok: "\<forall>r \<in> rs. request_ok x cfg (store r)"
  shows "step_fine cfg rs store step defer bud (todo_size s a) (run_step x cfg defer s a)"
proof -
  define r where "r = running s ! req_index a"
  have cur: "cursor r s a" using more by (simp add: cursor_def r_def)
  note req = step_inv_request [OF inv cur]
  have "r \<in> rs" using req(3) inv by (auto simp: step_inv_def lists_ok_def)
  with ok have okr: "request_ok x cfg (store r)" by blast
  have step: "current_step s = step" using inv by (simp add: step_inv_def)
  note skip = skip_inv [OF inv cur order_refl]
  show ?thesis
  proof (cases "input_budget a \<le> draft_slots cfg \<or> vendor_finishes (store r) \<or>
                would_hold cfg (store r) \<or> step < next_decode_eligible_step (store r)")
    case True
    then show ?thesis
      using inv skip [of s] skip [of "count_hold r s"] step
      by (auto simp: run_step_def Let_def r_def [symmetric] req(2))
  next
    case False
    let ?w = "num_tokens (store r) - num_computed_tokens (store r)"
    note fine = schedule_request_fine [where store = store and r = r and cfg = cfg and x = x, OF _ _ env(1) okr env(2,3)]
    show ?thesis
    proof (cases "defer \<and> is_prefill_chunk (store r)")
      case chunk: True
      show ?thesis
      proof (cases "e27b_admits ?w (e27b_step_short_prefill s) (short_prefill cfg)")
        case admit: True
        let ?s = "s\<lparr>e27b_step_short_prefill := e27b_step_short_prefill s + ?w,
                    e27b_admitted := e27b_admitted s + 1\<rparr>"
        have "step_inv cfg rs store step defer bud ?w ?s a"
          using inv admit unfolding step_inv_defs e27b_admits_def by auto
        moreover have "cursor r ?s a" using cur by (simp add: cursor_def)
        moreover have "todo_size ?s a = todo_size s a" by (simp add: todo_size_def)
        ultimately have "step_fine cfg rs store step defer bud (todo_size s a) (schedule_request x cfg r ?s a)"
          using fine [where s = ?s and a = a and extra = ?w and rs = rs and step = step and bud = bud] False chunk admit
          by (simp add: chunk_work_def counted_def e27b_admits_def)
        then show ?thesis
          using False chunk admit step
          by (simp add: run_step_def Let_def r_def [symmetric] req(2) e27b_admit_def)
      next
        case refuse: False
        then show ?thesis
          using False chunk step skip [of s]
          by (simp add: run_step_def Let_def r_def [symmetric] req(2) e27b_admit_def)
      qed
    next
      case plain: False
      then have "step_fine cfg rs store step defer bud (todo_size s a) (schedule_request x cfg r s a)"
        using fine [OF inv cur] False by (simp add: chunk_work_def counted_def)
      then show ?thesis
        using False plain step by (auto simp: run_step_def Let_def r_def [symmetric] req(2))
    qed
  qed
qed

text \<open>
  Every iteration that goes on brings the cursor closer to the end of the running list, in any
  state: this is why the loop ends.
\<close>

lemma evict_cursor:
  assumes "take_victim cfg s a = Inr (v, t, b)" "cursor r s a" "preempt_request x cfg v t = Inr u"
  shows "todo_size u b \<le> todo_size s a"
    and "v \<noteq> r \<Longrightarrow> cursor r u (b\<lparr>preempted_reqs := preempted_reqs b @ [v]\<rparr>)"
proof -
  have idx: "req_index a < length (running s)" and r: "running s ! req_index a = r"
    using assms(2) by (auto simp: cursor_def)
  obtain i a1 where i: "i < length (running s)" "running s ! i = v"
    "t = s\<lparr>running := take i (running s) @ drop (Suc i) (running s)\<rparr>"
    "a1 = a\<lparr>req_index := (if i < req_index a then req_index a - 1 else req_index a)\<rparr>"
    "if v \<in> set (scheduled_running a) \<and> sched_policy cfg = Priority
     then refund cfg (requests s) v a1 = Inr b else b = a1"
    by (rule take_victim_cases [OF assms(1) idx])
  have "req_index b = req_index a1"
    using i(5) by (cases "v \<in> set (scheduled_running a) \<and> sched_policy cfg = Priority")
      (auto elim: refund_Inr)
  then have b: "req_index b = (if i < req_index a then req_index a - 1 else req_index a)"
    using i(4) by simp
  have u: "running u = take i (running s) @ drop (Suc i) (running s)"
    using preempt_request_Inr(1) [OF assms(3)] i(3) by simp
  show "todo_size u b \<le> todo_size s a"
    using b u i(1) idx by (auto simp: todo_size_def)
  show "cursor r u (b\<lparr>preempted_reqs := preempted_reqs b @ [v]\<rparr>)" if h: "v \<noteq> r"
  proof -
    have "i \<noteq> req_index a" using i(2) r h by auto
    then show ?thesis using remove_before(2) [OF i(1) idx b] u r i(1) by (simp add: cursor_def)
  qed
qed

lemma allocate_size:
  fixes s :: "'w sched"
  assumes "try_allocate x cfg r n boundary s a = Inr (t, b, got)" "cursor r s a"
  shows "todo_size t b \<le> todo_size s a \<and> (got \<noteq> None \<longrightarrow> cursor r t b)"
proof -
  have "(\<lambda>(t :: 'w sched) b. todo_size t b \<le> todo_size s a) t b \<and> (got \<noteq> None \<longrightarrow> cursor r t b)"
  proof (rule try_allocate_inv [OF assms])
    fix s' :: "'w sched" and a' v t b u
    assume h: "todo_size s' a' \<le> todo_size s a" "cursor r s' a'" "take_victim cfg s' a' = Inr (v, t, b)"
      "preempt_request x cfg v t = Inr u"
    show "todo_size u (b\<lparr>preempted_reqs := preempted_reqs b @ [v]\<rparr>) \<le> todo_size s a \<and>
        (v \<noteq> r \<longrightarrow> cursor r u (b\<lparr>preempted_reqs := preempted_reqs b @ [v]\<rparr>))"
      using h(1) evict_cursor [OF h(3,2,4)] by (auto simp: todo_size_def)
  qed (simp_all add: todo_size_def)
  then show ?thesis by simp
qed

definition shrinks :: "int \<Rightarrow> sched_error + (bool \<times> 'w sched \<times> step_acc) \<Rightarrow> bool" where
  "shrinks sz y \<longleftrightarrow> (\<forall>t b. y = Inr (True, t, b) \<longrightarrow> todo_size t b < sz)"

lemma shrinks_Inr [simp]: "shrinks sz (Inr (go, t, b)) \<longleftrightarrow> (go \<longrightarrow> todo_size t b < sz)"
  by (auto simp: shrinks_def)

lemma shrinks_rbind: "(\<And>v. m = Inr v \<Longrightarrow> shrinks sz (f v)) \<Longrightarrow> shrinks sz (rbind m f)"
  by (cases m) (simp_all add: shrinks_def)

lemma shrinks_skip: "running t = running s \<Longrightarrow> shrinks (todo_size s a) (Inr (True, t, skip_request a))"
  by (simp add: todo_size_def skip_request_def)

lemma commit_size: "todo_size (fst (commit_request x cfg r n blocks scan s a))
    (snd (commit_request x cfg r n blocks scan s a)) = todo_size s a - 1"
  by (simp add: commit_request_def Let_def todo_size_def)

lemma schedule_request_size:
  fixes s :: "'w sched"
  assumes "cursor r s a"
  shows "shrinks (todo_size s a) (schedule_request x cfg r s a)"
proof -
  have commit: "shrinks (todo_size s a) (case got of None \<Rightarrow> Inr (False, s2, a2)
       | Some blocks \<Rightarrow> Inr (True, commit_request x cfg r n blocks scan s2 a2))"
    if h: "try_allocate x cfg r n boundary (s\<lparr>world := w\<rparr>) a = Inr (s2, a2, got)"
    for n boundary w got scan and s2 :: "'w sched" and a2
  proof -
    have "cursor r (s\<lparr>world := w\<rparr>) a" using assms by (simp add: cursor_def)
    from allocate_size [OF h this] have le: "todo_size s2 a2 \<le> todo_size s a" by (simp add: todo_size_def)
    obtain t b where tb: "commit_request x cfg r n blocks scan s2 a2 = (t, b)" if "got = Some blocks" for blocks
      by (cases got) (auto, fastforce)
    show ?thesis
    proof (cases got)
      case (Some blocks)
      with tb commit_size [of x cfg r n blocks scan s2 a2] le show ?thesis by simp
    qed simp
  qed
  show ?thesis
    unfolding schedule_request_def Let_def
  proof (rule shrinks_rbind, rule shrinks_rbind, unfold case_prod_beta, goal_cases)
    case (1 n1 y)
    let ?n = "reserve_prefill_lookahead cfg (requests s r) (num_computed_tokens (requests s r)) (fst (snd y))"
    show ?case
    proof (cases "?n = 0")
      case True
      then show ?thesis using shrinks_skip [of "s\<lparr>world := snd (snd y)\<rparr>" s a] by simp
    next
      case False
      show ?thesis
        unfolding if_not_P [OF False]
      proof (rule shrinks_rbind, rule shrinks_rbind)
        fix boundary z
        assume "try_allocate x cfg r ?n boundary (s\<lparr>world := snd (snd y)\<rparr>) a = Inr z"
        then show "shrinks (todo_size s a) (case snd (snd z) of None \<Rightarrow> Inr (False, fst z, fst (snd z))
          | Some blocks \<Rightarrow> Inr (True, commit_request x cfg r ?n blocks (fst y) (fst z) (fst (snd z))))"
          using commit [of ?n boundary "snd (snd y)" "fst z" "fst (snd z)" "snd (snd z)" "fst y"] by (cases z) simp
      qed
    qed
  qed
qed

lemma run_step_size:
  fixes s :: "'w sched"
  assumes "req_index a < length (running s)"
  shows "shrinks (todo_size s a) (run_step x cfg defer s a)"
proof -
  let ?r = "running s ! req_index a" and ?q = "requests s (running s ! req_index a)"
  have more: "shrinks (todo_size s a) (schedule_request x cfg ?r s1 a)"
    if h: "running s1 = running s" for s1 :: "'w sched"
    using schedule_request_size [of ?r s1 a x cfg] assms h by (simp add: cursor_def todo_size_def)
  show ?thesis
  proof (cases "e27b_admits (num_tokens ?q - num_computed_tokens ?q) (e27b_step_short_prefill s) (short_prefill cfg)")
    case True
    then show ?thesis
      unfolding run_step_def Let_def e27b_admit_def
      by (simp add: more shrinks_skip del: shrinks_Inr) (simp add: more)
  next
    case False
    then show ?thesis
      unfolding run_step_def Let_def e27b_admit_def
      by (simp add: more shrinks_skip del: shrinks_Inr) (simp add: more)
  qed
qed

function run_loop ::
  "'w externals \<Rightarrow> sched_config \<Rightarrow> bool \<Rightarrow> 'w sched \<Rightarrow> step_acc \<Rightarrow> sched_error + ('w sched \<times> step_acc)" where
  "run_loop x cfg defer s a =
     (if req_index a < length (running s) \<and> 0 < token_budget a
      then (case run_step x cfg defer s a of
              Inl e \<Rightarrow> Inl e
            | Inr (False, t, b) \<Rightarrow> Inr (t, b)
            | Inr (True, t, b) \<Rightarrow> run_loop x cfg defer t b)
      else Inr (s, a))"
  by pat_completeness auto
termination
proof (relation "measure (\<lambda>(x, cfg, defer, s, a). length (running s) - req_index a)", goal_cases)
  case (2 x cfg d s a y z go t b)
  then have "todo_size t b < todo_size s a"
    using run_step_size [of a s x cfg d] by (auto simp: shrinks_def)
  with 2(1) show ?case unfolding todo_size_def by simp arith
qed simp

declare run_loop.simps [simp del]

lemma run_loop_fine:
  assumes "step_inv cfg rs store step defer bud 0 s a"
    and "window_law x" "0 \<le> draft_slots cfg" "0 < block_size cfg"
    and "\<forall>r \<in> rs. request_ok x cfg (store r)"
  shows "\<exists>t b. run_loop x cfg defer s a = Inr (t, b) \<and> step_inv cfg rs store step defer bud 0 t b"
  using assms
proof (induction x cfg "defer" s a rule: run_loop.induct)
  case (1 x cfg d s a)
  show ?case
  proof (cases "req_index a < length (running s) \<and> 0 < token_budget a")
    case True
    from run_step_fine [OF "1.prems"(1) conjunct1 [OF True] "1.prems"(2-5)]
    obtain go t b where s: "run_step x cfg d s a = Inr (go, t, b)" "step_inv cfg rs store step d bud 0 t b"
      by (auto simp: step_fine_def split: sum.splits)
    show ?thesis
    proof (cases go)
      case True': True
      from "1.IH" [OF True s(1) refl _ refl s(2) "1.prems"(2-5)] True' s True show ?thesis
        by (simp add: run_loop.simps [of x cfg d s a])
    next
      case False
      with s True show ?thesis by (simp add: run_loop.simps [of x cfg d s a])
    qed
  next
    case False
    then have "run_loop x cfg d s a = Inr (s, a)"
      by (simp only: run_loop.simps [of x cfg d s a] if_not_P [OF False] if_False)
    with "1.prems"(1) show ?thesis by simp
  qed
qed

section \<open>The pass\<close>

text \<open>Whether this step can schedule decode work; with end drain, a held request cannot.\<close>

definition eligible_decode :: "sched_config \<Rightarrow> 'w sched \<Rightarrow> bool" where
  "eligible_decode cfg s =
     (let eligible = (\<lambda>r. \<not> is_prefill_chunk (requests s r) \<and>
                         next_decode_eligible_step (requests s r) \<le> current_step s);
          any = list_ex eligible (running s)
      in if end_drain cfg \<and> any
         then list_ex (\<lambda>r. eligible r \<and> \<not> would_hold cfg (requests s r)) (running s) else any)"

definition defers_prefills :: "sched_config \<Rightarrow> bool \<Rightarrow> 'w sched \<Rightarrow> bool" where
  "defers_prefills cfg throttle s \<longleftrightarrow>
     (throttle \<and> (\<not> prefill_capacity_bound s \<or> cadence_when_queued cfg)) \<and> eligible_decode cfg s"

definition start_step :: "'w externals \<Rightarrow> sched_config \<Rightarrow> bool \<Rightarrow> 'w sched \<Rightarrow> bool \<times> 'w sched" where
  "start_step x cfg throttle s =
     (let s1 = s\<lparr>current_step := current_step s + 1, world := step_starts x (world s)\<rparr>;
          defers = defers_prefills cfg throttle s1;
          s2 = (if defers \<and> prefill_capacity_bound s1 then count_override s1 else s1)
      in (defers, s2\<lparr>e27b_step_short_prefill := 0\<rparr>))"

definition start_acc :: "sched_config \<Rightarrow> int \<Rightarrow> int \<Rightarrow> bool \<Rightarrow> step_acc" where
  "start_acc cfg budget encoder paused =
     \<lparr>scheduled_running = [], preempted_reqs = [], req_to_new_blocks = [],
      num_scheduled_tokens = [], spec_decode_tokens = [], encoder_inputs = [],
      token_budget = (if paused then 0 else budget), input_budget = max_num_batched_tokens cfg,
      encoder_budget = encoder, req_index = 0, prefill_scheduled = False\<rparr>"

definition running_pass ::
  "'w externals \<Rightarrow> sched_config \<Rightarrow> int \<Rightarrow> bool \<Rightarrow> 'w sched \<Rightarrow> sched_error + ('w sched \<times> step_acc)" where
  "running_pass x cfg encoder throttle s =
     rbind (effective_token_budget (sched_config.max_num_scheduled_tokens cfg) (cap cfg)) (\<lambda>budget.
       let (defers, s1) = start_step x cfg throttle s
       in run_loop x cfg defers s1 (start_acc cfg budget encoder (paused_all s1)))"

text \<open>A state in which a step may start, and the laws of what it calls.\<close>

definition step_ready :: "'w externals \<Rightarrow> sched_config \<Rightarrow> 'w sched \<Rightarrow> bool" where
  "step_ready x cfg s \<longleftrightarrow>
     distinct (running s) \<and>
     (\<forall>r \<in> set (running s). status (requests s r) = IsRunning \<and> request_ok x cfg (requests s r)) \<and>
     window_law x \<and> 0 \<le> draft_slots cfg \<and> 0 < block_size cfg \<and> 0 \<le> max_num_batched_tokens cfg \<and>
     0 < sched_config.max_num_scheduled_tokens cfg \<and> 0 \<le> cap cfg"

definition pass_budget :: "sched_config \<Rightarrow> int" where
  "pass_budget cfg = (if cap cfg \<noteq> 0 then min (sched_config.max_num_scheduled_tokens cfg) (cap cfg)
                      else sched_config.max_num_scheduled_tokens cfg)"

lemma start_step_same:
  assumes "start_step x cfg throttle s = (d, s1)"
  shows "running s1 = running s" "requests s1 = requests s" "current_step s1 = current_step s + 1"
    "e27b_step_short_prefill s1 = 0" "paused_all s1 = paused_all s"
    "d = defers_prefills cfg throttle (s\<lparr>current_step := current_step s + 1\<rparr>)"
proof -
  have d: "defers_prefills cfg throttle (s\<lparr>current_step := k, world := w\<rparr>) =
      defers_prefills cfg throttle (s\<lparr>current_step := k\<rparr>)" for k w
    by (simp add: defers_prefills_def eligible_decode_def)
  have over: "count_override u = u\<lparr>e27c_latch_overrides := e27c_latch_overrides u + 1\<rparr>" for u :: "'a sched"
    by (simp add: count_override_def)
  show "d = defers_prefills cfg throttle (s\<lparr>current_step := current_step s + 1\<rparr>)"
    using assms by (simp add: start_step_def Let_def d)
  have s1: "s1 = (if d \<and> prefill_capacity_bound s
      then count_override (s\<lparr>current_step := current_step s + 1, world := step_starts x (world s)\<rparr>)
      else s\<lparr>current_step := current_step s + 1, world := step_starts x (world s)\<rparr>)\<lparr>e27b_step_short_prefill := 0\<rparr>"
    using assms by (auto simp: start_step_def Let_def)
  show "running s1 = running s" "requests s1 = requests s" "current_step s1 = current_step s + 1"
    "e27b_step_short_prefill s1 = 0" "paused_all s1 = paused_all s"
    by (simp_all add: s1 over)
qed

lemma start_inv:
  assumes "step_ready x cfg s" "start_step x cfg throttle s = (d, s1)"
  shows "step_inv cfg (set (running s)) (requests s) (current_step s + 1) d
      (if paused_all s then 0 else pass_budget cfg) 0 s1
      (start_acc cfg (pass_budget cfg) encoder (paused_all s1))"
proof -
  let ?bud = "if paused_all s then 0 else pass_budget cfg"
  let ?a = "start_acc cfg (pass_budget cfg) encoder (paused_all s1)"
  note same = start_step_same [OF assms(2)]
  have pos: "0 \<le> pass_budget cfg" using assms(1) by (simp add: step_ready_def pass_budget_def)
  have "lists_ok (set (running s)) s1 ?a"
    using assms(1) same(1) by (simp add: lists_ok_def start_acc_def step_ready_def)
  moreover have "store_ok (requests s) s1 ?a"
    using assms(1) same(1,2) by (simp add: store_ok_def start_acc_def step_ready_def)
  moreover have "step_budget_ok cfg ?bud ?a"
    using assms(1) same(5) pos by (simp add: step_budget_ok_def start_acc_def step_ready_def)
  moreover have "fit_ok cfg (requests s) (current_step s + 1) ?a" "short_ok cfg (requests s) d 0 s1 ?a"
    using same(4) by (simp_all add: fit_ok_def short_ok_def start_acc_def)
  ultimately show ?thesis
    using same(3) by (simp add: step_inv_def)
qed

text \<open>The pass returns, with the invariant of its loop.\<close>

lemma running_pass_inv:
  assumes "step_ready x cfg s"
  obtains t a bud d where "running_pass x cfg encoder throttle s = Inr (t, a)"
    and "bud = (if paused_all s then 0 else pass_budget cfg)"
    and "d = defers_prefills cfg throttle (s\<lparr>current_step := current_step s + 1\<rparr>)"
    and "step_inv cfg (set (running s)) (requests s) (current_step s + 1) d bud 0 t a"
proof -
  obtain d s1 where st: "start_step x cfg throttle s = (d, s1)" by fastforce
  have eff: "effective_token_budget (sched_config.max_num_scheduled_tokens cfg) (cap cfg) = Inr (pass_budget cfg)"
    using assms by (auto simp: step_ready_def effective_token_budget_def pass_budget_def)
  have laws: "window_law x" "0 \<le> draft_slots cfg" "0 < block_size cfg"
    "\<forall>r \<in> set (running s). request_ok x cfg (requests s r)"
    using assms by (simp_all add: step_ready_def)
  from run_loop_fine [OF start_inv [OF assms st, of encoder] laws]
  obtain t a where "run_loop x cfg d s1 (start_acc cfg (pass_budget cfg) encoder (paused_all s1)) = Inr (t, a)"
    "step_inv cfg (set (running s)) (requests s) (current_step s + 1) d
      (if paused_all s then 0 else pass_budget cfg) 0 t a" by blast
  then show ?thesis
    using that [OF _ refl start_step_same(6) [OF st]] eff st by (simp add: running_pass_def)
qed

section \<open>A sample step\<close>

definition sample_externals :: "nat externals" where
  "sample_externals =
     \<lparr>connector = None,
      allocate_slots = (\<lambda>r q n b w. if w = 0 then (0, None) else (w - 1, Some [int w])),
      kv_free = (\<lambda>r w. w + 1), pop_blocks_for_free = (\<lambda>r w. (w, [])), encoder_free = (\<lambda>r w. w),
      check_and_update_cache = (\<lambda>r i w. (w, False)), can_allocate = (\<lambda>r i b n w. True),
      encoder_allocate = (\<lambda>r i w. w), ec_after_alloc = (\<lambda>r i w. w), ec_has_item = (\<lambda>h w. False),
      mm_window = (\<lambda>fs a b. (0, length (takeWhile (\<lambda>f. mm_offset f < b) fs))),
      embeds_range = (\<lambda>f a b. (a, b)), prepend_request = (\<lambda>r rs. r # rs), step_starts = (\<lambda>w. w)\<rparr>"

text \<open>A long prefill of the lowest priority, a short one, and a decode, with one free block.\<close>

definition sample_sched :: "nat sched" where
  "sample_sched =
     \<lparr>running = [''a'', ''b'', ''d''], waiting = [],
      requests = (\<lambda>r. if r = ''a'' then sample_sreq 50000 0 9
                      else if r = ''b'' then sample_sreq 20500 20000 1
                      else (sample_sreq 100 100 1)\<lparr>num_tokens := 101, is_prefill_chunk := False\<rparr>),
      current_step = 0, paused_all = False, prefill_capacity_bound = True,
      e27b_step_short_prefill = 0, e27b_admitted = 0, e27c_latch_overrides = 0, e29_held_ids = [],
      e29_holds = 0, e29_resumes = 0, inflight_prefills = [], reset_preempted_req_ids = [],
      sched_step_seq = 0, processed_step_seq = 0, deferred_frees = [], world = 1\<rparr>"

lemma sample_ready: "step_ready sample_externals sample_sched_config sample_sched"
proof -
  have "window_law sample_externals"
    by (auto simp: window_law_def sample_externals_def length_takeWhile_le)
       (metis nth_mem set_takeWhileD takeWhile_nth)
  then show ?thesis
    by (simp add: step_ready_def sample_sched_def sample_sched_config_def sample_sreq_def
        request_ok_def publication_boundaries_def sample_externals_def)
qed

lemma sample_scheduled:
  "(case running_pass sample_externals sample_sched_config 0 True sample_sched of
      Inl e \<Rightarrow> None | Inr (t, a) \<Rightarrow> Some (num_scheduled_tokens a, preempted_reqs a, running t)) =
   Some ([(''b'', 480), (''d'', 1)], [''a''], [''b'', ''d''])"
  by code_simp

lemma sample_run:
  obtains t a where "running_pass sample_externals sample_sched_config 0 True sample_sched = Inr (t, a)"
    and "num_scheduled_tokens a = [(''b'', 480), (''d'', 1)]" "preempted_reqs a = [''a'']"
    and "running t = [''b'', ''d'']"
  using sample_scheduled by (auto split: sum.splits)

text \<open>
  C17. The pass over the running requests returns, whatever the cache manager answers and
  however many preemptions it takes, and the assertions that close \<open>schedule\<close> hold of it: the
  tokens it scheduled stay within the configured budget and within the step cap, the inputs
  with their draft slots stay within the batch limit, both remaining budgets are what was not
  spent (preempted requests are refunded in full) and not negative, and no more requests are
  scheduled than are running.
\<close>

theorem running_pass_within_budgets:
  assumes "step_ready x cfg s"
  shows "\<exists>t a. running_pass x cfg encoder throttle s = Inr (t, a) \<and>
    (\<Sum>(r, n)\<leftarrow>num_scheduled_tokens a. n) \<le> sched_config.max_num_scheduled_tokens cfg \<and>
    (cap cfg \<noteq> 0 \<longrightarrow> (\<Sum>(r, n)\<leftarrow>num_scheduled_tokens a. n) \<le> cap cfg) \<and>
    0 \<le> token_budget a \<and> 0 \<le> input_budget a \<and>
    token_budget a + (\<Sum>(r, n)\<leftarrow>num_scheduled_tokens a. n) =
      (if paused_all s then 0 else pass_budget cfg) \<and>
    input_budget a + (\<Sum>(r, n)\<leftarrow>num_scheduled_tokens a. n + draft_slots cfg) = max_num_batched_tokens cfg \<and>
    length (scheduled_running a) \<le> length (running t)"
proof -
  obtain t a bud d where p: "running_pass x cfg encoder throttle s = Inr (t, a)"
    "bud = (if paused_all s then 0 else pass_budget cfg)"
    "step_inv cfg (set (running s)) (requests s) (current_step s + 1) d bud 0 t a"
    by (rule running_pass_inv [OF assms])
  have pos: "0 \<le> pass_budget cfg" using assms by (simp add: step_ready_def pass_budget_def)
  have l: "lists_ok (set (running s)) t a" and b: "step_budget_ok cfg bud a"
    using p(3) by (simp_all add: step_inv_def)
  have "set (scheduled_running a) \<subseteq> set (running t)"
    using l set_take_subset by (fastforce simp: lists_ok_def)
  then have "length (scheduled_running a) \<le> length (running t)"
    using l by (metis lists_ok_def card_mono distinct_card finite_set)
  moreover have "(\<Sum>(r, n)\<leftarrow>num_scheduled_tokens a. n) \<le> pass_budget cfg"
    using b p(2) pos unfolding step_budget_ok_def by (auto split: if_splits)
  moreover have "pass_budget cfg \<le> sched_config.max_num_scheduled_tokens cfg"
    "cap cfg \<noteq> 0 \<longrightarrow> pass_budget cfg \<le> cap cfg" by (simp_all add: pass_budget_def)
  ultimately show ?thesis
    using p(1,2) b unfolding step_budget_ok_def by (intro exI [of _ t] exI [of _ a]) linarith
qed

theorem running_pass_within_budgets_witness:
  "\<exists>t a. running_pass sample_externals sample_sched_config 0 True sample_sched = Inr (t, a) \<and>
     (\<Sum>(r, n)\<leftarrow>num_scheduled_tokens a. n) \<le> 6912 \<and> length (scheduled_running a) \<le> length (running t)"
  using running_pass_within_budgets [OF sample_ready, of 0 True]
  by (auto simp: sample_sched_config_def)

text \<open>
  C20. What the pass schedules and preempts. The running list and the preempted requests split
  the requests that were running; every scheduled request is still running, gets at least one
  token and no more than it has left, stays below the model length with its sampled token, and
  passed every guard on its state before the step: it is neither certain to finish with the
  step in flight nor, under end drain, possibly finished by it.
\<close>

theorem running_pass_respects_guards:
  assumes "step_ready x cfg s" "running_pass x cfg encoder throttle s = Inr (t, a)"
  shows "set (running t) \<union> set (preempted_reqs a) = set (running s) \<and>
    set (running t) \<inter> set (preempted_reqs a) = {} \<and>
    map fst (num_scheduled_tokens a) = scheduled_running a \<and> distinct (scheduled_running a) \<and>
    (\<forall>(r, n) \<in> set (num_scheduled_tokens a). r \<in> set (running t) \<and>
       fits_step cfg (current_step s + 1) (requests s r) n)"
proof -
  obtain t' a' bud d where "running_pass x cfg encoder throttle s = Inr (t', a')"
    "step_inv cfg (set (running s)) (requests s) (current_step s + 1) d bud 0 t' a'"
    by (rule running_pass_inv [OF assms(1)])
  with assms(2) have "lists_ok (set (running s)) t a" "fit_ok cfg (requests s) (current_step s + 1) a"
    by (simp_all add: step_inv_def)
  moreover from this(1) have "r \<in> set (running t)" if h: "(r, n) \<in> set (num_scheduled_tokens a)" for r n
    using h image_eqI [of r fst "(r, n)"] set_take_subset [of "req_index a" "running t"]
    unfolding lists_ok_def by (metis fst_conv set_map subset_iff)
  ultimately show ?thesis by (auto simp: lists_ok_def fit_ok_def)
qed

theorem running_pass_respects_guards_witness:
  "\<exists>t a. running_pass sample_externals sample_sched_config 0 True sample_sched = Inr (t, a) \<and>
     preempted_reqs a = [''a''] \<and> set (running t) \<inter> set (preempted_reqs a) = {} \<and>
     fits_step sample_sched_config 1 (requests sample_sched ''b'') 480"
proof -
  obtain t a where run: "running_pass sample_externals sample_sched_config 0 True sample_sched = Inr (t, a)"
    "num_scheduled_tokens a = [(''b'', 480), (''d'', 1)]" "preempted_reqs a = [''a'']"
    by (rule sample_run)
  have "current_step sample_sched + 1 = 1" by (simp add: sample_sched_def)
  with running_pass_respects_guards [OF sample_ready run(1)] run show ?thesis by auto
qed

text \<open>
  C39. On a step that defers prefills, the running prefill chunks that are scheduled are short:
  their remaining work adds up to no more than the short-prefill limit, and without a limit
  no prefill chunk is scheduled at all.
\<close>

theorem deferred_pass_stays_short:
  assumes "step_ready x cfg s" "running_pass x cfg encoder throttle s = Inr (t, a)"
    and "defers_prefills cfg throttle (s\<lparr>current_step := current_step s + 1\<rparr>)"
  shows "(\<Sum>(r, n)\<leftarrow>num_scheduled_tokens a. chunk_work (requests s r)) \<le> max 0 (short_prefill cfg) \<and>
    (short_prefill cfg \<le> 0 \<longrightarrow>
       (\<forall>(r, n) \<in> set (num_scheduled_tokens a). \<not> is_prefill_chunk (requests s r)))"
proof -
  obtain t' a' bud d where "running_pass x cfg encoder throttle s = Inr (t', a')"
    "d = defers_prefills cfg throttle (s\<lparr>current_step := current_step s + 1\<rparr>)"
    "step_inv cfg (set (running s)) (requests s) (current_step s + 1) d bud 0 t' a'"
    by (rule running_pass_inv [OF assms(1)])
  with assms(2,3) have ok: "\<forall>(r, n) \<in> set (num_scheduled_tokens a). counted (requests s r)"
    "(\<Sum>(r, n)\<leftarrow>num_scheduled_tokens a. chunk_work (requests s r)) \<le> max 0 (short_prefill cfg)"
    by (auto simp: step_inv_def short_ok_def)
  have "\<not> is_prefill_chunk (requests s r)"
    if h: "short_prefill cfg \<le> 0" "(r, n) \<in> set (num_scheduled_tokens a)" for r n
  proof -
    have "chunk_work (requests s r) \<le> (\<Sum>(r, n)\<leftarrow>num_scheduled_tokens a. chunk_work (requests s r))"
      by (rule member_le_sum_list_int) (use ok(1) h(2) counted_nonneg in force)+
    then have "chunk_work (requests s r) \<le> 0" using ok(2) h(1) by simp
    then show ?thesis using ok(1) h(2) by (auto simp: counted_def)
  qed
  with ok(2) show ?thesis by auto
qed

theorem deferred_pass_stays_short_witness:
  "\<exists>t a. running_pass sample_externals sample_sched_config 0 True sample_sched = Inr (t, a) \<and>
     (\<Sum>(r, n)\<leftarrow>num_scheduled_tokens a. chunk_work (requests sample_sched r)) \<le> 1000"
proof -
  obtain t a where run: "running_pass sample_externals sample_sched_config 0 True sample_sched = Inr (t, a)"
    by (rule sample_run)
  have "defers_prefills sample_sched_config True (sample_sched\<lparr>current_step := current_step sample_sched + 1\<rparr>)"
    by code_simp
  from deferred_pass_stays_short [OF sample_ready run this] run show ?thesis
    by (auto simp: sample_sched_config_def)
qed

section \<open>After the step\<close>

text \<open>
  \<open>_update_after_schedule\<close>, without the snapshot of routed experts and the set of finished ids: a held request that was
  scheduled again is counted as resumed, and every scheduled request advances.
\<close>

fun resume_scheduled :: "string list \<Rightarrow> 'w sched \<Rightarrow> 'w sched" where
  "resume_scheduled [] s = s"
| "resume_scheduled (r # rs) s =
     resume_scheduled rs (if r \<in> set (e29_held_ids s) then count_resume r s else s)"

definition advanced_request :: "sched_config \<Rightarrow> int \<Rightarrow> int \<Rightarrow> sreq \<Rightarrow> sreq" where
  "advanced_request cfg sequence n q =
     (let q1 = q\<lparr>num_computed_tokens := num_computed_tokens q + n,
                 num_in_flight_tokens := num_in_flight_tokens q + n\<rparr>;
          q2 = (if defer_block_free cfg then q1\<lparr>last_sched_seq := sequence\<rparr> else q1)
      in q2\<lparr>is_prefill_chunk := num_computed_tokens q2 < num_tokens q2 + num_output_placeholders q2\<rparr>)"

fun advance_each ::
  "sched_config \<Rightarrow> (string \<times> int) list \<Rightarrow> 'w sched \<Rightarrow> bool \<Rightarrow> 'w sched \<times> bool" where
  "advance_each cfg [] s structured = (s, structured)"
| "advance_each cfg ((r, n) # items) s structured =
     (let q = advanced_request cfg (sched_step_seq s) n (requests s r);
          s1 = s\<lparr>requests := (requests s)(r := q),
                 inflight_prefills := (if is_prefill_chunk q then inflight_prefills s
                                       else removeAll r (inflight_prefills s))\<rparr>
      in advance_each cfg items s1 (structured \<or> use_structured_output q \<and> \<not> is_prefill_chunk q))"

definition advance_scheduled ::
  "sched_config \<Rightarrow> (string \<times> int) list \<Rightarrow> 'w sched \<Rightarrow> 'w sched \<times> bool" where
  "advance_scheduled cfg items s =
     (let (s1, structured) = advance_each cfg items
            (if e29_held_ids s \<noteq> [] then resume_scheduled (map fst items) s else s) False
      in (s1\<lparr>reset_preempted_req_ids := []\<rparr>, structured))"

lemma resume_scheduled_held:
  "set (e29_held_ids (resume_scheduled rs s)) = set (e29_held_ids s) - set rs \<and>
   requests (resume_scheduled rs s) = requests s"
  by (induction rs arbitrary: s) (auto simp: count_resume_def)

lemma advance_each_held: "e29_held_ids (fst (advance_each cfg items s b)) = e29_held_ids s"
  by (induction cfg items s b rule: advance_each.induct) (simp_all add: Let_def)

lemma advance_each_requests:
  "distinct (map fst items) \<Longrightarrow> requests (fst (advance_each cfg items s b)) r =
     (case map_of items r of None \<Rightarrow> requests s r
      | Some n \<Rightarrow> advanced_request cfg (sched_step_seq s) n (requests s r))"
proof (induction cfg items s b rule: advance_each.induct)
  case (2 cfg t n items s b)
  then have "map_of items t = None" by (simp add: map_of_eq_None_iff)
  with 2 show ?case by (auto simp: Let_def split: option.splits)
qed simp

text \<open>
  After the step no scheduled request counts as held, and a scheduled request is still below
  the model length.
\<close>

lemma advance_releases:
  "set (e29_held_ids (fst (advance_scheduled cfg items s))) = set (e29_held_ids s) - fst ` set items"
proof (cases "e29_held_ids s = []")
  case True
  with advance_each_held [of cfg items s False] show ?thesis
    by (simp add: advance_scheduled_def split_beta)
next
  case False
  with advance_each_held [of cfg items "resume_scheduled (map fst items) s" False]
    resume_scheduled_held [of "map fst items" s] show ?thesis
    by (simp add: advance_scheduled_def split_beta)
qed

lemma advance_below_limit:
  assumes "distinct (map fst items)" "(r, n) \<in> set items" "fits_step cfg step (requests s r) n"
  shows "num_computed_tokens (requests (fst (advance_scheduled cfg items s)) r) +
         num_sampled_tokens_per_step cfg \<le> max_model_len cfg"
proof -
  have each: "requests (fst (advance_each cfg items u False)) r = advanced_request cfg (sched_step_seq u) n (requests u r)"
    for u using advance_each_requests [OF assms(1), of cfg u False r] assms(1,2) by simp
  have "\<exists>k. requests (fst (advance_scheduled cfg items s)) r = advanced_request cfg k n (requests s r)"
    using resume_scheduled_held [of "map fst items" s]
    by (cases "e29_held_ids s = []") (auto simp: advance_scheduled_def split_beta each)
  then show ?thesis using assms(3) by (auto simp: advanced_request_def Let_def fits_step_def)
qed

end
