(* ===== verification/Spec2Isabelle.thy ===== *)
theory Spec2Isabelle
  imports Prelude Buckets PyText Pool PyJson MemBudget AdaptiveK AdaptiveSched HybridCodec HybridProps HybridSample AsyncSem Admission AdmissionProps AdmissionBody
    OsIO StreamIO StreamStore StreamSpool StreamReader StreamPublish StreamRestore StreamSample FreeQueue KVSpec BlockHash KVLayout KVGroups KVWell KVPlan KVSample KVMemory KVCover HashProps HashLimits KVPlacement KVAllocation KVPlanProps KVTypes SchedSplit SchedRun SchedPass
begin

text \<open>
  A verification development for the serving stack of a language model on four switchless
  DGX Spark nodes: the vLLM overrides and experiments under \<open>scripts/\<close>, and the KV-cache
  store they use under \<open>third_party/sparkcache/\<close>.

  \<^bold>\<open>The program.\<close> Clients reach the server through the admission middleware
  (\<open>scripts/node/experiments/e03/bounded-admission/middleware.py\<close>), which bounds how many
  requests run and wait and how much of a body is kept. The scheduler hands out the tokens of a
  step to the running requests (\<open>.../prefill-step-cap/scheduler.py\<close>) and sizes the speculative
  drafts of each request (\<open>.../e35-runner-k/adaptive_k_scheduler.py\<close>). At start-up the engine groups
  the layers of the model, plans the KV cache of every worker and places its tensors
  (\<open>scripts/node/overrides/vllm/v1/kv_cache_interface.py\<close>, \<open>.../v1/core/kv_cache_utils.py\<close>); while it
  serves, it takes blocks from a free queue and finds them again by the hash of their prefix
  (the same file). Pages
  of a finished prefix are saved as snapshots: captured within a host-memory budget
  (\<open>spark_context_cache_memory_budget.py\<close>), encoded by the page codec
  (\<open>spark_context_cache_hybrid.py\<close>), spooled to disk and published as immutable objects, and
  read back when the prefix comes again (\<open>.../sparkcache-ram-budget/stream_io.py\<close>).

  \<^bold>\<open>Theories.\<close>
  \<^item> \<open>Prelude\<close>: error sums and their combinators, list slices, association lists (and \<open>Buckets\<close>). \<open>PyText\<close>:
    Python's \<open>str\<close>, \<open>int()\<close> and \<open>float()\<close>. \<open>PyJson\<close>: \<open>json.dumps\<close> with sorted keys and
    \<open>json.loads\<close>, with the round trip the codec rests on. \<open>OsIO\<close>: actions over a world of files
    and descriptors whose system calls may fail or transfer less than asked.
  \<^item> \<open>Pool\<close>, \<open>MemBudget\<close>: the interface of a byte budget (locale \<open>reservation_pool\<close>) and
    \<open>MemoryBudget\<close>/\<open>MemoryReservation\<close>, which implement it. Lemmas: accounting over every
    interleaving of calls, each reservation refunded once.
  \<^item> \<open>AdaptiveK\<close>, \<open>AdaptiveSched\<close>: the draft-length policy and the scheduler class around it.
    Lemmas: averages and lengths stay in bounds, hysteresis, convergence to the observed
    acceptance, the placeholders written, the fallback to the base class.
  \<^item> \<open>SchedSplit\<close>, \<open>SchedRun\<close>, \<open>SchedPass\<close>: the repository's switches in the vLLM scheduler, the split of
    prefill chunks, and the first half of \<open>schedule\<close>: the loop over the running requests with
    preemption. vLLM's managers and connectors are the record \<open>externals\<close>. Lemmas: where chunks end
    and that they are not empty, the pass returns within its budgets, its guards hold, deferred
    steps admit short prefills only.
  \<^item> \<open>HybridCodec\<close>, \<open>HybridProps\<close>, \<open>HybridSample\<close>: layouts, snapshot and delta encoding, planning,
    decoding, applying and materializing. Lemmas: round trips of snapshots and deltas, equality of
    the two ways to a result, exact tiling, digests checked on every path. The digest SHA-256 is a
    parameter; no property of it is used but that it is a function.
  \<^item> \<open>AsyncSem\<close>, \<open>Admission\<close>, \<open>AdmissionProps\<close>, \<open>AdmissionBody\<close>: \<open>asyncio.Semaphore\<close> (locale \<open>slots\<close>), the middleware as a
    state machine with one step for every stretch of code between two suspensions, and its
    invariants over the reachable states: bounded counters, no slot lost, first come first
    served, bodies bounded, and, over whole runs, what the application is given of the messages
    received.
  \<^item> \<open>StreamIO\<close> to \<open>StreamSample\<close>: the disk spool, publication, the reader and the store. Lemmas: what
    is appended is what is read, what is restored hashes to what the manifest says, existing
    objects never change, descriptors are returned on every outcome, the loops end when no
    call fails.
  \<^item> \<open>FreeQueue\<close>: the free-block queue as pointer assignments over shared block objects, the
    list it represents (\<open>queue_of\<close>), and its client through the locale \<open>free_list\<close>: free and held
    blocks always partition the pool.
  \<^item> \<open>KVSpec\<close>, \<open>KVTypes\<close>: the specifications of \<open>kv_cache_interface.py\<close>, one constructor per class, with
    page sizes, memory of a request, uniformity and merging. Lemmas: a merged specification has the
    class of its first layer and the pages of each.
  \<^item> \<open>BlockHash\<close>, \<open>HashProps\<close>, \<open>HashLimits\<close>: the keys and the chained hashes of blocks. Lemmas: without
    collisions a hash identifies tokens and keys of the whole prefix, hashing in steps is hashing
    at once, the coarse view; and three limits of the code.
  \<^item> \<open>KVGroups\<close>, \<open>KVCover\<close>: \<open>get_kv_cache_groups\<close> and all it calls. Lemmas: no step gives a layer to
    two groups or invents one.
  \<^item> \<open>KVLayout\<close>, \<open>KVPlacement\<close>, \<open>KVAllocation\<close>: strides, views and
    \<open>get_kv_cache_config_from_groups\<close>. Lemmas: the pages of a group lie apart in their allocation, the
    allocations fit.
  \<^item> \<open>KVPlan\<close>, \<open>KVMemory\<close>, \<open>KVPlanProps\<close>: the search for the longest length, the checks and
    \<open>get_kv_cache_configs\<close>. Lemmas: the search returns the greatest length that fits, the workers
    agree on the number of blocks, their plans fit, cover and place their layers and hold a
    request. The locale \<open>length_need\<close> is what the search relies on; layers, lists of layers and
    groups provide it.
    \<open>KVWell\<close> says which layers and groups the statements are about, \<open>KVSample\<close> is a small model.

  \<^bold>\<open>Correspondence.\<close> Python integers are \<open>int\<close> (or \<open>nat\<close> where the code cannot see a negative one),
  floats are rationals without rounding, \<open>str\<close> is a HOL string of code points below 256, JSON
  text is a list of code points, \<open>bytes\<close> is a list of 8-bit words, dictionaries are association
  lists in insertion order, exceptions are the left values of a sum. Type tests of
  dynamically typed arguments are modelled where a caller can pass such a value (parsed JSON,
  the peak of a reservation) and are the HOL types elsewhere.

  \<^bold>\<open>Bounds.\<close> Recursions are structural or have a measure. The walks along the free queue and the
  scanner loops, which have no measure, are partial functions whose value is shown to exist
  on every state the operations build. No fuel is used. The only loop of the code that can fail to
  end, block hashing with the block size 0, is an error value of the model (\<open>Loops\<close>).

  \<^bold>\<open>Assumptions on other code.\<close> \<open>cdiv\<close> and \<open>round_up\<close> of vLLM round up (\<open>lib_ok\<close>), block hashes do not
  collide (\<open>good_hash\<close>), the layouts have the layer and the block axis outermost (\<open>page_layout\<close>),
  \<open>get_mm_features_in_window\<close> returns features that start before the end of the window (\<open>window_law\<close>).

  \<^bold>\<open>Not modelled.\<close> GPU kernels and tensor code, the engine's own scheduling beyond what is listed (the pass over
  the waiting requests and the processing of outputs),
  shell scripts, campaign tools that drive remote machines, reports and plots, log lines, and
  the manifest library of the store, which is not part of the repository (record
  \<open>manifest_lib\<close>).
\<close>

end
